(* ===== verification/Prelude.thy ===== *)
theory Prelude
  imports Main "HOL-Library.Word" "HOL-Library.Monad_Syntax"
begin

text \<open>
  The prelude of the development: machine integers of the ILP32 target (the only
  architecture header of the repository, \<^verbatim>\<open>cpu/cortexm/asm/hash.h\<close>, selects a
  32-bit \<^verbatim>\<open>long\<close>), the \<^verbatim>\<open>errno\<close> values the sources return, the C memory
  primitives (\<^verbatim>\<open>memcpy\<close>, bounded reads) as list operations that fail on an
  access out of bounds, and the lemmas about lists, words and modular arithmetic
  that several components share.
\<close>

unbundle bit_operations_syntax

section \<open>Machine integers\<close>

type_synonym u8 = "8 word"
type_synonym u16 = "16 word"
type_synonym u32 = "32 word"
type_synonym u64 = "64 word"

text \<open>Facts that turn bit tricks into arithmetic.\<close>
named_theorems bit_arith

text \<open>Facts that remove the wrap-around where a bound is known.\<close>
named_theorems no_wrap

definition wrap32 :: "nat \<Rightarrow> nat" where
  "wrap32 n = n mod 2 ^ 32"

lemma wrap32_id [no_wrap]: "n < 2 ^ 32 \<Longrightarrow> wrap32 n = n"
  by (simp add: wrap32_def)

lemma wrap32_less [simp]: "wrap32 n < 2 ^ 32"
  by (simp add: wrap32_def)

lemma unat_and_mask [bit_arith]:
  "unat (x AND mask k :: 'a::len word) = unat x mod 2 ^ k"
  by (simp only: take_bit_eq_mask [symmetric] unsigned_take_bit_eq take_bit_nat_def)

lemma unat_exp_word [bit_arith]:
  "k < LENGTH('a) \<Longrightarrow> unat (2 ^ k :: 'a::len word) = 2 ^ k"
proof -
  assume "k < LENGTH('a)"
  moreover have "(2 ^ k :: 'a word) = of_nat (2 ^ k)" by simp
  ultimately show ?thesis
    by (simp only: unsigned_of_nat) (simp add: take_bit_nat_eq_self)
qed

lemma unat_mask_word [bit_arith]:
  "k \<le> LENGTH('a) \<Longrightarrow> unat (mask k :: 'a::len word) = 2 ^ k - 1"
proof -
  assume "k \<le> LENGTH('a)"
  then have "uint (mask k :: 'a word) = mask k"
    by (simp only: uint_mask_eq min_absorb2)
  moreover have "(mask k :: int) = 2 ^ k - 1"
    by (rule mask_eq_exp_minus_1)
  ultimately have "unat (mask k :: 'a word) = nat (2 ^ k - 1)"
    by (simp only: unat_eq_nat_uint)
  then show ?thesis
    by (simp add: nat_diff_distrib nat_power_eq)
qed

lemma unat_mask_plus_1 [bit_arith]:
  "k < LENGTH('a) \<Longrightarrow> unat (mask k + 1 :: 'a::len word) = 2 ^ k"
  by (simp add: mask_eq_exp_minus_1 unat_exp_word)

lemma unat_add_nowrap [no_wrap]:
  "unat (a :: 'a::len word) + unat b < 2 ^ LENGTH('a) \<Longrightarrow> unat (a + b) = unat a + unat b"
  by (simp add: unat_word_ariths)

lemma unat_mult_nowrap [no_wrap]:
  "unat (a :: 'a::len word) * unat b < 2 ^ LENGTH('a) \<Longrightarrow> unat (a * b) = unat a * unat b"
  by (simp add: unat_word_ariths)

lemma unat_min [simp]: "unat (min a b :: 'a::len word) = min (unat a) (unat b)"
  by (simp add: min_def word_le_nat_alt)

text \<open>Counters that wrap at a multiple of \<open>n\<close> still agree with the unwrapped sum modulo \<open>n\<close>.\<close>

lemma mod_of_wrapped_sum:
  fixes a b n w :: nat
  assumes "n dvd w"
  shows "(a + b) mod w mod n = (a mod n + b) mod n"
  using assms by (simp add: mod_mod_cancel mod_add_left_eq)

section \<open>Error numbers\<close>

definition EIO :: int where "EIO = 5"
definition EBADF :: int where "EBADF = 9"
definition ENOMEM :: int where "ENOMEM = 12"
definition EFAULT :: int where "EFAULT = 14"
definition EBUSY :: int where "EBUSY = 16"
definition EEXIST :: int where "EEXIST = 17"
definition ENODEV :: int where "ENODEV = 19"
definition EINVAL :: int where "EINVAL = 22"
definition ENODATA :: int where "ENODATA = 61"

lemmas errno_defs = EIO_def EBADF_def ENOMEM_def EFAULT_def EBUSY_def EEXIST_def
  ENODEV_def EINVAL_def ENODATA_def

section \<open>Memory as lists\<close>

text \<open>
  A C object is the list of its bytes. An access that leaves the object is undefined
  behaviour, so both primitives return \<^const>\<open>None\<close> there: a theorem whose conclusion is
  \<open>Some\<close> of something includes the memory safety of the operation.
\<close>

definition mem_read :: "'a list \<Rightarrow> nat \<Rightarrow> nat \<Rightarrow> 'a list option" where
  "mem_read m off n = (if off + n \<le> length m then Some (take n (drop off m)) else None)"

definition mem_write :: "'a list \<Rightarrow> nat \<Rightarrow> 'a list \<Rightarrow> 'a list option" where
  "mem_write m off bs =
     (if off + length bs \<le> length m
      then Some (take off m @ bs @ drop (off + length bs) m) else None)"

text \<open>The specification both primitives are used with: overwriting a slice of a list.\<close>

definition overwrite :: "'a list \<Rightarrow> nat \<Rightarrow> 'a list \<Rightarrow> 'a list" where
  "overwrite m off bs = take off m @ bs @ drop (off + length bs) m"

lemma mem_write_overwrite [simp]:
  "off + length bs \<le> length m \<Longrightarrow> mem_write m off bs = Some (overwrite m off bs)"
  by (simp add: mem_write_def overwrite_def)

lemma mem_write_Some_iff:
  "mem_write m off bs = Some m' \<longleftrightarrow> off + length bs \<le> length m \<and> m' = overwrite m off bs"
  by (auto simp: mem_write_def overwrite_def)

lemma mem_read_take_drop [simp]:
  "off + n \<le> length m \<Longrightarrow> mem_read m off n = Some (take n (drop off m))"
  by (simp add: mem_read_def)

lemma mem_read_Some_iff:
  "mem_read m off n = Some bs \<longleftrightarrow> off + n \<le> length m \<and> bs = take n (drop off m)"
  by (auto simp: mem_read_def)

lemma length_overwrite [simp]:
  "off + length bs \<le> length m \<Longrightarrow> length (overwrite m off bs) = length m"
  by (simp add: overwrite_def)

lemma overwrite_Nil [simp]: "overwrite m off [] = m"
  by (simp add: overwrite_def)

lemma nth_overwrite:
  assumes "off + length bs \<le> length m" "i < length m"
  shows "overwrite m off bs ! i =
    (if off \<le> i \<and> i < off + length bs then bs ! (i - off) else m ! i)"
  using assms by (auto simp: overwrite_def nth_append min_def)

text \<open>Two writes, the second right after the first, are one write.\<close>

lemma overwrite_append:
  assumes "off + length bs + length cs \<le> length m"
  shows "overwrite (overwrite m off bs) (off + length bs) cs = overwrite m off (bs @ cs)"
  by (rule nth_equalityI) (use assms in \<open>auto simp: nth_overwrite nth_append\<close>)

text \<open>Writing inside a slice commutes with cutting the slice out.\<close>

lemma take_drop_overwrite_inside:
  assumes "a \<le> off" "off + length bs \<le> a + n" "a + n \<le> length m"
  shows "take n (drop a (overwrite m off bs)) = overwrite (take n (drop a m)) (off - a) bs"
  by (rule nth_equalityI) (use assms in \<open>auto simp: nth_overwrite add.commute\<close>)

lemma take_drop_overwrite_outside:
  assumes "a + n \<le> off \<or> off + length bs \<le> a" "off + length bs \<le> length m"
  shows "take n (drop a (overwrite m off bs)) = take n (drop a m)"
  by (rule nth_equalityI) (use assms in \<open>auto simp: nth_overwrite\<close>)

lemma take_drop_overwrite_same:
  "off + length bs \<le> length m \<Longrightarrow> take (length bs) (drop off (overwrite m off bs)) = bs"
  by (rule nth_equalityI) (auto simp: nth_overwrite)

lemma overwrite_overwrite_same:
  "off + length cs \<le> length m \<Longrightarrow> length bs = length cs \<Longrightarrow>
     overwrite (overwrite m off bs) off cs = overwrite m off cs"
  by (rule nth_equalityI) (auto simp: nth_overwrite)

lemma unat_u32_less: "unat (w :: u32) < 4294967296"
  by (rule order_less_le_trans [OF unsigned_less]) simp

lemma bit_bounded_word:
  "n < 2 ^ k \<Longrightarrow> bit n i \<Longrightarrow> i < k" for n :: "'a::len word"
  by (metis bit_take_bit_iff less_mask_eq take_bit_eq_mask)

lemma unat_bits_bound:
  assumes "\<And>j. k \<le> j \<Longrightarrow> \<not> bit (w :: 'a::len word) j"
  shows "unat w < 2 ^ k"
proof -
  have "take_bit k w = w" by (rule bit_word_eqI) (use assms linorder_not_le in \<open>auto simp: bit_take_bit_iff\<close>)
  then have "unat w = take_bit k (unat w)" by (metis unsigned_take_bit_eq)
  then show ?thesis by (metis take_bit_nat_less_exp)
qed

lemma xor_cancel: "(a :: 'a::len word) XOR c = b XOR c \<longleftrightarrow> a = b" "c XOR a = c XOR b \<longleftrightarrow> a = b"
  by (metis xor.assoc xor_self_eq xor.right_neutral, metis xor.assoc xor_self_eq xor.left_neutral)

section \<open>32-bit values in memory\<close>

text \<open>The target is little-endian.\<close>

definition le32 :: "nat \<Rightarrow> u8 list" where
  "le32 n = [of_nat n, of_nat (n div 256), of_nat (n div 65536), of_nat (n div 16777216)]"

definition de32 :: "u8 list \<Rightarrow> nat" where
  "de32 bs = (case bs of
     [a, b, c, d] \<Rightarrow> unat a + 256 * unat b + 65536 * unat c + 16777216 * unat d
   | _ \<Rightarrow> 0)"

lemma length_le32 [simp]: "length (le32 n) = 4"
  by (simp add: le32_def)

lemma unat_of_nat_u8: "unat (of_nat n :: u8) = n mod 256"
  by (simp add: unat_of_nat)

lemma de32_le32 [simp]: "n < 2 ^ 32 \<Longrightarrow> de32 (le32 n) = n"
proof -
  assume "n < 2 ^ 32"
  then have "n div 16777216 < 256" by simp
  moreover have "n = n mod 256 + 256 * (n div 256 mod 256) + 65536 * (n div 65536 mod 256) + 16777216 * (n div 16777216)"
  proof -
    have "n = n div 256 * 256 + n mod 256" "n div 256 = n div 65536 * 256 + n div 256 mod 256"
      "n div 65536 = n div 16777216 * 256 + n div 65536 mod 256"
      using div_mult_mod_eq [of n 256] div_mult_mod_eq [of "n div 256" 256] div_mult_mod_eq [of "n div 65536" 256]
      by (simp_all add: div_mult2_eq [symmetric])
    then show ?thesis by linarith
  qed
  ultimately show ?thesis by (simp add: de32_def le32_def unat_of_nat_u8)
qed

lemma de32_less: "de32 bs < 2 ^ 32"
proof -
  have b: "unat (x :: u8) < 256" for x by (rule order_less_le_trans [OF unsigned_less]) simp
  have "unat a + 256 * unat b' + 65536 * unat c + 16777216 * unat d < 2 ^ 32" for a b' c d :: u8
    using b [of a] b [of b'] b [of c] b [of d] by simp
  then show ?thesis by (auto simp: de32_def split: list.splits)
qed

text \<open>The words of a memory image, and a list of words as memory.\<close>

definition words32 :: "nat \<Rightarrow> u8 list \<Rightarrow> nat list" where
  "words32 n bs = map (\<lambda>i. de32 (take 4 (drop (4 * i) bs))) [0..<n]"

lemma words32_concat:
  assumes "\<forall>w \<in> set ws. w < 2 ^ 32"
  shows "words32 (length ws) (concat (map le32 ws)) = ws"
proof -
  have "take 4 (drop (4 * i) (concat (map le32 ws))) = le32 (ws ! i)" if "i < length ws" for i
    using that
  proof (induction ws arbitrary: i)
    case (Cons w ws)
    then show ?case by (cases i) simp_all
  qed simp
  with assms show ?thesis by (intro nth_equalityI) (simp_all add: words32_def)
qed

lemma length_concat_le32 [simp]: "length (concat (map le32 ws)) = 4 * length ws"
  by (induction ws) simp_all

end
