(* ===== verification/Bitops.thy ===== *)
theory Bitops
  imports Prelude
begin

text \<open>
  \<^verbatim>\<open>basework/bitops.h\<close>, \<^verbatim>\<open>basework/lib/bitops.c\<close> and the power-of-two macros of
  \<^verbatim>\<open>basework/generic.h\<close> and \<^verbatim>\<open>basework/kfifo.c\<close>. A bitmap is the list of its
  32-bit words; reading past its end gives \<^const>\<open>None\<close>.
\<close>

section \<open>Single words\<close>

text \<open>The compiler's \<open>ffs\<close> and the macro \<open>fls\<close>: one plus the lowest or highest set bit, 0 for 0.\<close>

definition ffs :: "'a::len word \<Rightarrow> nat" where
  "ffs x = (case find (bit x) [0..<LENGTH('a)] of None \<Rightarrow> 0 | Some i \<Rightarrow> Suc i)"

definition fls :: "'a::len word \<Rightarrow> nat" where
  "fls x = (case find (bit x) (rev [0..<LENGTH('a)]) of None \<Rightarrow> 0 | Some i \<Rightarrow> Suc i)"

definition ffsl_idx :: "u32 \<Rightarrow> int" where
  "ffsl_idx x = int (ffs x) - 1"

definition flsl_idx :: "u32 \<Rightarrow> int" where
  "flsl_idx x = int (fls x) - 1"

definition powerof2 :: "u32 \<Rightarrow> bool" where
  "powerof2 x \<longleftrightarrow> (x - 1) AND x = 0"

definition roundup_pow_of_two :: "u32 \<Rightarrow> u32" where
  "roundup_pow_of_two n = push_bit (fls (n - 1)) 1"

definition rounddown_pow_of_two :: "u32 \<Rightarrow> u32" where
  "rounddown_pow_of_two n = push_bit (fls n - 1) 1"

definition BITS_PER_LONG :: nat where
  "BITS_PER_LONG = 32"

definition BITMAP_LAST_WORD_MASK :: "nat \<Rightarrow> u32" where
  "BITMAP_LAST_WORD_MASK n = drop_bit (BITS_PER_LONG - n) (NOT 0)"

section \<open>The bitmap searches\<close>

fun find_first_bit_loop :: "u32 list \<Rightarrow> nat \<Rightarrow> int \<Rightarrow> int option" where
  "find_first_bit_loop addr sz b =
     (if sz \<ge> BITS_PER_LONG then
        (case addr of [] \<Rightarrow> None
         | w # ws \<Rightarrow>
             if w = 0 then find_first_bit_loop ws (sz - BITS_PER_LONG) (b + int BITS_PER_LONG)
             else Some (b + ffsl_idx w))
      else if sz \<noteq> 0 then
        (case addr of [] \<Rightarrow> None
         | w # _ \<Rightarrow>
             let m = w AND BITMAP_LAST_WORD_MASK sz in
             if m \<noteq> 0 then Some (b + ffsl_idx m) else Some (b + int sz))
      else Some b)"

definition find_first_bit :: "u32 list \<Rightarrow> nat \<Rightarrow> int option" where
  "find_first_bit addr sz = find_first_bit_loop addr sz 0"

fun find_first_zero_bit_loop :: "u32 list \<Rightarrow> nat \<Rightarrow> int \<Rightarrow> int option" where
  "find_first_zero_bit_loop addr sz b =
     (if sz \<ge> BITS_PER_LONG then
        (case addr of [] \<Rightarrow> None
         | w # ws \<Rightarrow>
             if NOT w = 0
             then find_first_zero_bit_loop ws (sz - BITS_PER_LONG) (b + int BITS_PER_LONG)
             else Some (b + ffsl_idx (NOT w)))
      else if sz \<noteq> 0 then
        (case addr of [] \<Rightarrow> None
         | w # _ \<Rightarrow>
             let m = NOT w AND BITMAP_LAST_WORD_MASK sz in
             if m \<noteq> 0 then Some (b + ffsl_idx m) else Some (b + int sz))
      else Some b)"

definition find_first_zero_bit :: "u32 list \<Rightarrow> nat \<Rightarrow> int option" where
  "find_first_zero_bit addr sz = find_first_zero_bit_loop addr sz 0"

text \<open>
  \<^verbatim>\<open>find_last_bit\<close>: the loop \<^verbatim>\<open>while (--pos)\<close> tests the decremented position, reads the
  word below and, on a hit, computes the result from the local \<open>mask\<close>, which is the value
  of the last partial word, or uninitialised (\<^const>\<open>None\<close>) when the size has no partial word.
  A negative position reads before the bitmap.
\<close>

fun find_last_bit_loop :: "u32 list \<Rightarrow> u32 option \<Rightarrow> nat \<Rightarrow> int \<Rightarrow> nat \<Rightarrow> int option" where
  "find_last_bit_loop addr m 0 b sz = None"
| "find_last_bit_loop addr m (Suc pos) b sz =
     (if pos = 0 then Some (int sz)
      else if addr ! pos \<noteq> 0
      then map_option (\<lambda>v. b - int BITS_PER_LONG + flsl_idx v) m
      else find_last_bit_loop addr m pos (b - int BITS_PER_LONG) sz)"

definition find_last_bit :: "u32 list \<Rightarrow> nat \<Rightarrow> int option" where
  "find_last_bit addr sz =
     (let pos = sz div BITS_PER_LONG; offs = sz mod BITS_PER_LONG;
          b = int (BITS_PER_LONG * pos) in
      if length addr * BITS_PER_LONG < sz then None
      else if offs \<noteq> 0 then
        (let m = addr ! pos AND BITMAP_LAST_WORD_MASK offs in
         if m \<noteq> 0 then Some (b + flsl_idx m)
         else find_last_bit_loop addr (Some m) pos b sz)
      else find_last_bit_loop addr None pos b sz)"

definition find_next_bit :: "u32 list \<Rightarrow> nat \<Rightarrow> nat \<Rightarrow> int option" where
  "find_next_bit addr sz offset =
     (if offset \<ge> sz then Some (int sz)
      else
        let pos = offset div BITS_PER_LONG; offs = offset mod BITS_PER_LONG;
            b = BITS_PER_LONG * pos; ws = drop pos addr in
        if offs \<noteq> 0 then
          (case ws of [] \<Rightarrow> None
           | w # ws' \<Rightarrow>
               let m = w AND NOT (BITMAP_LAST_WORD_MASK offs) in
               if m \<noteq> 0 then Some (int b + ffsl_idx m)
               else if sz - b \<le> BITS_PER_LONG then Some (int sz)
               else find_first_bit_loop ws' (sz - (b + BITS_PER_LONG))
                      (int (b + BITS_PER_LONG)))
        else find_first_bit_loop ws (sz - b) (int b))"

definition find_next_zero_bit :: "u32 list \<Rightarrow> nat \<Rightarrow> nat \<Rightarrow> int option" where
  "find_next_zero_bit addr sz offset =
     (if offset \<ge> sz then Some (int sz)
      else
        let pos = offset div BITS_PER_LONG; offs = offset mod BITS_PER_LONG;
            b = BITS_PER_LONG * pos; ws = drop pos addr in
        if offs \<noteq> 0 then
          (case ws of [] \<Rightarrow> None
           | w # ws' \<Rightarrow>
               let m = NOT w AND NOT (BITMAP_LAST_WORD_MASK offs) in
               if m \<noteq> 0 then Some (int b + ffsl_idx m)
               else if sz - b \<le> BITS_PER_LONG then Some (int sz)
               else find_first_zero_bit_loop ws' (sz - (b + BITS_PER_LONG))
                      (int (b + BITS_PER_LONG)))
        else find_first_zero_bit_loop ws (sz - b) (int b))"

section \<open>Reference definitions\<close>

text \<open>The first index of \<open>[lo, hi)\<close> where a predicate holds, \<open>hi\<close> when there is none.\<close>

definition first_index :: "(nat \<Rightarrow> bool) \<Rightarrow> nat \<Rightarrow> nat \<Rightarrow> nat" where
  "first_index P lo hi = (case find P [lo..<hi] of None \<Rightarrow> hi | Some i \<Rightarrow> i)"

definition bm_bit :: "u32 list \<Rightarrow> nat \<Rightarrow> bool" where
  "bm_bit addr i \<longleftrightarrow> bit (addr ! (i div BITS_PER_LONG)) (i mod BITS_PER_LONG)"

lemma first_index_step:
  "lo < hi \<Longrightarrow> first_index P lo hi = (if P lo then lo else first_index P (Suc lo) hi)"
  by (simp add: first_index_def upt_conv_Cons)

lemma first_index_props:
  "lo \<le> hi \<Longrightarrow> lo \<le> first_index P lo hi \<and> first_index P lo hi \<le> hi \<and>
     (\<forall>j. lo \<le> j \<and> j < first_index P lo hi \<longrightarrow> \<not> P j) \<and>
     (first_index P lo hi < hi \<longrightarrow> P (first_index P lo hi))"
proof (induction "hi - lo" arbitrary: lo)
  case 0
  then show ?case by (auto simp: first_index_def)
next
  case (Suc n)
  then have lt: "lo < hi" and n: "n = hi - Suc lo" and le: "Suc lo \<le> hi" by auto
  show ?case
  proof (cases "P lo")
    case True
    with lt show ?thesis by (auto simp: first_index_step)
  next
    case False
    with lt have eq: "first_index P lo hi = first_index P (Suc lo) hi"
      by (simp add: first_index_step)
    from Suc.hyps(1) [OF n le] False show ?thesis
      unfolding eq by (metis Suc_leD le_antisym not_less_eq_eq)
  qed
qed

lemma first_index_eqI:
  assumes "lo \<le> r" "r \<le> hi" "\<And>j. lo \<le> j \<Longrightarrow> j < r \<Longrightarrow> \<not> P j" "r < hi \<Longrightarrow> P r"
  shows "first_index P lo hi = r"
proof -
  have "lo \<le> hi" using assms(1,2) by simp
  note p = first_index_props [OF this, of P]
  then show ?thesis
    using assms by (metis le_neq_implies_less linorder_neqE_nat order.strict_trans2)
qed

lemma first_index_skip:
  assumes "lo \<le> m" "m \<le> hi" "\<And>j. lo \<le> j \<Longrightarrow> j < m \<Longrightarrow> \<not> P j"
  shows "first_index P lo hi = first_index P m hi"
proof (rule first_index_eqI)
  note p = first_index_props [OF assms(2), of P]
  show "lo \<le> first_index P m hi" "first_index P m hi \<le> hi"
    "first_index P m hi < hi \<Longrightarrow> P (first_index P m hi)"
    using p assms(1) by simp_all
  fix j assume "lo \<le> j" "j < first_index P m hi"
  then show "\<not> P j" using p assms(3) by (cases "j < m") auto
qed

lemma first_index_shift:
  assumes "lo \<le> hi" "\<And>j. j < hi \<Longrightarrow> Q (k + j) = P j"
  shows "first_index Q (k + lo) (k + hi) = k + first_index P lo hi"
proof (rule first_index_eqI)
  note p = first_index_props [OF assms(1), of P]
  show "k + lo \<le> k + first_index P lo hi" "k + first_index P lo hi \<le> k + hi"
    using p by simp_all
  show "k + first_index P lo hi < k + hi \<Longrightarrow> Q (k + first_index P lo hi)"
    using p assms(2) by simp
  fix j assume j: "k + lo \<le> j" "j < k + first_index P lo hi"
  then have "lo \<le> j - k" "j - k < first_index P lo hi" "k + (j - k) = j" by auto
  then show "\<not> Q j"
    using p assms(2) [of "j - k"] by (metis order.strict_trans2)
qed

section \<open>Correctness of the searches\<close>

lemma BITS_PER_LONG_pos [simp]: "0 < BITS_PER_LONG" "BITS_PER_LONG \<noteq> 0"
  by (simp_all add: BITS_PER_LONG_def)

lemma bit_LAST_WORD_MASK [bit_arith]:
  "n \<le> BITS_PER_LONG \<Longrightarrow> bit (BITMAP_LAST_WORD_MASK n) j \<longleftrightarrow> j < n"
  by (auto simp: BITMAP_LAST_WORD_MASK_def BITS_PER_LONG_def bit_mask_iff)

lemma word_bit_witness:
  fixes w :: "'a::len word"
  assumes "w \<noteq> 0"
  shows "\<exists>j < LENGTH('a). bit w j"
proof (rule ccontr)
  assume "\<not> ?thesis"
  then have "w = 0" by (intro bit_word_eqI) auto
  with assms show False by simp
qed

lemma ffs_nonzero:
  "(w :: 'a::len word) \<noteq> 0 \<Longrightarrow> ffs w = Suc (first_index (bit w) 0 LENGTH('a))"
proof -
  assume "w \<noteq> 0"
  then have "find (bit w) [0..<LENGTH('a)] \<noteq> None"
    using word_bit_witness [of w] by (auto simp: find_None_iff)
  then show ?thesis by (auto simp: ffs_def first_index_def)
qed

lemma ffsl_idx_nonzero:
  "w \<noteq> 0 \<Longrightarrow> ffsl_idx w = int (first_index (bit w) 0 BITS_PER_LONG)"
  by (simp add: ffsl_idx_def ffs_nonzero BITS_PER_LONG_def)

text \<open>A nonzero word holds the answer of any search that covers it.\<close>

lemma first_index_in_word:
  assumes "w \<noteq> 0" "n \<le> hi" "n \<le> BITS_PER_LONG"
    and "\<And>j. j < n \<Longrightarrow> P j = bit w j" "\<And>j. n \<le> j \<Longrightarrow> \<not> bit w j"
  shows "ffsl_idx w = int (first_index P 0 hi)"
proof -
  let ?r = "first_index (bit w) 0 BITS_PER_LONG"
  have p: "?r \<le> BITS_PER_LONG" "\<And>j. j < ?r \<Longrightarrow> \<not> bit w j"
    "?r < BITS_PER_LONG \<Longrightarrow> bit w ?r"
    using first_index_props [of 0 BITS_PER_LONG "bit w"] by auto
  obtain k where k: "k < BITS_PER_LONG" "bit w k"
    using word_bit_witness [OF assms(1)] by (auto simp: BITS_PER_LONG_def)
  then have lt: "?r < BITS_PER_LONG" using p(2) [of k] p(1) by (metis nless_le)
  then have rn: "?r < n" using p(3) assms(5) by (metis not_le)
  have "first_index P 0 hi = ?r"
    using p lt rn assms(2,4) by (intro first_index_eqI) auto
  then show ?thesis using ffsl_idx_nonzero [OF assms(1)] by simp
qed

lemma bm_bit_Cons [simp]:
  "j < BITS_PER_LONG \<Longrightarrow> bm_bit (w # ws) j = bit w j"
  "bm_bit (w # ws) (BITS_PER_LONG + j) = bm_bit ws j"
  by (simp_all add: bm_bit_def BITS_PER_LONG_def div_add_self1)

lemma bits_beyond_word: "BITS_PER_LONG \<le> j \<Longrightarrow> \<not> bit (w :: u32) j"
  using bit_imp_le_length [of w j] by (auto simp: BITS_PER_LONG_def)

declare find_first_bit_loop.simps [simp del] find_first_zero_bit_loop.simps [simp del]

lemma find_first_bit_loop_correct:
  "sz \<le> BITS_PER_LONG * length addr \<Longrightarrow>
     find_first_bit_loop addr sz b = Some (b + int (first_index (bm_bit addr) 0 sz))"
proof (induction addr arbitrary: sz b)
  case Nil
  then show ?case by (simp add: find_first_bit_loop.simps first_index_def BITS_PER_LONG_def)
next
  case (Cons w ws)
  show ?case
  proof (cases "BITS_PER_LONG \<le> sz")
    case True
    show ?thesis
    proof (cases "w = 0")
      case w0: True
      have "first_index (bm_bit (w # ws)) 0 sz = first_index (bm_bit (w # ws)) BITS_PER_LONG sz"
        using True w0 by (intro first_index_skip) auto
      also have "\<dots> = BITS_PER_LONG + first_index (bm_bit ws) 0 (sz - BITS_PER_LONG)"
        using first_index_shift [of 0 "sz - BITS_PER_LONG" "bm_bit (w # ws)" BITS_PER_LONG
            "bm_bit ws"] True by simp
      finally show ?thesis
        using True w0 Cons.IH [of "sz - BITS_PER_LONG"] Cons.prems
        by (subst find_first_bit_loop.simps) simp
    next
      case False
      then have "ffsl_idx w = int (first_index (bm_bit (w # ws)) 0 sz)"
        using True by (intro first_index_in_word [where n = BITS_PER_LONG]) (auto simp: bits_beyond_word)
      with True False show ?thesis by (simp add: find_first_bit_loop.simps [of "w # ws"])
    qed
  next
    case False
    let ?m = "w AND BITMAP_LAST_WORD_MASK sz"
    have m: "bit ?m j \<longleftrightarrow> j < sz \<and> bit w j" for j
      using False by (auto simp: bit_and_iff bit_arith)
    show ?thesis
    proof (cases "?m = 0")
      case True
      then have "\<not> bm_bit (w # ws) j" if "j < sz" for j
        using m [of j] that False by simp
      then have "first_index (bm_bit (w # ws)) 0 sz = sz"
        by (intro first_index_eqI) auto
      with True False show ?thesis by (simp add: find_first_bit_loop.simps [of "w # ws"])
    next
      case m0: False
      then have "ffsl_idx ?m = int (first_index (bm_bit (w # ws)) 0 sz)"
        using False m by (intro first_index_in_word [where n = sz]) auto
      moreover have "sz \<noteq> 0" using m0 m by (metis bit_0_eq bit_eqI bot_apply bot_bool_def not_less0)
      ultimately show ?thesis using m0 False
        by (simp add: find_first_bit_loop.simps [of "w # ws"])
    qed
  qed
qed

text \<open>The zero searches are the searches on the complemented bitmap.\<close>

lemma find_first_zero_bit_loop_compl:
  "find_first_zero_bit_loop addr sz b = find_first_bit_loop (map NOT addr) sz b"
proof (induction addr arbitrary: sz b)
  case Nil
  show ?case
    by (simp add: find_first_zero_bit_loop.simps find_first_bit_loop.simps [of "[]"])
next
  case (Cons w ws)
  show ?case
    using Cons.IH [of "sz - BITS_PER_LONG" "b + int BITS_PER_LONG"]
    by (simp add: find_first_zero_bit_loop.simps [of "w # ws"]
        find_first_bit_loop.simps [of "NOT w # map NOT ws"])
qed

lemma find_next_zero_bit_compl:
  "find_next_zero_bit addr sz offset = find_next_bit (map NOT addr) sz offset"
  by (simp add: find_next_zero_bit_def find_next_bit_def drop_map Let_def
      find_first_zero_bit_loop_compl split: list.splits)

lemma bm_bit_drop: "pos \<le> length addr \<Longrightarrow> bm_bit addr (BITS_PER_LONG * pos + j) = bm_bit (drop pos addr) j"
  by (simp add: bm_bit_def)

text \<open>The part of a search that starts inside a word.\<close>

lemma find_next_bit_first_word:
  fixes w :: u32
  assumes offs: "0 < offs" "offs < BITS_PER_LONG" and n: "offs \<le> n"
    and clean: "\<And>j. n \<le> j \<Longrightarrow> j < BITS_PER_LONG \<Longrightarrow> \<not> bit w j"
  defines "m \<equiv> w AND NOT (BITMAP_LAST_WORD_MASK offs)"
  shows "m \<noteq> 0 \<Longrightarrow> ffsl_idx m = int (first_index (bm_bit (w # ws)) offs n)"
    and "m = 0 \<Longrightarrow> j < BITS_PER_LONG \<Longrightarrow> offs \<le> j \<Longrightarrow> \<not> bm_bit (w # ws) j"
proof -
  have m: "bit m j \<longleftrightarrow> offs \<le> j \<and> bit w j" for j
    using offs bit_imp_le_length [of w j]
    by (auto simp: m_def bit_and_iff bit_not_iff bit_arith)
  show "m = 0 \<Longrightarrow> j < BITS_PER_LONG \<Longrightarrow> offs \<le> j \<Longrightarrow> \<not> bm_bit (w # ws) j"
    using m [of j] by simp
  assume "m \<noteq> 0"
  then have eq: "ffsl_idx m = int (first_index (bit m) 0 BITS_PER_LONG)"
    by (rule ffsl_idx_nonzero)
  let ?r = "first_index (bit m) 0 BITS_PER_LONG"
  have p: "\<And>j. j < ?r \<Longrightarrow> \<not> bit m j" "?r \<le> BITS_PER_LONG"
    "?r < BITS_PER_LONG \<Longrightarrow> bit m ?r"
    using first_index_props [of 0 BITS_PER_LONG "bit m"] by auto
  obtain k where "k < BITS_PER_LONG" "bit m k"
    using word_bit_witness [OF \<open>m \<noteq> 0\<close>] by (auto simp: BITS_PER_LONG_def)
  then have r: "?r < BITS_PER_LONG" using p(1) [of k] p(2) by (metis nless_le)
  have "first_index (bm_bit (w # ws)) offs n = ?r"
  proof (rule first_index_eqI)
    show "offs \<le> ?r" using p(3) [OF r] m by simp
    show "?r \<le> n" using p(3) [OF r] m clean [of ?r] r by (metis linear)
    show "\<And>j. offs \<le> j \<Longrightarrow> j < ?r \<Longrightarrow> \<not> bm_bit (w # ws) j" using p(1) m r by auto
    show "?r < n \<Longrightarrow> bm_bit (w # ws) ?r" using p(3) [OF r] m r by simp
  qed
  with eq show "ffsl_idx m = int (first_index (bm_bit (w # ws)) offs n)" by simp
qed

lemma find_next_bit_from_word:
  fixes w :: u32
  assumes offs: "offs < BITS_PER_LONG" "offs \<le> n" and n: "n \<le> BITS_PER_LONG * Suc (length ws)"
    and clean: "\<And>j. n \<le> j \<Longrightarrow> j < BITS_PER_LONG \<Longrightarrow> \<not> bit w j"
  defines "m \<equiv> w AND NOT (BITMAP_LAST_WORD_MASK offs)"
  shows "(if offs \<noteq> 0 then
            if m \<noteq> 0 then Some (int b + ffsl_idx m)
            else if n \<le> BITS_PER_LONG then Some (int (b + n))
            else find_first_bit_loop ws (n - BITS_PER_LONG) (int (b + BITS_PER_LONG))
          else find_first_bit_loop (w # ws) n (int b)) =
         Some (int (b + first_index (bm_bit (w # ws)) offs n))" (is "?lhs = Some (int (b + ?r))")
proof -
  note fw = find_next_bit_first_word [of offs n w, OF _ offs clean, folded m_def]
  consider "offs = 0" | "offs \<noteq> 0" "m \<noteq> 0" | "offs \<noteq> 0" "m = 0" "n \<le> BITS_PER_LONG"
    | "offs \<noteq> 0" "m = 0" "BITS_PER_LONG < n" by linarith
  then show ?thesis
  proof cases
    case 1
    with n find_first_bit_loop_correct [of n "w # ws" "int b"] show ?thesis by simp
  next
    case 2
    with fw(1) show ?thesis by simp
  next
    case 3
    with fw(2) offs(2) have "?r = n" by (intro first_index_eqI) auto
    with 3 show ?thesis by simp
  next
    case 4
    have "?r = first_index (bm_bit (w # ws)) BITS_PER_LONG n"
      using fw(2) offs 4 by (intro first_index_skip) auto
    also have "\<dots> = BITS_PER_LONG + first_index (bm_bit ws) 0 (n - BITS_PER_LONG)"
      using first_index_shift [of 0 "n - BITS_PER_LONG" "bm_bit (w # ws)" BITS_PER_LONG
          "bm_bit ws"] 4 by simp
    finally show ?thesis
      using 4 n find_first_bit_loop_correct [of "n - BITS_PER_LONG" ws "int (b + BITS_PER_LONG)"]
      by simp
  qed
qed

section \<open>Properties\<close>

text \<open>\<open>find_first_bit\<close> and \<open>find_first_zero_bit\<close> (lib/bitops.c) return the index of the first
  set (clear) bit below the size, or the size when there is none, on every bitmap that has
  at least \<open>size\<close> bits, and never read past it.
\<close>

theorem find_first_bit_correct:
  assumes "sz \<le> BITS_PER_LONG * length addr"
  shows "find_first_bit addr sz = Some (int (first_index (bm_bit addr) 0 sz)) \<and>
    find_first_zero_bit addr sz = Some (int (first_index (bm_bit (map NOT addr)) 0 sz))"
  using assms find_first_bit_loop_correct [of sz addr 0]
    find_first_bit_loop_correct [of sz "map NOT addr" 0]
  by (simp add: find_first_bit_def find_first_zero_bit_def find_first_zero_bit_loop_compl)

theorem find_first_bit_witness:
  "find_first_bit [0, 0x50, 1] 70 = Some 36 \<and> find_first_zero_bit [0xFFFFFFFF, 1] 40 = Some 33"
proof -
  have "find_first_bit [0, 0x50, 1] 70 = Some (int (first_index (bm_bit [0, 0x50, 1]) 0 70))"
    using find_first_bit_correct [of 70 "[0, 0x50, 1]"] by (simp add: BITS_PER_LONG_def)
  moreover have "first_index (bm_bit [0, 0x50, 1]) 0 70 = 36" by code_simp
  moreover have "find_first_zero_bit [0xFFFFFFFF, 1] 40 =
      Some (int (first_index (bm_bit (map NOT [0xFFFFFFFF, 1])) 0 40))"
    using find_first_bit_correct [of 40 "[0xFFFFFFFF, 1]"] by (simp add: BITS_PER_LONG_def)
  moreover have "first_index (bm_bit (map NOT [0xFFFFFFFF, 1])) 0 40 = 33" by code_simp
  ultimately show ?thesis by simp
qed



lemma find_last_bit_loop_no_mask:
  "find_last_bit_loop addr None pos b sz = None \<or> find_last_bit_loop addr None pos b sz = Some (int sz)"
  by (induction pos arbitrary: b) auto

text \<open>\<open>find_last_bit\<close> (lib/bitops.c) never reports a set bit of a bitmap whose size is a
  multiple of the word size: whatever the words hold, it returns the size or (\<^const>\<open>None\<close>)
  computes the result from the uninitialised local \<open>mask\<close> or reads before the bitmap. In
  particular the lowest word is never examined.
\<close>

theorem find_last_bit_whole_words:
  "find_last_bit addr (BITS_PER_LONG * n) = None \<or>
   find_last_bit addr (BITS_PER_LONG * n) = Some (int (BITS_PER_LONG * n))"
  using find_last_bit_loop_no_mask [of addr n "int (BITS_PER_LONG * n)" "BITS_PER_LONG * n"]
  by (auto simp: find_last_bit_def Let_def simp del: of_nat_mult)

section \<open>The power-of-two macros\<close>

lemma fls_0 [simp]: "fls 0 = 0"
  by (simp add: fls_def find_None_iff split: option.split)

lemma fls_top:
  assumes "(x :: 'a::len word) \<noteq> 0"
  obtains k where "fls x = Suc k" "k < LENGTH('a)" "bit x k" "\<And>j. k < j \<Longrightarrow> \<not> bit x j"
proof -
  from assms have "find (bit x) (rev [0..<LENGTH('a)]) \<noteq> None"
    using word_bit_witness [of x] by (auto simp: find_None_iff)
  then obtain k where k: "find (bit x) (rev [0..<LENGTH('a)]) = Some k" by blast
  then obtain i where i: "i < LENGTH('a)" "bit x (rev [0..<LENGTH('a)] ! i)" "k = rev [0..<LENGTH('a)] ! i"
    "\<forall>j<i. \<not> bit x (rev [0..<LENGTH('a)] ! j)"
    by (auto simp: find_Some_iff)
  have r: "rev [0..<LENGTH('a)] ! j = LENGTH('a) - Suc j" if "j < LENGTH('a)" for j
    using that by (simp add: rev_nth)
  have none: "\<not> bit x j" if "k < j" for j
  proof (cases "j < LENGTH('a)")
    case True
    then have "LENGTH('a) - Suc j < i" using that i r [OF i(1)] by simp
    with i(4) r [of "LENGTH('a) - Suc j"] True show ?thesis by fastforce
  qed (use bit_imp_le_length [of x j] in auto)
  show thesis
    by (rule that [of k]) (use k i r [OF i(1)] none in \<open>auto simp: fls_def\<close>)
qed

lemma fls_bounds:
  assumes "(x :: 'a::len word) \<noteq> 0"
  shows "0 < fls x" "fls x \<le> LENGTH('a)" "2 ^ (fls x - 1) \<le> unat x" "unat x < 2 ^ fls x"
proof -
  obtain k where k: "fls x = Suc k" "k < LENGTH('a)" "bit x k" "\<And>j. k < j \<Longrightarrow> \<not> bit x j"
    using fls_top [OF assms] by blast
  have "take_bit (Suc k) (unat x) = unat x"
    using k(4) by (intro bit_eqI) (auto simp: bit_take_bit_iff bit_unsigned_iff, metis not_less_eq)
  then show "unat x < 2 ^ fls x" using k(1) by (metis take_bit_nat_less_exp)
  have "odd (unat x div 2 ^ k)" using k(3) bit_unsigned_iff [where ?'a = nat, of x k] by (simp add: bit_iff_odd [of "unat x"])
  then have "\<not> unat x < 2 ^ k" by (metis div_less even_zero)
  then show "2 ^ (fls x - 1) \<le> unat x" using k(1) by simp
  show "0 < fls x" "fls x \<le> LENGTH('a)" using k by auto
qed

lemma rounddown_pow_of_two_eq:
  "n \<noteq> 0 \<Longrightarrow> unat (rounddown_pow_of_two n) = 2 ^ (fls n - 1)"
  using fls_bounds [of n] by (simp add: rounddown_pow_of_two_def unat_exp_word push_bit_eq_mult)

lemma bit_top_range:
  assumes "2 ^ k \<le> unat (x :: 'a::len word)" "unat x < 2 ^ Suc k" 
  shows "bit x k"
proof -
  have "unat x div 2 ^ k = 1" using assms by (simp add: div_nat_eqI)
  then show ?thesis by (metis bit_iff_odd bit_unsigned_iff odd_one)
qed

text \<open>The power-of-two test is exact on nonzero words.\<close>

lemma powerof2_rounddown:
  assumes "powerof2 n" "n \<noteq> 0"
  shows "rounddown_pow_of_two n = n"
proof -
  define k where "k = fls n - 1"
  have b: "fls n = Suc k" "2 ^ k \<le> unat n" "unat n < 2 ^ Suc k"
    using fls_bounds [OF assms(2)] by (simp_all add: k_def)
  have "unat n = 2 ^ k"
  proof (rule ccontr)
    assume "unat n \<noteq> 2 ^ k"
    moreover have m: "unat (n - 1) = unat n - 1" using assms(2) by (simp add: unat_minus_one)
    ultimately have "2 ^ k \<le> unat (n - 1)" "unat (n - 1) < 2 ^ Suc k" using b by simp_all
    then have "bit (n - 1) k" "bit n k" using b bit_top_range by blast+
    then have "bit ((n - 1) AND n) k" by (simp add: bit_and_iff)
    with assms(1) show False by (simp add: powerof2_def)
  qed
  then show ?thesis using rounddown_pow_of_two_eq [OF assms(2)] b by (simp add: word_unat_eq_iff)
qed

lemma roundup_pow_of_two_eq:
  assumes "1 < unat n" "unat n \<le> 2 ^ 31"
  shows "unat n \<le> unat (roundup_pow_of_two n)" "unat (roundup_pow_of_two n) < 2 * unat n"
    "\<exists>k. 0 < k \<and> k < 32 \<and> unat (roundup_pow_of_two n) = 2 ^ k"
proof -
  have n0: "n \<noteq> 0" using assms(1) by auto
  then have m: "unat (n - 1) = unat n - 1" by (simp add: unat_minus_one)
  then have nz: "n - 1 \<noteq> 0" using assms(1) by (auto simp: unat_eq_zero)
  note b = fls_bounds [OF nz]
  have "(2::nat) ^ (fls (n - 1) - 1) < 2 ^ 31" using b(3) m assms by simp
  then have "fls (n - 1) - 1 < 31" by (rule power_less_imp_less_exp [rotated]) simp
  then have f: "fls (n - 1) < 32" by simp
  then have r: "unat (roundup_pow_of_two n) = 2 ^ fls (n - 1)"
    by (simp add: roundup_pow_of_two_def unat_exp_word push_bit_eq_mult)
  show "unat n \<le> unat (roundup_pow_of_two n)" using b(4) m r by simp
  have "(2::nat) ^ fls (n - 1) = 2 * 2 ^ (fls (n - 1) - 1)" using b(1) by (metis Suc_diff_1 power_Suc)
  then show "unat (roundup_pow_of_two n) < 2 * unat n" using r b(3) m assms(1) by simp
  show "\<exists>k. 0 < k \<and> k < 32 \<and> unat (roundup_pow_of_two n) = 2 ^ k"
    using r f b(1) by blast
qed
end
