(* ===== verification/Ring.thy ===== *)
theory Ring
  imports Prelude
begin

text \<open>
  Circular buffers over a byte list, the abstraction that \<^verbatim>\<open>kfifo.c\<close> and
  \<^verbatim>\<open>lib/disklog.c\<close> share: the bytes seen from a start position, and the effect of a
  write that is split at the end of the buffer.
\<close>

definition ring_read :: "'a list \<Rightarrow> nat \<Rightarrow> nat \<Rightarrow> nat \<Rightarrow> 'a list" where
  "ring_read d cap s n = map (\<lambda>i. d ! ((s + i) mod cap)) [0..<n]"

definition ring_write :: "'a list \<Rightarrow> nat \<Rightarrow> nat \<Rightarrow> 'a list \<Rightarrow> 'a list" where
  "ring_write d cap s bs =
     (let l = min (length bs) (cap - s) in overwrite (overwrite d s (take l bs)) 0 (drop l bs))"

lemma length_ring_read [simp]: "length (ring_read d cap s n) = n"
  by (simp add: ring_read_def)

lemma nth_ring_read [simp]: "i < n \<Longrightarrow> ring_read d cap s n ! i = d ! ((s + i) mod cap)"
  by (simp add: ring_read_def)

lemma ring_read_0 [simp]: "ring_read d cap s 0 = []"
  by (simp add: ring_read_def)

lemma length_ring_write [simp]:
  "s < cap \<Longrightarrow> length bs \<le> cap \<Longrightarrow> cap \<le> length d \<Longrightarrow> length (ring_write d cap s bs) = length d"
  by (simp add: ring_write_def Let_def min_def)

lemma ring_pos_shift: "n \<le> i \<Longrightarrow> ((s + n) mod cap + (i - n)) mod cap = (s + i) mod cap"
  for s n i cap :: nat
  by (simp only: mod_add_left_eq) simp

lemma ring_read_append:
  "ring_read d cap s (n + m) = ring_read d cap s n @ ring_read d cap ((s + n) mod cap) m"
  by (rule nth_equalityI) (auto simp: nth_append ring_pos_shift simp del: add_diff_assoc)

lemma take_ring_read: "m \<le> n \<Longrightarrow> take m (ring_read d cap s n) = ring_read d cap s m"
  by (rule nth_equalityI) auto

lemma drop_ring_read:
  "m \<le> n \<Longrightarrow> drop m (ring_read d cap s n) = ring_read d cap ((s + m) mod cap) (n - m)"
  by (rule nth_equalityI) (auto simp: mod_add_left_eq add.assoc)

text \<open>A position of the ring, folded once.\<close>

lemma ring_pos:
  "s < cap \<Longrightarrow> i < cap \<Longrightarrow> (s + i) mod cap = (if s + i < cap then s + i else s + i - cap)"
  for s cap i :: nat
  by (simp add: mod_if)

lemma ring_read_slices:
  assumes "s < cap" "n \<le> cap" "cap \<le> length d"
  shows "ring_read d cap s n =
    take (min n (cap - s)) (drop s d) @ take (n - min n (cap - s)) d"
  by (rule nth_equalityI)
     (use assms in \<open>auto simp: nth_append ring_pos min_def intro!: arg_cong [where f = "(!) d"]\<close>)

lemma nth_ring_write:
  assumes "s < cap" "length bs \<le> cap" "cap \<le> length d" "i < length d"
  shows "ring_write d cap s bs ! i =
    (if s \<le> i \<and> i < s + length bs \<and> i < cap then bs ! (i - s)
     else if i < cap \<and> i + cap < s + length bs then bs ! (i + cap - s)
     else d ! i)"
  using assms by (auto simp: ring_write_def Let_def nth_overwrite min_def add.commute)

text \<open>Bytes written behind a window of the ring extend the window.\<close>

lemma ring_read_write:
  assumes "s < cap" "n + length bs \<le> cap" "cap \<le> length d"
  shows "ring_read (ring_write d cap ((s + n) mod cap) bs) cap s (n + length bs) =
    ring_read d cap s n @ bs"
proof (rule nth_equalityI)
  fix i assume "i < length (ring_read (ring_write d cap ((s + n) mod cap) bs) cap s (n + length bs))"
  then have i: "i < n + length bs" by simp
  let ?t = "(s + n) mod cap" and ?p = "(s + i) mod cap"
  have t: "?t < cap" "?p < cap" using assms(1) by simp_all
  have tt: "?t = (if s + n < cap then s + n else s + n - cap)"
  proof (cases "n < cap")
    case False
    with assms(1,2) have "n = cap" by simp
    with assms(1) show ?thesis by simp
  qed (use assms(1) in \<open>simp add: ring_pos\<close>)
  have pp: "?p = (if s + i < cap then s + i else s + i - cap)"
    using assms(1,2) i by (simp add: ring_pos)
  show "ring_read (ring_write d cap ?t bs) cap s (n + length bs) ! i = (ring_read d cap s n @ bs) ! i"
  proof (cases "i < n")
    case True
    then show ?thesis
      using i t tt pp assms by (auto simp: nth_append nth_ring_write)
  next
    case False
    then have "ring_write d cap ?t bs ! ?p = bs ! (i - n)"
      using i t tt pp assms by (auto simp: nth_ring_write)
    with False i show ?thesis by (simp add: nth_append)
  qed
qed simp

lemma ring_write_Nil [simp]: "ring_write d cap s [] = d"
  by (simp add: ring_write_def)

text \<open>Consecutive writes are one write.\<close>

lemma ring_write_append:
  assumes "s < cap" "length a + length b \<le> cap" "cap \<le> length d"
  shows "ring_write (ring_write d cap s a) cap ((s + length a) mod cap) b = ring_write d cap s (a @ b)"
proof (rule nth_equalityI)
  have t: "(s + length a) mod cap < cap" using assms(1) by simp
  show "length (ring_write (ring_write d cap s a) cap ((s + length a) mod cap) b) =
      length (ring_write d cap s (a @ b))"
    using assms t by simp
  fix i assume "i < length (ring_write (ring_write d cap s a) cap ((s + length a) mod cap) b)"
  then have i: "i < length d" using assms t by simp
  have tt: "length a < cap \<Longrightarrow> (s + length a) mod cap =
      (if s + length a < cap then s + length a else s + length a - cap)"
    using assms(1) by (simp add: ring_pos)
  show "ring_write (ring_write d cap s a) cap ((s + length a) mod cap) b ! i =
      ring_write d cap s (a @ b) ! i"
  proof (cases "b = []")
    case True
    then show ?thesis by simp
  next
    case False
    then have la: "length a < cap" using assms(2) by (cases b) auto
    with tt assms t i show ?thesis
      by (cases "s + length a < cap") (auto simp: nth_ring_write nth_append)
  qed
qed

lemma ring_write_single:
  "s < cap \<Longrightarrow> cap \<le> length d \<Longrightarrow> ring_write d cap s [x] = overwrite d s [x]"
  by (simp add: ring_write_def Let_def min_def Suc_le_eq)

text \<open>
  The whole ring seen from the write position, oldest element first: writing a piece that
  ends before the end of the buffer drops as much from the front and appends the piece.
\<close>

lemma ring_window_write:
  assumes "length d = cap" "p + length bs \<le> cap" "0 < cap"
  shows "ring_read (overwrite d p bs) cap ((p + length bs) mod cap) cap =
    drop (length bs) (ring_read d cap (p mod cap) cap) @ bs"
proof -
  have w: "ring_read e cap q cap = drop q e @ take q e" if "q < cap" "length e = cap" for q e
    using that by (subst ring_read_slices) (auto simp: min_def)
  have l: "length (overwrite d p bs) = cap" using assms by simp
  show ?thesis
  proof (cases "p + length bs < cap")
    case True
    then show ?thesis using assms by (simp add: w overwrite_def add.commute)
  next
    case False
    then have e: "p + length bs = cap" using assms(2) by simp
    show ?thesis
    proof (cases "p = cap")
      case True
      then show ?thesis using e by (simp add: w assms overwrite_def)
    next
      case F: False
      then have "p < cap" using e by simp
      then show ?thesis using e assms by (simp add: w overwrite_def)
    qed
  qed
qed

end
