(* ===== verification/Kfifo.thy ===== *)
theory Kfifo
  imports Bitops Ring
begin

text \<open>
  \<^verbatim>\<open>basework/kfifo.c\<close>: the byte FIFO with free-running 32-bit indices. A FIFO is a
  record with the fields of \<^verbatim>\<open>struct __kfifo\<close>; its buffer is a byte list, or
  \<^const>\<open>None\<close> for the null pointer. An operation that would dereference the null pointer
  or access memory outside the buffers it is given returns \<^const>\<open>None\<close>.
\<close>

section \<open>State and operations\<close>

record kfifo =
  k_in :: u32
  k_out :: u32
  k_mask :: u32
  k_esize :: u32
  k_data :: "u8 list option"

definition kfifo_unused :: "kfifo \<Rightarrow> u32" where
  "kfifo_unused f = (k_mask f + 1) - (k_in f - k_out f)"

text \<open>
  \<^verbatim>\<open>__kfifo_alloc\<close>; the allocator \<^verbatim>\<open>general_calloc\<close> is the parameter \<open>calloc\<close>.
\<close>

definition kfifo_alloc ::
    "(nat \<Rightarrow> nat \<Rightarrow> u8 list option) \<Rightarrow> u32 \<Rightarrow> u32 \<Rightarrow> int \<times> kfifo" where
  "kfifo_alloc calloc n esize =
     (let sz = roundup_pow_of_two n;
          f = \<lparr>k_in = 0, k_out = 0, k_mask = 0, k_esize = esize, k_data = None\<rparr> in
      if sz < 2 then (- EINVAL, f)
      else case calloc (unat esize) (unat sz) of
             None \<Rightarrow> (- ENOMEM, f)
           | Some d \<Rightarrow> (0, f\<lparr>k_data := Some d, k_mask := sz - 1\<rparr>))"

definition kfifo_free :: "kfifo \<Rightarrow> kfifo" where
  "kfifo_free f = \<lparr>k_in = 0, k_out = 0, k_mask = 0, k_esize = 0, k_data = None\<rparr>"

text \<open>\<^verbatim>\<open>__kfifo_init\<close> divides by the element size, which traps for 0.\<close>

definition kfifo_init :: "u8 list \<Rightarrow> u32 \<Rightarrow> u32 \<Rightarrow> (int \<times> kfifo) option" where
  "kfifo_init buffer n esize =
     (if esize = 0 then None
      else
        let sz0 = n div esize;
            sz = (if powerof2 sz0 then sz0 else rounddown_pow_of_two sz0);
            f = \<lparr>k_in = 0, k_out = 0, k_mask = 0, k_esize = esize, k_data = Some buffer\<rparr> in
        Some (if sz < 2 then (- EINVAL, f) else (0, f\<lparr>k_mask := sz - 1\<rparr>)))"

text \<open>
  The byte geometry both copy routines compute: offset, buffer size and length in bytes
  (the multiplications wrap), and the length of the part before the end of the buffer.
\<close>

definition kfifo_geom :: "kfifo \<Rightarrow> u32 \<Rightarrow> u32 \<Rightarrow> u32 \<times> u32 \<times> u32" where
  "kfifo_geom f len off =
     (let sz = k_mask f + 1; esize = k_esize f; off = off AND k_mask f;
          (off, sz, len) = (if esize \<noteq> 1 then (off * esize, sz * esize, len * esize)
                            else (off, sz, len));
          l = min len (sz - off)
      in (off, len, l))"

definition kfifo_copy_in :: "kfifo \<Rightarrow> u8 list \<Rightarrow> u32 \<Rightarrow> u32 \<Rightarrow> kfifo option" where
  "kfifo_copy_in f src len off =
     (case k_data f of None \<Rightarrow> None
      | Some d \<Rightarrow>
          let (off, len, l) = kfifo_geom f len off in
          do {
            s1 \<leftarrow> mem_read src 0 (unat l);
            d1 \<leftarrow> mem_write d (unat off) s1;
            s2 \<leftarrow> mem_read src (unat l) (unat (len - l));
            d2 \<leftarrow> mem_write d1 0 s2;
            Some (f\<lparr>k_data := Some d2\<rparr>)
          })"

definition kfifo_in :: "kfifo \<Rightarrow> u8 list \<Rightarrow> u32 \<Rightarrow> (kfifo \<times> u32) option" where
  "kfifo_in f buf len =
     (let l = kfifo_unused f; len = (if len > l then l else len) in
      do {
        f1 \<leftarrow> kfifo_copy_in f buf len (k_in f);
        Some (f1\<lparr>k_in := k_in f1 + len\<rparr>, len)
      })"

definition kfifo_copy_out :: "kfifo \<Rightarrow> u8 list \<Rightarrow> u32 \<Rightarrow> u32 \<Rightarrow> u8 list option" where
  "kfifo_copy_out f dst len off =
     (case k_data f of None \<Rightarrow> None
      | Some d \<Rightarrow>
          let (off, len, l) = kfifo_geom f len off in
          do {
            s1 \<leftarrow> mem_read d (unat off) (unat l);
            dst1 \<leftarrow> mem_write dst 0 s1;
            s2 \<leftarrow> mem_read d 0 (unat (len - l));
            mem_write dst1 (unat l) s2
          })"

definition kfifo_out_peek :: "kfifo \<Rightarrow> u8 list \<Rightarrow> u32 \<Rightarrow> (u8 list \<times> u32) option" where
  "kfifo_out_peek f buf len =
     (let l = k_in f - k_out f; len = (if len > l then l else len) in
      do {
        buf' \<leftarrow> kfifo_copy_out f buf len (k_out f);
        Some (buf', len)
      })"

definition kfifo_out :: "kfifo \<Rightarrow> u8 list \<Rightarrow> u32 \<Rightarrow> (kfifo \<times> u8 list \<times> u32) option" where
  "kfifo_out f buf len =
     do {
       (buf', len) \<leftarrow> kfifo_out_peek f buf len;
       Some (f\<lparr>k_out := k_out f + len\<rparr>, buf', len)
     }"

text \<open>Record FIFOs: each record is preceded by its length in 1 or 2 bytes.\<close>

text \<open>
  \<^verbatim>\<open>(1 << (recsize << 3)) - 1\<close>, for the record sizes the type system of
  \<^verbatim>\<open>kfifo.h\<close> produces (0, 1 and 2).
\<close>

definition kfifo_max_r :: "u32 \<Rightarrow> nat \<Rightarrow> u32" where
  "kfifo_max_r len recsize =
     (let mx = push_bit (recsize * 8) 1 - 1 in if len > mx then mx else len)"

definition kfifo_peek_n :: "kfifo \<Rightarrow> nat \<Rightarrow> u32 option" where
  "kfifo_peek_n f recsize =
     (case k_data f of None \<Rightarrow> None
      | Some d \<Rightarrow>
          let i0 = unat (k_out f AND k_mask f); i1 = unat ((k_out f + 1) AND k_mask f) in
          if i0 \<ge> length d then None
          else if recsize = 1 then Some (ucast (d ! i0))
          else if i1 \<ge> length d then None
          else Some (ucast (d ! i0) OR push_bit 8 (ucast (d ! i1))))"

definition kfifo_poke_n :: "kfifo \<Rightarrow> u32 \<Rightarrow> nat \<Rightarrow> kfifo option" where
  "kfifo_poke_n f n recsize =
     (case k_data f of None \<Rightarrow> None
      | Some d \<Rightarrow>
          do {
            d1 \<leftarrow> mem_write d (unat (k_in f AND k_mask f)) [ucast n];
            d2 \<leftarrow> (if recsize > 1
                   then mem_write d1 (unat ((k_in f + 1) AND k_mask f)) [ucast (drop_bit 8 n)]
                   else Some d1);
            Some (f\<lparr>k_data := Some d2\<rparr>)
          })"

definition kfifo_len_r :: "kfifo \<Rightarrow> nat \<Rightarrow> u32 option" where
  "kfifo_len_r f recsize = kfifo_peek_n f recsize"

definition kfifo_in_r :: "kfifo \<Rightarrow> u8 list \<Rightarrow> u32 \<Rightarrow> nat \<Rightarrow> (kfifo \<times> u32) option" where
  "kfifo_in_r f buf len recsize =
     (if len + of_nat recsize > kfifo_unused f then Some (f, 0)
      else do {
        f1 \<leftarrow> kfifo_poke_n f len recsize;
        f2 \<leftarrow> kfifo_copy_in f1 buf len (k_in f1 + of_nat recsize);
        Some (f2\<lparr>k_in := k_in f2 + (len + of_nat recsize)\<rparr>, len)
      })"

definition kfifo_out_copy_r ::
    "kfifo \<Rightarrow> u8 list \<Rightarrow> u32 \<Rightarrow> nat \<Rightarrow> (u8 list \<times> u32 \<times> u32) option" where
  "kfifo_out_copy_r f buf len recsize =
     do {
       n \<leftarrow> kfifo_peek_n f recsize;
       let len = (if len > n then n else len);
       buf' \<leftarrow> kfifo_copy_out f buf len (k_out f + of_nat recsize);
       Some (buf', len, n)
     }"

definition kfifo_out_peek_r :: "kfifo \<Rightarrow> u8 list \<Rightarrow> u32 \<Rightarrow> nat \<Rightarrow> (u8 list \<times> u32) option" where
  "kfifo_out_peek_r f buf len recsize =
     (if k_in f = k_out f then Some (buf, 0)
      else do {
        (buf', len, n) \<leftarrow> kfifo_out_copy_r f buf len recsize;
        Some (buf', len)
      })"

definition kfifo_out_r :: "kfifo \<Rightarrow> u8 list \<Rightarrow> u32 \<Rightarrow> nat \<Rightarrow> (kfifo \<times> u8 list \<times> u32) option" where
  "kfifo_out_r f buf len recsize =
     (if k_in f = k_out f then Some (f, buf, 0)
      else do {
        (buf', len, n) \<leftarrow> kfifo_out_copy_r f buf len recsize;
        Some (f\<lparr>k_out := k_out f + (n + of_nat recsize)\<rparr>, buf', len)
      })"

definition kfifo_skip_r :: "kfifo \<Rightarrow> nat \<Rightarrow> kfifo option" where
  "kfifo_skip_r f recsize =
     do {
       n \<leftarrow> kfifo_peek_n f recsize;
       Some (f\<lparr>k_out := k_out f + (n + of_nat recsize)\<rparr>)
     }"

section \<open>Invariant and abstraction\<close>

definition k_size :: "kfifo \<Rightarrow> nat" where
  "k_size f = unat (k_mask f) + 1"

definition k_cap :: "kfifo \<Rightarrow> nat" where
  "k_cap f = k_size f * unat (k_esize f)"

abbreviation k_cnt :: "kfifo \<Rightarrow> nat" where
  "k_cnt f \<equiv> unat (k_in f - k_out f)"

text \<open>The byte position an index stands for.\<close>

definition k_pos :: "kfifo \<Rightarrow> u32 \<Rightarrow> nat" where
  "k_pos f i = (unat i mod k_size f) * unat (k_esize f)"

lemma kfifo_frame [simp]:
  "k_size (f\<lparr>k_data := x\<rparr>) = k_size f" "k_size (f\<lparr>k_in := i\<rparr>) = k_size f"
  "k_size (f\<lparr>k_out := i\<rparr>) = k_size f"
  "k_cap (f\<lparr>k_data := x\<rparr>) = k_cap f" "k_cap (f\<lparr>k_in := i\<rparr>) = k_cap f"
  "k_cap (f\<lparr>k_out := i\<rparr>) = k_cap f"
  "k_pos (f\<lparr>k_data := x\<rparr>) = k_pos f" "k_pos (f\<lparr>k_in := i\<rparr>) = k_pos f"
  "k_pos (f\<lparr>k_out := i\<rparr>) = k_pos f"
  by (simp_all add: k_size_def k_cap_def k_pos_def fun_eq_iff)

text \<open>
  The size is a power of two of at least 2, the buffer holds that many elements and its
  size in bytes does not wrap, and the indices are at most one buffer apart.
\<close>

definition kfifo_inv :: "kfifo \<Rightarrow> bool" where
  "kfifo_inv f \<longleftrightarrow>
     k_mask f \<in> set (map mask [1..<32]) \<and> k_esize f \<noteq> 0 \<and> k_cap f < 2 ^ 32 \<and>
     (case k_data f of None \<Rightarrow> False | Some d \<Rightarrow> k_cap f \<le> length d) \<and>
     k_cnt f \<le> k_size f"

definition kfifo_bytes :: "kfifo \<Rightarrow> u8 list" where
  "kfifo_bytes f =
     (case k_data f of None \<Rightarrow> []
      | Some d \<Rightarrow> ring_read d (k_cap f) (k_pos f (k_out f)) (k_cnt f * unat (k_esize f)))"

lemma kfifo_invD:
  assumes "kfifo_inv f"
  obtains d k where "k_data f = Some d" "k_mask f = mask k" "0 < k" "k < 32"
    "k_size f = 2 ^ k" "k_esize f \<noteq> 0" "k_cap f < 2 ^ 32" "k_cap f \<le> length d" "k_cnt f \<le> k_size f"
proof -
  from assms obtain k where k: "k \<in> set [1..<32]" "k_mask f = mask k"
    by (auto simp: kfifo_inv_def)
  moreover from this have "k_size f = 2 ^ k" by (simp add: unat_mask_word k_size_def)
  ultimately show thesis using assms that
    by (auto simp: kfifo_inv_def split: option.splits)
qed

lemma kfifo_unused_eq:
  assumes "kfifo_inv f"
  shows "unat (kfifo_unused f) = k_size f - k_cnt f"
proof -
  obtain k where k: "k_mask f = mask k" "k < 32" "k_size f = 2 ^ k" "k_cnt f \<le> k_size f"
    using kfifo_invD [OF assms] by metis
  have "unat (k_mask f + 1) = k_size f" using k(1,2) unfolding k(3) by (simp add: unat_mask_plus_1)
  moreover from this k(4) have "k_in f - k_out f \<le> k_mask f + 1" by (simp add: word_le_nat_alt)
  ultimately show ?thesis by (simp add: kfifo_unused_def unat_sub)
qed

lemma k_pos_less: "k_esize f \<noteq> 0 \<Longrightarrow> k_pos f i < k_cap f"
  using mult_less_mono1 [of "unat i mod k_size f" "k_size f" "unat (k_esize f)"]
  by (simp add: k_pos_def k_cap_def k_size_def unat_gt_0)

text \<open>Free-running indices: adding to an index moves its position around the ring.\<close>

lemma k_pos_add:
  assumes "kfifo_inv f"
  shows "k_pos f (i + j) = (k_pos f i + unat j * unat (k_esize f)) mod k_cap f"
proof -
  obtain k where k: "k < 32" "k_size f = 2 ^ k" using kfifo_invD [OF assms] by metis
  have "(2::nat) ^ k dvd 2 ^ 32" using k(1) by (intro le_imp_power_dvd) simp
  then have "unat (i + j) mod k_size f = (unat i mod k_size f + unat j) mod k_size f"
    using mod_of_wrapped_sum [of "2 ^ k" "2 ^ 32" "unat i" "unat j"] k(2)
    by (simp add: unat_word_ariths)
  then show ?thesis by (simp only: k_pos_def k_cap_def mod_mult_mult2 [symmetric] add_mult_distrib)
qed

lemma k_pos_in:
  "kfifo_inv f \<Longrightarrow>
     k_pos f (k_in f) = (k_pos f (k_out f) + k_cnt f * unat (k_esize f)) mod k_cap f"
  using k_pos_add [of f "k_out f" "k_in f - k_out f"] by simp

lemma kfifo_geom_eq:
  assumes "kfifo_inv f" "unat len \<le> k_size f" "kfifo_geom f len off = (off', len', l)"
  shows "unat off' = k_pos f off" "unat len' = unat len * unat (k_esize f)"
    "unat l = min (unat len * unat (k_esize f)) (k_cap f - k_pos f off)"
proof -
  let ?e = "k_esize f"
  obtain k where k: "k_mask f = mask k" "k < 32" "k_size f = 2 ^ k" "?e \<noteq> 0" "k_cap f < 2 ^ 32"
    using kfifo_invD [OF assms(1)] by metis
  have sz: "unat (k_mask f + 1) = k_size f" using k(1,2) unfolding k(3) by (simp add: unat_mask_plus_1)
  have off: "unat (off AND k_mask f) = unat off mod k_size f" using k by (simp add: unat_and_mask)
  have pos: "k_pos f off < k_cap f" by (rule k_pos_less [OF k(4)])
  have g: "kfifo_geom f len off = ((off AND k_mask f) * ?e, len * ?e,
      min (len * ?e) ((k_mask f + 1) * ?e - (off AND k_mask f) * ?e))"
    by (simp add: kfifo_geom_def Let_def)
  have o: "unat ((off AND k_mask f) * ?e) = k_pos f off"
    using pos k(5) off by (subst unat_mult_nowrap) (simp_all add: k_pos_def)
  have s: "unat ((k_mask f + 1) * ?e) = k_cap f"
    using k(5) sz by (subst unat_mult_nowrap) (simp_all add: k_cap_def)
  have "unat len * unat ?e \<le> k_cap f" unfolding k_cap_def using assms(2) by (rule mult_le_mono1)
  then have n: "unat (len * ?e) = unat len * unat ?e"
    using k(5) by (subst unat_mult_nowrap) simp_all
  have "(off AND k_mask f) * ?e \<le> (k_mask f + 1) * ?e"
    using o s pos by (simp add: word_le_nat_alt)
  with assms(3) g o s n show "unat off' = k_pos f off" "unat len' = unat len * unat ?e"
    "unat l = min (unat len * unat ?e) (k_cap f - k_pos f off)"
    by (auto simp: unat_sub)
qed

lemma kfifo_copy_in_ring:
  assumes "kfifo_inv f" "k_data f = Some d" "unat len \<le> k_size f"
    "unat len * unat (k_esize f) \<le> length src"
  shows "kfifo_copy_in f src len off = Some (f\<lparr>k_data := Some
    (ring_write d (k_cap f) (k_pos f off) (take (unat len * unat (k_esize f)) src))\<rparr>)"
proof -
  obtain off' len' l where g: "kfifo_geom f len off = (off', len', l)"
    by (metis prod_cases3)
  note e = kfifo_geom_eq [OF assms(1,3) g]
  have d: "k_cap f \<le> length d" "k_esize f \<noteq> 0"
    using assms(1,2) by (simp_all add: kfifo_inv_def)
  note pos = k_pos_less [OF d(2), of off]
  have ll: "l \<le> len'" using e by (simp add: word_le_nat_alt)
  have lcap: "unat len * unat (k_esize f) \<le> k_cap f" unfolding k_cap_def using assms(3) by (rule mult_le_mono1)
  let ?n = "unat len * unat (k_esize f)"
  have "unat l \<le> ?n" "unat l \<le> k_cap f - k_pos f off" using e by simp_all
  have r1: "mem_read src 0 (unat l) = Some (take (unat l) (take ?n src))"
    using assms(4) \<open>unat l \<le> ?n\<close> by (simp add: min_def)
  have w1: "mem_write d (unat off') (take (unat l) (take ?n src)) =
      Some (overwrite d (k_pos f off) (take (unat l) (take ?n src)))"
    using d pos e(1) \<open>unat l \<le> k_cap f - k_pos f off\<close> by simp
  have r2: "mem_read src (unat l) (unat (len' - l)) = Some (drop (unat l) (take ?n src))"
    using e(2) ll assms(4) \<open>unat l \<le> ?n\<close> by (simp add: unat_sub drop_take)
  have w2: "mem_write m 0 (drop (unat l) (take ?n src)) = Some (overwrite m 0 (drop (unat l) (take ?n src)))"
    if "length m = length d" for m
    using that d(1) lcap assms(4) by simp
  have "min (length (take ?n src)) (k_cap f - k_pos f off) = unat l" using e(3) assms(4) by simp
  moreover have "length (overwrite d (k_pos f off) (take (unat l) (take ?n src))) = length d"
    using d pos \<open>unat l \<le> k_cap f - k_pos f off\<close> by simp
  ultimately show ?thesis
    using assms(2) r1 w1 r2 w2 by (simp add: kfifo_copy_in_def g ring_write_def Let_def)
qed

lemma kfifo_copy_out_ring:
  assumes "kfifo_inv f" "k_data f = Some d" "unat len \<le> k_size f"
    "unat len * unat (k_esize f) \<le> length dst"
  shows "kfifo_copy_out f dst len off =
    Some (overwrite dst 0 (ring_read d (k_cap f) (k_pos f off) (unat len * unat (k_esize f))))"
proof -
  obtain off' len' l where g: "kfifo_geom f len off = (off', len', l)"
    by (metis prod_cases3)
  note e = kfifo_geom_eq [OF assms(1,3) g]
  have d: "k_cap f \<le> length d" "k_esize f \<noteq> 0"
    using assms(1,2) by (simp_all add: kfifo_inv_def)
  note pos = k_pos_less [OF d(2), of off]
  have ll: "l \<le> len'" using e by (simp add: word_le_nat_alt)
  let ?n = "unat len * unat (k_esize f)"
  have lcap: "?n \<le> k_cap f" unfolding k_cap_def using assms(3) by (rule mult_le_mono1)
  let ?a = "take (unat l) (drop (k_pos f off) d)" and ?b = "take (unat (len' - l)) d"
  have la: "length ?a = unat l" and lb: "length ?b = ?n - unat l"
    using e ll pos d lcap by (auto simp: unat_sub min_def)
  have "ring_read d (k_cap f) (k_pos f off) ?n = ?a @ ?b"
    using ring_read_slices [OF pos lcap d(1)] e ll by (simp add: unat_sub)
  moreover have "overwrite (overwrite dst 0 ?a) (unat l) ?b = overwrite dst 0 (?a @ ?b)"
    using overwrite_append [of 0 ?a ?b dst] la lb assms(4) e by simp
  moreover have "mem_read d (unat off') (unat l) = Some ?a" "mem_write dst 0 ?a = Some (overwrite dst 0 ?a)"
    "mem_read d 0 (unat (len' - l)) = Some ?b"
    using e ll pos d lcap assms(4) la by (auto simp: unat_sub)
  moreover have "mem_write (overwrite dst 0 ?a) (unat l) ?b =
      Some (overwrite (overwrite dst 0 ?a) (unat l) ?b)"
  proof (rule mem_write_overwrite)
    have "unat l \<le> ?n" using e by simp
    then show "unat l + length ?b \<le> length (overwrite dst 0 ?a)"
      using la lb assms(4) by simp
  qed
  ultimately show ?thesis
    using assms(2) by (simp add: kfifo_copy_out_def g)
qed

section \<open>The stream contract\<close>

text \<open>
  What a client of a byte stream buffer relies on: bytes accepted are appended, bytes
  delivered are taken from the front. Any sequence of calls is then loss-free and in order.
\<close>

datatype 'a stream_op = Put "'a list" | Get nat

fun run_stream ::
    "('q \<Rightarrow> 'a list \<Rightarrow> ('q \<times> nat) option) \<Rightarrow> ('q \<Rightarrow> nat \<Rightarrow> ('q \<times> 'a list) option) \<Rightarrow>
     'q \<Rightarrow> 'a stream_op list \<Rightarrow> ('q \<times> 'a list \<times> 'a list) option" where
  "run_stream put get q [] = Some (q, [], [])"
| "run_stream put get q (Put xs # ops) =
     do { (q', n) \<leftarrow> put q xs; (q'', w, r) \<leftarrow> run_stream put get q' ops; Some (q'', take n xs @ w, r) }"
| "run_stream put get q (Get n # ops) =
     do { (q', xs) \<leftarrow> get q n; (q'', w, r) \<leftarrow> run_stream put get q' ops; Some (q'', w, xs @ r) }"

locale stream_buffer =
  fixes invar :: "'q \<Rightarrow> bool" and contents :: "'q \<Rightarrow> 'a list"
    and put :: "'q \<Rightarrow> 'a list \<Rightarrow> ('q \<times> nat) option"
    and get :: "'q \<Rightarrow> nat \<Rightarrow> ('q \<times> 'a list) option"
  assumes put_ok: "invar q \<Longrightarrow>
      \<exists>q' n. put q xs = Some (q', n) \<and> invar q' \<and> n \<le> length xs \<and> contents q' = contents q @ take n xs"
    and get_ok: "invar q \<Longrightarrow>
      \<exists>q' xs. get q m = Some (q', xs) \<and> invar q' \<and> contents q = xs @ contents q'"
begin

lemma stream_in_order:
  "invar q \<Longrightarrow> \<exists>q' w r. run_stream put get q ops = Some (q', w, r) \<and> invar q' \<and>
     contents q @ w = r @ contents q'"
proof (induction ops arbitrary: q)
  case Nil
  then show ?case by simp
next
  case (Cons op ops)
  show ?case
  proof (cases op)
    case (Put xs)
    obtain q' n where p: "put q xs = Some (q', n)" "invar q'" "contents q' = contents q @ take n xs"
      using put_ok [OF Cons.prems] by blast
    from Cons.IH [OF p(2)] show ?thesis
      using p Put by auto
  next
    case (Get m)
    obtain q' xs where g: "get q m = Some (q', xs)" "invar q'" "contents q = xs @ contents q'"
      using get_ok [OF Cons.prems] by blast
    from Cons.IH [OF g(2)] show ?thesis
      using g Get by auto
  qed
qed

end

section \<open>Correctness of the byte FIFO\<close>

text \<open>What no operation changes: the geometry of the buffer.\<close>

definition kfifo_same :: "kfifo \<Rightarrow> kfifo \<Rightarrow> bool" where
  "kfifo_same f f' \<longleftrightarrow> k_mask f' = k_mask f \<and> k_esize f' = k_esize f"

lemma kfifo_in_ring:
  assumes inv: "kfifo_inv f" and n: "unat n = min (unat len) (k_size f - k_cnt f)"
    and src: "unat n * unat (k_esize f) \<le> length buf"
  shows "\<exists>f'. kfifo_in f buf len = Some (f', n) \<and> kfifo_inv f' \<and> kfifo_same f f' \<and>
    k_cnt f' = k_cnt f + unat n \<and>
    kfifo_bytes f' = kfifo_bytes f @ take (unat n * unat (k_esize f)) buf"
proof -
  obtain d k where d: "k_data f = Some d" "k_size f = 2 ^ k" "k < 32" "k_cap f < 2 ^ 32"
    "k_cap f \<le> length d" "k_esize f \<noteq> 0" "k_cnt f \<le> k_size f"
    using kfifo_invD [OF inv] by metis
  let ?e = "unat (k_esize f)" and ?bs = "take (unat n * unat (k_esize f)) buf"
  have neq: "(if len > kfifo_unused f then kfifo_unused f else len) = n"
    using n kfifo_unused_eq [OF inv] by (auto simp: word_less_nat_alt word_unat_eq_iff)
  let ?d = "ring_write d (k_cap f) (k_pos f (k_in f)) ?bs"
  let ?f = "f\<lparr>k_data := Some ?d, k_in := k_in f + n\<rparr>"
  have run: "kfifo_in f buf len = Some (?f, n)"
    using kfifo_copy_in_ring [OF inv d(1) _ src, of "k_in f"] n neq
    by (simp add: kfifo_in_def Let_def)
  have sum: "k_cnt f + unat n \<le> k_size f" using n d(7) by simp
  have cnt: "k_cnt ?f = k_cnt f + unat n"
  proof -
    have "(2::nat) ^ k < 2 ^ 32" using d(3) by (intro power_strict_increasing) simp_all
    then have "unat (k_in f - k_out f + n) = k_cnt f + unat n"
      using sum d(2) by (intro unat_add_nowrap) simp
    then show ?thesis by (simp add: algebra_simps)
  qed
  have lbs: "length ?bs = unat n * ?e" using src by simp
  have tot: "k_cnt f * ?e + length ?bs \<le> k_cap f"
    using mult_le_mono1 [OF sum, of ?e] lbs by (simp add: k_cap_def add_mult_distrib)
  have pos: "k_pos f i < k_cap f" for i by (rule k_pos_less [OF d(6)])
  have ld: "length ?d = length d" using tot d(5) pos by simp
  have "kfifo_inv ?f" using inv ld cnt sum d(1) by (simp add: kfifo_inv_def)
  moreover have "kfifo_bytes ?f = kfifo_bytes f @ ?bs"
    using ring_read_write [OF pos [of "k_out f"] tot d(5)] k_pos_in [OF inv] d(1) lbs cnt
    by (simp add: kfifo_bytes_def k_pos_def add_mult_distrib)
  ultimately show ?thesis using run cnt by (auto simp: kfifo_same_def)
qed

lemma kfifo_out_ring:
  assumes inv: "kfifo_inv f" and n: "unat n = min (unat len) (k_cnt f)"
    and dst: "unat n * unat (k_esize f) \<le> length buf"
  shows "\<exists>f'. kfifo_out f buf len =
      Some (f', overwrite buf 0 (take (unat n * unat (k_esize f)) (kfifo_bytes f)), n) \<and>
    kfifo_inv f' \<and> kfifo_same f f' \<and> k_cnt f' = k_cnt f - unat n \<and>
    kfifo_bytes f' = drop (unat n * unat (k_esize f)) (kfifo_bytes f)"
proof -
  obtain d k where d: "k_data f = Some d" "k_esize f \<noteq> 0" "k_cnt f \<le> k_size f"
    using kfifo_invD [OF inv] by metis
  let ?e = "unat (k_esize f)"
  have neq: "(if len > k_in f - k_out f then k_in f - k_out f else len) = n"
    using n by (auto simp: word_less_nat_alt word_unat_eq_iff)
  have le: "unat n * ?e \<le> k_cnt f * ?e" using n by (intro mult_le_mono1) simp
  let ?f = "f\<lparr>k_out := k_out f + n\<rparr>"
  have run: "kfifo_out f buf len =
      Some (?f, overwrite buf 0 (take (unat n * ?e) (kfifo_bytes f)), n)"
    using kfifo_copy_out_ring [OF inv d(1) _ dst, of "k_out f"] n neq d le
    by (simp add: kfifo_out_def kfifo_out_peek_def Let_def kfifo_bytes_def take_ring_read)
  have "n \<le> k_in f - k_out f" using n by (simp add: word_le_nat_alt)
  then have "unat (k_in f - k_out f - n) = k_cnt f - unat n" by (rule unat_sub)
  then have cnt: "k_cnt ?f = k_cnt f - unat n" by (simp add: algebra_simps)
  have "kfifo_inv ?f"
    using inv cnt d(1) by (auto simp: kfifo_inv_def intro: order_trans [OF diff_le_self])
  moreover have "kfifo_bytes ?f = drop (unat n * ?e) (kfifo_bytes f)"
    using k_pos_add [OF inv, of "k_out f" n] d(1) le cnt
    by (simp add: kfifo_bytes_def drop_ring_read k_pos_def diff_mult_distrib)
  ultimately show ?thesis using run cnt by (auto simp: kfifo_same_def)
qed

text \<open>Clients see elements, not buffers: the calls with a buffer of the right size.\<close>

definition kfifo_put :: "kfifo \<Rightarrow> u8 list \<Rightarrow> (kfifo \<times> nat) option" where
  "kfifo_put f xs =
     map_option (\<lambda>(f', n). (f', unat n * unat (k_esize f)))
       (kfifo_in f xs (of_nat (length xs div unat (k_esize f))))"

definition kfifo_get :: "kfifo \<Rightarrow> nat \<Rightarrow> (kfifo \<times> u8 list) option" where
  "kfifo_get f m =
     map_option (\<lambda>(f', buf, n). (f', take (unat n * unat (k_esize f)) buf))
       (kfifo_out f (replicate (m * unat (k_esize f)) 0) (of_nat m))"

lemma unat_of_nat_le: "unat (of_nat m :: 'a::len word) \<le> m"
  by (simp add: unat_of_nat)

lemma word_of_bounded_nat:
  "m < 2 ^ LENGTH('a) \<Longrightarrow> \<exists>n :: 'a::len word. unat n = m"
  by (rule exI [of _ "of_nat m"]) (simp add: unat_of_nat take_bit_nat_eq_self)

interpretation kq: stream_buffer kfifo_inv kfifo_bytes kfifo_put kfifo_get
proof
  fix f and xs :: "u8 list" assume inv: "kfifo_inv f"
  let ?e = "unat (k_esize f)" and ?len = "of_nat (length xs div unat (k_esize f)) :: u32"
  have "min (unat ?len) (k_size f - k_cnt f) < 2 ^ 32"
    using unsigned_less [of ?len] by (intro min.strict_coboundedI1) simp
  then obtain n :: u32 where n: "unat n = min (unat ?len) (k_size f - k_cnt f)"
    using word_of_bounded_nat [where 'a = 32] by auto
  have "unat n * ?e \<le> (length xs div ?e) * ?e"
    using n unat_of_nat_le [where 'a=32, of "length xs div ?e"] by (intro mult_le_mono1) simp
  also have "\<dots> \<le> length xs" by simp
  finally have le: "unat n * ?e \<le> length xs" .
  show "\<exists>f' m. kfifo_put f xs = Some (f', m) \<and> kfifo_inv f' \<and> m \<le> length xs \<and>
      kfifo_bytes f' = kfifo_bytes f @ take m xs"
    using kfifo_in_ring [OF inv n le] le by (auto simp: kfifo_put_def)
next
  fix f m assume inv: "kfifo_inv f"
  let ?e = "unat (k_esize f)" and ?len = "of_nat m :: u32"
  have "min (unat ?len) (k_cnt f) < 2 ^ 32"
    using unsigned_less [of ?len] by (intro min.strict_coboundedI1) simp
  then obtain n :: u32 where n: "unat n = min (unat ?len) (k_cnt f)"
    using word_of_bounded_nat [where 'a = 32] by auto
  have le: "unat n * ?e \<le> length (replicate (m * ?e) (0::u8))"
    using n unat_of_nat_le [where 'a=32, of m] by (simp add: min.coboundedI1)
  have "unat n * ?e \<le> length (kfifo_bytes f)"
    using n inv by (auto simp: kfifo_bytes_def kfifo_inv_def mult_le_mono1 split: option.splits)
  with kfifo_out_ring [OF inv n le] le
  show "\<exists>f' xs. kfifo_get f m = Some (f', xs) \<and> kfifo_inv f' \<and> kfifo_bytes f = xs @ kfifo_bytes f'"
    by (auto simp: kfifo_get_def overwrite_def)
qed

section \<open>Record FIFOs\<close>

text \<open>The wire format of a record: its length in \<open>recsize\<close> little-endian bytes, then its bytes.\<close>

definition kfifo_hdr :: "nat \<Rightarrow> u32 \<Rightarrow> u8 list" where
  "kfifo_hdr recsize n = (if recsize > 1 then [ucast n, ucast (drop_bit 8 n)] else [ucast n])"

lemma length_kfifo_hdr: "recsize \<in> {1, 2} \<Longrightarrow> length (kfifo_hdr recsize n) = recsize"
  by (auto simp: kfifo_hdr_def)

lemma kfifo_poke_n_ring:
  assumes inv: "kfifo_inv f" and e: "k_esize f = 1" and d: "k_data f = Some d" and r: "recsize \<in> {1, 2}"
  shows "kfifo_poke_n f n recsize =
    Some (f\<lparr>k_data := Some (ring_write d (k_cap f) (k_pos f (k_in f)) (kfifo_hdr recsize n))\<rparr>)"
proof -
  obtain k where k: "k_mask f = mask k" "0 < k" "k_size f = 2 ^ k" "k_cap f \<le> length d"
    using kfifo_invD [OF inv] d by (metis option.inject)
  have idx: "unat (i AND k_mask f) = k_pos f i" for i
    using k e by (simp add: unat_and_mask k_pos_def)
  have pos: "k_pos f i < k_cap f" for i by (rule k_pos_less) (simp add: e)
  have "(2::nat) ^ 1 \<le> 2 ^ k" using k(2) by (intro power_increasing) simp_all
  then have two: "2 \<le> k_cap f" using k(3) e by (simp add: k_cap_def)
  have w: "mem_write m (k_pos f i) [x] = Some (ring_write m (k_cap f) (k_pos f i) [x])"
    if "length m = length d" for m i x
    using that k(4) pos [of i] by (simp add: ring_write_single)
  have "k_pos f (k_in f + 1) = (k_pos f (k_in f) + 1) mod k_cap f"
    using k_pos_add [OF inv, of "k_in f" 1] e by simp
  then have "ring_write (ring_write d (k_cap f) (k_pos f (k_in f)) [x]) (k_cap f) (k_pos f (k_in f + 1)) [y] =
      ring_write d (k_cap f) (k_pos f (k_in f)) [x, y]" for x y
    using ring_write_append [of "k_pos f (k_in f)" "k_cap f" "[x]" "[y]" d] pos two k(4) by simp
  then show ?thesis
    using r d w [of d] w [of "ring_write d (k_cap f) (k_pos f (k_in f)) [x]" for x] pos k(4) two
    by (auto simp: kfifo_poke_n_def idx kfifo_hdr_def)
qed

lemma kfifo_in_r_ring:
  assumes inv: "kfifo_inv f" and e: "k_esize f = 1" and r: "recsize \<in> {1, 2}"
    and room: "unat len + recsize \<le> k_size f - k_cnt f" and src: "unat len \<le> length buf"
  shows "\<exists>f'. kfifo_in_r f buf len recsize = Some (f', len) \<and> kfifo_inv f' \<and> kfifo_same f f' \<and>
    kfifo_bytes f' = kfifo_bytes f @ kfifo_hdr recsize len @ take (unat len) buf"
proof -
  obtain d k where d: "k_data f = Some d" "k_size f = 2 ^ k" "k < 32" "k_cap f < 2 ^ 32"
    "k_cap f \<le> length d" "k_cnt f \<le> k_size f"
    using kfifo_invD [OF inv] by metis
  have cap: "k_cap f = k_size f" using e by (simp add: k_cap_def)
  let ?bs = "kfifo_hdr recsize len @ take (unat len) buf"
  let ?d = "ring_write d (k_cap f) (k_pos f (k_in f)) ?bs"
  let ?f = "f\<lparr>k_data := Some ?d, k_in := k_in f + (len + of_nat recsize)\<rparr>"
  have lh: "length (kfifo_hdr recsize len) = recsize" using length_kfifo_hdr [OF r] by simp
  then have lbs: "length ?bs = unat len + recsize" using src by simp
  have ur: "unat (of_nat recsize :: u32) = recsize" using r by auto
  have ul: "unat (len + of_nat recsize) = unat len + recsize"
    using room d cap ur by (subst unat_add_nowrap) simp_all
  have pos: "k_pos f i < k_cap f" for i by (rule k_pos_less) (simp add: e)
  have fits: "unat len + recsize \<le> k_cap f" using room cap by simp
  define d1 where "d1 = ring_write d (k_cap f) (k_pos f (k_in f)) (kfifo_hdr recsize len)"
  define f1 where "f1 = f\<lparr>k_data := Some d1\<rparr>"
  have "length d1 = length d" unfolding d1_def using pos d(5) fits lh by simp
  then have inv1: "kfifo_inv f1" using inv d by (simp add: f1_def kfifo_inv_def)
  have p2: "k_pos f (k_in f + of_nat recsize) = (k_pos f (k_in f) + length (kfifo_hdr recsize len)) mod k_cap f"
    using k_pos_add [OF inv, of "k_in f" "of_nat recsize"] e lh ur by simp
  have "ring_write d1 (k_cap f) (k_pos f (k_in f + of_nat recsize)) (take (unat len) buf) = ?d"
    unfolding p2 d1_def using pos d(5) fits lh by (intro ring_write_append) auto
  then have "kfifo_copy_in f1 buf len (k_in f + of_nat recsize) = Some (f\<lparr>k_data := Some ?d\<rparr>)"
    using kfifo_copy_in_ring [OF inv1, of d1 len buf "k_in f + of_nat recsize"] room src e
    by (simp add: f1_def)
  moreover have "\<not> len + of_nat recsize > kfifo_unused f"
    using kfifo_unused_eq [OF inv] ul room by (simp add: word_less_nat_alt)
  ultimately have run: "kfifo_in_r f buf len recsize = Some (?f, len)"
    using kfifo_poke_n_ring [OF inv e d(1) r] by (simp add: kfifo_in_r_def f1_def d1_def)
  have sum: "k_cnt f + (unat len + recsize) \<le> k_size f" using room d(6) by simp
  have cnt: "k_cnt ?f = k_cnt f + (unat len + recsize)"
  proof -
    have "unat (k_in f - k_out f + (len + of_nat recsize)) = k_cnt f + (unat len + recsize)"
      using sum d(4) cap ul by (subst unat_add_nowrap) simp_all
    then show ?thesis by (simp add: algebra_simps)
  qed
  have "length ?d = length d" using pos d(5) fits lbs by simp
  then have "kfifo_inv ?f" using inv d(1) cnt sum by (simp add: kfifo_inv_def)
  moreover have "kfifo_bytes ?f = kfifo_bytes f @ ?bs"
    using ring_read_write [OF pos [of "k_out f"], of "k_cnt f" ?bs d] k_pos_in [OF inv] d(1,5) lbs cnt e sum cap
    by (simp add: kfifo_bytes_def)
  ultimately show ?thesis using run by (auto simp: kfifo_same_def)
qed

text \<open>Decoding the length of the record at the read index, and taking the record.\<close>

lemma ucast_byte_word: "n < 256 \<Longrightarrow> ucast (ucast (n :: u32) :: u8) = n"
  using bit_bounded_word [of n 8]
  by (intro bit_word_eqI) (auto simp: bit_ucast_iff)

lemma ucast_two_bytes_word:
  "n < 65536 \<Longrightarrow> ucast (ucast (n :: u32) :: u8) OR push_bit 8 (ucast (ucast (drop_bit 8 n) :: u8)) = n"
  using bit_bounded_word [of n 16]
  by (intro bit_word_eqI) (auto simp: bit_or_iff bit_push_bit_iff bit_ucast_iff bit_drop_bit_eq less_diff_conv2)

lemma nth_kfifo_bytes:
  "k_data f = Some d \<Longrightarrow> i < k_cnt f \<Longrightarrow> k_esize f = 1 \<Longrightarrow> kfifo_inv f \<Longrightarrow>
     kfifo_bytes f ! i = d ! k_pos f (k_out f + of_nat i)"
  using k_pos_add [of f "k_out f" "of_nat i"] unat_u32_less [of "k_in f - k_out f"]
  by (simp add: kfifo_bytes_def unat_of_nat take_bit_nat_eq_self)

lemma kfifo_peek_n_ring:
  assumes inv: "kfifo_inv f" and e: "k_esize f = 1" and r: "recsize \<in> {1, 2}"
    and b: "kfifo_bytes f = kfifo_hdr recsize n @ rest" and n: "unat n < 256 ^ recsize"
  shows "kfifo_peek_n f recsize = Some n"
proof -
  obtain d k where d: "k_data f = Some d" "k_mask f = mask k" "k_size f = 2 ^ k" "k_cap f \<le> length d" "k < 32"
    using kfifo_invD [OF inv] by metis
  have idx: "unat (i AND k_mask f) = k_pos f i" for i
    using d e by (simp add: unat_and_mask k_pos_def)
  have pos: "k_pos f i < length d" for i using k_pos_less [of f i] e d(4) by simp
  have "length (kfifo_bytes f) = k_cnt f" using d(1) e by (simp add: kfifo_bytes_def)
  with b have cnt: "recsize \<le> k_cnt f" using length_kfifo_hdr [OF r] by simp
  have v: "i < recsize \<Longrightarrow> d ! k_pos f (k_out f + of_nat i) = kfifo_hdr recsize n ! i" for i
    using nth_kfifo_bytes [OF d(1) _ e inv, of i] cnt b length_kfifo_hdr [OF r]
    by (simp add: nth_append)
  show ?thesis
    using r n d(1) idx pos [of "k_out f"] pos [of "k_out f + 1"] v [of 0] v [of 1]
    by (auto simp: kfifo_peek_n_def kfifo_hdr_def ucast_byte_word ucast_two_bytes_word
        word_less_nat_alt not_le Let_def)
qed

lemma kfifo_out_r_ring:
  assumes inv: "kfifo_inv f" and e: "k_esize f = 1" and r: "recsize \<in> {1, 2}"
    and b: "kfifo_bytes f = kfifo_hdr recsize n @ rec @ rest" and l: "length rec = unat n"
    and n: "unat n < 256 ^ recsize" and dst: "min (unat len) (unat n) \<le> length buf"
  shows "\<exists>f'. kfifo_out_r f buf len recsize =
      Some (f', overwrite buf 0 (take (unat len) rec), min len n) \<and>
    kfifo_inv f' \<and> kfifo_same f f' \<and> kfifo_bytes f' = rest"
proof -
  obtain d where d: "k_data f = Some d" "k_cnt f \<le> k_size f" "k_cap f < 2 ^ 32"
    using kfifo_invD [OF inv] by metis
  have cap: "k_cap f = k_size f" using e by (simp add: k_cap_def)
  have lb: "length (kfifo_bytes f) = k_cnt f" using d(1) e by (simp add: kfifo_bytes_def)
  have lh: "length (kfifo_hdr recsize n) = recsize" by (rule length_kfifo_hdr [OF r])
  have cnt: "k_cnt f = recsize + unat n + length rest" using lb b l lh by simp
  have ur: "unat (of_nat recsize :: u32) = recsize" using r by auto
  have un: "unat (n + of_nat recsize) = unat n + recsize"
    using cnt d cap ur by (subst unat_add_nowrap) simp_all
  have pk: "kfifo_peek_n f recsize = Some n" by (rule kfifo_peek_n_ring [OF inv e r b n])
  let ?m = "min len n"
  have um: "unat ?m = min (unat len) (unat n)" by (simp add: unat_min)
  have bytes: "kfifo_bytes f = ring_read d (k_cap f) (k_pos f (k_out f)) (recsize + (unat n + length rest))"
    using d(1) e cnt by (simp add: kfifo_bytes_def add.assoc)
  have p2: "k_pos f (k_out f + of_nat recsize) = (k_pos f (k_out f) + recsize) mod k_cap f"
    using k_pos_add [OF inv, of "k_out f" "of_nat recsize"] e ur by simp
  have "drop recsize (kfifo_bytes f) = rec @ rest" using b lh by simp
  then have rr: "ring_read d (k_cap f) (k_pos f (k_out f + of_nat recsize)) (unat n + length rest) = rec @ rest"
    by (simp add: bytes drop_ring_read p2)
  have "ring_read d (k_cap f) (k_pos f (k_out f + of_nat recsize)) (unat ?m) = take (unat ?m) (rec @ rest)"
    unfolding rr [symmetric] by (subst take_ring_read) (simp_all add: um)
  then have tk: "ring_read d (k_cap f) (k_pos f (k_out f + of_nat recsize)) (unat ?m) = take (unat len) rec"
    using l um by (simp add: min_def word_le_nat_alt split: if_splits)
  have co: "kfifo_copy_out f buf ?m (k_out f + of_nat recsize) = Some (overwrite buf 0 (take (unat len) rec))"
    using kfifo_copy_out_ring [OF inv d(1), of ?m buf "k_out f + of_nat recsize"] um cnt d(2) dst e tk
    by simp
  have ne: "k_in f \<noteq> k_out f" using cnt r by auto
  let ?f = "f\<lparr>k_out := k_out f + (n + of_nat recsize)\<rparr>"
  have m: "(if n < len then n else len) = ?m" by (auto simp: min_def)
  have run: "kfifo_out_r f buf len recsize = Some (?f, overwrite buf 0 (take (unat len) rec), ?m)"
    using ne pk co by (simp add: kfifo_out_r_def kfifo_out_copy_r_def m Let_def)
  have "n + of_nat recsize \<le> k_in f - k_out f" using cnt un by (simp add: word_le_nat_alt)
  then have "unat (k_in f - k_out f - (n + of_nat recsize)) = length rest"
    using cnt un by (simp add: unat_sub)
  then have cnt': "k_cnt ?f = length rest" by (simp add: algebra_simps)
  have "kfifo_inv ?f" using inv cnt' cnt d by (simp add: kfifo_inv_def)
  moreover have "kfifo_bytes ?f = rest"
  proof -
    have "k_pos f (k_out f + (n + of_nat recsize)) = (k_pos f (k_out f + of_nat recsize) + unat n) mod k_cap f"
      using k_pos_add [OF inv, of "k_out f + of_nat recsize" n] e by (simp add: algebra_simps)
    moreover have "drop (unat n) (rec @ rest) = rest" using l by simp
    ultimately show ?thesis
      using d(1) e cnt' by (simp add: kfifo_bytes_def drop_ring_read flip: rr)
  qed
  ultimately show ?thesis using run by (auto simp: kfifo_same_def)
qed
section \<open>The main results\<close>

text \<open>The bytes of a sequence of records, each with its header.\<close>

definition kfifo_frames :: "nat \<Rightarrow> u8 list list \<Rightarrow> u8 list" where
  "kfifo_frames recsize rs = concat (map (\<lambda>r. kfifo_hdr recsize (of_nat (length r)) @ r) rs)"

lemma unat_of_length: "length xs < 4294967296 \<Longrightarrow> unat (of_nat (length xs) :: u32) = length xs"
  by (simp add: unat_of_nat take_bit_nat_eq_self)

lemma recsize_bound: "recsize \<in> {1, 2} \<Longrightarrow> n < 256 ^ recsize \<Longrightarrow> n < (4294967296 :: nat)"
  by auto

lemma kfifo_mask_inv:
  assumes "unat sz = 2 ^ k" "0 < k" "k < 32" "e \<noteq> 0" "2 ^ k * unat e < 2 ^ 32" "2 ^ k * unat e \<le> length d"
  shows "kfifo_inv \<lparr>k_in = 0, k_out = 0, k_mask = sz - 1, k_esize = e, k_data = Some d\<rparr>"
proof -
  have "sz = 2 ^ k" using assms(1,3) by (simp add: word_unat_eq_iff unat_exp_word)
  then have m: "sz - 1 = mask k" by (simp add: mask_eq_exp_minus_1)
  then have "k_size \<lparr>k_in = 0, k_out = 0, k_mask = sz - 1, k_esize = e, k_data = Some d\<rparr> = 2 ^ k"
    using assms(3) by (simp add: k_size_def unat_mask_word)
  then show ?thesis using assms m by (auto simp: kfifo_inv_def k_cap_def)
qed

lemma kfifo_empty_bytes: "k_in f = k_out f \<Longrightarrow> kfifo_bytes f = []"
  by (simp add: kfifo_bytes_def split: option.split)

text \<open>\<^verbatim>\<open>__kfifo_init\<close> on a caller's buffer: it fails with \<open>EINVAL\<close> exactly when fewer than two
  elements fit; otherwise the FIFO is empty, satisfies the invariant and has the largest
  power-of-two number of elements that fits.
\<close>

theorem kfifo_init_correct:
  assumes "esize \<noteq> 0" "unat n \<le> length buffer"
  shows "\<exists>f. kfifo_init buffer n esize = Some (if unat n div unat esize < 2 then - EINVAL else 0, f) \<and>
    (2 \<le> unat n div unat esize \<longrightarrow> kfifo_inv f \<and> kfifo_bytes f = [] \<and>
       k_size f \<le> unat n div unat esize \<and> unat n div unat esize < 2 * k_size f)"
proof -
  let ?q = "n div esize"
  have q: "unat ?q = unat n div unat esize" by (simp add: unat_div)
  let ?sz = "if powerof2 ?q then ?q else rounddown_pow_of_two ?q"
  show ?thesis
  proof (cases "2 \<le> unat n div unat esize")
    case False
    have "?sz < 2"
    proof (cases "?q = 0")
      case True
      then show ?thesis by (simp add: powerof2_def)
    next
      case F: False
      then have "?q = 1" using False q by (simp add: word_unat_eq_iff unat_eq_zero)
      then show ?thesis by (simp add: powerof2_def)
    qed
    then show ?thesis using assms False by (simp add: kfifo_init_def Let_def)
  next
    case True
    then have nz: "?q \<noteq> 0" using q by auto
    then have sz: "?sz = rounddown_pow_of_two ?q" by (simp add: powerof2_rounddown)
    define k where "k = fls ?q - 1"
    have u: "unat ?sz = 2 ^ k" unfolding sz k_def by (rule rounddown_pow_of_two_eq [OF nz])
    note b = fls_bounds [OF nz]
    have "fls ?q = Suc k" using b(1) by (simp add: k_def)
    then have k: "2 ^ k \<le> unat ?q" "unat ?q < 2 * 2 ^ k" "k < 32"
      using b(2-4) by auto
    have k0: "0 < k" using k True q by (cases k) auto
    have "2 ^ k * unat esize \<le> unat ?q * unat esize" using k(1) by (rule mult_le_mono1)
    also have "\<dots> \<le> unat n" by (simp add: q)
    finally have le: "2 ^ k * unat esize \<le> unat n" .
    let ?f = "\<lparr>k_in = 0, k_out = 0, k_mask = ?sz - 1, k_esize = esize, k_data = Some buffer\<rparr>"
    have inv: "kfifo_inv ?f"
      using u k0 k(3) assms le unat_u32_less [of n] by (intro kfifo_mask_inv) auto
    have "\<not> ?sz < 2" using u k0 by (cases k) (auto simp: word_less_nat_alt)
    moreover have "k_size ?f = 2 ^ k"
    proof -
      have "unat (?sz - 1) = 2 ^ k - 1" using u by (subst unat_minus_one) (auto simp: word_unat_eq_iff)
      then show ?thesis by (simp add: k_size_def)
    qed
    ultimately show ?thesis
      using True assms inv k q by (simp add: kfifo_init_def Let_def kfifo_empty_bytes)
  qed
qed

theorem kfifo_init_witness:
  "\<exists>f. kfifo_init (replicate 8 0) 8 3 = Some (0, f) \<and> kfifo_inv f \<and> k_size f = 2"
  using kfifo_init_correct [of 3 8 "replicate 8 0"] by auto

text \<open>\<^verbatim>\<open>__kfifo_in\<close>: as many elements as fit are appended, the number accepted is returned,
  and the invariant and the geometry are kept.
\<close>

theorem kfifo_in_appends:
  assumes "kfifo_inv f" "min (unat len) (k_size f - k_cnt f) * unat (k_esize f) \<le> length buf"
  shows "\<exists>f' n. kfifo_in f buf len = Some (f', n) \<and> unat n = min (unat len) (k_size f - k_cnt f) \<and>
    kfifo_inv f' \<and> kfifo_same f f' \<and> k_cnt f' = k_cnt f + unat n \<and>
    kfifo_bytes f' = kfifo_bytes f @ take (unat n * unat (k_esize f)) buf"
proof -
  obtain n :: u32 where "unat n = min (unat len) (k_size f - k_cnt f)"
    using word_of_bounded_nat [where 'a = 32, of "min (unat len) (k_size f - k_cnt f)"] unat_u32_less [of len]
    by (auto simp: min_less_iff_disj)
  with kfifo_in_ring [of f n len buf] assms show ?thesis by metis
qed

text \<open>\<^verbatim>\<open>__kfifo_out\<close>: as many elements as are stored are delivered in order and removed;
  the rest of the caller's buffer is untouched.
\<close>

theorem kfifo_out_delivers:
  assumes "kfifo_inv f" "min (unat len) (k_cnt f) * unat (k_esize f) \<le> length buf"
  shows "\<exists>f' n. kfifo_out f buf len =
      Some (f', overwrite buf 0 (take (unat n * unat (k_esize f)) (kfifo_bytes f)), n) \<and>
    unat n = min (unat len) (k_cnt f) \<and> kfifo_inv f' \<and> kfifo_same f f' \<and> k_cnt f' = k_cnt f - unat n \<and>
    kfifo_bytes f' = drop (unat n * unat (k_esize f)) (kfifo_bytes f)"
proof -
  obtain n :: u32 where "unat n = min (unat len) (k_cnt f)"
    using word_of_bounded_nat [where 'a = 32, of "min (unat len) (k_cnt f)"] unat_u32_less [of len]
    by (auto simp: min_less_iff_disj)
  with kfifo_out_ring [of f n len buf] assms show ?thesis by metis
qed

text \<open>
  C8. Any interleaving of writes and reads through the FIFO is loss-free and in order: what
  was stored first followed by what the calls accepted is what they delivered followed by
  what is stored last; no call fails.
\<close>

theorem kfifo_stream_in_order:
  assumes "kfifo_inv f"
  shows "\<exists>f' w r. run_stream kfifo_put kfifo_get f ops = Some (f', w, r) \<and> kfifo_inv f' \<and>
    kfifo_bytes f @ w = r @ kfifo_bytes f'"
  using assms by (rule kq.stream_in_order)

text \<open>\<^verbatim>\<open>__kfifo_in_r\<close> on a FIFO of records: a record of representable length is appended
  whole with its header when both fit, and otherwise nothing changes and 0 is returned.
\<close>

theorem kfifo_in_r_appends_record:
  assumes inv: "kfifo_inv f" and e: "k_esize f = 1" and r: "recsize \<in> {1, 2}"
    and b: "kfifo_bytes f = kfifo_frames recsize rs" and l: "length rec < 256 ^ recsize"
  shows "if length rec + recsize \<le> k_size f - k_cnt f
    then \<exists>f'. kfifo_in_r f rec (of_nat (length rec)) recsize = Some (f', of_nat (length rec)) \<and>
           kfifo_inv f' \<and> kfifo_same f f' \<and> kfifo_bytes f' = kfifo_frames recsize (rs @ [rec])
    else kfifo_in_r f rec (of_nat (length rec)) recsize = Some (f, 0)"
proof -
  have u: "unat (of_nat (length rec) :: u32) = length rec"
    using recsize_bound [OF r l] by (rule unat_of_length)
  have ur: "unat (of_nat recsize :: u32) = recsize" using r by auto
  have us: "unat (of_nat (length rec) + of_nat recsize :: u32) = length rec + recsize"
    using r l u ur by (subst unat_add_nowrap) auto
  show ?thesis
  proof (cases "length rec + recsize \<le> k_size f - k_cnt f")
    case True
    with kfifo_in_r_ring [OF inv e r, of "of_nat (length rec)" rec] u b show ?thesis
      by (simp add: kfifo_frames_def)
  next
    case False
    then have "of_nat (length rec) + of_nat recsize > kfifo_unused f"
      using kfifo_unused_eq [OF inv] us by (simp add: word_less_nat_alt)
    with False show ?thesis by (simp add: kfifo_in_r_def)
  qed
qed

text \<open>
  C27. \<^verbatim>\<open>__kfifo_out_r\<close> on a FIFO of records: the first record is delivered, cut to the
  caller's buffer, and removed whole, so record boundaries survive short reads.
\<close>

theorem kfifo_out_r_delivers_record:
  assumes inv: "kfifo_inv f" and e: "k_esize f = 1" and r: "recsize \<in> {1, 2}"
    and b: "kfifo_bytes f = kfifo_frames recsize (rec # rs)" and l: "length rec < 256 ^ recsize"
    and dst: "min (unat len) (length rec) \<le> length buf"
  shows "\<exists>f'. kfifo_out_r f buf len recsize =
      Some (f', overwrite buf 0 (take (unat len) rec), min len (of_nat (length rec))) \<and>
    kfifo_inv f' \<and> kfifo_same f f' \<and> kfifo_bytes f' = kfifo_frames recsize rs"
proof -
  have u: "unat (of_nat (length rec) :: u32) = length rec"
    using recsize_bound [OF r l] by (rule unat_of_length)
  show ?thesis
    by (rule kfifo_out_r_ring [OF inv e r]) (use b l dst u in \<open>simp_all add: kfifo_frames_def\<close>)
qed

text \<open>A concrete FIFO: eight bytes, the indices about to wrap, two 3-byte records waiting.\<close>

definition kfifo_demo :: kfifo where
  "kfifo_demo = \<lparr>k_in = 2, k_out = 0xFFFFFFFC, k_mask = 7, k_esize = 1,
     k_data = Some [20, 30, 9, 9, 2, 10, 11, 2]\<rparr>"

lemma kfifo_demo_geom [simp]:
  "k_size kfifo_demo = 8" "k_cap kfifo_demo = 8" "k_cnt kfifo_demo = 6" "k_esize kfifo_demo = 1"
  by (simp_all add: kfifo_demo_def k_size_def k_cap_def)

lemma kfifo_demo_inv: "kfifo_inv kfifo_demo"
proof -
  have "k_mask kfifo_demo = mask 3" by (simp add: kfifo_demo_def mask_eq_exp_minus_1)
  then have "k_mask kfifo_demo \<in> set (map mask [1..<32])" by simp
  then show ?thesis by (simp add: kfifo_inv_def) (simp add: kfifo_demo_def k_cap_def k_size_def)
qed

lemma kfifo_demo_bytes: "kfifo_bytes kfifo_demo = [2, 10, 11, 2, 20, 30]"
  by (simp add: kfifo_bytes_def)
     (simp add: kfifo_demo_def ring_read_def k_pos_def k_cap_def k_size_def upt_rec)

lemma kfifo_demo_frames: "kfifo_bytes kfifo_demo = kfifo_frames 1 [[10, 11], [20, 30]]"
  by (simp add: kfifo_demo_bytes kfifo_frames_def kfifo_hdr_def)

theorem kfifo_in_witness:
  "\<exists>f' n. kfifo_in kfifo_demo [5, 6, 7] 3 = Some (f', n) \<and> unat n = 2 \<and>
     kfifo_bytes f' = [2, 10, 11, 2, 20, 30, 5, 6]"
  using kfifo_in_appends [OF kfifo_demo_inv, of 3 "[5, 6, 7]"] by (auto simp: kfifo_demo_bytes)

theorem kfifo_out_witness:
  "\<exists>f' n. kfifo_out kfifo_demo [0, 0, 0, 0] 4 = Some (f', [2, 10, 11, 2], n) \<and> kfifo_bytes f' = [20, 30]"
  using kfifo_out_delivers [OF kfifo_demo_inv, of 4 "[0, 0, 0, 0]"]
  by (auto simp: kfifo_demo_bytes overwrite_def)

theorem kfifo_stream_witness:
  "\<exists>f' w r. run_stream kfifo_put kfifo_get kfifo_demo [Put [5, 6, 7], Get 8] = Some (f', w, r) \<and>
     [2, 10, 11, 2, 20, 30] @ w = r @ kfifo_bytes f'"
  using kfifo_stream_in_order [OF kfifo_demo_inv, of "[Put [5, 6, 7], Get 8]"] 
  by (metis kfifo_demo_bytes)

theorem kfifo_in_r_witness:
  "(\<exists>f'. kfifo_in_r kfifo_demo [7] 1 1 = Some (f', 1) \<and>
      kfifo_bytes f' = kfifo_frames 1 [[10, 11], [20, 30], [7]])"
  using kfifo_in_r_appends_record [OF kfifo_demo_inv _ _ kfifo_demo_frames, of "[7]"] by auto

theorem kfifo_out_r_witness:
  "\<exists>f'. kfifo_out_r kfifo_demo [0] 1 1 = Some (f', [10], 1) \<and> kfifo_bytes f' = kfifo_frames 1 [[20, 30]]"
  using kfifo_out_r_delivers_record [OF kfifo_demo_inv _ _ kfifo_demo_frames, of 1 "[0]"]
  by (auto simp: overwrite_def min_def)
end
