(* ===== verification/Disk.thy ===== *)
theory Disk
  imports Prelude
begin

text \<open>
  \<^verbatim>\<open>basework/dev/disk.c\<close>: the disk device layer, and
  \<^verbatim>\<open>basework/os/posix/os_vflash_impl.cc\<close>, the memory-backed flash the host build
  registers. A driver's callbacks are functions on the state \<open>'s\<close> of the hardware; they
  return \<^const>\<open>None\<close> when the driver accesses memory it must not. Offsets and sizes are the
  unsigned 32-bit values of the C variables, with the wrap-around of their sum written out.
\<close>

section \<open>Devices and their operations\<close>

text \<open>
  \<^verbatim>\<open>struct disk_device\<close>: \<open>dd_id\<close> stands for the address of the structure, which is what
  the callers compare; a null callback is \<^const>\<open>None\<close>. A read callback returns the bytes it
  stored at the start of the caller's buffer.
\<close>

record 's disk_device =
  dd_id :: nat
  dd_dev :: nat
  dd_len :: nat
  dd_blk_size :: nat
  dd_get_name :: string
  dd_read :: "('s \<Rightarrow> nat \<Rightarrow> nat \<Rightarrow> ('s \<times> int \<times> u8 list) option) option"
  dd_write :: "('s \<Rightarrow> u8 list \<Rightarrow> nat \<Rightarrow> ('s \<times> int) option) option"
  dd_erase :: "('s \<Rightarrow> nat \<Rightarrow> nat \<Rightarrow> ('s \<times> int) option) option"
  dd_ioctl :: "('s \<Rightarrow> nat \<Rightarrow> nat option \<Rightarrow> ('s \<times> int \<times> nat option) option) option"

fun disk_device_open :: "'s disk_device list \<Rightarrow> string \<Rightarrow> int \<times> 's disk_device option" where
  "disk_device_open [] name = (- ENODEV, None)"
| "disk_device_open (pd # disks) name =
     (if dd_get_name pd = name then (0, Some pd) else disk_device_open disks name)"

definition disk_device_close :: "'s disk_device \<Rightarrow> int" where
  "disk_device_close dd = 0"

definition disk_device_write ::
    "'s disk_device \<Rightarrow> 's \<Rightarrow> u8 list option \<Rightarrow> nat \<Rightarrow> nat \<Rightarrow> ('s \<times> int) option" where
  "disk_device_write dd s buf sz offset =
     (case dd_write dd of
        None \<Rightarrow> None
      | Some wr \<Rightarrow>
          (case buf of
             None \<Rightarrow> Some (s, - EINVAL)
           | Some b \<Rightarrow>
               if sz = 0 then Some (s, 0)
               else if wrap32 (offset + sz) > dd_len dd then Some (s, - EINVAL)
               else do { bs \<leftarrow> mem_read b 0 sz; wr s bs offset }))"

definition disk_device_read ::
    "'s disk_device \<Rightarrow> 's \<Rightarrow> u8 list option \<Rightarrow> nat \<Rightarrow> nat \<Rightarrow> ('s \<times> int \<times> u8 list option) option" where
  "disk_device_read dd s buf sz offset =
     (case dd_read dd of
        None \<Rightarrow> None
      | Some rd \<Rightarrow>
          (case buf of
             None \<Rightarrow> Some (s, - EINVAL, None)
           | Some b \<Rightarrow>
               if sz = 0 then Some (s, 0, Some b)
               else if wrap32 (offset + sz) > dd_len dd then Some (s, - EINVAL, Some b)
               else do {
                 (s', ret, bs) \<leftarrow> rd s sz offset;
                 b' \<leftarrow> mem_write b 0 bs;
                 Some (s', ret, Some b')
               }))"

text \<open>\<open>x & (blk_size - 1)\<close> on 32-bit values; a block size of 0 gives the mask of all ones.\<close>

definition blk_rem :: "nat \<Rightarrow> nat \<Rightarrow> nat" where
  "blk_rem x blk = x AND wrap32 (blk + (2 ^ 32 - 1))"

definition disk_device_erase ::
    "'s disk_device \<Rightarrow> 's \<Rightarrow> nat \<Rightarrow> nat \<Rightarrow> ('s \<times> int) option" where
  "disk_device_erase dd s offset sz =
     (case dd_erase dd of
        None \<Rightarrow> None
      | Some er \<Rightarrow>
          if blk_rem offset (dd_blk_size dd) \<noteq> 0 then Some (s, - EINVAL)
          else if blk_rem sz (dd_blk_size dd) \<noteq> 0 then Some (s, - EINVAL)
          else if sz = 0 then Some (s, 0)
          else if wrap32 (offset + sz) > dd_len dd then Some (s, - EINVAL)
          else er s offset sz)"

definition DISK_GETBLKSIZE :: nat where "DISK_GETBLKSIZE = 0x10"
definition DISK_GETCAPACITY :: nat where "DISK_GETCAPACITY = 0x11"

text \<open>\<open>arg\<close> is the value the pointer argument refers to; writing through a null pointer fails the assertion.\<close>

definition disk_device_ioctl ::
    "'s disk_device \<Rightarrow> 's \<Rightarrow> nat \<Rightarrow> nat option \<Rightarrow> ('s \<times> int \<times> nat option) option" where
  "disk_device_ioctl dd s cmd arg =
     (case dd_ioctl dd of
        None \<Rightarrow> None
      | Some io \<Rightarrow>
          if cmd = DISK_GETBLKSIZE then (if arg = None then None else Some (s, 0, Some (dd_blk_size dd)))
          else if cmd = DISK_GETCAPACITY then (if arg = None then None else Some (s, 0, Some (dd_len dd)))
          else io s cmd arg)"

text \<open>The parameter checks of \<^verbatim>\<open>disk_device_register\<close>.\<close>

definition disk_device_valid :: "'s disk_device \<Rightarrow> bool" where
  "disk_device_valid dd \<longleftrightarrow>
     \<not> (dd_dev dd = 0 \<or> dd_len dd = 0) \<and> blk_rem (dd_blk_size dd) (dd_blk_size dd) = 0 \<and>
     \<not> (dd_read dd = None \<or> dd_write dd = None \<or> dd_erase dd = None)"

section \<open>The virtual flash\<close>

definition FLASH_PGSZ :: nat where "FLASH_PGSZ = 4096"
definition FLASH_CAPACITY :: nat where "FLASH_CAPACITY = 5 * 1024 * 1024"
definition FLASH_DEVNAME :: string where "FLASH_DEVNAME = ''virtual-flash''"

definition virtual_flash_read :: "u8 list \<Rightarrow> nat \<Rightarrow> nat \<Rightarrow> (u8 list \<times> int \<times> u8 list) option" where
  "virtual_flash_read m sz offset =
     (if wrap32 (offset + sz) > FLASH_CAPACITY then Some (m, - EINVAL, [])
      else do { bs \<leftarrow> mem_read m offset sz; Some (m, int sz, bs) })"

definition virtual_flash_write :: "u8 list \<Rightarrow> u8 list \<Rightarrow> nat \<Rightarrow> (u8 list \<times> int) option" where
  "virtual_flash_write m buf offset =
     (if wrap32 (offset + length buf) > FLASH_CAPACITY then Some (m, - EINVAL)
      else do { m' \<leftarrow> mem_write m offset buf; Some (m', int (length buf)) })"

definition virtual_flash_erase :: "u8 list \<Rightarrow> nat \<Rightarrow> nat \<Rightarrow> (u8 list \<times> int) option" where
  "virtual_flash_erase m offset sz =
     (if wrap32 (offset + sz) > FLASH_CAPACITY then Some (m, - EINVAL)
      else if offset mod FLASH_PGSZ \<noteq> 0 then Some (m, - EINVAL)
      else if sz mod FLASH_PGSZ \<noteq> 0 then Some (m, - EINVAL)
      else do { m' \<leftarrow> mem_write m offset (replicate sz 0xFF); Some (m', 0) })"

definition ENOSYS :: int where "ENOSYS = 88"

definition virtual_flash_ioctl ::
    "u8 list \<Rightarrow> nat \<Rightarrow> nat option \<Rightarrow> (u8 list \<times> int \<times> nat option) option" where
  "virtual_flash_ioctl m cmd arg = Some (m, - ENOSYS, arg)"

definition vdisk :: "u8 list disk_device" where
  "vdisk = \<lparr>dd_id = 1, dd_dev = 1, dd_len = FLASH_CAPACITY, dd_blk_size = FLASH_PGSZ,
     dd_get_name = FLASH_DEVNAME, dd_read = Some virtual_flash_read,
     dd_write = Some virtual_flash_write, dd_erase = Some virtual_flash_erase,
     dd_ioctl = Some virtual_flash_ioctl\<rparr>"

section \<open>What the layers above rely on\<close>

lemma blk_rem_pow2:
  assumes "blk = 2 ^ k" "k < 32"
  shows "blk_rem x blk = x mod blk"
proof -
  have lt: "blk - 1 < 2 ^ 32" using assms power_strict_increasing [of k 32 "2::nat"] by simp
  have "blk + (2 ^ 32 - 1) = (blk - 1) + 2 ^ 32" using assms by simp
  then have "wrap32 (blk + (2 ^ 32 - 1)) = (blk - 1) mod 2 ^ 32" by (simp only: wrap32_def mod_add_self2)
  also have "\<dots> = blk - 1" using lt by (rule mod_less)
  also have "\<dots> = mask k" using assms by (simp add: mask_eq_exp_minus_1)
  finally show ?thesis using assms by (simp add: blk_rem_def take_bit_eq_mod flip: take_bit_eq_mask)
qed

text \<open>
  The contract of a set of flash devices. \<open>cont d s\<close> is what device \<open>d\<close> stores in the
  hardware state \<open>s\<close>. An erase fills whole blocks with ones, a write is only promised to work
  on erased bytes (NOR flash cannot set a bit again), and no device affects another one.
\<close>

definition erased :: "u8 list \<Rightarrow> nat \<Rightarrow> nat \<Rightarrow> bool" where
  "erased m off n \<longleftrightarrow> take n (drop off m) = replicate n 0xFF"

locale flash_devices =
  fixes devs :: "'s disk_device set" and cont :: "'s disk_device \<Rightarrow> 's \<Rightarrow> u8 list"
    and ok :: "'s \<Rightarrow> bool"
  assumes ids: "d \<in> devs \<Longrightarrow> d' \<in> devs \<Longrightarrow> dd_id d = dd_id d' \<Longrightarrow> d = d'"
    and blk: "d \<in> devs \<Longrightarrow> \<exists>k < 32. dd_blk_size d = 2 ^ k"
    and len: "d \<in> devs \<Longrightarrow> dd_blk_size d dvd dd_len d" "d \<in> devs \<Longrightarrow> dd_len d < 2 ^ 32"
    and cont_len: "d \<in> devs \<Longrightarrow> ok s \<Longrightarrow> length (cont d s) = dd_len d"
    and read_law: "d \<in> devs \<Longrightarrow> ok s \<Longrightarrow> 0 < n \<Longrightarrow> off + n \<le> dd_len d \<Longrightarrow>
      \<exists>rd ret. dd_read d = Some rd \<and> 0 \<le> ret \<and> rd s n off = Some (s, ret, take n (drop off (cont d s)))"
    and erase_law: "d \<in> devs \<Longrightarrow> ok s \<Longrightarrow> 0 < n \<Longrightarrow> off + n \<le> dd_len d \<Longrightarrow>
      dd_blk_size d dvd off \<Longrightarrow> dd_blk_size d dvd n \<Longrightarrow>
      \<exists>er s'. dd_erase d = Some er \<and> er s off n = Some (s', 0) \<and> ok s' \<and>
        cont d s' = overwrite (cont d s) off (replicate n 0xFF) \<and>
        (\<forall>d' \<in> devs. d' \<noteq> d \<longrightarrow> cont d' s' = cont d' s)"
    and write_law: "d \<in> devs \<Longrightarrow> ok s \<Longrightarrow> bs \<noteq> [] \<Longrightarrow> off + length bs \<le> dd_len d \<Longrightarrow>
      erased (cont d s) off (length bs) \<Longrightarrow>
      \<exists>wr ret s'. dd_write d = Some wr \<and> 0 \<le> ret \<and> wr s bs off = Some (s', ret) \<and> ok s' \<and>
        cont d s' = overwrite (cont d s) off bs \<and> (\<forall>d' \<in> devs. d' \<noteq> d \<longrightarrow> cont d' s' = cont d' s)"
begin

lemma blk_pos: "d \<in> devs \<Longrightarrow> 0 < dd_blk_size d"
  using blk by force

lemma blk_rem_mod: "d \<in> devs \<Longrightarrow> blk_rem x (dd_blk_size d) = x mod dd_blk_size d"
  using blk blk_rem_pow2 by blast

lemma disk_read_ok:
  assumes "d \<in> devs" "ok s" "off + n \<le> dd_len d" "0 < n" "n \<le> length b"
  shows "\<exists>ret \<ge> 0. disk_device_read d s (Some b) n off =
    Some (s, ret, Some (overwrite b 0 (take n (drop off (cont d s)))))"
proof -
  have "wrap32 (off + n) = off + n" using assms len(2) [OF assms(1)] by (intro wrap32_id) simp
  moreover obtain rd ret where "dd_read d = Some rd" "0 \<le> ret"
    "rd s n off = Some (s, ret, take n (drop off (cont d s)))"
    using read_law [OF assms(1,2,4,3)] by blast
  moreover have "length (take n (drop off (cont d s))) = n"
    using assms cont_len [OF assms(1,2)] by simp
  ultimately show ?thesis using assms by (auto simp: disk_device_read_def)
qed

text \<open>Erasing a block and writing it back stores the buffer, whatever was there.\<close>

lemma disk_erase_write_ok:
  assumes "d \<in> devs" "ok s" "off + dd_blk_size d \<le> dd_len d" "dd_blk_size d dvd off"
    "dd_blk_size d \<le> length b"
  shows "\<exists>s1 s' ret. disk_device_erase d s off (dd_blk_size d) = Some (s1, 0) \<and>
    disk_device_write d s1 (Some b) (dd_blk_size d) off = Some (s', ret) \<and> 0 \<le> ret \<and> ok s' \<and>
    cont d s' = overwrite (cont d s) off (take (dd_blk_size d) b) \<and>
    (\<forall>d' \<in> devs. d' \<noteq> d \<longrightarrow> cont d' s' = cont d' s)"
proof -
  let ?n = "dd_blk_size d"
  have n: "0 < ?n" by (rule blk_pos [OF assms(1)])
  have w: "wrap32 (off + ?n) = off + ?n" using assms len(2) [OF assms(1)] by (intro wrap32_id) simp
  obtain er s1 where e: "dd_erase d = Some er" "er s off ?n = Some (s1, 0)" "ok s1"
    "cont d s1 = overwrite (cont d s) off (replicate ?n 0xFF)"
    "\<forall>d' \<in> devs. d' \<noteq> d \<longrightarrow> cont d' s1 = cont d' s"
    using erase_law [OF assms(1,2) n assms(3,4)] by auto
  have lb: "length (take ?n b) = ?n" using assms(5) by simp
  then have ne: "take ?n b \<noteq> []" using n by (metis list.size(3) less_irrefl)
  have lc: "length (cont d s) = dd_len d" by (rule cont_len [OF assms(1,2)])
  have "erased (cont d s1) off (length (take ?n b))"
    using take_drop_overwrite_same [of off "replicate ?n 0xFF" "cont d s"] lb lc assms(3)
    by (simp add: erased_def e(4))
  then obtain wr ret s' where w': "dd_write d = Some wr" "0 \<le> ret" "wr s1 (take ?n b) off = Some (s', ret)"
    "ok s'" "cont d s' = overwrite (cont d s1) off (take ?n b)"
    "\<forall>d' \<in> devs. d' \<noteq> d \<longrightarrow> cont d' s' = cont d' s1"
    using write_law [OF assms(1) e(3) ne, of off] lb assms(3) by auto
  have "disk_device_erase d s off ?n = Some (s1, 0)"
    using e(1,2) w assms(3,4) n by (simp add: disk_device_erase_def blk_rem_mod [OF assms(1)])
  moreover have "disk_device_write d s1 (Some b) ?n off = Some (s', ret)"
    using w'(1,3) w assms(3,5) n by (simp add: disk_device_write_def)
  moreover have "cont d s' = overwrite (cont d s) off (take ?n b)"
    unfolding w'(5) e(4) using assms(3) lb lc by (intro overwrite_overwrite_same) simp_all
  moreover have "\<forall>d' \<in> devs. d' \<noteq> d \<longrightarrow> cont d' s' = cont d' s" using w'(6) e(5) by simp
  ultimately show ?thesis using w'(2,4) by blast
qed

end

interpretation vf: flash_devices "{vdisk}" "\<lambda>d m. m" "\<lambda>m. length m = FLASH_CAPACITY"
proof
  show "\<exists>k<32. dd_blk_size d = 2 ^ k" if "d \<in> {vdisk}" for d :: "u8 list disk_device"
    using that by (auto simp: vdisk_def FLASH_PGSZ_def intro: exI [of _ 12])
qed (auto simp: vdisk_def FLASH_PGSZ_def FLASH_CAPACITY_def virtual_flash_read_def
  virtual_flash_write_def virtual_flash_erase_def wrap32_def)

end
