(* ===== verification/Blkdev.thy ===== *)
theory Blkdev
  imports Disk "HOL-Library.Multiset"
begin

text \<open>
  \<^verbatim>\<open>basework/dev/blkdev.c\<close>: the write-back block cache between the partitions and the disk
  devices, with \<^verbatim>\<open>disk_device_register\<close>, which starts it. The buffer heads on the two
  lists are values; a buffer head a caller holds is on neither list. The mutex is a flag:
  locking it twice or releasing it unlocked gives \<^const>\<open>None\<close>, as does every access through an
  uninitialised pointer.
\<close>

section \<open>State and operations\<close>

definition CONFIG_BLKDEV_NR_BUFS :: nat where "CONFIG_BLKDEV_NR_BUFS = 4"
definition CONFIG_BLKDEV_MAX_BLKSZ :: nat where "CONFIG_BLKDEV_MAX_BLKSZ = 4096"
definition CONFIG_BLKDEV_SWAP_PERIOD :: int where "CONFIG_BLKDEV_SWAP_PERIOD = 2000"
definition CONFIG_BLKDEV_HOLD_TIME :: int where "CONFIG_BLKDEV_HOLD_TIME = 10000"

datatype bh_state = BH_STATE_INVALD | BH_STATE_DIRTY | BH_STATE_CACHED

record 's bh_desc =
  bh_dd :: "'s disk_device option"
  bh_buffer :: "u8 list"
  bh_blkno :: nat
  bh_state :: bh_state
  bh_hold :: int

record 's blkdev =
  cached_list :: "'s bh_desc list"
  dirty_list :: "'s bh_desc list"
  cache_hits :: int
  cache_missed :: int
  bh_initialized :: bool
  bh_locked :: bool
  bd_dev :: 's

definition mtx_lock :: "'s blkdev \<Rightarrow> 's blkdev option" where
  "mtx_lock st = (if bh_locked st then None else Some (st\<lparr>bh_locked := True\<rparr>))"

definition mtx_unlock :: "'s blkdev \<Rightarrow> 's blkdev option" where
  "mtx_unlock st = (if bh_locked st then Some (st\<lparr>bh_locked := False\<rparr>) else None)"

definition bh_enqueue_dirty :: "'s bh_desc \<Rightarrow> 's blkdev \<Rightarrow> 's blkdev" where
  "bh_enqueue_dirty bh st =
     st\<lparr>dirty_list := dirty_list st @ [bh\<lparr>bh_hold := CONFIG_BLKDEV_HOLD_TIME\<rparr>]\<rparr>"

definition bh_enqueue_cached :: "'s bh_desc \<Rightarrow> 's blkdev \<Rightarrow> 's blkdev" where
  "bh_enqueue_cached bh st = st\<lparr>cached_list := cached_list st @ [bh]\<rparr>"

text \<open>
  The loop of \<^verbatim>\<open>blkdev_sync_locked\<close>: the hardware state, the buffer heads that stay dirty and
  those that were written back. A failing erase or write ends it.
\<close>

fun sync_loop ::
    "int \<Rightarrow> 's \<Rightarrow> 's bh_desc list \<Rightarrow> ('s \<times> 's bh_desc list \<times> 's bh_desc list) option" where
  "sync_loop expired s [] = Some (s, [], [])"
| "sync_loop expired s (bh # rest) =
     (if bh_hold bh > expired
      then do {
        (s', k, m) \<leftarrow> sync_loop expired s rest;
        Some (s', bh\<lparr>bh_hold := bh_hold bh - expired\<rparr> # k, m)
      }
      else case bh_dd bh of
        None \<Rightarrow> None
      | Some dd \<Rightarrow>
          let ofs = wrap32 (dd_blk_size dd * bh_blkno bh) in
          do {
            (s1, err) \<leftarrow> disk_device_erase dd s ofs (dd_blk_size dd);
            if err \<noteq> 0 then Some (s1, bh # rest, [])
            else do {
              (s2, err) \<leftarrow> disk_device_write dd s1 (Some (bh_buffer bh)) (dd_blk_size dd) ofs;
              if err < 0 then Some (s2, bh # rest, [])
              else do {
                (s', k, m) \<leftarrow> sync_loop expired s2 rest;
                Some (s', k, bh\<lparr>bh_state := BH_STATE_CACHED\<rparr> # m)
              }
            }
          })"

text \<open>The result is 0 whatever the loop met.\<close>

definition blkdev_sync_locked :: "int \<Rightarrow> 's blkdev \<Rightarrow> ('s blkdev \<times> int) option" where
  "blkdev_sync_locked expired st =
     do {
       (s', k, m) \<leftarrow> sync_loop expired (bd_dev st) (dirty_list st);
       Some (st\<lparr>bd_dev := s', dirty_list := k, cached_list := cached_list st @ m\<rparr>, 0)
     }"

text \<open>The timer callback; re-arming the timer is outside the state.\<close>

definition bh_check_cb :: "'s blkdev \<Rightarrow> 's blkdev option" where
  "bh_check_cb st =
     do {
       st1 \<leftarrow> mtx_lock st;
       (st2, err) \<leftarrow> blkdev_sync_locked CONFIG_BLKDEV_SWAP_PERIOD st1;
       mtx_unlock st2
     }"

definition bh_release_modified :: "'s bh_desc \<Rightarrow> 's blkdev \<Rightarrow> 's blkdev option" where
  "bh_release_modified bh st = mtx_unlock (bh_enqueue_dirty (bh\<lparr>bh_state := BH_STATE_DIRTY\<rparr>) st)"

definition bh_release :: "'s bh_desc \<Rightarrow> 's blkdev \<Rightarrow> 's blkdev option" where
  "bh_release bh st =
     mtx_unlock (if bh_state bh = BH_STATE_DIRTY then bh_enqueue_dirty bh st else bh_enqueue_cached bh st)"

definition bh_matches :: "'s disk_device \<Rightarrow> nat \<Rightarrow> 's bh_desc \<Rightarrow> bool" where
  "bh_matches dd blkno bh \<longleftrightarrow>
     (case bh_dd bh of None \<Rightarrow> False | Some d \<Rightarrow> dd_id d = dd_id dd) \<and> bh_blkno bh = blkno"

text \<open>The first matching buffer head of a list, unlinked from it.\<close>

fun bh_unlink :: "('s bh_desc \<Rightarrow> bool) \<Rightarrow> 's bh_desc list \<Rightarrow> ('s bh_desc \<times> 's bh_desc list) option" where
  "bh_unlink P [] = None"
| "bh_unlink P (bh # rest) =
     (if P bh then Some (bh, rest)
      else do { (b, r) \<leftarrow> bh_unlink P rest; Some (b, bh # r) })"

definition bh_search_locked ::
    "'s disk_device \<Rightarrow> nat \<Rightarrow> 's blkdev \<Rightarrow> ('s blkdev \<times> 's bh_desc) option" where
  "bh_search_locked dd blkno st =
     (case bh_unlink (bh_matches dd blkno) (cached_list st) of
        Some (bh, rest) \<Rightarrow> Some (st\<lparr>cache_hits := cache_hits st + 1, cached_list := rest\<rparr>, bh)
      | None \<Rightarrow>
          (case bh_unlink (bh_matches dd blkno) (dirty_list st) of
             Some (bh, rest) \<Rightarrow> Some (st\<lparr>cache_hits := cache_hits st + 1, dirty_list := rest\<rparr>, bh)
           | None \<Rightarrow>
               do {
                 st1 \<leftarrow> (if cached_list st = []
                         then map_option fst (blkdev_sync_locked CONFIG_BLKDEV_HOLD_TIME st)
                         else Some st);
                 (case cached_list st1 of
                    [] \<Rightarrow> None
                  | bh # rest \<Rightarrow>
                      Some (st1\<lparr>cache_missed := cache_missed st1 + 1, cached_list := rest\<rparr>,
                            bh\<lparr>bh_blkno := blkno, bh_dd := Some dd, bh_state := BH_STATE_INVALD\<rparr>))
               }))"

definition bh_get :: "'s disk_device \<Rightarrow> nat \<Rightarrow> 's blkdev \<Rightarrow> ('s blkdev \<times> (int + 's bh_desc)) option" where
  "bh_get dd blkno st =
     do { st1 \<leftarrow> mtx_lock st; (st2, bh) \<leftarrow> bh_search_locked dd blkno st1; Some (st2, Inr bh) }"

definition bh_read :: "'s disk_device \<Rightarrow> nat \<Rightarrow> 's blkdev \<Rightarrow> ('s blkdev \<times> (int + 's bh_desc)) option" where
  "bh_read dd blkno st =
     do {
       st1 \<leftarrow> mtx_lock st;
       (st2, bh) \<leftarrow> bh_search_locked dd blkno st1;
       if bh_state bh \<noteq> BH_STATE_INVALD then Some (st2, Inr bh)
       else do {
         (s', err, buf) \<leftarrow> disk_device_read dd (bd_dev st2) (Some (bh_buffer bh)) (dd_blk_size dd)
                            (wrap32 (dd_blk_size dd * bh_blkno bh));
         b \<leftarrow> buf;
         let bh' = bh\<lparr>bh_buffer := b\<rparr>;
         let st3 = st2\<lparr>bd_dev := s'\<rparr>;
         if err < 0 then do { st4 \<leftarrow> bh_release bh' st3; Some (st4, Inl err) }
         else Some (st3, Inr (bh'\<lparr>bh_state := BH_STATE_CACHED\<rparr>))
       }
     }"

definition blkdev_sync :: "'s blkdev \<Rightarrow> ('s blkdev \<times> int) option" where
  "blkdev_sync st =
     do {
       st1 \<leftarrow> mtx_lock st;
       (st2, err) \<leftarrow> blkdev_sync_locked CONFIG_BLKDEV_HOLD_TIME st1;
       st3 \<leftarrow> mtx_unlock st2;
       Some (st3, err)
     }"

text \<open>
  The write loop. When \<^verbatim>\<open>bh_read\<close> fails, the error path releases \<^verbatim>\<open>bh\<close>, which is
  uninitialised or already on a list, with the mutex free: undefined behaviour, hence
  \<^const>\<open>None\<close>. The in-block offset is always below the block size.
\<close>

function blkdev_write_loop ::
    "'s disk_device \<Rightarrow> 's blkdev \<Rightarrow> u8 list \<Rightarrow> nat \<Rightarrow> nat \<Rightarrow> nat \<Rightarrow> 's blkdev option" where
  "blkdev_write_loop dd st src remain blkno blkofs =
     (if remain = 0 then Some st
      else if dd_blk_size dd \<le> blkofs then None
      else do {
        (st1, r) \<leftarrow> (if blkofs = 0 \<and> remain \<ge> dd_blk_size dd then bh_get dd blkno st
                     else bh_read dd blkno st);
        case r of
          Inl err \<Rightarrow> None
        | Inr bh \<Rightarrow>
            do {
              let bytes = min (dd_blk_size dd - blkofs) remain;
              bs \<leftarrow> mem_read src 0 bytes;
              buf \<leftarrow> mem_write (bh_buffer bh) blkofs bs;
              st2 \<leftarrow> bh_release_modified (bh\<lparr>bh_buffer := buf\<rparr>) st1;
              blkdev_write_loop dd st2 (drop bytes src) (remain - bytes) (wrap32 (blkno + 1)) 0
            }
      })"
  by pat_completeness auto
termination by (relation "measure (\<lambda>(dd, st, src, remain, blkno, blkofs). remain)") auto

definition blkdev_write ::
    "'s disk_device \<Rightarrow> u8 list \<Rightarrow> nat \<Rightarrow> nat \<Rightarrow> 's blkdev \<Rightarrow> ('s blkdev \<times> int) option" where
  "blkdev_write dd buf sz offset st =
     (if dd_blk_size dd = 0 then None
      else do {
        st' \<leftarrow> blkdev_write_loop dd st buf sz (offset div dd_blk_size dd) (offset mod dd_blk_size dd);
        Some (st', int sz)
      })"

text \<open>The read loop collects the bytes it stores at the advancing destination.\<close>

function blkdev_read_loop ::
    "'s disk_device \<Rightarrow> 's blkdev \<Rightarrow> nat \<Rightarrow> nat \<Rightarrow> nat \<Rightarrow> ('s blkdev \<times> u8 list) option" where
  "blkdev_read_loop dd st remain blkno blkofs =
     (if remain = 0 then Some (st, [])
      else if dd_blk_size dd \<le> blkofs then None
      else do {
        (st1, r) \<leftarrow> bh_read dd blkno st;
        case r of
          Inl err \<Rightarrow> None
        | Inr bh \<Rightarrow>
            do {
              let bytes = min (dd_blk_size dd - blkofs) remain;
              bs \<leftarrow> mem_read (bh_buffer bh) blkofs bytes;
              st2 \<leftarrow> bh_release bh st1;
              (st3, out) \<leftarrow> blkdev_read_loop dd st2 (remain - bytes) (wrap32 (blkno + 1)) 0;
              Some (st3, bs @ out)
            }
      })"
  by pat_completeness auto
termination by (relation "measure (\<lambda>(dd, st, remain, blkno, blkofs). remain)") auto

definition blkdev_read ::
    "'s disk_device \<Rightarrow> u8 list \<Rightarrow> nat \<Rightarrow> nat \<Rightarrow> 's blkdev \<Rightarrow> ('s blkdev \<times> int \<times> u8 list) option" where
  "blkdev_read dd buf sz offset st =
     (if dd_blk_size dd = 0 then None
      else do {
        (st', out) \<leftarrow> blkdev_read_loop dd st sz (offset div dd_blk_size dd) (offset mod dd_blk_size dd);
        buf' \<leftarrow> mem_write buf 0 out;
        Some (st', int sz, buf')
      })"

text \<open>
  \<^verbatim>\<open>blkdev_init\<close>: the allocator and the two timer calls are parameters. A buffer head takes 28
  bytes on the target and is followed by its buffer. When the timer cannot be created the code
  frees the pointer it has advanced past the allocation.
\<close>

definition bh_desc_size :: nat where "bh_desc_size = 28"

definition blkdev_init ::
    "(nat \<Rightarrow> u8 list option) \<Rightarrow> int \<Rightarrow> int \<Rightarrow> 's blkdev \<Rightarrow> ('s blkdev \<times> int) option" where
  "blkdev_init general_malloc os_timer_create os_timer_add st =
     (if bh_initialized st then Some (st, 0)
      else
        let sz = CONFIG_BLKDEV_MAX_BLKSZ + bh_desc_size;
            mk = (\<lambda>mem i. \<lparr>bh_dd = None,
                    bh_buffer = take CONFIG_BLKDEV_MAX_BLKSZ (drop (i * sz + bh_desc_size) mem),
                    bh_blkno = 0, bh_state = BH_STATE_INVALD, bh_hold = 0\<rparr>) in
        do {
          mem \<leftarrow> general_malloc (sz * CONFIG_BLKDEV_NR_BUFS);
          let st1 = st\<lparr>cached_list := rev (map (mk mem) [0..<CONFIG_BLKDEV_NR_BUFS]) @ cached_list st\<rparr>;
          if os_timer_create \<noteq> 0 then None
          else if os_timer_add \<noteq> 0 then None
          else Some (st1\<lparr>bh_locked := False, bh_initialized := True\<rparr>, 0)
        })"

definition blkdev_destroy :: "'s blkdev \<Rightarrow> ('s blkdev \<times> int) option" where
  "blkdev_destroy st =
     (if \<not> bh_initialized st then Some (st, 0)
      else do {
        st1 \<leftarrow> mtx_lock st;
        st2 \<leftarrow> mtx_unlock (st1\<lparr>cached_list := [], dirty_list := [], bh_initialized := False\<rparr>);
        Some (st2, 0)
      })"

text \<open>The three numbers \<^verbatim>\<open>blkdev_print\<close> prints; the division traps before the first access.\<close>

definition blkdev_print :: "'s blkdev \<Rightarrow> (int \<times> int \<times> int) option" where
  "blkdev_print st =
     (if cache_hits st + cache_missed st = 0 then None
      else Some (cache_hits st, cache_missed st,
                 (cache_hits st * 100) div (cache_hits st + cache_missed st)))"

definition disk_device_register ::
    "(nat \<Rightarrow> u8 list option) \<Rightarrow> int \<Rightarrow> int \<Rightarrow> 's disk_device list \<Rightarrow> 's blkdev \<Rightarrow> 's disk_device option \<Rightarrow>
     ('s disk_device list \<times> 's blkdev \<times> int) option" where
  "disk_device_register general_malloc os_timer_create os_timer_add disk_list st dd =
     (case dd of
        None \<Rightarrow> Some (disk_list, st, - EINVAL)
      | Some d \<Rightarrow>
          if \<not> disk_device_valid d then Some (disk_list, st, - EINVAL)
          else do {
            (st', err) \<leftarrow> blkdev_init general_malloc os_timer_create os_timer_add st;
            Some (d # disk_list, st', 0)
          })"

declare blkdev_write_loop.simps [simp del] blkdev_read_loop.simps [simp del]

section \<open>The cache as a transparent store\<close>

text \<open>Block \<open>b\<close> of a device image.\<close>

definition block_of :: "'s disk_device \<Rightarrow> u8 list \<Rightarrow> nat \<Rightarrow> u8 list" where
  "block_of d m b = take (dd_blk_size d) (drop (dd_blk_size d * b) m)"

text \<open>A buffer head that is well formed for the devices: its buffer has the full size and its block exists.\<close>

definition bh_wf :: "'s disk_device set \<Rightarrow> 's bh_desc \<Rightarrow> bool" where
  "bh_wf devs bh \<longleftrightarrow>
     length (bh_buffer bh) = CONFIG_BLKDEV_MAX_BLKSZ \<and> bh_hold bh \<le> CONFIG_BLKDEV_HOLD_TIME \<and>
     (case bh_dd bh of None \<Rightarrow> bh_state bh = BH_STATE_INVALD
      | Some d \<Rightarrow> d \<in> devs \<and> dd_blk_size d * bh_blkno bh < dd_len d)"

text \<open>
  The simulation relation: \<open>L\<close> is what the devices logically hold. A block has at most one
  buffer; a valid buffer agrees with \<open>L\<close>, and the hardware agrees with \<open>L\<close> unless the buffer is
  dirty. The buffers are a multiset: their order does not matter for the contents.
\<close>

definition blk_sim :: "nat \<Rightarrow> u8 list \<Rightarrow> u8 list \<Rightarrow> 's bh_desc multiset \<Rightarrow> bool" where
  "blk_sim n hw lg X \<longleftrightarrow>
     (X = {#} \<and> hw = lg) \<or>
     (\<exists>bh. X = {#bh#} \<and> (bh_state bh \<noteq> BH_STATE_INVALD \<longrightarrow> take n (bh_buffer bh) = lg) \<and>
        (bh_state bh \<noteq> BH_STATE_DIRTY \<longrightarrow> hw = lg))"

definition pool_sim ::
    "'s disk_device set \<Rightarrow> ('s disk_device \<Rightarrow> 's \<Rightarrow> u8 list) \<Rightarrow> ('s disk_device \<Rightarrow> u8 list) \<Rightarrow> 's \<Rightarrow>
     's bh_desc multiset \<Rightarrow> bool" where
  "pool_sim devs cont L s M \<longleftrightarrow>
     (\<forall>bh \<in># M. bh_wf devs bh) \<and>
     (\<forall>d \<in> devs. length (L d) = dd_len d \<and>
       (\<forall>b. dd_blk_size d * b < dd_len d \<longrightarrow>
          blk_sim (dd_blk_size d) (block_of d (cont d s) b) (block_of d (L d) b)
            (filter_mset (bh_matches d b) M)))"

lemma blk_sim_simps:
  "blk_sim n hw lg {#} \<longleftrightarrow> hw = lg"
  "blk_sim n hw lg (add_mset bh X) \<longleftrightarrow> X = {#} \<and>
     (bh_state bh \<noteq> BH_STATE_INVALD \<longrightarrow> take n (bh_buffer bh) = lg) \<and>
     (bh_state bh \<noteq> BH_STATE_DIRTY \<longrightarrow> hw = lg)"
  by (auto simp: blk_sim_def)

lemma pool_sim_add:
  "pool_sim devs cont L s (add_mset bh M) \<longleftrightarrow>
     bh_wf devs bh \<and> (\<forall>bh \<in># M. bh_wf devs bh) \<and>
     (\<forall>d \<in> devs. length (L d) = dd_len d \<and>
       (\<forall>b. dd_blk_size d * b < dd_len d \<longrightarrow>
          (if bh_matches d b bh
           then filter_mset (bh_matches d b) M = {#} \<and>
                (bh_state bh \<noteq> BH_STATE_INVALD \<longrightarrow>
                   take (dd_blk_size d) (bh_buffer bh) = block_of d (L d) b) \<and>
                (bh_state bh \<noteq> BH_STATE_DIRTY \<longrightarrow> block_of d (cont d s) b = block_of d (L d) b)
           else blk_sim (dd_blk_size d) (block_of d (cont d s) b) (block_of d (L d) b)
                  (filter_mset (bh_matches d b) M))))"
  by (auto simp: pool_sim_def blk_sim_simps)

lemma block_of_outside:
  assumes "b' \<noteq> b" "ofs + length bs \<le> dd_blk_size d" "dd_blk_size d * b + dd_blk_size d \<le> length m"
  shows "block_of d (overwrite m (dd_blk_size d * b + ofs) bs) b' = block_of d m b'"
proof -
  let ?n = "dd_blk_size d"
  have "?n * Suc b' \<le> ?n * b \<or> ?n * Suc b \<le> ?n * b'"
    using assms(1) by (metis Suc_leI linorder_neqE_nat mult_le_mono2)
  then show ?thesis
    using assms take_drop_overwrite_outside [of "?n * b'" ?n "?n * b + ofs" bs m]
    by (auto simp: block_of_def)
qed

lemma block_of_overwrite:
  assumes "length bs = dd_blk_size d" "dd_blk_size d * b + dd_blk_size d \<le> length m"
  shows "block_of d (overwrite m (dd_blk_size d * b) bs) b' = (if b' = b then bs else block_of d m b')"
  using take_drop_overwrite_same [of "dd_blk_size d * b" bs m] block_of_outside [of b' b 0 bs d m] assms
  by (simp add: block_of_def)

text \<open>Only the device, the block, the buffer's contents, the state and the bounds matter.\<close>

lemma pool_sim_swap:
  assumes "pool_sim devs cont L s (add_mset bh M)"
    "bh_dd bh' = bh_dd bh" "bh_blkno bh' = bh_blkno bh" "bh_buffer bh' = bh_buffer bh"
    "bh_state bh' = bh_state bh" "bh_hold bh' \<le> CONFIG_BLKDEV_HOLD_TIME"
  shows "pool_sim devs cont L s (add_mset bh' M)"
proof -
  have "bh_matches d b bh' = bh_matches d b bh" for d b using assms by (simp add: bh_matches_def)
  moreover have "bh_wf devs bh \<Longrightarrow> bh_wf devs bh'"
    using assms(2-6) by (simp add: bh_wf_def split: option.splits)
  ultimately show ?thesis using assms(1,4,5) unfolding pool_sim_add by simp
qed

text \<open>Buffers that are not dirty can be dropped.\<close>

lemma pool_sim_drop:
  assumes "pool_sim devs cont L s (add_mset bh M)" "bh_state bh \<noteq> BH_STATE_DIRTY"
  shows "pool_sim devs cont L s M"
proof -
  have "blk_sim (dd_blk_size d) (block_of d (cont d s) b) (block_of d (L d) b) (filter_mset (bh_matches d b) M)"
    if "d \<in> devs" "dd_blk_size d * b < dd_len d" for d b
    using assms that unfolding pool_sim_add by (metis blk_sim_simps(1))
  then show ?thesis using assms(1) unfolding pool_sim_add by (simp add: pool_sim_def)
qed

text \<open>An invalid buffer can be added for a block that has none.\<close>

lemma pool_sim_add_invalid:
  assumes "pool_sim devs cont L s M" "bh_wf devs bh" "bh_state bh = BH_STATE_INVALD"
    "\<And>d. bh_dd bh = Some d \<Longrightarrow> filter_mset (bh_matches d (bh_blkno bh)) M = {#}"
  shows "pool_sim devs cont L s (add_mset bh M)"
proof -
  have none: "filter_mset (bh_matches d b) M = {#}" if m: "bh_matches d b bh" for d b
  proof -
    from m obtain d' where d': "bh_dd bh = Some d'" "dd_id d' = dd_id d" "bh_blkno bh = b"
      by (auto simp: bh_matches_def split: option.splits)
    then have "bh_matches d b = bh_matches d' (bh_blkno bh)" by (auto simp: bh_matches_def fun_eq_iff split: option.splits)
    then show ?thesis using assms(4) [OF d'(1)] by simp
  qed
  have "block_of d (cont d s) b = block_of d (L d) b"
    if "d \<in> devs" "dd_blk_size d * b < dd_len d" "bh_matches d b bh" for d b
    using assms(1) that none [OF that(3)] unfolding pool_sim_def by (metis blk_sim_simps(1))
  with assms(1-3) none show ?thesis unfolding pool_sim_add by (simp add: pool_sim_def)
qed

text \<open>The block a buffer head stands for.\<close>

context flash_devices
begin

lemma bh_matches_self:
  assumes "bh_wf devs bh" "bh_dd bh = Some d"
  shows "bh_matches d (bh_blkno bh) bh" "d \<in> devs" "dd_blk_size d * bh_blkno bh < dd_len d"
    "dd_blk_size d * bh_blkno bh + dd_blk_size d \<le> dd_len d"
proof -
  show 1: "bh_matches d (bh_blkno bh) bh" "d \<in> devs" "dd_blk_size d * bh_blkno bh < dd_len d"
    using assms by (simp_all add: bh_wf_def bh_matches_def)
  obtain n where "dd_len d = dd_blk_size d * n" using len(1) [OF 1(2)] by auto
  moreover from this have "dd_blk_size d * Suc (bh_blkno bh) \<le> dd_blk_size d * n"
    using 1(3) by (intro mult_le_mono2) simp
  ultimately show "dd_blk_size d * bh_blkno bh + dd_blk_size d \<le> dd_len d" by simp
qed

lemma bh_matches_iff:
  assumes "bh_wf devs bh" "bh_dd bh = Some d" "d' \<in> devs"
  shows "bh_matches d' b bh \<longleftrightarrow> d' = d \<and> b = bh_blkno bh"
  using assms bh_matches_self(2) [OF assms(1,2)] ids by (auto simp: bh_matches_def)

end

locale blk_cache = flash_devices +
  assumes blk_max: "d \<in> devs \<Longrightarrow> dd_blk_size d \<le> CONFIG_BLKDEV_MAX_BLKSZ"
begin

text \<open>Writing a dirty buffer back: the hardware then agrees with the logical contents.\<close>

lemma pool_sim_flush:
  assumes sim: "pool_sim devs cont L s (add_mset bh M)" and ok: "ok s" and d: "bh_dd bh = Some d"
    and valid: "bh_state bh = BH_STATE_DIRTY"
  shows "\<exists>s1 s' ret. disk_device_erase d s (dd_blk_size d * bh_blkno bh) (dd_blk_size d) = Some (s1, 0) \<and>
    disk_device_write d s1 (Some (bh_buffer bh)) (dd_blk_size d) (dd_blk_size d * bh_blkno bh) = Some (s', ret) \<and>
    0 \<le> ret \<and> ok s' \<and> pool_sim devs cont L s' (add_mset (bh\<lparr>bh_state := BH_STATE_CACHED\<rparr>) M)"
proof -
  let ?n = "dd_blk_size d" and ?b = "bh_blkno bh"
  have wf: "bh_wf devs bh" using sim by (simp add: pool_sim_def)
  note m = bh_matches_self [OF wf d]
  have bl: "?n \<le> length (bh_buffer bh)" using wf blk_max [OF m(2)] by (simp add: bh_wf_def)
  obtain s1 s' ret where r: "disk_device_erase d s (?n * ?b) ?n = Some (s1, 0)"
    "disk_device_write d s1 (Some (bh_buffer bh)) ?n (?n * ?b) = Some (s', ret)" "0 \<le> ret" "ok s'"
    "cont d s' = overwrite (cont d s) (?n * ?b) (take ?n (bh_buffer bh))"
    "\<forall>d' \<in> devs. d' \<noteq> d \<longrightarrow> cont d' s' = cont d' s"
    using disk_erase_write_ok [OF m(2) ok m(4) _ bl] by auto
  let ?bh = "bh\<lparr>bh_state := BH_STATE_CACHED\<rparr>"
  have mt: "bh_matches d' b ?bh = bh_matches d' b bh" for d' b by (simp add: bh_matches_def)
  have blk: "block_of d' (cont d' s') b =
      (if bh_matches d' b bh then take ?n (bh_buffer bh) else block_of d' (cont d' s) b)"
    if "d' \<in> devs" for d' b
    using r(5,6) that block_of_overwrite [of "take ?n (bh_buffer bh)" d ?b "cont d s" b] bl m(4)
      cont_len [OF m(2) ok] bh_matches_iff [OF wf d that] by auto
  have "bh_wf devs ?bh" using wf d by (simp add: bh_wf_def)
  moreover have "take ?n (bh_buffer bh) = block_of d (L d) ?b"
    using sim m valid unfolding pool_sim_add by auto
  ultimately have "pool_sim devs cont L s' (add_mset ?bh M)"
    using sim valid bh_matches_iff [OF wf d] unfolding pool_sim_add mt by (auto simp: blk simp del: filter_mset_eq_mempty_iff)
  with r show ?thesis by blast
qed

text \<open>Filling an invalid buffer from the hardware.\<close>

lemma pool_sim_fill:
  assumes sim: "pool_sim devs cont L s (add_mset bh M)" and ok: "ok s" and d: "bh_dd bh = Some d"
    and inv: "bh_state bh = BH_STATE_INVALD"
  shows "pool_sim devs cont L s (add_mset (bh\<lparr>bh_buffer := overwrite (bh_buffer bh) 0 (block_of d (cont d s) (bh_blkno bh)),
      bh_state := BH_STATE_CACHED\<rparr>) M)"
proof -
  let ?n = "dd_blk_size d" and ?b = "bh_blkno bh"
  let ?bs = "block_of d (cont d s) ?b"
  let ?bh = "bh\<lparr>bh_buffer := overwrite (bh_buffer bh) 0 ?bs, bh_state := BH_STATE_CACHED\<rparr>"
  have wf: "bh_wf devs bh" using sim by (simp add: pool_sim_def)
  note m = bh_matches_self [OF wf d]
  have lb: "length ?bs = ?n" using m(4) cont_len [OF m(2) ok] by (simp add: block_of_def)
  have bl: "?n \<le> length (bh_buffer bh)" using wf blk_max [OF m(2)] by (simp add: bh_wf_def)
  have mt: "bh_matches d' b ?bh = bh_matches d' b bh" for d' b by (simp add: bh_matches_def)
  have "bh_wf devs ?bh" using wf d lb bl by (simp add: bh_wf_def)
  moreover have "take ?n (bh_buffer ?bh) = ?bs"
    using take_drop_overwrite_same [of 0 ?bs "bh_buffer bh"] lb bl by simp
  ultimately show ?thesis
    using sim inv bh_matches_iff [OF wf d] unfolding pool_sim_add mt by (auto simp del: filter_mset_eq_mempty_iff)
qed

text \<open>Modifying a buffer: the logical contents change accordingly.\<close>

lemma pool_sim_modify:
  assumes sim: "pool_sim devs cont L s (add_mset bh M)" and d: "bh_dd bh = Some d"
    and len: "length buf = length (bh_buffer bh)"
    and new: "take (dd_blk_size d) buf = overwrite (block_of d (L d) (bh_blkno bh)) ofs bs"
    and fit: "ofs + length bs \<le> dd_blk_size d"
  shows "pool_sim devs cont (L(d := overwrite (L d) (dd_blk_size d * bh_blkno bh + ofs) bs)) s
    (add_mset (bh\<lparr>bh_buffer := buf, bh_state := BH_STATE_DIRTY, bh_hold := CONFIG_BLKDEV_HOLD_TIME\<rparr>) M)"
proof -
  let ?n = "dd_blk_size d" and ?b = "bh_blkno bh"
  let ?bh = "bh\<lparr>bh_buffer := buf, bh_state := BH_STATE_DIRTY, bh_hold := CONFIG_BLKDEV_HOLD_TIME\<rparr>"
  let ?L = "L(d := overwrite (L d) (?n * ?b + ofs) bs)"
  have wf: "bh_wf devs bh" using sim by (simp add: pool_sim_def)
  note m = bh_matches_self [OF wf d]
  have lL: "length (L d) = dd_len d" using sim m(2) by (simp add: pool_sim_def)
  have mt: "bh_matches d' b ?bh = bh_matches d' b bh" for d' b by (simp add: bh_matches_def)
  have out: "b \<noteq> ?b \<Longrightarrow> block_of d (?L d) b = block_of d (L d) b" for b
    using block_of_outside [of _ ?b ofs bs d "L d"] fit m(4) lL by simp
  have ins: "block_of d (?L d) ?b = take ?n buf"
    unfolding new using take_drop_overwrite_inside [of "?n * ?b" "?n * ?b + ofs" bs ?n "L d"] fit m(4) lL
    by (simp add: block_of_def)
  have "bh_wf devs ?bh" using wf d len by (simp add: bh_wf_def)
  moreover have "length (?L d') = dd_len d'" if "d' \<in> devs" for d'
    using that sim lL fit m(4) by (auto simp: pool_sim_def)
  ultimately show ?thesis
    using sim bh_matches_iff [OF wf d] ins out unfolding pool_sim_add mt by (auto simp del: filter_mset_eq_mempty_iff)
qed

lemma wrap_ofs: "bh_wf devs bh \<Longrightarrow> bh_dd bh = Some d \<Longrightarrow>
    wrap32 (dd_blk_size d * bh_blkno bh) = dd_blk_size d * bh_blkno bh"
  using bh_matches_self(2,3) [of bh d] len(2) [of d] by (intro wrap32_id) simp

lemma dirty_has_device:
  assumes "bh_wf devs bh" "bh_state bh \<noteq> BH_STATE_INVALD"
  obtains d where "bh_dd bh = Some d"
  using assms by (auto simp: bh_wf_def split: option.splits)

lemma sync_loop_ok:
  assumes "pool_sim devs cont L s (N + mset ds)" "ok s" "\<forall>bh \<in> set ds. bh_state bh = BH_STATE_DIRTY"
    "0 \<le> expired"
  shows "\<exists>s' k m. sync_loop expired s ds = Some (s', k, m) \<and> ok s' \<and>
    pool_sim devs cont L s' (N + mset k + mset m) \<and>
    (\<forall>bh \<in> set k. bh_state bh = BH_STATE_DIRTY) \<and> (\<forall>bh \<in> set m. bh_state bh = BH_STATE_CACHED) \<and>
    length k + length m = length ds \<and> ((\<forall>bh \<in> set ds. bh_hold bh \<le> expired) \<longrightarrow> k = []) \<and>
    (\<forall>d b. (\<forall>x \<in> set ds. \<not> bh_matches d b x) \<longrightarrow> (\<forall>x \<in> set k \<union> set m. \<not> bh_matches d b x))"
  using assms
proof (induction ds arbitrary: s N)
  case Nil
  then show ?case by simp
next
  case (Cons bh ds)
  have wf: "bh_wf devs bh" using Cons.prems(1) by (simp add: pool_sim_def)
  have dirty: "bh_state bh = BH_STATE_DIRTY" using Cons.prems(3) by simp
  then obtain d where d: "bh_dd bh = Some d" using wf dirty_has_device by force
  show ?case
  proof (cases "bh_hold bh > expired")
    case True
    let ?bh = "bh\<lparr>bh_hold := bh_hold bh - expired\<rparr>"
    have mt: "bh_matches d' b ?bh = bh_matches d' b bh" for d' b by (simp add: bh_matches_def)
    have "pool_sim devs cont L s (add_mset ?bh (N + mset ds))"
      by (rule pool_sim_swap [of _ _ _ _ bh]) (use Cons.prems(1,4) wf in \<open>simp_all add: bh_wf_def\<close>)
    then have "pool_sim devs cont L s ((N + {#?bh#}) + mset ds)" by simp
    from Cons.IH [OF this Cons.prems(2) _ Cons.prems(4)] Cons.prems(3) obtain s' k m where
      r: "sync_loop expired s ds = Some (s', k, m)" "ok s'"
        "pool_sim devs cont L s' ((N + {#?bh#}) + mset k + mset m)"
        "\<forall>bh \<in> set k. bh_state bh = BH_STATE_DIRTY" "\<forall>bh \<in> set m. bh_state bh = BH_STATE_CACHED"
        "length k + length m = length ds"
        "\<forall>d b. (\<forall>x \<in> set ds. \<not> bh_matches d b x) \<longrightarrow> (\<forall>x \<in> set k \<union> set m. \<not> bh_matches d b x)"
      by auto
    show ?thesis
      by (rule exI [of _ s'], rule exI [of _ "?bh # k"], rule exI [of _ m])
         (use True r dirty mt in auto)
  next
    case False
    let ?bh = "bh\<lparr>bh_state := BH_STATE_CACHED\<rparr>"
    have mt: "bh_matches d' b ?bh = bh_matches d' b bh" for d' b by (simp add: bh_matches_def)
    have "pool_sim devs cont L s (add_mset bh (N + mset ds))" using Cons.prems(1) by simp
    from pool_sim_flush [OF this Cons.prems(2) d dirty] obtain s1 s2 ret where
      f: "disk_device_erase d s (dd_blk_size d * bh_blkno bh) (dd_blk_size d) = Some (s1, 0)"
        "disk_device_write d s1 (Some (bh_buffer bh)) (dd_blk_size d) (dd_blk_size d * bh_blkno bh) = Some (s2, ret)"
        "0 \<le> ret" "ok s2" "pool_sim devs cont L s2 (add_mset ?bh (N + mset ds))" by blast
    then have "pool_sim devs cont L s2 ((N + {#?bh#}) + mset ds)" by simp
    from Cons.IH [OF this f(4) _ Cons.prems(4)] Cons.prems(3) obtain s' k m where
      r: "sync_loop expired s2 ds = Some (s', k, m)" "ok s'"
        "pool_sim devs cont L s' ((N + {#?bh#}) + mset k + mset m)"
        "\<forall>bh \<in> set k. bh_state bh = BH_STATE_DIRTY" "\<forall>bh \<in> set m. bh_state bh = BH_STATE_CACHED"
        "length k + length m = length ds" "(\<forall>bh \<in> set ds. bh_hold bh \<le> expired) \<longrightarrow> k = []"
        "\<forall>d b. (\<forall>x \<in> set ds. \<not> bh_matches d b x) \<longrightarrow> (\<forall>x \<in> set k \<union> set m. \<not> bh_matches d b x)"
      by auto
    show ?thesis
      by (rule exI [of _ s'], rule exI [of _ k], rule exI [of _ "?bh # m"])
         (use False d f(1-3) r mt wrap_ofs [OF wf d] in auto)
  qed
qed

end

text \<open>
  The state relation: the lists hold buffers of the right states, at least one in all, and
  the pool of buffers, together with those a caller holds (\<open>H\<close>), represents \<open>L\<close>.
\<close>

definition bd_pool :: "'s blkdev \<Rightarrow> 's bh_desc multiset" where
  "bd_pool st = mset (cached_list st) + mset (dirty_list st)"

definition bd_sim ::
    "'s disk_device set \<Rightarrow> ('s disk_device \<Rightarrow> 's \<Rightarrow> u8 list) \<Rightarrow> ('s \<Rightarrow> bool) \<Rightarrow>
     ('s disk_device \<Rightarrow> u8 list) \<Rightarrow> 's bh_desc multiset \<Rightarrow> 's blkdev \<Rightarrow> bool" where
  "bd_sim devs cont ok L H st \<longleftrightarrow>
     ok (bd_dev st) \<and> pool_sim devs cont L (bd_dev st) (H + bd_pool st) \<and>
     (\<forall>bh \<in> set (cached_list st). bh_state bh \<noteq> BH_STATE_DIRTY) \<and>
     (\<forall>bh \<in> set (dirty_list st). bh_state bh = BH_STATE_DIRTY) \<and>
     H + bd_pool st \<noteq> {#}"

lemma bh_unlink_Some:
  "bh_unlink P xs = Some (x, ys) \<Longrightarrow> P x \<and> mset xs = add_mset x (mset ys) \<and> x \<in> set xs \<and> set ys \<subseteq> set xs"
  by (induction xs arbitrary: ys) (auto split: if_splits bind_splits)

lemma bh_unlink_None: "bh_unlink P xs = None \<longleftrightarrow> (\<forall>x \<in> set xs. \<not> P x)"
  by (induction xs) (auto split: bind_splits)

context blk_cache
begin

lemma blkdev_sync_locked_ok:
  assumes "bd_sim devs cont ok L H st" "0 \<le> expired"
  shows "\<exists>st'. blkdev_sync_locked expired st = Some (st', 0) \<and> bd_sim devs cont ok L H st' \<and>
    bh_locked st' = bh_locked st \<and> bh_initialized st' = bh_initialized st \<and>
    (CONFIG_BLKDEV_HOLD_TIME \<le> expired \<longrightarrow> dirty_list st' = []) \<and>
    (\<forall>d b. (\<forall>x \<in># bd_pool st. \<not> bh_matches d b x) \<longrightarrow> (\<forall>x \<in># bd_pool st'. \<not> bh_matches d b x))"
proof -
  have a: "pool_sim devs cont L (bd_dev st) ((H + mset (cached_list st)) + mset (dirty_list st))"
    "ok (bd_dev st)" "\<forall>bh \<in> set (dirty_list st). bh_state bh = BH_STATE_DIRTY"
    using assms(1) by (auto simp: bd_sim_def bd_pool_def add.assoc)
  obtain s' k m where r: "sync_loop expired (bd_dev st) (dirty_list st) = Some (s', k, m)" "ok s'"
    "pool_sim devs cont L s' ((H + mset (cached_list st)) + mset k + mset m)"
    "\<forall>bh \<in> set k. bh_state bh = BH_STATE_DIRTY" "\<forall>bh \<in> set m. bh_state bh = BH_STATE_CACHED"
    "length k + length m = length (dirty_list st)"
    "(\<forall>bh \<in> set (dirty_list st). bh_hold bh \<le> expired) \<longrightarrow> k = []"
    "\<forall>d b. (\<forall>x \<in> set (dirty_list st). \<not> bh_matches d b x) \<longrightarrow> (\<forall>x \<in> set k \<union> set m. \<not> bh_matches d b x)"
    using sync_loop_ok [OF a assms(2)] by blast
  let ?st = "st\<lparr>bd_dev := s', dirty_list := k, cached_list := cached_list st @ m\<rparr>"
  have pool: "H + bd_pool ?st = (H + mset (cached_list st)) + mset k + mset m"
    by (simp add: bd_pool_def ac_simps)
  have "H + bd_pool ?st \<noteq> {#}"
    using assms(1) r(6) by (auto simp: bd_sim_def bd_pool_def)
  then have "bd_sim devs cont ok L H ?st"
    using assms(1) r unfolding bd_sim_def pool by auto
  moreover have "\<forall>bh \<in> set (dirty_list st). bh_hold bh \<le> CONFIG_BLKDEV_HOLD_TIME"
    using a(1) by (auto simp: pool_sim_def bh_wf_def)
  ultimately show ?thesis
    using r by (auto simp: blkdev_sync_locked_def bd_pool_def)
qed

lemma bh_search_ok:
  assumes sim: "bd_sim devs cont ok L {#} st" and d: "d \<in> devs" and b: "dd_blk_size d * b < dd_len d"
  shows "\<exists>st' bh. bh_search_locked d b st = Some (st', bh) \<and> bd_sim devs cont ok L {#bh#} st' \<and>
    bh_dd bh = Some d \<and> bh_blkno bh = b \<and> bh_locked st' = bh_locked st \<and> bh_initialized st' = bh_initialized st"
proof (cases "bh_unlink (bh_matches d b) (cached_list st)")
  case (Some p)
  then obtain bh ys where p: "bh_unlink (bh_matches d b) (cached_list st) = Some (bh, ys)" by (cases p) auto
  note u = bh_unlink_Some [OF p]
  have wf: "bh_wf devs bh" using sim u by (auto simp: bd_sim_def bd_pool_def pool_sim_def)
  have "bh_dd bh = Some d \<and> bh_blkno bh = b"
    using u wf d ids by (auto simp: bh_matches_def bh_wf_def split: option.splits)
  moreover have "bd_sim devs cont ok L {#bh#} (st\<lparr>cache_hits := cache_hits st + 1, cached_list := ys\<rparr>)"
    using sim u by (auto simp: bd_sim_def bd_pool_def)
  ultimately show ?thesis using p by (simp add: bh_search_locked_def)
next
  case None
  then have c0: "\<forall>x \<in> set (cached_list st). \<not> bh_matches d b x" by (simp add: bh_unlink_None)
  show ?thesis
  proof (cases "bh_unlink (bh_matches d b) (dirty_list st)")
    case (Some p)
    then obtain bh ys where p: "bh_unlink (bh_matches d b) (dirty_list st) = Some (bh, ys)" by (cases p) auto
    note u = bh_unlink_Some [OF p]
    have wf: "bh_wf devs bh" using sim u by (auto simp: bd_sim_def bd_pool_def pool_sim_def)
    have "bh_dd bh = Some d \<and> bh_blkno bh = b"
      using u wf d ids by (auto simp: bh_matches_def bh_wf_def split: option.splits)
    moreover have "bd_sim devs cont ok L {#bh#} (st\<lparr>cache_hits := cache_hits st + 1, dirty_list := ys\<rparr>)"
      using sim u by (auto simp: bd_sim_def bd_pool_def)
    ultimately show ?thesis using p None by (simp add: bh_search_locked_def)
  next
    case N2: None
    then have d0: "\<forall>x \<in># bd_pool st. \<not> bh_matches d b x" using c0 by (auto simp: bh_unlink_None bd_pool_def)
    define st1 where "st1 = (if cached_list st = [] then fst (the (blkdev_sync_locked CONFIG_BLKDEV_HOLD_TIME st)) else st)"
    obtain st2 where s2: "blkdev_sync_locked CONFIG_BLKDEV_HOLD_TIME st = Some (st2, 0)"
      "bd_sim devs cont ok L {#} st2" "bh_locked st2 = bh_locked st" "bh_initialized st2 = bh_initialized st"
      "dirty_list st2 = []" "\<forall>x \<in># bd_pool st2. \<not> bh_matches d b x"
      using blkdev_sync_locked_ok [OF sim, of CONFIG_BLKDEV_HOLD_TIME] d0
      by (auto simp: CONFIG_BLKDEV_HOLD_TIME_def)
    have st1: "bd_sim devs cont ok L {#} st1" "bh_locked st1 = bh_locked st" "bh_initialized st1 = bh_initialized st"
      "\<forall>x \<in># bd_pool st1. \<not> bh_matches d b x" "cached_list st1 \<noteq> []"
      using s2 sim d0 by (auto simp: st1_def bd_sim_def bd_pool_def)
    have run1: "(if cached_list st = [] then map_option fst (blkdev_sync_locked CONFIG_BLKDEV_HOLD_TIME st) else Some st) = Some st1"
      using s2 by (simp add: st1_def)
    from st1(5) obtain bh rest where c: "cached_list st1 = bh # rest" by (cases "cached_list st1") auto
    let ?bh = "bh\<lparr>bh_blkno := b, bh_dd := Some d, bh_state := BH_STATE_INVALD\<rparr>"
    let ?st = "st1\<lparr>cache_missed := cache_missed st1 + 1, cached_list := rest\<rparr>"
    have pool: "bd_pool st1 = add_mset bh (bd_pool ?st)" using c by (simp add: bd_pool_def)
    have sim1: "pool_sim devs cont L (bd_dev st1) (bd_pool ?st)"
      by (rule pool_sim_drop [of _ _ _ _ bh]) (use st1(1) c in \<open>simp_all add: bd_sim_def flip: pool\<close>)
    have wf: "bh_wf devs ?bh" using st1(1) pool d b by (auto simp: bd_sim_def pool_sim_def bh_wf_def)
    have "pool_sim devs cont L (bd_dev st1) (add_mset ?bh (bd_pool ?st))"
      by (rule pool_sim_add_invalid [OF sim1 wf]) (use st1(4) pool in auto)
    then have "bd_sim devs cont ok L {#?bh#} ?st" using st1(1) c by (auto simp: bd_sim_def)
    moreover have "bh_search_locked d b st = Some (?st, ?bh)"
      using None N2 run1 c by (simp add: bh_search_locked_def)
    ultimately show ?thesis using st1 by simp
  qed
qed

lemma bh_get_ok:
  assumes "bd_sim devs cont ok L {#} st" "d \<in> devs" "dd_blk_size d * b < dd_len d" "\<not> bh_locked st"
  shows "\<exists>st' bh. bh_get d b st = Some (st', Inr bh) \<and> bd_sim devs cont ok L {#bh#} st' \<and>
    bh_dd bh = Some d \<and> bh_blkno bh = b \<and> bh_locked st' \<and> bh_initialized st' = bh_initialized st"
proof -
  have "bd_sim devs cont ok L {#} (st\<lparr>bh_locked := True\<rparr>)"
    using assms(1) by (simp add: bd_sim_def bd_pool_def)
  from bh_search_ok [OF this assms(2,3)] show ?thesis
    using assms(4) by (auto simp: bh_get_def mtx_lock_def)
qed

text \<open>Afterwards the buffer holds the block, read from the device if need be.\<close>

lemma bh_read_ok:
  assumes "bd_sim devs cont ok L {#} st" "d \<in> devs" "dd_blk_size d * b < dd_len d" "\<not> bh_locked st"
  shows "\<exists>st' bh. bh_read d b st = Some (st', Inr bh) \<and> bd_sim devs cont ok L {#bh#} st' \<and>
    bh_dd bh = Some d \<and> bh_blkno bh = b \<and> bh_locked st' \<and> bh_initialized st' = bh_initialized st \<and>
    bh_state bh \<noteq> BH_STATE_INVALD"
proof -
  have "bd_sim devs cont ok L {#} (st\<lparr>bh_locked := True\<rparr>)"
    using assms(1) by (simp add: bd_sim_def bd_pool_def)
  from bh_search_ok [OF this assms(2,3)] obtain st1 bh where
    r: "bh_search_locked d b (st\<lparr>bh_locked := True\<rparr>) = Some (st1, bh)" "bd_sim devs cont ok L {#bh#} st1"
      "bh_dd bh = Some d" "bh_blkno bh = b" "bh_locked st1" "bh_initialized st1 = bh_initialized st" by auto
  show ?thesis
  proof (cases "bh_state bh = BH_STATE_INVALD")
    case False
    then show ?thesis using r assms(4) by (auto simp: bh_read_def mtx_lock_def)
  next
    case True
    let ?n = "dd_blk_size d" and ?s = "bd_dev st1"
    have ok: "ok ?s" and sim: "pool_sim devs cont L ?s (add_mset bh (bd_pool st1))"
      using r(2) by (simp_all add: bd_sim_def)
    then have wf: "bh_wf devs bh" by (simp add: pool_sim_def)
    note m = bh_matches_self [OF wf r(3)]
    have bl: "?n \<le> length (bh_buffer bh)" using wf blk_max [OF assms(2)] by (simp add: bh_wf_def)
    obtain ret where rd: "0 \<le> ret" "disk_device_read d ?s (Some (bh_buffer bh)) ?n (?n * bh_blkno bh) =
        Some (?s, ret, Some (overwrite (bh_buffer bh) 0 (block_of d (cont d ?s) (bh_blkno bh))))"
      using disk_read_ok [OF assms(2) ok m(4) blk_pos [OF assms(2)] bl] by (auto simp: block_of_def)
    let ?bh = "bh\<lparr>bh_buffer := overwrite (bh_buffer bh) 0 (block_of d (cont d ?s) (bh_blkno bh)),
        bh_state := BH_STATE_CACHED\<rparr>"
    have "bd_sim devs cont ok L {#?bh#} (st1\<lparr>bd_dev := ?s\<rparr>)"
      using pool_sim_fill [OF sim ok r(3) True] r(2) by (simp add: bd_sim_def bd_pool_def)
    then show ?thesis
      using r assms(4) True rd wrap_ofs [OF wf r(3)] by (auto simp: bh_read_def mtx_lock_def)
  qed
qed

lemma bh_valid_block:
  assumes "bd_sim devs cont ok L (add_mset bh H) st" "bh_dd bh = Some d" "bh_state bh \<noteq> BH_STATE_INVALD"
  shows "take (dd_blk_size d) (bh_buffer bh) = block_of d (L d) (bh_blkno bh)"
proof -
  have sim: "pool_sim devs cont L (bd_dev st) (add_mset bh (H + bd_pool st))" using assms(1) by (simp add: bd_sim_def)
  then have wf: "bh_wf devs bh" by (simp add: pool_sim_def)
  note m = bh_matches_self [OF wf assms(2)]
  then show ?thesis using sim assms(3) unfolding pool_sim_add by auto
qed

lemma bh_release_ok:
  assumes "bd_sim devs cont ok L {#bh#} st" "bh_locked st"
  shows "\<exists>st'. bh_release bh st = Some st' \<and> bd_sim devs cont ok L {#} st' \<and> \<not> bh_locked st' \<and>
    bh_initialized st' = bh_initialized st"
proof (cases "bh_state bh = BH_STATE_DIRTY")
  case True
  have "pool_sim devs cont L (bd_dev st) (add_mset (bh\<lparr>bh_hold := CONFIG_BLKDEV_HOLD_TIME\<rparr>) (bd_pool st))"
    by (rule pool_sim_swap [of _ _ _ _ bh]) (use assms(1) in \<open>simp_all add: bd_sim_def\<close>)
  then show ?thesis
    using assms True by (auto simp: bh_release_def bh_enqueue_dirty_def mtx_unlock_def bd_sim_def bd_pool_def)
next
  case False
  then show ?thesis
    using assms by (auto simp: bh_release_def bh_enqueue_cached_def mtx_unlock_def bd_sim_def bd_pool_def)
qed

lemma bh_release_modified_ok:
  assumes sim: "bd_sim devs cont ok L {#bh#} st" and lk: "bh_locked st" and d: "bh_dd bh = Some d"
    and len: "length buf = length (bh_buffer bh)"
    and new: "take (dd_blk_size d) buf = overwrite (block_of d (L d) (bh_blkno bh)) ofs bs"
    and fit: "ofs + length bs \<le> dd_blk_size d"
  shows "\<exists>st'. bh_release_modified (bh\<lparr>bh_buffer := buf\<rparr>) st = Some st' \<and> \<not> bh_locked st' \<and>
    bh_initialized st' = bh_initialized st \<and>
    bd_sim devs cont ok (L(d := overwrite (L d) (dd_blk_size d * bh_blkno bh + ofs) bs)) {#} st'"
proof -
  have "pool_sim devs cont L (bd_dev st) (add_mset bh (bd_pool st))" using sim by (simp add: bd_sim_def)
  from pool_sim_modify [OF this d len new fit] show ?thesis
    using sim lk
    by (auto simp: bh_release_modified_def bh_enqueue_dirty_def mtx_unlock_def bd_sim_def bd_pool_def)
qed

lemma blk_step:
  assumes "d \<in> devs" "blkofs < dd_blk_size d" "dd_blk_size d * blkno + blkofs + remain \<le> dd_len d" "0 < remain"
  defines "bytes \<equiv> min (dd_blk_size d - blkofs) remain"
  shows "dd_blk_size d * blkno < dd_len d" "0 < bytes" "bytes \<le> remain" "blkofs + bytes \<le> dd_blk_size d"
    "wrap32 (blkno + 1) = blkno + 1" "dd_blk_size d * (blkno + 1) + 0 + (remain - bytes) \<le> dd_len d"
    "bytes < remain \<Longrightarrow> dd_blk_size d * (blkno + 1) = dd_blk_size d * blkno + blkofs + bytes"
proof -
  let ?n = "dd_blk_size d"
  show a: "?n * blkno < dd_len d" "0 < bytes" "bytes \<le> remain" "blkofs + bytes \<le> ?n"
    using assms by (simp_all add: bytes_def)
  show e: "bytes < remain \<Longrightarrow> ?n * (blkno + 1) = ?n * blkno + blkofs + bytes"
    using assms(2) by (simp add: bytes_def)
  obtain k where k: "dd_len d = ?n * k" using len(1) [OF assms(1)] by auto
  then have "Suc blkno \<le> k" using a(1) by simp
  then have le: "?n * Suc blkno \<le> dd_len d" unfolding k by (rule mult_le_mono2)
  show "?n * (blkno + 1) + 0 + (remain - bytes) \<le> dd_len d"
    using le e assms(3) a(3) by (cases "bytes = remain") auto
  have "1 * Suc blkno \<le> ?n * Suc blkno" using blk_pos [OF assms(1)] by (intro mult_le_mono1) simp
  then show "wrap32 (blkno + 1) = blkno + 1" using le len(2) [OF assms(1)] by (intro wrap32_id) simp
qed

lemma blkdev_read_loop_ok:
  assumes "bd_sim devs cont ok L {#} st" "\<not> bh_locked st" "d \<in> devs" "blkofs < dd_blk_size d"
    "dd_blk_size d * blkno + blkofs + remain \<le> dd_len d"
  shows "\<exists>st'. blkdev_read_loop d st remain blkno blkofs =
      Some (st', take remain (drop (dd_blk_size d * blkno + blkofs) (L d))) \<and>
    bd_sim devs cont ok L {#} st' \<and> \<not> bh_locked st'"
  using assms
proof (induction remain arbitrary: st blkno blkofs rule: less_induct)
  case (less remain)
  show ?case
  proof (cases "remain = 0")
    case True
    then show ?thesis using less.prems by (simp add: blkdev_read_loop.simps)
  next
    case False
    let ?n = "dd_blk_size d"
    define bytes where "bytes = min (?n - blkofs) remain"
    note bs = blk_step [OF less.prems(3-5), folded bytes_def]
    from False have pos: "0 < remain" by simp
    obtain st1 bh where r: "bh_read d blkno st = Some (st1, Inr bh)" "bd_sim devs cont ok L {#bh#} st1"
      "bh_dd bh = Some d" "bh_blkno bh = blkno" "bh_locked st1" "bh_state bh \<noteq> BH_STATE_INVALD"
      using bh_read_ok [OF less.prems(1,3) bs(1) [OF pos] less.prems(2)] by auto
    obtain st2 where r2: "bh_release bh st1 = Some st2" "bd_sim devs cont ok L {#} st2" "\<not> bh_locked st2"
      using bh_release_ok [OF r(2,5)] by auto
    have "bh_wf devs bh" using r(2) by (auto simp: bd_sim_def pool_sim_def)
    then have bl: "?n \<le> length (bh_buffer bh)" using blk_max [OF less.prems(3)] by (simp add: bh_wf_def)
    have "take bytes (drop blkofs (bh_buffer bh)) = take bytes (drop blkofs (take ?n (bh_buffer bh)))"
      using bs(4) [OF pos] by (simp add: drop_take)
    also have "\<dots> = take bytes (drop (?n * blkno + blkofs) (L d))"
      using bs(4) [OF pos] bh_valid_block [OF r(2,3,6)] r(4) by (simp add: block_of_def drop_take add.commute)
    finally have rd: "mem_read (bh_buffer bh) blkofs bytes = Some (take bytes (drop (?n * blkno + blkofs) (L d)))"
      using bl bs(4) [OF pos] by simp
    have "remain - bytes < remain" using bs(2) [OF pos] pos by simp
    from less.IH [OF this r2(2,3) less.prems(3) blk_pos [OF less.prems(3)] bs(6) [OF pos]] obtain st3 where
      r3: "blkdev_read_loop d st2 (remain - bytes) (blkno + 1) 0 =
          Some (st3, take (remain - bytes) (drop (?n * (blkno + 1)) (L d)))"
        "bd_sim devs cont ok L {#} st3" "\<not> bh_locked st3" by auto
    have cat: "take bytes (drop (?n * blkno + blkofs) (L d)) @ take (remain - bytes) (drop (?n * (blkno + 1)) (L d)) =
        take remain (drop (?n * blkno + blkofs) (L d))"
    proof (cases "bytes < remain")
      case True
      have "take (bytes + (remain - bytes)) (drop (?n * blkno + blkofs) (L d)) =
          take bytes (drop (?n * blkno + blkofs) (L d)) @
          take (remain - bytes) (drop (?n * (blkno + 1)) (L d))"
        unfolding bs(7) [OF pos True] take_add by (simp add: add.commute)
      then show ?thesis using True by simp
    qed (use bs(3) [OF pos] in simp)
    have w: "wrap32 (blkno + 1) = blkno + 1" by (rule bs(5) [OF pos])
    have "blkdev_read_loop d st remain blkno blkofs =
        Some (st3, take remain (drop (?n * blkno + blkofs) (L d)))"
      using False less.prems(4) r(1) rd r2(1) r3(1) cat w
      by (subst blkdev_read_loop.simps) (simp add: bytes_def [symmetric] Let_def)
    with r3 show ?thesis by blast
  qed
qed

lemma blkdev_write_loop_ok:
  assumes "bd_sim devs cont ok L {#} st" "\<not> bh_locked st" "d \<in> devs" "blkofs < dd_blk_size d"
    "dd_blk_size d * blkno + blkofs + remain \<le> dd_len d" "remain \<le> length src"
  shows "\<exists>st'. blkdev_write_loop d st src remain blkno blkofs = Some st' \<and> \<not> bh_locked st' \<and>
    bd_sim devs cont ok (L(d := overwrite (L d) (dd_blk_size d * blkno + blkofs) (take remain src))) {#} st'"
  using assms
proof (induction remain arbitrary: st src blkno blkofs L rule: less_induct)
  case (less remain)
  have lL: "length (L d) = dd_len d" using less.prems(1,3) by (simp add: bd_sim_def pool_sim_def)
  show ?case
  proof (cases "remain = 0")
    case True
    then show ?thesis using less.prems lL by (simp add: blkdev_write_loop.simps)
  next
    case False
    let ?n = "dd_blk_size d"
    define bytes where "bytes = min (?n - blkofs) remain"
    note bs = blk_step [OF less.prems(3-5), folded bytes_def]
    from False have pos: "0 < remain" by simp
    let ?src = "take bytes src"
    have ls: "length ?src = bytes" using bs(3) [OF pos] less.prems(6) by simp
    let ?get = "if blkofs = 0 \<and> remain \<ge> ?n then bh_get d blkno st else bh_read d blkno st"
    obtain st1 bh where r: "?get = Some (st1, Inr bh)" "bd_sim devs cont ok L {#bh#} st1"
      "bh_dd bh = Some d" "bh_blkno bh = blkno" "bh_locked st1"
      "\<not> (blkofs = 0 \<and> remain \<ge> ?n) \<Longrightarrow> bh_state bh \<noteq> BH_STATE_INVALD"
      using bh_read_ok [OF less.prems(1,3) bs(1) [OF pos] less.prems(2)]
        bh_get_ok [OF less.prems(1,3) bs(1) [OF pos] less.prems(2)]
      by (cases "blkofs = 0 \<and> remain \<ge> ?n") auto
    have "bh_wf devs bh" using r(2) by (auto simp: bd_sim_def pool_sim_def)
    then have bl: "?n \<le> length (bh_buffer bh)" using blk_max [OF less.prems(3)] by (simp add: bh_wf_def)
    let ?buf = "overwrite (bh_buffer bh) blkofs ?src"
    have lb: "length ?buf = length (bh_buffer bh)" using bl bs(4) [OF pos] ls by simp
    have blen: "length (block_of d (L d) blkno) = ?n"
      using lL bs(6) [OF pos] by (simp add: block_of_def)
    have new: "take ?n ?buf = overwrite (block_of d (L d) (bh_blkno bh)) blkofs ?src"
    proof -
      have "take ?n ?buf = overwrite (take ?n (bh_buffer bh)) blkofs ?src"
        using take_drop_overwrite_inside [of 0 blkofs ?src ?n "bh_buffer bh"] bl bs(4) [OF pos] ls by simp
      also have "\<dots> = overwrite (block_of d (L d) (bh_blkno bh)) blkofs ?src"
      proof (cases "blkofs = 0 \<and> remain \<ge> ?n")
        case True
        then have "length ?src = ?n" using ls by (simp add: bytes_def)
        then show ?thesis using True bl blen r(4) by (simp add: overwrite_def)
      next
        case F: False
        then show ?thesis using bh_valid_block [OF r(2,3) r(6) [OF F]] by simp
      qed
      finally show ?thesis .
    qed
    define L1 where "L1 = L(d := overwrite (L d) (?n * bh_blkno bh + blkofs) ?src)"
    have fit: "blkofs + length ?src \<le> ?n" using bs(4) [OF pos] ls by simp
    obtain st2 where r2: "bh_release_modified (bh\<lparr>bh_buffer := ?buf\<rparr>) st1 = Some st2" "\<not> bh_locked st2"
      "bd_sim devs cont ok L1 {#} st2"
      using bh_release_modified_ok [OF r(2,5,3) lb new fit] by (auto simp: L1_def)
    have "remain - bytes < remain" using bs(2) [OF pos] pos by simp
    from less.IH [OF this r2(3,2) less.prems(3) blk_pos [OF less.prems(3)] bs(6) [OF pos], of "drop bytes src"]
    obtain st3 where
      r3: "blkdev_write_loop d st2 (drop bytes src) (remain - bytes) (blkno + 1) 0 = Some st3" "\<not> bh_locked st3"
        "bd_sim devs cont ok (L1(d := overwrite (L1 d) (?n * (blkno + 1)) (take (remain - bytes) (drop bytes src)))) {#} st3"
      using less.prems(6) by (auto simp: diff_le_mono fun_upd_def)
    have fin: "L1(d := overwrite (L1 d) (?n * (blkno + 1)) (take (remain - bytes) (drop bytes src))) =
        L(d := overwrite (L d) (?n * blkno + blkofs) (take remain src))"
    proof (cases "bytes < remain")
      case True
      have "take remain src = ?src @ take (remain - bytes) (drop bytes src)"
        using take_add [of bytes "remain - bytes" src] True by simp
      moreover have "overwrite (overwrite (L d) (?n * blkno + blkofs) ?src) (?n * (blkno + 1))
          (take (remain - bytes) (drop bytes src)) =
        overwrite (L d) (?n * blkno + blkofs) (?src @ take (remain - bytes) (drop bytes src))"
      proof -
        have e: "?n * (blkno + 1) = (?n * blkno + blkofs) + length ?src" using bs(7) [OF pos True] ls by simp
        show ?thesis unfolding e
          by (rule overwrite_append) (use ls lL less.prems(5,6) bs(3) [OF pos] in simp)
      qed
      ultimately show ?thesis using r(4) by (simp add: L1_def)
    next
      case F: False
      then have "bytes = remain" using bs(3) [OF pos] by simp
      then show ?thesis using r(4) by (simp add: L1_def)
    qed
    have rd: "mem_read src 0 bytes = Some ?src" "mem_write (bh_buffer bh) blkofs ?src = Some ?buf"
      using ls less.prems(6) bs(3,4) [OF pos] bl by simp_all
    have w: "wrap32 (blkno + 1) = blkno + 1" by (rule bs(5) [OF pos])
    have "blkdev_write_loop d st src remain blkno blkofs = Some st3"
      using False less.prems(4) r(1) rd r2(1) r3(1) w
      by (subst blkdev_write_loop.simps) (simp add: bytes_def [symmetric] Let_def)
    with r3 fin show ?thesis by (metis)
  qed
qed

lemma blkdev_read_ok:
  assumes "bd_sim devs cont ok L {#} st" "\<not> bh_locked st" "d \<in> devs" "off + n \<le> dd_len d" "n \<le> length buf"
  shows "\<exists>st'. blkdev_read d buf n off st = Some (st', int n, overwrite buf 0 (take n (drop off (L d)))) \<and>
    bd_sim devs cont ok L {#} st' \<and> \<not> bh_locked st'"
proof -
  let ?n = "dd_blk_size d"
  have n: "0 < ?n" by (rule blk_pos [OF assms(3)])
  then have o: "off mod ?n < ?n" "?n * (off div ?n) + off mod ?n = off" by simp_all
  obtain st' where "blkdev_read_loop d st n (off div ?n) (off mod ?n) = Some (st', take n (drop off (L d)))"
    "bd_sim devs cont ok L {#} st'" "\<not> bh_locked st'"
    using blkdev_read_loop_ok [OF assms(1-3) o(1), of "off div ?n" n] assms(4) o(2) by auto
  then show ?thesis using n assms(5) by (auto simp: blkdev_read_def)
qed

lemma blkdev_write_ok:
  assumes "bd_sim devs cont ok L {#} st" "\<not> bh_locked st" "d \<in> devs" "off + n \<le> dd_len d" "n \<le> length buf"
  shows "\<exists>st'. blkdev_write d buf n off st = Some (st', int n) \<and> \<not> bh_locked st' \<and>
    bd_sim devs cont ok (L(d := overwrite (L d) off (take n buf))) {#} st'"
proof -
  let ?n = "dd_blk_size d"
  have n: "0 < ?n" by (rule blk_pos [OF assms(3)])
  then have o: "off mod ?n < ?n" "?n * (off div ?n) + off mod ?n = off" by simp_all
  obtain st' where "blkdev_write_loop d st buf n (off div ?n) (off mod ?n) = Some st'" "\<not> bh_locked st'"
    "bd_sim devs cont ok (L(d := overwrite (L d) off (take n buf))) {#} st'"
    using blkdev_write_loop_ok [OF assms(1-3) o(1), of "off div ?n" n buf] assms(4,5) o(2) by auto
  then show ?thesis using n by (auto simp: blkdev_write_def)
qed

text \<open>Without dirty buffers the hardware holds the logical contents.\<close>

lemma clean_pool_flushed:
  assumes "bd_sim devs cont ok L {#} st" "dirty_list st = []" "d \<in> devs"
  shows "cont d (bd_dev st) = L d"
proof -
  let ?n = "dd_blk_size d" and ?m = "cont d (bd_dev st)"
  have sim: "pool_sim devs cont L (bd_dev st) (bd_pool st)" and ok: "ok (bd_dev st)"
    and nd: "\<forall>bh \<in># bd_pool st. bh_state bh \<noteq> BH_STATE_DIRTY"
    using assms(1,2) by (auto simp: bd_sim_def bd_pool_def)
  have n: "0 < ?n" by (rule blk_pos [OF assms(3)])
  have blk: "block_of d ?m b = block_of d (L d) b" if "?n * b < dd_len d" for b
  proof -
    have "blk_sim ?n (block_of d ?m b) (block_of d (L d) b) (filter_mset (bh_matches d b) (bd_pool st))"
      using sim assms(3) that by (simp add: pool_sim_def)
    moreover have "bh \<in># filter_mset (bh_matches d b) (bd_pool st) \<Longrightarrow> bh_state bh \<noteq> BH_STATE_DIRTY" for bh
      using nd by simp
    ultimately show ?thesis unfolding blk_sim_def by (metis union_single_eq_member add_mset_add_single)
  qed
  have l: "length ?m = dd_len d" "length (L d) = dd_len d"
    using cont_len [OF assms(3) ok] sim assms(3) by (simp_all add: pool_sim_def)
  show ?thesis
  proof (rule nth_equalityI)
    fix i assume i: "i < length ?m"
    have lt: "?n * (i div ?n) < dd_len d" using i l by (metis div_times_less_eq_dividend le_less_trans mult.commute)
    have at: "block_of d x (i div ?n) ! (i mod ?n) = x ! i" if "length x = dd_len d" for x
      using that i l n lt by (simp add: block_of_def)
    show "?m ! i = L d ! i" using at [OF l(1)] at [OF l(2)] blk [OF lt] by simp
  qed (simp add: l)
qed

lemma blkdev_sync_ok:
  assumes "bd_sim devs cont ok L {#} st" "\<not> bh_locked st"
  shows "\<exists>st'. blkdev_sync st = Some (st', 0) \<and> bd_sim devs cont ok L {#} st' \<and> \<not> bh_locked st' \<and>
    dirty_list st' = [] \<and> (\<forall>d \<in> devs. cont d (bd_dev st') = L d)"
proof -
  have "bd_sim devs cont ok L {#} (st\<lparr>bh_locked := True\<rparr>)"
    using assms(1) by (simp add: bd_sim_def bd_pool_def)
  from blkdev_sync_locked_ok [OF this, of CONFIG_BLKDEV_HOLD_TIME] obtain st1 where
    r: "blkdev_sync_locked CONFIG_BLKDEV_HOLD_TIME (st\<lparr>bh_locked := True\<rparr>) = Some (st1, 0)"
      "bd_sim devs cont ok L {#} st1" "bh_locked st1" "dirty_list st1 = []"
    by (auto simp: CONFIG_BLKDEV_HOLD_TIME_def)
  let ?st = "st1\<lparr>bh_locked := False\<rparr>"
  have "bd_sim devs cont ok L {#} ?st" using r(2) by (simp add: bd_sim_def bd_pool_def)
  moreover from this have "\<forall>d \<in> devs. cont d (bd_dev ?st) = L d"
    using clean_pool_flushed [of L ?st] r(4) by simp
  ultimately show ?thesis
    using r assms(2) by (auto simp: blkdev_sync_def mtx_lock_def mtx_unlock_def)
qed

lemma blkdev_init_ok:
  assumes "\<not> bh_initialized st" "cached_list st = []" "dirty_list st = []" "ok (bd_dev st)"
    "malloc ((CONFIG_BLKDEV_MAX_BLKSZ + bh_desc_size) * CONFIG_BLKDEV_NR_BUFS) = Some mem"
    "length mem = (CONFIG_BLKDEV_MAX_BLKSZ + bh_desc_size) * CONFIG_BLKDEV_NR_BUFS"
  shows "\<exists>st'. blkdev_init malloc 0 0 st = Some (st', 0) \<and> \<not> bh_locked st' \<and> bh_initialized st' \<and>
    bd_sim devs cont ok (\<lambda>d. cont d (bd_dev st)) {#} st'"
proof -
  let ?sz = "CONFIG_BLKDEV_MAX_BLKSZ + bh_desc_size"
  let ?mk = "\<lambda>i. \<lparr>bh_dd = None, bh_buffer = take CONFIG_BLKDEV_MAX_BLKSZ (drop (i * ?sz + bh_desc_size) mem),
     bh_blkno = 0, bh_state = BH_STATE_INVALD, bh_hold = 0\<rparr>"
  let ?c = "rev (map ?mk [0..<CONFIG_BLKDEV_NR_BUFS])"
  let ?st = "st\<lparr>cached_list := ?c, bh_locked := False, bh_initialized := True\<rparr>"
  have buf: "bh_wf devs (?mk i)" if "i < CONFIG_BLKDEV_NR_BUFS" for i
  proof -
    have "(i + 1) * ?sz \<le> CONFIG_BLKDEV_NR_BUFS * ?sz" using that by (intro mult_le_mono1) simp
    then show ?thesis using assms(6) by (simp add: bh_wf_def CONFIG_BLKDEV_HOLD_TIME_def mult.commute)
  qed
  define C :: "'a bh_desc multiset" where "C = mset ?c"
  have pool: "bd_pool ?st = C" using assms(3) by (simp add: bd_pool_def C_def)
  have "filter_mset (bh_matches d b) C = {#}" for d b
    by (auto simp: bh_matches_def C_def)
  moreover have "\<forall>bh \<in># C. bh_wf devs bh" using buf by (auto simp: C_def)
  ultimately have "pool_sim devs cont (\<lambda>d. cont d (bd_dev st)) (bd_dev st) C"
    using cont_len [OF _ assms(4)] by (simp add: pool_sim_def blk_sim_simps del: filter_mset_eq_mempty_iff)
  moreover have "C \<noteq> {#}"
    unfolding C_def mset_zero_iff by (simp add: CONFIG_BLKDEV_NR_BUFS_def)
  ultimately have "bd_sim devs cont ok (\<lambda>d. cont d (bd_dev st)) {#} ?st"
    using assms(3,4) unfolding bd_sim_def pool by auto
  moreover have "blkdev_init malloc 0 0 st = Some (?st, 0)"
    using assms(1,2,5) by (simp add: blkdev_init_def Let_def)
  ultimately show ?thesis by auto
qed
end

interpretation vc: blk_cache "{vdisk}" "\<lambda>d m. m" "\<lambda>m. length m = FLASH_CAPACITY"
  by unfold_locales (simp add: vdisk_def FLASH_PGSZ_def CONFIG_BLKDEV_MAX_BLKSZ_def)

section \<open>The main results\<close>

text \<open>The state after start-up over the virtual flash, all zero.\<close>

definition vflash_boot :: "u8 list blkdev" where
  "vflash_boot = fst (the (blkdev_init (\<lambda>n. Some (replicate n 0)) 0 0
     \<lparr>cached_list = [], dirty_list = [], cache_hits = 0, cache_missed = 0, bh_initialized = False,
      bh_locked = False, bd_dev = replicate FLASH_CAPACITY 0\<rparr>))"

lemma vflash_boot_sim:
  "bd_sim {vdisk} (\<lambda>d m. m) (\<lambda>m. length m = FLASH_CAPACITY) (\<lambda>d. replicate FLASH_CAPACITY 0) {#} vflash_boot"
  "\<not> bh_locked vflash_boot" "bh_initialized vflash_boot"
  using vc.blkdev_init_ok [of "\<lparr>cached_list = [], dirty_list = [], cache_hits = 0, cache_missed = 0,
      bh_initialized = False, bh_locked = False, bd_dev = replicate FLASH_CAPACITY 0\<rparr>" "\<lambda>n. Some (replicate n 0)"]
  by (auto simp: vflash_boot_def)

lemma vc_locale: "blk_cache {vdisk} (\<lambda>d m. m) (\<lambda>m. length m = FLASH_CAPACITY)"
  by (rule vc.blk_cache_axioms)

text \<open>
  C4. Writes through the cache refine writes to the logical device contents, for any flash
  devices that satisfy the contract: every byte written is visible from then on, nothing
  else changes, no call fails, and the mutex is free afterwards.
\<close>

theorem blkdev_write_refines:
  assumes "blk_cache devs cont ok" "bd_sim devs cont ok L {#} st" "\<not> bh_locked st"
    "d \<in> devs" "off + n \<le> dd_len d" "n \<le> length buf"
  shows "\<exists>st'. blkdev_write d buf n off st = Some (st', int n) \<and> \<not> bh_locked st' \<and>
    bd_sim devs cont ok (L(d := overwrite (L d) off (take n buf))) {#} st'"
  using assms by (rule blk_cache.blkdev_write_ok)

theorem blkdev_write_witness:
  "\<exists>st'. blkdev_write vdisk [1, 2, 3] 3 4095 vflash_boot = Some (st', 3) \<and>
     bd_sim {vdisk} (\<lambda>d m. m) (\<lambda>m. length m = FLASH_CAPACITY)
       ((\<lambda>d. replicate FLASH_CAPACITY 0)(vdisk := overwrite (replicate FLASH_CAPACITY 0) 4095 [1, 2, 3])) {#} st'"
  using blkdev_write_refines [OF vc_locale vflash_boot_sim(1,2), of vdisk 4095 3 "[1, 2, 3]"]
  by (auto simp: vdisk_def FLASH_CAPACITY_def)

text \<open>
  C5. Reads through the cache deliver the logical device contents: what was written last,
  whether it is still in a buffer, was evicted or was never cached.
\<close>

theorem blkdev_read_refines:
  assumes "blk_cache devs cont ok" "bd_sim devs cont ok L {#} st" "\<not> bh_locked st"
    "d \<in> devs" "off + n \<le> dd_len d" "n \<le> length buf"
  shows "\<exists>st'. blkdev_read d buf n off st = Some (st', int n, overwrite buf 0 (take n (drop off (L d)))) \<and>
    bd_sim devs cont ok L {#} st' \<and> \<not> bh_locked st'"
  using assms by (rule blk_cache.blkdev_read_ok)

theorem blkdev_read_witness:
  "\<exists>st'. blkdev_read vdisk [9, 9, 9] 2 5000 vflash_boot = Some (st', 2, [0, 0, 9])"
proof -
  have "5000 + 2 \<le> dd_len vdisk" by (simp add: vdisk_def FLASH_CAPACITY_def)
  then have "\<exists>st'. blkdev_read vdisk [9, 9, 9] 2 5000 vflash_boot =
      Some (st', int 2, overwrite [9, 9, 9] 0 (take 2 (drop 5000 (replicate FLASH_CAPACITY 0))))"
    using blkdev_read_refines [OF vc_locale vflash_boot_sim(1,2), of vdisk 5000 2 "[9, 9, 9]"] by auto
  moreover have "take 2 (drop 5000 (replicate FLASH_CAPACITY (0 :: u8))) = [0, 0]"
    by (simp add: FLASH_CAPACITY_def) (simp add: numeral_2_eq_2)
  ultimately have "\<exists>st'. blkdev_read vdisk [9, 9, 9] 2 5000 vflash_boot = Some (st', int 2, overwrite [9, 9, 9] 0 [0, 0])"
    by metis
  then show ?thesis by (simp add: overwrite_def)
qed

text \<open>
  C26. \<^verbatim>\<open>blkdev_sync\<close> makes every accepted write durable: afterwards no buffer is dirty and the
  hardware of every device holds exactly its logical contents.
\<close>

theorem blkdev_sync_durable:
  assumes "blk_cache devs cont ok" "bd_sim devs cont ok L {#} st" "\<not> bh_locked st"
  shows "\<exists>st'. blkdev_sync st = Some (st', 0) \<and> bd_sim devs cont ok L {#} st' \<and> \<not> bh_locked st' \<and>
    dirty_list st' = [] \<and> (\<forall>d \<in> devs. cont d (bd_dev st') = L d)"
  using assms by (rule blk_cache.blkdev_sync_ok)

theorem blkdev_sync_witness:
  "\<exists>st'. blkdev_sync vflash_boot = Some (st', 0) \<and> bd_dev st' = replicate FLASH_CAPACITY 0"
  using blkdev_sync_durable [OF vc_locale vflash_boot_sim(1,2)] by auto

text \<open>\<^verbatim>\<open>blkdev_sync\<close> cannot report a failure: when the first dirty block cannot be erased, nothing
  is written back, every dirty buffer is kept, and the result is still 0.
\<close>

theorem blkdev_sync_hides_errors:
  assumes "\<not> bh_locked st" "dirty_list st = bh # rest" "bh_hold bh \<le> CONFIG_BLKDEV_HOLD_TIME"
    "bh_dd bh = Some d" "err \<noteq> 0"
    "disk_device_erase d (bd_dev st) (wrap32 (dd_blk_size d * bh_blkno bh)) (dd_blk_size d) = Some (s', err)"
  shows "blkdev_sync st = Some (st\<lparr>bd_dev := s'\<rparr>, 0)"
  using assms
  by (simp add: blkdev_sync_def mtx_lock_def mtx_unlock_def blkdev_sync_locked_def)

text \<open>When the device cannot be read, \<^verbatim>\<open>blkdev_read\<close> of a block that is not cached has
  undefined behaviour (the error path releases an uninitialised buffer head and a mutex that
  is already free), instead of returning the device's error.
\<close>

theorem blkdev_read_error_path:
  assumes "\<not> bh_locked st" "cached_list st = b # bs" "\<forall>bh \<in># bd_pool st. \<not> bh_matches d (off div dd_blk_size d) bh"
    "0 < n" "dd_read d = Some rd" "err < 0" "\<And>s m. rd s (dd_blk_size d) m = Some (s, err, [])"
  shows "blkdev_read d buf n off st = None"
proof (cases "dd_blk_size d = 0")
  case True
  then show ?thesis by (simp add: blkdev_read_def)
next
  case False
  let ?b = "off div dd_blk_size d"
  have miss: "bh_unlink (bh_matches d ?b) (b # bs) = None" "bh_unlink (bh_matches d ?b) (dirty_list st) = None"
    unfolding bh_unlink_None using assms(2,3) by (auto simp: bd_pool_def)
  have rd: "\<exists>e < 0. disk_device_read d s (Some x) (dd_blk_size d) m = Some (s, e, Some x)" for s x m
    using False assms(5-7) by (auto simp: disk_device_read_def EINVAL_def)
  have "\<exists>st' e. bh_read d ?b st = Some (st', Inl e)"
    using assms(1,2) miss rd [of "bd_dev st" "bh_buffer b" "wrap32 (dd_blk_size d * ?b)"]
    by (auto simp: bh_read_def mtx_lock_def bh_search_locked_def bh_release_def mtx_unlock_def bh_enqueue_cached_def
        simp del: bh_unlink.simps)
  then have "blkdev_read_loop d st n ?b (off mod dd_blk_size d) = None"
    using assms(4) by (subst blkdev_read_loop.simps) auto
  then show ?thesis by (simp add: blkdev_read_def)
qed

text \<open>A flash that no longer responds, with one buffer of each kind.\<close>

definition dead_disk :: "unit disk_device" where
  "dead_disk = \<lparr>dd_id = 7, dd_dev = 7, dd_len = 8192, dd_blk_size = 4096, dd_get_name = ''dead'',
     dd_read = Some (\<lambda>s n m. Some (s, - EIO, [])), dd_write = Some (\<lambda>s b m. Some (s, - EIO)),
     dd_erase = Some (\<lambda>s m n. Some (s, - EIO)), dd_ioctl = None\<rparr>"

definition dead_bh :: "unit bh_desc" where
  "dead_bh = \<lparr>bh_dd = Some dead_disk, bh_buffer = replicate 4096 1, bh_blkno = 1, bh_state = BH_STATE_DIRTY, bh_hold = 10000\<rparr>"

definition dead_cache :: "unit blkdev" where
  "dead_cache = \<lparr>cached_list = [\<lparr>bh_dd = None, bh_buffer = [], bh_blkno = 0, bh_state = BH_STATE_INVALD, bh_hold = 0\<rparr>],
     dirty_list = [dead_bh],
     cache_hits = 0, cache_missed = 0, bh_initialized = True, bh_locked = False, bd_dev = ()\<rparr>"

theorem blkdev_sync_hides_errors_witness:
  "blkdev_sync dead_cache = Some (dead_cache, 0) \<and> dirty_list dead_cache \<noteq> []"
proof -
  have "blkdev_sync dead_cache = Some (dead_cache\<lparr>bd_dev := ()\<rparr>, 0)"
    by (rule blkdev_sync_hides_errors [where err = "- EIO" and d = dead_disk and bh = dead_bh and rest = "[]"])
       (simp_all add: dead_cache_def dead_bh_def dead_disk_def CONFIG_BLKDEV_HOLD_TIME_def EIO_def
         disk_device_erase_def blk_rem_pow2 [of 4096 12] wrap32_def)
  then show ?thesis by (simp add: dead_cache_def)
qed

theorem blkdev_read_error_path_witness: "blkdev_read dead_disk [0] 1 0 dead_cache = None"
  by (rule blkdev_read_error_path [where err = "- EIO"])
     (simp_all add: dead_cache_def dead_bh_def dead_disk_def bd_pool_def bh_matches_def EIO_def)

end
