(* ===== verification/Partition.thy ===== *)
theory Partition
  imports Blkdev
begin

text \<open>
  \<^verbatim>\<open>basework/dev/partition.c\<close> and \<^verbatim>\<open>basework/dev/partitions_cfg.c\<close>: the partition table,
  the accesses through it with and without the block cache, and the construction of the
  default layout. The terminating entry of a table is the end of the list.
\<close>

section \<open>State and operations\<close>

text \<open>\<^verbatim>\<open>struct disk_partition\<close>; \<open>offset\<close> is a signed \<^verbatim>\<open>long\<close>, with -1 for "not assigned".\<close>

datatype disk_partition =
  Disk_Partition (p_name: string) (p_parent: "string option") (p_offset: int) (p_len: nat)
    (p_child: "disk_partition list option")

fun with_offset :: "int \<Rightarrow> disk_partition \<Rightarrow> disk_partition" where
  "with_offset v (Disk_Partition n p ofs l c) = Disk_Partition n p v l c"

fun with_parent :: "string option \<Rightarrow> disk_partition \<Rightarrow> disk_partition" where
  "with_parent v (Disk_Partition n p ofs l c) = Disk_Partition n v ofs l c"

fun with_child :: "disk_partition list option \<Rightarrow> disk_partition \<Rightarrow> disk_partition" where
  "with_child v (Disk_Partition n p ofs l c) = Disk_Partition n p ofs l v"

text \<open>The file-level variables; a partition handle points into the table or into a child table.\<close>

record 's part_state =
  partition_table :: "disk_partition list option"
  parition_disk_cache :: "'s disk_device list"

datatype part_ref = Top nat | Child nat nat

fun part_deref :: "'s part_state \<Rightarrow> part_ref \<Rightarrow> disk_partition option" where
  "part_deref ps (Top i) =
     (case partition_table ps of None \<Rightarrow> None | Some t \<Rightarrow> if i < length t then Some (t ! i) else None)"
| "part_deref ps (Child i j) =
     (case partition_table ps of None \<Rightarrow> None
      | Some t \<Rightarrow>
          if i < length t
          then (case p_child (t ! i) of None \<Rightarrow> None
                | Some c \<Rightarrow> if j < length c then Some (c ! j) else None)
          else None)"

text \<open>A handle into a child table is outside the main table: the assertions fail.\<close>

fun disk_device_find_by_part :: "'s part_state \<Rightarrow> part_ref \<Rightarrow> 's disk_device option" where
  "disk_device_find_by_part ps (Top i) =
     (case partition_table ps of None \<Rightarrow> None
      | Some t \<Rightarrow> if i < length t \<and> i < length (parition_disk_cache ps)
                   then Some (parition_disk_cache ps ! i) else None)"
| "disk_device_find_by_part ps (Child i j) = None"

fun child_match :: "string \<Rightarrow> disk_partition list \<Rightarrow> nat \<Rightarrow> nat option" where
  "child_match name [] j = None"
| "child_match name (dp # rest) j = (if name = p_name dp then Some j else child_match name rest (j + 1))"

text \<open>
  \<^verbatim>\<open>strchr (in, '/')\<close>: the position of the slash. The loop advances it by one at every entry
  whose name starts with the text before it, and never moves it back.
\<close>

definition strchr_slash :: "string \<Rightarrow> nat option" where
  "strchr_slash s = (if CHR ''/'' \<in> set s then Some (length (takeWhile (\<lambda>c. c \<noteq> CHR ''/'') s)) else None)"

definition strncmp_eq :: "string \<Rightarrow> string \<Rightarrow> nat \<Rightarrow> bool" where
  "strncmp_eq a b n \<longleftrightarrow> take n a = take n b"

fun match_loop :: "string \<Rightarrow> nat option \<Rightarrow> disk_partition list \<Rightarrow> nat \<Rightarrow> part_ref option option" where
  "match_loop s p [] i = Some None"
| "match_loop s p (dp # rest) i =
     (case p of
        None \<Rightarrow> if s = p_name dp then Some (Some (Top i)) else match_loop s None rest (i + 1)
      | Some k \<Rightarrow>
          if strncmp_eq s (p_name dp) k
          then if length s < k + 1 then None
               else case p_child dp of
                      None \<Rightarrow> match_loop s (Some (k + 1)) rest (i + 1)
                    | Some c \<Rightarrow>
                        (case child_match (drop (k + 1) s) c 0 of
                           Some j \<Rightarrow> Some (Some (Child i j))
                         | None \<Rightarrow> match_loop s (Some (k + 1)) rest (i + 1))
          else match_loop s (Some k) rest (i + 1))"

definition partition_match :: "'s part_state \<Rightarrow> string \<Rightarrow> part_ref option option" where
  "partition_match ps s =
     match_loop s (strchr_slash s) (case partition_table ps of None \<Rightarrow> [] | Some t \<Rightarrow> t) 0"

definition disk_partition_find :: "'s part_state \<Rightarrow> string \<Rightarrow> part_ref option option" where
  "disk_partition_find ps name = partition_match ps name"

definition disk_get_partition_table :: "'s part_state \<Rightarrow> disk_partition list option \<times> nat" where
  "disk_get_partition_table ps =
     (partition_table ps, case partition_table ps of None \<Rightarrow> 0 | Some t \<Rightarrow> length t)"

text \<open>\<open>part->offset + addr\<close> converted to \<^verbatim>\<open>uint32_t\<close>.\<close>

definition part_addr :: "disk_partition \<Rightarrow> nat \<Rightarrow> nat" where
  "part_addr p addr = wrap32 (nat (p_offset p mod 2 ^ 32) + addr)"

definition lgpt_read ::
    "'s part_state \<Rightarrow> part_ref \<Rightarrow> nat \<Rightarrow> u8 list \<Rightarrow> nat \<Rightarrow> 's blkdev \<Rightarrow> ('s blkdev \<times> int \<times> u8 list) option" where
  "lgpt_read ps part addr buf sz st =
     do {
       p \<leftarrow> part_deref ps part;
       if wrap32 (addr + sz) > p_len p then Some (st, - EINVAL, buf)
       else do {
         dd \<leftarrow> disk_device_find_by_part ps part;
         blkdev_read dd buf sz (part_addr p addr) st
       }
     }"

definition lgpt_write ::
    "'s part_state \<Rightarrow> part_ref \<Rightarrow> nat \<Rightarrow> u8 list \<Rightarrow> nat \<Rightarrow> 's blkdev \<Rightarrow> ('s blkdev \<times> int) option" where
  "lgpt_write ps part addr buf sz st =
     do {
       p \<leftarrow> part_deref ps part;
       if wrap32 (addr + sz) > p_len p then Some (st, - EINVAL)
       else do {
         dd \<leftarrow> disk_device_find_by_part ps part;
         blkdev_write dd buf sz (part_addr p addr) st
       }
     }"

definition lgpt_get_block_size :: "'s part_state \<Rightarrow> part_ref \<Rightarrow> nat option \<Rightarrow> (int \<times> nat option) option" where
  "lgpt_get_block_size ps part blksz =
     (case blksz of
        None \<Rightarrow> Some (- EINVAL, None)
      | Some b \<Rightarrow> do { dd \<leftarrow> disk_device_find_by_part ps part; Some (0, Some (dd_blk_size dd)) })"

definition disk_partition_read ::
    "'s part_state \<Rightarrow> part_ref \<Rightarrow> nat \<Rightarrow> u8 list \<Rightarrow> nat \<Rightarrow> 's blkdev \<Rightarrow> ('s blkdev \<times> int \<times> u8 list) option" where
  "disk_partition_read ps part addr buf sz st =
     do {
       p \<leftarrow> part_deref ps part;
       if wrap32 (addr + sz) > p_len p then Some (st, - EINVAL, buf)
       else do {
         dd \<leftarrow> disk_device_find_by_part ps part;
         (s', ret, b) \<leftarrow> disk_device_read dd (bd_dev st) (Some buf) sz (part_addr p addr);
         b' \<leftarrow> b;
         Some (st\<lparr>bd_dev := s'\<rparr>, ret, b')
       }
     }"

definition disk_partition_write ::
    "'s part_state \<Rightarrow> part_ref \<Rightarrow> nat \<Rightarrow> u8 list \<Rightarrow> nat \<Rightarrow> 's blkdev \<Rightarrow> ('s blkdev \<times> int) option" where
  "disk_partition_write ps part addr buf sz st =
     do {
       p \<leftarrow> part_deref ps part;
       if wrap32 (addr + sz) > p_len p then Some (st, - EINVAL)
       else do {
         dd \<leftarrow> disk_device_find_by_part ps part;
         (s', ret) \<leftarrow> disk_device_write dd (bd_dev st) (Some buf) sz (part_addr p addr);
         Some (st\<lparr>bd_dev := s'\<rparr>, ret)
       }
     }"

text \<open>The assertion wants the signed address to be positive.\<close>

definition disk_partition_erase ::
    "'s part_state \<Rightarrow> part_ref \<Rightarrow> nat \<Rightarrow> nat \<Rightarrow> 's blkdev \<Rightarrow> ('s blkdev \<times> int) option" where
  "disk_partition_erase ps part addr sz st =
     do {
       p \<leftarrow> part_deref ps part;
       if wrap32 (addr + sz) > p_len p then Some (st, - EINVAL)
       else do {
         dd \<leftarrow> disk_device_find_by_part ps part;
         if \<not> (0 < part_addr p addr \<and> part_addr p addr < 2 ^ 31) then None
         else do {
           (s', ret) \<leftarrow> disk_device_erase dd (bd_dev st) (part_addr p addr) sz;
           Some (st\<lparr>bd_dev := s'\<rparr>, ret)
         }
       }
     }"

definition disk_partition_erase_all ::
    "'s part_state \<Rightarrow> part_ref \<Rightarrow> 's blkdev \<Rightarrow> ('s blkdev \<times> int) option" where
  "disk_partition_erase_all ps part st =
     do { p \<leftarrow> part_deref ps part; disk_partition_erase ps part 0 (p_len p) st }"

text \<open>
  The loop of \<^verbatim>\<open>disk_partition_register\<close>: its variable \<^verbatim>\<open>dp\<close> stays at the first entry. A null
  parent name is compared only when there is a device.
\<close>

fun register_loop :: "'s disk_device list \<Rightarrow> disk_partition \<Rightarrow> nat \<Rightarrow> (int + 's disk_device list) option" where
  "register_loop disks dp 0 = Some (Inr [])"
| "register_loop disks dp (Suc i) =
     (case p_parent dp of
        None \<Rightarrow> if disks = [] then Some (Inl (- EIO)) else None
      | Some name \<Rightarrow>
          (case disk_device_open disks name of
             (err, dd) \<Rightarrow>
               if err \<noteq> 0 then Some (Inl (- EIO))
               else do {
                 d \<leftarrow> dd;
                 r \<leftarrow> register_loop disks dp i;
                 Some (map_sum id ((#) d) r)
               }))"

definition disk_partition_register ::
    "bool \<Rightarrow> 's disk_device list \<Rightarrow> 's part_state \<Rightarrow> disk_partition list option \<Rightarrow> ('s part_state \<times> int) option" where
  "disk_partition_register malloc_ok disks ps pt =
     (if partition_table ps \<noteq> None then Some (ps, - EBUSY)
      else case pt of
        None \<Rightarrow> Some (ps, - EINVAL)
      | Some [] \<Rightarrow> Some (ps, - EINVAL)
      | Some (dp # rest) \<Rightarrow>
          if \<not> malloc_ok then Some (ps, - ENOMEM)
          else do {
            r \<leftarrow> register_loop disks dp (length (dp # rest));
            case r of
              Inl err \<Rightarrow> Some (ps, err)
            | Inr caches \<Rightarrow> Some (ps\<lparr>partition_table := Some (dp # rest), parition_disk_cache := caches\<rparr>, 0)
          })"

section \<open>Building the default table\<close>

definition KB :: "nat \<Rightarrow> nat" where "KB n = n * 1024"
definition MB :: "nat \<Rightarrow> nat" where "MB n = KB n * 1024"

definition PT_ENTRY :: "string \<Rightarrow> nat \<Rightarrow> disk_partition" where
  "PT_ENTRY name sz = Disk_Partition name None (- 1) sz None"

definition partitions_configure :: "disk_partition list" where
  "partitions_configure =
     [PT_ENTRY ''fireware_cur'' (KB 4), PT_ENTRY ''fireware'' (MB 2),
      PT_ENTRY ''syslog'' (KB 16), PT_ENTRY ''usrdata'' (KB 100)]"

text \<open>A \<^verbatim>\<open>uint32_t\<close> stored into the \<^verbatim>\<open>long\<close> field.\<close>

definition to_long :: "nat \<Rightarrow> int" where
  "to_long n = (if n < 2 ^ 31 then int n else int n - 2 ^ 32)"

text \<open>
  The assignment loop both builders run; \<open>set_par\<close> updates an entry's parent. The table as
  updated so far is returned with the success flag.
\<close>

fun layout_loop ::
    "(disk_partition \<Rightarrow> disk_partition) \<Rightarrow> nat \<Rightarrow> nat \<Rightarrow> disk_partition list \<Rightarrow> bool \<times> disk_partition list" where
  "layout_loop set_par limit offset [] = (True, [])"
| "layout_loop set_par limit offset (dp # rest) =
     (let dp1 = (if p_offset dp = - 1 then with_offset (to_long offset) dp else dp);
          dp2 = set_par dp1;
          offset' = wrap32 (offset + p_len dp)
      in if offset' > limit then (False, dp2 # rest)
         else let (good, rest') = layout_loop set_par limit offset' rest in (good, dp2 # rest'))"

definition layout_start :: "int \<Rightarrow> disk_partition list \<Rightarrow> disk_partition list" where
  "layout_start base t =
     (case t of [] \<Rightarrow> [] | dp # rest \<Rightarrow> (if p_offset dp = - 1 then with_offset base dp else dp) # rest)"

definition u32_of :: "int \<Rightarrow> nat" where
  "u32_of x = nat (x mod 2 ^ 32)"

definition partitions_configure_build ::
    "bool \<Rightarrow> 's disk_device list \<Rightarrow> 's part_state \<Rightarrow> disk_partition list \<Rightarrow> int \<Rightarrow> nat \<Rightarrow> string \<Rightarrow>
     ('s part_state \<times> int) option" where
  "partitions_configure_build malloc_ok disks ps table base_addr sz phydev =
     (case layout_start base_addr table of
        [] \<Rightarrow> disk_partition_register malloc_ok disks ps (Some [])
      | dp # rest \<Rightarrow>
          (case layout_loop (\<lambda>d. if p_parent d = None then with_parent (Some phydev) d else d)
                  (wrap32 (u32_of base_addr + sz)) (u32_of (p_offset dp)) (dp # rest) of
             (False, t) \<Rightarrow> Some (ps, - EINVAL)
           | (True, t) \<Rightarrow> disk_partition_register malloc_ok disks ps (Some t)))"

fun set_child :: "disk_partition list \<Rightarrow> part_ref \<Rightarrow> disk_partition list \<Rightarrow> disk_partition list" where
  "set_child t (Top i) sub = t[i := with_child (Some sub) (t ! i)]"
| "set_child t (Child i j) sub =
     (case p_child (t ! i) of None \<Rightarrow> t
      | Some c \<Rightarrow> t[i := with_child (Some (c[j := with_child (Some sub) (c ! j)])) (t ! i)])"

definition logic_partitions_create ::
    "'s part_state \<Rightarrow> string option \<Rightarrow> disk_partition list option \<Rightarrow> ('s part_state \<times> int) option" where
  "logic_partitions_create ps ppt sublist =
     (case (ppt, sublist) of
        (Some name, Some sub) \<Rightarrow>
          do {
            r \<leftarrow> disk_partition_find ps name;
            case r of
              None \<Rightarrow> Some (ps, - ENODEV)
            | Some ref \<Rightarrow>
                do {
                  parent \<leftarrow> part_deref ps ref;
                  if p_child parent \<noteq> None then Some (ps, - EEXIST)
                  else
                    let sub1 = layout_start (p_offset parent) sub;
                        base = u32_of (p_offset parent);
                        start = (case sub1 of [] \<Rightarrow> base | dp # rest \<Rightarrow> u32_of (p_offset dp));
                        (good, sub2) = layout_loop (with_parent (p_parent parent))
                                         (wrap32 (base + p_len parent)) start sub1
                    in if \<not> good then Some (ps, - EINVAL)
                       else Some (ps\<lparr>partition_table := map_option (\<lambda>t. set_child t ref sub2) (partition_table ps)\<rparr>, 0)
                }
          }
      | _ \<Rightarrow> Some (ps, - EINVAL))"


section \<open>The store a client of a partition sees\<close>

type_synonym 'st reader = "nat \<Rightarrow> u8 list \<Rightarrow> nat \<Rightarrow> 'st \<Rightarrow> ('st \<times> int \<times> u8 list) option"
type_synonym 'st writer = "nat \<Rightarrow> u8 list \<Rightarrow> nat \<Rightarrow> 'st \<Rightarrow> ('st \<times> int) option"

text \<open>
  What the log, the environment and the file layer rely on: an area of a device is an array
  of bytes that reads return and writes change. Accesses through a partition handle are
  moreover refused past its end.
\<close>

locale byte_array =
  fixes repr :: "'st \<Rightarrow> u8 list \<Rightarrow> bool" and plen :: nat
    and rd :: "'st reader" and wr :: "'st writer"
  assumes repr_len: "repr st c \<Longrightarrow> length c = plen" "repr st c \<Longrightarrow> plen < 2 ^ 32"
    and rd_law: "repr st c \<Longrightarrow> addr + n \<le> plen \<Longrightarrow> n \<le> length buf \<Longrightarrow>
      \<exists>st'. rd addr buf n st = Some (st', int n, overwrite buf 0 (take n (drop addr c))) \<and> repr st' c"
    and wr_law: "repr st c \<Longrightarrow> addr + n \<le> plen \<Longrightarrow> n \<le> length buf \<Longrightarrow>
      \<exists>st'. wr addr buf n st = Some (st', int n) \<and> repr st' (overwrite c addr (take n buf))"

locale byte_store = byte_array +
  assumes oob_law: "repr st c \<Longrightarrow> plen < addr + n \<Longrightarrow> addr + n < 2 ^ 32 \<Longrightarrow>
      rd addr buf n st = Some (st, - EINVAL, buf) \<and> wr addr buf n st = Some (st, - EINVAL)"

text \<open>
  An area \<open>p\<close> of device \<open>d\<close> represents the bytes \<open>c\<close>: it lies inside the device, and \<open>c\<close> is its
  part of the device's logical contents.
\<close>

definition slice_sim ::
    "'s disk_device set \<Rightarrow> ('s disk_device \<Rightarrow> 's \<Rightarrow> u8 list) \<Rightarrow> ('s \<Rightarrow> bool) \<Rightarrow> 's disk_device \<Rightarrow> disk_partition \<Rightarrow>
     's blkdev \<Rightarrow> u8 list \<Rightarrow> bool" where
  "slice_sim devs cont ok d p st c \<longleftrightarrow>
     blk_cache devs cont ok \<and>
     (\<exists>L. bd_sim devs cont ok L {#} st \<and> \<not> bh_locked st \<and> d \<in> devs \<and>
        0 \<le> p_offset p \<and> nat (p_offset p) + p_len p \<le> dd_len d \<and>
        c = take (p_len p) (drop (nat (p_offset p)) (L d)))"

definition part_sim ::
    "'s disk_device set \<Rightarrow> ('s disk_device \<Rightarrow> 's \<Rightarrow> u8 list) \<Rightarrow> ('s \<Rightarrow> bool) \<Rightarrow> 's part_state \<Rightarrow> nat \<Rightarrow>
     's blkdev \<Rightarrow> u8 list \<Rightarrow> bool" where
  "part_sim devs cont ok ps i st c \<longleftrightarrow>
     (\<exists>p d. part_deref ps (Top i) = Some p \<and> disk_device_find_by_part ps (Top i) = Some d \<and>
        slice_sim devs cont ok d p st c)"

definition part_len :: "'s part_state \<Rightarrow> nat \<Rightarrow> nat" where
  "part_len ps i = (case part_deref ps (Top i) of None \<Rightarrow> 0 | Some p \<Rightarrow> p_len p)"

lemma part_addr_nowrap:
  assumes "0 \<le> p_offset p" "nat (p_offset p) + p_len p < 2 ^ 32" "addr \<le> p_len p"
  shows "part_addr p addr = nat (p_offset p) + addr"
proof -
  have "nat (p_offset p) < 2 ^ 32" using assms by simp
  then have "p_offset p < 2 ^ 32" using assms(1) by (simp add: nat_less_iff)
  then have "p_offset p mod 2 ^ 32 = p_offset p" using assms(1) by simp
  then show ?thesis using assms(2,3) by (simp add: part_addr_def wrap32_def)
qed

lemma slice_sim_open:
  assumes "slice_sim devs cont ok d p st c"
  obtains L where "blk_cache devs cont ok" "bd_sim devs cont ok L {#} st" "\<not> bh_locked st" "d \<in> devs"
    "0 \<le> p_offset p" "nat (p_offset p) + p_len p \<le> dd_len d" "length (L d) = dd_len d" "dd_len d < 2 ^ 32"
    "c = take (p_len p) (drop (nat (p_offset p)) (L d))"
    "\<And>a. a \<le> p_len p \<Longrightarrow> part_addr p a = nat (p_offset p) + a"
proof -
  from assms obtain L where a: "blk_cache devs cont ok" "bd_sim devs cont ok L {#} st" "\<not> bh_locked st"
    "d \<in> devs" "0 \<le> p_offset p" "nat (p_offset p) + p_len p \<le> dd_len d"
    "c = take (p_len p) (drop (nat (p_offset p)) (L d))"
    by (auto simp: slice_sim_def)
  have fd: "flash_devices devs cont ok" using a(1) by (rule blk_cache.axioms(1))
  have l: "dd_len d < 2 ^ 32" by (rule flash_devices.len(2) [OF fd a(4)])
  have "length (L d) = dd_len d" using a(2,4) by (simp add: bd_sim_def pool_sim_def)
  moreover have "\<And>b. b \<le> p_len p \<Longrightarrow> part_addr p b = nat (p_offset p) + b"
    using part_addr_nowrap [OF a(5)] a(6) l by simp
  ultimately show thesis using a l that by blast
qed

interpretation sl: byte_array "slice_sim devs cont ok d p" "p_len p"
    "\<lambda>addr buf n. blkdev_read d buf n (part_addr p addr)" "\<lambda>addr buf n. blkdev_write d buf n (part_addr p addr)"
    for devs cont ok d p
proof
  fix st :: "'a blkdev" and c addr n and buf :: "u8 list"
  assume sim: "slice_sim devs cont ok d p st c"
  then obtain L where a: "blk_cache devs cont ok" "bd_sim devs cont ok L {#} st" "\<not> bh_locked st" "d \<in> devs"
    "0 \<le> p_offset p" "nat (p_offset p) + p_len p \<le> dd_len d" "length (L d) = dd_len d" "dd_len d < 2 ^ 32"
    "c = take (p_len p) (drop (nat (p_offset p)) (L d))"
    "\<And>a. a \<le> p_len p \<Longrightarrow> part_addr p a = nat (p_offset p) + a"
    using slice_sim_open by blast
  let ?o = "nat (p_offset p)"
  show "length c = p_len p" "p_len p < 2 ^ 32" using a by simp_all
  assume le: "addr + n \<le> p_len p" and nb: "n \<le> length buf"
  then have fit: "?o + addr + n \<le> dd_len d" using a(6) by simp
  have pa: "part_addr p addr = ?o + addr" using le a(10) by simp
  have sl: "take n (drop addr c) = take n (drop (?o + addr) (L d))"
    using le a(6,7,9) by (simp add: drop_take min_def add.commute)
  show "\<exists>st'. blkdev_read d buf n (part_addr p addr) st =
      Some (st', int n, overwrite buf 0 (take n (drop addr c))) \<and> slice_sim devs cont ok d p st' c"
    using blk_cache.blkdev_read_ok [OF a(1-4) fit nb] a(1,4,5,6,9) unfolding pa sl slice_sim_def by blast
  have "take (p_len p) (drop ?o (overwrite (L d) (?o + addr) (take n buf))) = overwrite c addr (take n buf)"
    using take_drop_overwrite_inside [of ?o "?o + addr" "take n buf" "p_len p" "L d"] le nb a(6,7,9) by simp
  then show "\<exists>st'. blkdev_write d buf n (part_addr p addr) st = Some (st', int n) \<and>
      slice_sim devs cont ok d p st' (overwrite c addr (take n buf))"
    using blk_cache.blkdev_write_ok [OF a(1-4) fit nb] a(1,4,5,6) unfolding pa slice_sim_def
    by (metis fun_upd_same)
qed

lemma part_sim_open:
  assumes "part_sim devs cont ok ps i st c"
  obtains p d where "part_deref ps (Top i) = Some p" "disk_device_find_by_part ps (Top i) = Some d"
    "slice_sim devs cont ok d p st c" "part_len ps i = p_len p"
proof -
  from assms obtain p d where a: "part_deref ps (Top i) = Some p" "disk_device_find_by_part ps (Top i) = Some d"
    "slice_sim devs cont ok d p st c" by (auto simp: part_sim_def)
  moreover have "part_len ps i = p_len p" unfolding part_len_def a(1) by simp
  ultimately show thesis by (rule that)
qed

interpretation lg: byte_store "part_sim devs cont ok ps i" "part_len ps i"
    "lgpt_read ps (Top i)" "lgpt_write ps (Top i)" for devs cont ok ps i
proof
  fix st :: "'a blkdev" and c addr n and buf :: "u8 list"
  assume "part_sim devs cont ok ps i st c"
  then obtain p d where a: "part_deref ps (Top i) = Some p" "disk_device_find_by_part ps (Top i) = Some d"
    "slice_sim devs cont ok d p st c" "part_len ps i = p_len p" by (rule part_sim_open)
  note l = sl.repr_len [OF a(3)]
  show "length c = part_len ps i" "part_len ps i < 2 ^ 32" using l a(4) by simp_all
  show "lgpt_read ps (Top i) addr buf n st = Some (st, - EINVAL, buf) \<and>
      lgpt_write ps (Top i) addr buf n st = Some (st, - EINVAL)"
    if "part_len ps i < addr + n" "addr + n < 2 ^ 32"
    using that a(4) unfolding lgpt_read_def lgpt_write_def a(1) by (simp add: wrap32_id)
  assume le: "addr + n \<le> part_len ps i" and nb: "n \<le> length buf"
  then have w: "wrap32 (addr + n) = addr + n" using l(2) a(4) by (intro wrap32_id) simp
  have run: "lgpt_read ps (Top i) addr buf n st = blkdev_read d buf n (part_addr p addr) st"
    "lgpt_write ps (Top i) addr buf n st = blkdev_write d buf n (part_addr p addr) st"
    using le a(4) unfolding lgpt_read_def lgpt_write_def a(1,2) by (simp_all add: w)
  have le': "addr + n \<le> p_len p" using le a(4) by simp
  show "\<exists>st'. lgpt_read ps (Top i) addr buf n st =
      Some (st', int n, overwrite buf 0 (take n (drop addr c))) \<and> part_sim devs cont ok ps i st' c"
    using sl.rd_law [OF a(3) le' nb] a(1,2) unfolding run part_sim_def by metis
  show "\<exists>st'. lgpt_write ps (Top i) addr buf n st = Some (st', int n) \<and>
      part_sim devs cont ok ps i st' (overwrite c addr (take n buf))"
    using sl.wr_law [OF a(3) le' nb] a(1,2) unfolding run part_sim_def by metis
qed

section \<open>The main results\<close>

text \<open>The logical contents are determined by the state: reading the whole device gives them.\<close>

lemma logical_unique:
  assumes "blk_cache devs cont ok" "bd_sim devs cont ok L {#} st" "bd_sim devs cont ok L' {#} st"
    "\<not> bh_locked st" "d \<in> devs"
  shows "L d = L' d"
proof -
  let ?buf = "replicate (dd_len d) 0"
  have l: "length (L d) = dd_len d" "length (L' d) = dd_len d"
    using assms by (simp_all add: bd_sim_def pool_sim_def)
  have "\<exists>st'. blkdev_read d ?buf (dd_len d) 0 st = Some (st', int (dd_len d), overwrite ?buf 0 (take (dd_len d) (drop 0 (L d))))"
    using blk_cache.blkdev_read_ok [OF assms(1,2,4,5), of 0 "dd_len d" ?buf] by auto
  moreover have "\<exists>st'. blkdev_read d ?buf (dd_len d) 0 st = Some (st', int (dd_len d), overwrite ?buf 0 (take (dd_len d) (drop 0 (L' d))))"
    using blk_cache.blkdev_read_ok [OF assms(1,3,4,5), of 0 "dd_len d" ?buf] by auto
  ultimately show ?thesis using l by (auto simp: overwrite_def)
qed


section \<open>The layout\<close>

lemma with_simps [simp]:
  "p_offset (with_offset v dp) = v" "p_len (with_offset v dp) = p_len dp" "p_parent (with_offset v dp) = p_parent dp"
  "p_offset (with_parent q dp) = p_offset dp" "p_len (with_parent q dp) = p_len dp" "p_parent (with_parent q dp) = q"
  by (cases dp, simp)+

text \<open>Consecutive placement: entry \<open>i\<close> starts where the entries before it end.\<close>

fun placed :: "nat \<Rightarrow> disk_partition list \<Rightarrow> bool" where
  "placed offset [] = True"
| "placed offset (dp # rest) \<longleftrightarrow> p_offset dp = int offset \<and> placed (offset + p_len dp) rest"

abbreviation total_len :: "disk_partition list \<Rightarrow> nat" where
  "total_len t \<equiv> sum_list (map p_len t)"

lemma layout_loop_ok:
  assumes "\<forall>dp \<in> set t. p_offset dp = - 1" "\<And>dp. p_offset (f dp) = p_offset dp \<and> p_len (f dp) = p_len dp"
    "offset + total_len t < 2 ^ 31"
  shows "if offset + total_len t \<le> limit \<or> t = []
    then \<exists>t'. layout_loop f limit offset t = (True, t') \<and> placed offset t' \<and> map p_len t' = map p_len t
    else fst (layout_loop f limit offset t) = False"
  using assms(1,3)
proof (induction t arbitrary: offset)
  case Nil
  then show ?case by simp
next
  case (Cons dp t)
  let ?o = "wrap32 (offset + p_len dp)"
  have o: "?o = offset + p_len dp" using Cons.prems(2) by (intro wrap32_id) simp
  have tl: "to_long offset = int offset" using Cons.prems(2) by (simp add: to_long_def)
  have IH: "if ?o + total_len t \<le> limit \<or> t = []
    then \<exists>t'. layout_loop f limit ?o t = (True, t') \<and> placed ?o t' \<and> map p_len t' = map p_len t
    else fst (layout_loop f limit ?o t) = False"
    using Cons.prems by (intro Cons.IH) (auto simp: o)
  show ?case
  proof (cases "?o > limit")
    case True
    then show ?thesis using Cons.prems o by (simp add: Let_def)
  next
    case False
    then show ?thesis
      using IH Cons.prems(1) o assms(2) tl by (cases "t = []") (auto simp: Let_def split: prod.splits if_splits)
  qed
qed

lemma placed_nth:
  "placed offset t \<Longrightarrow> i < length t \<Longrightarrow> p_offset (t ! i) = int (offset + total_len (take i t))"
  by (induction t arbitrary: offset i) (auto simp: nth_Cons' take_Cons' split: if_splits)

lemma layout_start_loop:
  assumes "p_offset dp = - 1" "o' < 2 ^ 31"
  shows "layout_loop f lim o' (with_offset (int o') dp # rest) = layout_loop f lim o' (dp # rest)"
proof -
  have "with_offset a (with_offset b dp) = with_offset a dp" for a b by (cases dp) simp
  then show ?thesis using assms by (simp add: to_long_def)
qed

lemma layout_loop_length: "length (snd (layout_loop f lim o' t)) = length t"
  by (induction t arbitrary: o') (auto simp: Let_def split_beta)

lemma layout_loop_hd:
  "layout_loop f lim o' (dp # rest) = (True, t') \<Longrightarrow>
     \<exists>r. t' = f (if p_offset dp = - 1 then with_offset (to_long o') dp else dp) # r \<and> length r = length rest"
  using layout_loop_length [of f lim "wrap32 (o' + p_len dp)" rest]
  by (auto simp: Let_def split: if_splits prod.splits)

lemma register_loop_all:
  "p_parent dp = Some name \<Longrightarrow> disk_device_open disks name = (0, Some d) \<Longrightarrow>
     register_loop disks dp n = Some (Inr (replicate n d))"
  by (induction n) auto

text \<open>\<^verbatim>\<open>partitions_configure_build\<close> lays a table of unplaced entries out back to back from the
  base address and registers it exactly when the entries fit; otherwise it refuses and
  registers nothing.
\<close>

theorem partitions_configure_build_layout:
  assumes t: "t \<noteq> []" "\<forall>dp \<in> set t. p_offset dp = - 1 \<and> p_parent dp = None"
    and ps: "partition_table ps = None" and dev: "disk_device_open disks phydev = (0, Some d)"
    and bound: "base + total_len t < 2 ^ 31" "base + sz < 2 ^ 32"
  shows "if total_len t \<le> sz
    then \<exists>t'. partitions_configure_build True disks ps t (int base) sz phydev =
           Some (ps\<lparr>partition_table := Some t', parition_disk_cache := replicate (length t) d\<rparr>, 0) \<and>
         map p_len t' = map p_len t \<and>
         (\<forall>i < length t. p_offset (t' ! i) = int (base + total_len (take i t)))
    else partitions_configure_build True disks ps t (int base) sz phydev = Some (ps, - EINVAL)"
proof -
  obtain dp rest where dr: "t = dp # rest" using t(1) by (cases t) auto
  let ?f = "\<lambda>d. if p_parent d = None then with_parent (Some phydev) d else d"
  have b31: "base < 2 ^ 31" using bound(1) by simp
  have u: "u32_of (int base) = base" using b31 by (simp add: u32_of_def nat_mod_distrib)
  have lim: "wrap32 (base + sz) = base + sz" using bound(2) by (rule wrap32_id)
  have st: "layout_start (int base) t = with_offset (int base) dp # rest"
    using t(2) dr by (simp add: layout_start_def)
  have lo: "layout_loop ?f (base + sz) base (with_offset (int base) dp # rest) = layout_loop ?f (base + sz) base t"
    unfolding dr by (rule layout_start_loop [OF _ b31]) (use t(2) dr in simp)
  have run: "partitions_configure_build True disks ps t (int base) sz phydev =
      (case layout_loop ?f (base + sz) base t of
         (False, t') \<Rightarrow> Some (ps, - EINVAL) | (True, t') \<Rightarrow> disk_partition_register True disks ps (Some t'))"
    unfolding partitions_configure_build_def st using lo u lim by simp
  have L: "if base + total_len t \<le> base + sz \<or> t = []
    then \<exists>t'. layout_loop ?f (base + sz) base t = (True, t') \<and> placed base t' \<and> map p_len t' = map p_len t
    else fst (layout_loop ?f (base + sz) base t) = False"
    by (rule layout_loop_ok) (use t(2) bound(1) in auto)
  show ?thesis
  proof (cases "total_len t \<le> sz")
    case False
    then have "fst (layout_loop ?f (base + sz) base t) = False" using L t(1) by simp
    then show ?thesis using False run by (simp split: prod.splits)
  next
    case True
    then obtain t' where t': "layout_loop ?f (base + sz) base t = (True, t')" "placed base t'" "map p_len t' = map p_len t"
      using L by auto
    obtain r where r: "t' = ?f (with_offset (to_long base) dp) # r" "length r = length rest"
      using layout_loop_hd [OF t'(1) [unfolded dr]] t(2) dr by auto
    have par: "p_parent (hd t') = Some phydev" using r t(2) dr by simp
    have len: "length t' = length t" using r dr by simp
    have "disk_partition_register True disks ps (Some t') =
        Some (ps\<lparr>partition_table := Some t', parition_disk_cache := replicate (length t') d\<rparr>, 0)"
      using ps r(1) register_loop_all [OF par dev, of "length t'"] by (auto simp: disk_partition_register_def)
    moreover have "p_offset (t' ! i) = int (base + total_len (take i t))" if "i < length t" for i
      using placed_nth [OF t'(2), of i] that len t'(3) by (simp add: take_map [symmetric])
    ultimately show ?thesis using True run t' len by (auto intro!: exI [of _ t'])
  qed
qed

theorem partitions_configure_build_witness:
  "\<exists>t'. partitions_configure_build True [vdisk]
       \<lparr>partition_table = None, parition_disk_cache = []\<rparr> partitions_configure 0 FLASH_CAPACITY FLASH_DEVNAME =
     Some (\<lparr>partition_table = Some t', parition_disk_cache = replicate 4 vdisk\<rparr>, 0) \<and>
     p_offset (t' ! 2) = 2101248"
proof -
  let ?ps = "\<lparr>partition_table = None, parition_disk_cache = []\<rparr> :: u8 list part_state"
  let ?t = partitions_configure
  have o: "disk_device_open [vdisk] FLASH_DEVNAME = (0, Some vdisk)" by (simp add: vdisk_def)
  have t: "?t \<noteq> []" "\<forall>dp \<in> set ?t. p_offset dp = - 1 \<and> p_parent dp = None" "length ?t = 4"
    by (simp_all add: partitions_configure_def PT_ENTRY_def)
  have tot: "total_len ?t = 2220032" "total_len (take 2 ?t) = 2101248"
    by (simp_all add: partitions_configure_def PT_ENTRY_def KB_def MB_def)
  have c: "FLASH_CAPACITY = 5242880" by (simp add: FLASH_CAPACITY_def)
  have "\<exists>t'. partitions_configure_build True [vdisk] ?ps ?t (int 0) FLASH_CAPACITY FLASH_DEVNAME =
      Some (?ps\<lparr>partition_table := Some t', parition_disk_cache := replicate (length ?t) vdisk\<rparr>, 0) \<and>
      (\<forall>i < length ?t. p_offset (t' ! i) = int (0 + total_len (take i ?t)))"
    using partitions_configure_build_layout [OF t(1,2) _ o, of ?ps 0 FLASH_CAPACITY] tot(1) c by simp metis
  then show ?thesis using tot(2) t(3) by fastforce
qed

text \<open>\<^verbatim>\<open>disk_partition_register\<close> never advances to the next entry: whatever devices the entries
  name, every partition is bound to the device of the first one.
\<close>

theorem disk_partition_register_first_device:
  assumes "partition_table ps = None" "p_parent dp = Some name" "disk_device_open disks name = (0, Some d)"
  shows "disk_partition_register True disks ps (Some (dp # rest)) =
    Some (ps\<lparr>partition_table := Some (dp # rest), parition_disk_cache := replicate (Suc (length rest)) d\<rparr>, 0)"
  using assms register_loop_all [OF assms(2,3), of "Suc (length rest)"]
  by (simp add: disk_partition_register_def del: register_loop.simps)

theorem disk_partition_register_witness:
  "parition_disk_cache (fst (the (disk_partition_register True [vdisk, vdisk\<lparr>dd_get_name := ''nor2''\<rparr>]
       \<lparr>partition_table = None, parition_disk_cache = []\<rparr>
       (Some [Disk_Partition ''a'' (Some FLASH_DEVNAME) 0 4096 None, Disk_Partition ''b'' (Some ''nor2'') 0 4096 None])))) =
   [vdisk, vdisk]"
proof -
  have o: "disk_device_open [vdisk, vdisk\<lparr>dd_get_name := ''nor2''\<rparr>] FLASH_DEVNAME = (0, Some vdisk)"
    by (simp add: vdisk_def)
  show ?thesis
    using disk_partition_register_first_device [OF _ _ o, of "\<lparr>partition_table = None, parition_disk_cache = []\<rparr>"
        "Disk_Partition ''a'' (Some FLASH_DEVNAME) 0 4096 None" "[Disk_Partition ''b'' (Some ''nor2'') 0 4096 None]"]
    by simp
qed

text \<open>
  A logical partition made by \<^verbatim>\<open>logic_partitions_create\<close> cannot be accessed: every in-range
  read, write or erase through its handle fails the assertion on the handle.
\<close>

theorem child_partition_unusable:
  assumes "part_deref ps (Child i j) = Some p" "wrap32 (addr + n) \<le> p_len p"
  shows "lgpt_read ps (Child i j) addr buf n st = None \<and> lgpt_write ps (Child i j) addr buf n st = None \<and>
    disk_partition_erase ps (Child i j) addr n st = None"
  using assms by (simp add: lgpt_read_def lgpt_write_def disk_partition_erase_def)

text \<open>A table with two partitions on the virtual flash, the second with a child.\<close>

definition demo_parts :: "u8 list part_state" where
  "demo_parts = \<lparr>partition_table =
     Some [Disk_Partition ''a'' (Some FLASH_DEVNAME) 4096 64 None,
           Disk_Partition ''b'' (Some FLASH_DEVNAME) 8192 4096
             (Some [Disk_Partition ''log'' (Some FLASH_DEVNAME) 8192 1024 None])],
     parition_disk_cache = [vdisk, vdisk]\<rparr>"

theorem child_partition_witness: "lgpt_read demo_parts (Child 1 0) 0 [0] 1 vflash_boot = None"
  using child_partition_unusable [of demo_parts 1 0 _ 0 1 "[0]" vflash_boot]
  by (simp add: demo_parts_def wrap32_def)

lemma vflash_part_sim:
  assumes "part_deref ps (Top i) = Some p" "disk_device_find_by_part ps (Top i) = Some vdisk"
    "0 \<le> p_offset p" "nat (p_offset p) + p_len p \<le> FLASH_CAPACITY" "n = p_len p"
  shows "part_sim {vdisk} (\<lambda>d m. m) (\<lambda>m. length m = FLASH_CAPACITY) ps i vflash_boot (replicate n 0)"
proof -
  have "dd_len vdisk = FLASH_CAPACITY" by (simp add: vdisk_def)
  moreover have "replicate n (0 :: u8) = take (p_len p) (drop (nat (p_offset p)) (replicate FLASH_CAPACITY 0))"
    using assms(4,5) by simp
  ultimately show ?thesis
    unfolding part_sim_def slice_sim_def
    by (intro conjI exI [of _ p] exI [of _ vdisk] exI [of _ "\<lambda>d. replicate FLASH_CAPACITY 0"])
       (use assms vc_locale vflash_boot_sim in auto)
qed

lemma demo_part_sim:
  "part_sim {vdisk} (\<lambda>d m. m) (\<lambda>m. length m = FLASH_CAPACITY) demo_parts 0 vflash_boot (replicate 64 0)"
  "part_sim {vdisk} (\<lambda>d m. m) (\<lambda>m. length m = FLASH_CAPACITY) demo_parts 1 vflash_boot (replicate 4096 0)"
  using vflash_part_sim [of demo_parts 0 _ 64] vflash_part_sim [of demo_parts 1 _ 4096]
  by (simp_all add: demo_parts_def FLASH_CAPACITY_def)


text \<open>
  The first partition of a table built at base address 0, which is what the host build
  does, cannot be erased from its start: the assertion wants a positive address.
\<close>

theorem erase_at_zero_asserts:
  assumes "part_deref ps (Top i) = Some p" "p_offset p = 0" "wrap32 n \<le> p_len p"
  shows "disk_partition_erase ps (Top i) 0 n st = None"
  using assms by (auto simp: disk_partition_erase_def part_addr_def wrap32_def bind_eq_None_conv)

theorem erase_at_zero_witness:
  "disk_partition_erase_all \<lparr>partition_table = Some [Disk_Partition ''fireware_cur'' (Some FLASH_DEVNAME) 0 4096 None],
     parition_disk_cache = [vdisk]\<rparr> (Top 0) vflash_boot = None"
  using erase_at_zero_asserts [of "\<lparr>partition_table = Some [Disk_Partition ''fireware_cur'' (Some FLASH_DEVNAME) 0 4096 None],
     parition_disk_cache = [vdisk]\<rparr>" 0 _ 4096 vflash_boot]
  by (simp add: disk_partition_erase_all_def wrap32_def)

end
