(* ===== verification/Disklog.thy ===== *)
theory Disklog
  imports Partition Ring
begin

text \<open>
  \<^verbatim>\<open>basework/lib/disklog.c\<close>: the system log kept as a ring in the \<^verbatim>\<open>syslog\<close> partition. The
  calls of \<^verbatim>\<open>lgpt_read\<close> and \<^verbatim>\<open>lgpt_write\<close> on that partition are the arguments \<open>rd\<close> and
  \<open>wr\<close>, with the state \<open>'st\<close> of the storage below; \<open>blksz\<close> is what
  \<^verbatim>\<open>lgpt_get_block_size\<close> reports and \<open>plen\<close> the length of the partition.
\<close>

section \<open>State and operations\<close>

record disk_log =
  dl_magic :: nat
  dl_start :: nat
  dl_end :: nat
  dl_size :: nat
  dl_wr_ofs :: nat
  dl_rd_ofs :: nat
  dl_d_size :: nat

definition DISKLOG_MAGIC :: nat where "DISKLOG_MAGIC = 0xabdcebcf"

text \<open>The memory image of the structure: seven little-endian words.\<close>

definition disk_log_bytes :: "disk_log \<Rightarrow> u8 list" where
  "disk_log_bytes l = concat (map le32
     [dl_magic l, dl_start l, dl_end l, dl_size l, dl_wr_ofs l, dl_rd_ofs l, dl_d_size l])"

definition disk_log_of :: "u8 list \<Rightarrow> disk_log" where
  "disk_log_of bs = (let w = words32 7 bs in
     \<lparr>dl_magic = w ! 0, dl_start = w ! 1, dl_end = w ! 2, dl_size = w ! 3, dl_wr_ofs = w ! 4,
      dl_rd_ofs = w ! 5, dl_d_size = w ! 6\<rparr>)"

text \<open>The assertion wants a positive result.\<close>

definition logfile_save :: "'st writer \<Rightarrow> disk_log \<Rightarrow> 'st \<Rightarrow> 'st option" where
  "logfile_save wr l st =
     do { (st', ret) \<leftarrow> wr 0 (disk_log_bytes l) 28 st; if ret > 0 then Some st' else None }"

definition disklog_reset_locked ::
    "'st writer \<Rightarrow> nat \<Rightarrow> nat \<Rightarrow> 'st \<Rightarrow> ('st \<times> disk_log) option" where
  "disklog_reset_locked wr plen blksz st =
     (if blksz = 0 then None
      else
        let sz = wrap32 ((wrap32 (plen + (2 ^ 32 - blksz)) div blksz) * blksz);
            l = \<lparr>dl_magic = DISKLOG_MAGIC, dl_start = blksz, dl_end = wrap32 (blksz + sz), dl_size = sz,
                 dl_wr_ofs = blksz, dl_rd_ofs = blksz, dl_d_size = 0\<rparr> in
        do { st' \<leftarrow> logfile_save wr l st; Some (st', l) })"

definition disklog_reset ::
    "'st writer \<Rightarrow> nat \<Rightarrow> nat \<Rightarrow> 'st \<Rightarrow> ('st \<times> disk_log) option" where
  "disklog_reset wr plen blksz st = disklog_reset_locked wr plen blksz st"

text \<open>\<open>l\<close> is the content of the static \<^verbatim>\<open>log_file\<close> before the call.\<close>

definition disklog_init ::
    "'st reader \<Rightarrow> 'st writer \<Rightarrow> nat \<Rightarrow> nat \<Rightarrow> bool \<Rightarrow> disk_log \<Rightarrow> 'st \<Rightarrow> ('st \<times> bool \<times> disk_log \<times> int) option" where
  "disklog_init rd wr plen blksz initialized l st =
     (if initialized then Some (st, True, l, 0)
      else do {
        (st1, ret, bs) \<leftarrow> rd 0 (disk_log_bytes l) 28 st;
        if ret < 0 then Some (st1, False, disk_log_of bs, ret)
        else if dl_magic (disk_log_of bs) \<noteq> DISKLOG_MAGIC
        then do { (st2, l2) \<leftarrow> disklog_reset_locked wr plen blksz st1; Some (st2, True, l2, 0) }
        else Some (st1, True, disk_log_of bs, 0)
      })"

definition usub32 :: "nat \<Rightarrow> nat \<Rightarrow> nat" where
  "usub32 a b = wrap32 (a + (2 ^ 32 - b))"

text \<open>
  The write loop; it ends with the last result when a write stores nothing. A write that
  claims progress for no bytes would repeat forever.
\<close>

function input_loop ::
    "'st writer \<Rightarrow> nat \<Rightarrow> nat \<Rightarrow> nat \<Rightarrow> u8 list \<Rightarrow> nat \<Rightarrow> 'st \<Rightarrow> ('st \<times> nat \<times> nat \<times> int) option" where
  "input_loop wr start end wr_ofs buf remain st =
     (if remain = 0 then Some (st, wr_ofs, 0, 1)
      else
        let bytes = min (usub32 end wr_ofs) remain in
        do {
          (st1, ret) \<leftarrow> wr wr_ofs buf bytes st;
          if ret \<le> 0 then Some (st1, wr_ofs, remain, ret)
          else if bytes = 0 then None
          else
            let wr_ofs1 = wrap32 (wr_ofs + bytes);
                wr_ofs2 = (if wr_ofs1 \<ge> end then start else wr_ofs1) in
            input_loop wr start end wr_ofs2 (drop bytes buf) (remain - bytes) st1
        })"
  by pat_completeness auto
termination
  by (relation "measure (\<lambda>(wr, start, end, wr_ofs, buf, remain, st). remain)") auto

definition disklog_input ::
    "'st writer \<Rightarrow> u8 list option \<Rightarrow> nat \<Rightarrow> disk_log \<Rightarrow> 'st \<Rightarrow> ('st \<times> disk_log \<times> int) option" where
  "disklog_input wr buf sz l st =
     (case buf of
        None \<Rightarrow> Some (st, l, - EINVAL)
      | Some b \<Rightarrow>
          if sz = 0 then Some (st, l, - EINVAL)
          else do {
            (st1, wr_ofs, remain, ret) \<leftarrow> input_loop wr (dl_start l) (dl_end l) (dl_wr_ofs l) b sz st;
            let l1 = (if remain > 0 then l
                      else let d = wrap32 (dl_d_size l + sz) in
                           if d > dl_size l then l\<lparr>dl_d_size := dl_size l, dl_rd_ofs := wr_ofs\<rparr>
                           else l\<lparr>dl_d_size := d\<rparr>);
            let l2 = l1\<lparr>dl_wr_ofs := wr_ofs\<rparr>;
            st2 \<leftarrow> logfile_save wr l2 st1;
            Some (st2, l2, if remain > 0 then ret else 0)
          })"

text \<open>
  The output loop; \<open>output\<close> is the caller's callback on its context, and the bytes of \<open>buffer\<close>
  are those the callback may look at.
\<close>

function output_loop ::
    "'st reader \<Rightarrow> ('c \<Rightarrow> u8 list \<Rightarrow> 'c \<times> bool) \<Rightarrow> nat \<Rightarrow> nat \<Rightarrow> nat \<Rightarrow> u8 list \<Rightarrow> nat \<Rightarrow> nat \<Rightarrow> 'c \<Rightarrow> 'st \<Rightarrow>
     ('st \<times> 'c \<times> int) option" where
  "output_loop rd output start end maxsize buffer rd_ofs remain ctx st =
     (if remain = 0 then Some (st, ctx, 0)
      else
        let bytes = min (min (usub32 end rd_ofs) remain) maxsize in
        do {
          (st1, ret, buffer1) \<leftarrow> rd rd_ofs buffer bytes st;
          if ret \<le> 0 then Some (st1, ctx, ret)
          else if bytes = 0 then None
          else
            let (ctx1, accepted) = output ctx (take bytes buffer1) in
            if \<not> accepted then Some (st1, ctx1, - EIO)
            else
              let rd_ofs1 = wrap32 (rd_ofs + bytes);
                  rd_ofs2 = (if rd_ofs1 \<ge> end then start else rd_ofs1) in
              output_loop rd output start end maxsize buffer1 rd_ofs2 (remain - bytes) ctx1 st1
        })"
  by pat_completeness auto
termination
  by (relation "measure (\<lambda>(rd, output, start, end, maxsize, buffer, rd_ofs, remain, ctx, st). remain)") auto

definition LOG_SIZE :: nat where "LOG_SIZE = 1024"

definition disklog_ouput ::
    "(nat \<Rightarrow> u8 list option) \<Rightarrow> 'st reader \<Rightarrow> ('c \<Rightarrow> u8 list \<Rightarrow> 'c \<times> bool) option \<Rightarrow> 'c \<Rightarrow> nat \<Rightarrow> disk_log \<Rightarrow> 'st \<Rightarrow>
     ('st \<times> 'c \<times> int) option" where
  "disklog_ouput general_malloc rd output ctx maxsize l st =
     (case output of
        None \<Rightarrow> Some (st, ctx, - EINVAL)
      | Some out \<Rightarrow>
          let maxsize = (if maxsize = 0 then LOG_SIZE else maxsize) in
          (case general_malloc (wrap32 (maxsize + 1)) of
             None \<Rightarrow> Some (st, ctx, - ENOMEM)
           | Some buffer \<Rightarrow>
               output_loop rd out (dl_start l) (dl_end l) maxsize buffer (dl_rd_ofs l) (dl_d_size l) ctx st))"

text \<open>
  The read loop of \<^verbatim>\<open>disklog_read\<close>: every piece is stored at the start of the caller's buffer,
  and the result is that of the last read.
\<close>

function read_loop ::
    "'st reader \<Rightarrow> nat \<Rightarrow> nat \<Rightarrow> u8 list \<Rightarrow> nat \<Rightarrow> nat \<Rightarrow> nat \<Rightarrow> int \<Rightarrow> 'st \<Rightarrow>
     ('st \<times> u8 list \<times> (nat \<times> nat) option \<times> int) option" where
  "read_loop rd start end buffer rd_ofs remain sz ret0 st =
     (if remain = 0 then Some (st, buffer, Some (rd_ofs, sz), ret0)
      else
        let bytes = min (usub32 end rd_ofs) remain in
        do {
          (st1, ret, buffer1) \<leftarrow> rd rd_ofs buffer bytes st;
          if ret \<le> 0 then Some (st1, buffer1, None, ret)
          else if bytes = 0 then None
          else
            let rd_ofs1 = wrap32 (rd_ofs + bytes);
                rd_ofs2 = (if rd_ofs1 \<ge> end then start else rd_ofs1) in
            read_loop rd start end buffer1 rd_ofs2 (remain - bytes) (usub32 sz bytes) ret st1
        })"
  by pat_completeness auto
termination
  by (relation "measure (\<lambda>(rd, start, end, buffer, rd_ofs, remain, sz, ret0, st). remain)") auto

text \<open>\<open>rdlog\<close> is the static cursor of the function.\<close>

definition disklog_read ::
    "'st reader \<Rightarrow> u8 list option \<Rightarrow> nat \<Rightarrow> bool \<Rightarrow> disk_log \<Rightarrow> disk_log \<Rightarrow> 'st \<Rightarrow>
     ('st \<times> u8 list option \<times> disk_log \<times> int) option" where
  "disklog_read rd buffer maxlen first l rdlog st =
     (case buffer of
        None \<Rightarrow> Some (st, None, rdlog, - EINVAL)
      | Some b \<Rightarrow>
          if maxlen = 0 then Some (st, Some b, rdlog, - EINVAL)
          else
            let r = (if first then l else rdlog) in
            do {
              (st1, b1, done, ret) \<leftarrow> read_loop rd (dl_start r) (dl_end r) b (dl_rd_ofs r)
                                        (min maxlen (dl_d_size r)) (dl_d_size r) 0 st;
              let r1 = (case done of None \<Rightarrow> r
                        | Some (rd_ofs, sz) \<Rightarrow> r\<lparr>dl_rd_ofs := rd_ofs, dl_d_size := sz\<rparr>);
              Some (st1, Some b1, r1, ret)
            })"

text \<open>The callback object of \<^verbatim>\<open>disklog_upload_cb\<close>; null callbacks are \<^const>\<open>None\<close>.\<close>

record 'c log_upload_class =
  luc_begin :: "('c \<Rightarrow> 'c) option"
  luc_upload :: "('c \<Rightarrow> u8 list \<Rightarrow> 'c \<times> bool) option"
  luc_end :: "('c \<Rightarrow> int \<Rightarrow> 'c) option"
  luc_ctx :: 'c
  luc_maxsize :: nat

definition disklog_upload_cb ::
    "(nat \<Rightarrow> u8 list option) \<Rightarrow> 'st reader \<Rightarrow> 'c log_upload_class option \<Rightarrow> disk_log \<Rightarrow> 'st \<Rightarrow>
     ('st \<times> 'c log_upload_class option) option" where
  "disklog_upload_cb general_malloc rd luc l st =
     (case luc of
        None \<Rightarrow> Some (st, None)
      | Some u \<Rightarrow>
          if luc_upload u = None then Some (st, Some u)
          else
            let c0 = (case luc_begin u of None \<Rightarrow> luc_ctx u | Some b \<Rightarrow> b (luc_ctx u)) in
            do {
              (st1, c1, err) \<leftarrow> disklog_ouput general_malloc rd (luc_upload u) c0 (luc_maxsize u) l st;
              let c2 = (case luc_end u of None \<Rightarrow> c1 | Some e \<Rightarrow> e c1 err);
              Some (st1, Some (u\<lparr>luc_ctx := c2\<rparr>))
            })"

declare input_loop.simps [simp del] output_loop.simps [simp del] read_loop.simps [simp del]

section \<open>The log as a bounded sequence\<close>

definition log_data :: "nat \<Rightarrow> nat \<Rightarrow> u8 list \<Rightarrow> u8 list" where
  "log_data start sz c = take sz (drop start c)"

text \<open>The whole ring seen from offset \<open>w\<close>.\<close>

definition log_window :: "nat \<Rightarrow> nat \<Rightarrow> u8 list \<Rightarrow> nat \<Rightarrow> u8 list" where
  "log_window start sz c w = ring_read (log_data start sz c) sz (w - start) sz"

text \<open>The bytes the log holds, oldest first.\<close>

definition log_bytes :: "disk_log \<Rightarrow> u8 list \<Rightarrow> u8 list" where
  "log_bytes l c = ring_read (log_data (dl_start l) (dl_size l) c) (dl_size l) (dl_rd_ofs l - dl_start l) (dl_d_size l)"

definition log_inv :: "nat \<Rightarrow> disk_log \<Rightarrow> bool" where
  "log_inv plen l \<longleftrightarrow>
     dl_magic l = DISKLOG_MAGIC \<and> 28 \<le> dl_start l \<and> 0 < dl_size l \<and> dl_end l = dl_start l + dl_size l \<and>
     dl_end l \<le> plen \<and> dl_start l \<le> dl_rd_ofs l \<and> dl_rd_ofs l < dl_end l \<and> dl_d_size l \<le> dl_size l \<and>
     dl_wr_ofs l = dl_start l + (dl_rd_ofs l - dl_start l + dl_d_size l) mod dl_size l"

lemma length_log_window [simp]: "length (log_window start sz c w) = sz"
  by (simp add: log_window_def)

lemma length_log_bytes [simp]: "length (log_bytes l c) = dl_d_size l"
  by (simp add: log_bytes_def)

text \<open>The log is the newest part of the window at the write offset.\<close>

lemma log_bytes_window:
  assumes "log_inv plen l"
  shows "log_bytes l c = drop (dl_size l - dl_d_size l) (log_window (dl_start l) (dl_size l) c (dl_wr_ofs l))"
proof -
  let ?s = "dl_size l" and ?d = "dl_d_size l" and ?r = "dl_rd_ofs l - dl_start l"
  have a: "?d \<le> ?s" "0 < ?s" "?r < ?s" using assms by (auto simp: log_inv_def)
  have "((?r + ?d) mod ?s + (?s - ?d)) mod ?s = (?r + ?d + (?s - ?d)) mod ?s" by (rule mod_add_left_eq)
  also have "\<dots> = ?r" using a by simp
  finally show ?thesis
    using assms a by (simp add: log_bytes_def log_window_def log_inv_def drop_ring_read)
qed

lemma log_data_header:
  "length bs \<le> start \<Longrightarrow> start + sz \<le> length c \<Longrightarrow> log_data start sz (overwrite c 0 bs) = log_data start sz c"
  unfolding log_data_def by (rule take_drop_overwrite_outside) simp_all

text \<open>One step of either loop around the ring.\<close>

lemma ring_step:
  assumes "start \<le> w" "w < start + sz" "start + sz < 2 ^ 32" "0 < remain"
  defines "bytes \<equiv> min (usub32 (start + sz) w) remain"
  defines "w1 \<equiv> (if wrap32 (w + bytes) \<ge> start + sz then start else wrap32 (w + bytes))"
  shows "0 < bytes" "bytes \<le> remain" "w + bytes \<le> start + sz" "bytes = min (start + sz - w) remain"
    "w1 = start + (w - start + bytes) mod sz" "start \<le> w1" "w1 < start + sz"
proof -
  have "start + sz + (2 ^ 32 - w) = (start + sz - w) + 2 ^ 32" using assms(2,3) by simp
  then have "usub32 (start + sz) w = (start + sz - w) mod 2 ^ 32"
    unfolding usub32_def wrap32_def by (simp only: mod_add_self2)
  also have "\<dots> = start + sz - w" using assms(3) by (intro mod_less) simp
  finally have u: "usub32 (start + sz) w = start + sz - w" .
  then show b: "0 < bytes" "bytes \<le> remain" "w + bytes \<le> start + sz" "bytes = min (start + sz - w) remain"
    using assms(1-4) by (auto simp: bytes_def)
  then have wr: "wrap32 (w + bytes) = w + bytes" using assms(3) by (intro wrap32_id) simp
  show "w1 = start + (w - start + bytes) mod sz"
  proof (cases "w + bytes = start + sz")
    case True
    then have "w - start + bytes = sz" using assms(1) by simp
    then show ?thesis unfolding w1_def wr using True by simp
  next
    case False
    then have "w - start + bytes < sz" using b(3) assms(1) by simp
    then show ?thesis unfolding w1_def wr using False b(3) assms(1) by simp
  qed
  then show "start \<le> w1" "w1 < start + sz" using assms(1,2) by simp_all
qed

lemma ring_chunk:
  assumes "start \<le> r" "r < start + sz" "r + b \<le> start + sz" "start + sz \<le> length c"
  shows "take b (drop r c) = ring_read (log_data start sz c) sz (r - start) b"
proof -
  have "take b (drop r c) = take b (drop (r - start) (log_data start sz c))"
    using assms by (simp add: log_data_def drop_take)
  also have "\<dots> = ring_read (log_data start sz c) sz (r - start) b"
    using assms by (subst ring_read_slices) (auto simp: log_data_def)
  finally show ?thesis .
qed

context byte_array
begin

lemma input_loop_ok:
  assumes "repr st c" "start \<le> w" "w < start + sz" "start + sz \<le> plen" "remain \<le> length buf"
  shows "\<exists>st' c'. input_loop wr start (start + sz) w buf remain st =
      Some (st', start + (w - start + remain) mod sz, 0, 1) \<and> repr st' c' \<and>
    log_window start sz c' (start + (w - start + remain) mod sz) =
      drop remain (log_window start sz c w @ take remain buf)"
  using assms
proof (induction remain arbitrary: st c w buf rule: less_induct)
  case (less remain)
  have lt: "start + sz < 2 ^ 32" using less.prems(4) repr_len(2) [OF less.prems(1)] by simp
  have lc: "length c = plen" by (rule repr_len(1) [OF less.prems(1)])
  show ?case
  proof (cases "remain = 0")
    case True
    then show ?thesis using less.prems by (auto simp: input_loop.simps)
  next
    case False
    then have pos: "0 < remain" by simp
    define bytes where "bytes = min (usub32 (start + sz) w) remain"
    define w1 where "w1 = (if wrap32 (w + bytes) \<ge> start + sz then start else wrap32 (w + bytes))"
    note s = ring_step [OF less.prems(2,3) lt pos, folded bytes_def, folded w1_def]
    let ?ch = "take bytes buf"
    have lch: "length ?ch = bytes" using s(2) less.prems(5) by simp
    obtain st1 where st1: "wr w buf bytes st = Some (st1, int bytes)" "repr st1 (overwrite c w ?ch)"
      using wr_law [OF less.prems(1), of w bytes buf] s(2,3) less.prems(4,5) by auto
    have rlt: "remain - bytes < remain" using s(1) pos by simp
    have idx: "start + (w1 - start + (remain - bytes)) mod sz = start + (w - start + remain) mod sz"
      using s(2) mod_add_left_eq [of "w - start + bytes" sz "remain - bytes"] by (simp add: s(5))
    have D: "log_data start sz (overwrite c w ?ch) = overwrite (log_data start sz c) (w - start) ?ch"
      unfolding log_data_def using s(3) lch less.prems(2,4) lc by (intro take_drop_overwrite_inside) auto
    have W: "log_window start sz (overwrite c w ?ch) w1 = drop bytes (log_window start sz c w) @ ?ch"
    proof -
      have "length (log_data start sz c) = sz" using less.prems(4) lc by (simp add: log_data_def)
      moreover have "w - start + length ?ch \<le> sz" "0 < sz" "(w - start) mod sz = w - start"
        using s(3) lch less.prems(2,3) by simp_all
      ultimately show ?thesis
        using ring_window_write [of "log_data start sz c" sz "w - start" ?ch] lch
        unfolding log_window_def D by (simp add: s(5))
    qed
    obtain st' c' where r: "input_loop wr start (start + sz) w1 (drop bytes buf) (remain - bytes) st1 =
        Some (st', start + (w1 - start + (remain - bytes)) mod sz, 0, 1)" "repr st' c'"
      "log_window start sz c' (start + (w1 - start + (remain - bytes)) mod sz) =
        drop (remain - bytes) (log_window start sz (overwrite c w ?ch) w1 @ take (remain - bytes) (drop bytes buf))"
      using less.IH [OF rlt st1(2) s(6,7) less.prems(4), of "drop bytes buf"]
        diff_le_mono [OF less.prems(5), of bytes] by auto
    have bsz: "bytes \<le> sz" using s(3) less.prems(2) by simp
    have tk: "take remain buf = ?ch @ take (remain - bytes) (drop bytes buf)"
      using take_add [of bytes "remain - bytes" buf] s(2) by simp
    have "drop (remain - bytes) ((drop bytes (log_window start sz c w) @ ?ch) @ take (remain - bytes) (drop bytes buf)) =
        drop (remain - bytes) (drop bytes (log_window start sz c w @ take remain buf))"
      unfolding tk using bsz by simp
    also have "\<dots> = drop remain (log_window start sz c w @ take remain buf)"
      using s(2) by (simp only: drop_drop le_add_diff_inverse2)
    finally have win: "log_window start sz c' (start + (w - start + remain) mod sz) =
        drop remain (log_window start sz c w @ take remain buf)" using r(3) unfolding W idx by simp
    have "input_loop wr start (start + sz) w buf remain st = Some (st', start + (w - start + remain) mod sz, 0, 1)"
      using pos st1(1) r(1) s(1) unfolding idx
      by (subst input_loop.simps) (simp add: bytes_def [symmetric] w1_def [symmetric] Let_def)
    with r(2) win show ?thesis by blast
  qed
qed

lemma logfile_save_ok:
  assumes "repr st c" "28 \<le> plen"
  shows "\<exists>st'. logfile_save wr l st = Some st' \<and> repr st' (overwrite c 0 (disk_log_bytes l))"
proof -
  have "length (disk_log_bytes l) = 28" unfolding disk_log_bytes_def by (subst length_concat_le32) simp
  then show ?thesis using wr_law [OF assms(1), of 0 28 "disk_log_bytes l"] assms(2)
    by (auto simp: logfile_save_def)
qed

lemma disklog_input_ok:
  assumes "repr st c" "log_inv plen l" "0 < n" "n \<le> length buf" "dl_d_size l + n < 2 ^ 32"
  shows "\<exists>st' l' c'. disklog_input wr (Some buf) n l st = Some (st', l', 0) \<and> repr st' c' \<and> log_inv plen l' \<and>
    dl_start l' = dl_start l \<and> dl_size l' = dl_size l \<and> take 28 c' = disk_log_bytes l' \<and>
    log_bytes l' c' = drop (dl_d_size l + n - dl_size l) (log_bytes l c @ take n buf)"
proof -
  let ?a = "dl_start l" and ?s = "dl_size l" and ?d = "dl_d_size l" and ?w = "dl_wr_ofs l"
  have i: "dl_end l = ?a + ?s" "?a + ?s \<le> plen" "28 \<le> ?a" "0 < ?s" "?d \<le> ?s"
    "?w = ?a + (dl_rd_ofs l - ?a + ?d) mod ?s" "?a \<le> ?w" "?w < ?a + ?s"
    using assms(2) by (auto simp: log_inv_def)
  let ?w' = "?a + (?w - ?a + n) mod ?s"
  obtain st1 c1 where r: "input_loop wr ?a (?a + ?s) ?w buf n st = Some (st1, ?w', 0, 1)" "repr st1 c1"
    "log_window ?a ?s c1 ?w' = drop n (log_window ?a ?s c ?w @ take n buf)"
    using input_loop_ok [OF assms(1) i(7,8,2) assms(4)] by auto
  define l1 where "l1 = (if ?d + n > ?s then l\<lparr>dl_d_size := ?s, dl_rd_ofs := ?w', dl_wr_ofs := ?w'\<rparr>
     else l\<lparr>dl_d_size := ?d + n, dl_wr_ofs := ?w'\<rparr>)"
  have wd: "wrap32 (?d + n) = ?d + n" using assms(5) by (rule wrap32_id)
  obtain st2 where sv: "logfile_save wr l1 st1 = Some st2" "repr st2 (overwrite c1 0 (disk_log_bytes l1))"
    using logfile_save_ok [OF r(2)] i by auto
  have run: "disklog_input wr (Some buf) n l st = Some (st2, l1, 0)"
    using assms(3) i(1) r(1) sv(1) wd by (cases "?d + n > ?s") (simp_all add: disklog_input_def Let_def l1_def)
  have wlt: "?a \<le> ?w'" "?w' < ?a + ?s" using i by simp_all
  have "(?w - ?a + n) mod ?s = (dl_rd_ofs l - ?a + (?d + n)) mod ?s"
    using i(6) by (simp add: mod_add_left_eq add.assoc)
  then have inv: "log_inv plen l1" using assms(2) wlt by (auto simp: l1_def log_inv_def)
  have lb: "length (disk_log_bytes l1) = 28" unfolding disk_log_bytes_def by (subst length_concat_le32) simp
  have lc1: "length c1 = plen" by (rule repr_len(1) [OF r(2)])
  have geo: "dl_start l1 = ?a" "dl_size l1 = ?s" "dl_wr_ofs l1 = ?w'" by (simp_all add: l1_def)
  let ?W = "log_window ?a ?s c ?w"
  have "log_bytes l1 (overwrite c1 0 (disk_log_bytes l1)) = log_bytes l1 c1"
    using log_data_header [of "disk_log_bytes l1" ?a ?s c1] lb lc1 i by (simp add: log_bytes_def geo)
  also have "\<dots> = drop (?s - dl_d_size l1) (drop n (?W @ take n buf))"
    using log_bytes_window [OF inv, of c1] r(3) by (simp add: geo)
  also have "\<dots> = drop (?d + n - ?s) (drop (?s - ?d) ?W @ take n buf)"
  proof (cases "?d + n > ?s")
    case True
    then have "(?d + n - ?s) + (?s - ?d) = n" using i(5) by simp
    then have "drop n (?W @ take n buf) = drop (?d + n - ?s) (drop (?s - ?d) (?W @ take n buf))" by simp
    then show ?thesis using True i(5) by (simp add: l1_def)
  next
    case False
    then have "?s - (?d + n) + n = ?s - ?d" by simp
    then have "drop (?s - (?d + n)) (drop n (?W @ take n buf)) = drop (?s - ?d) (?W @ take n buf)"
      by (simp add: drop_drop del: drop_append)
    then show ?thesis using False by (simp add: l1_def)
  qed
  also have "drop (?s - ?d) ?W = log_bytes l c" using log_bytes_window [OF assms(2), of c] by simp
  finally have fin: "log_bytes l1 (overwrite c1 0 (disk_log_bytes l1)) = drop (?d + n - ?s) (log_bytes l c @ take n buf)" .
  have "take 28 (overwrite c1 0 (disk_log_bytes l1)) = disk_log_bytes l1"
    using take_drop_overwrite_same [of 0 "disk_log_bytes l1" c1] lb lc1 i by simp
  with run sv(2) inv fin geo show ?thesis by blast
qed

lemma output_loop_ok:
  assumes "repr st c" "start \<le> r" "r < start + sz" "start + sz \<le> plen" "0 < maxsize" "maxsize \<le> length buffer"
    "remain \<le> sz"
  shows "\<exists>st'. output_loop rd (\<lambda>ctx bs. (ctx @ bs, True)) start (start + sz) maxsize buffer r remain ctx st =
      Some (st', ctx @ ring_read (log_data start sz c) sz (r - start) remain, 0) \<and> repr st' c"
  using assms
proof (induction remain arbitrary: st r buffer ctx rule: less_induct)
  case (less remain)
  have lt: "start + sz < 2 ^ 32" using less.prems(4) repr_len(2) [OF less.prems(1)] by simp
  have lc: "length c = plen" by (rule repr_len(1) [OF less.prems(1)])
  show ?case
  proof (cases "remain = 0")
    case True
    then show ?thesis using less.prems by (auto simp: output_loop.simps)
  next
    case False
    define m where "m = min remain maxsize"
    have pos: "0 < m" using False less.prems(5) by (simp add: m_def)
    define bytes where "bytes = min (usub32 (start + sz) r) m"
    have bytes: "min (min (usub32 (start + sz) r) remain) maxsize = bytes" by (simp add: bytes_def m_def)
    define r1 where "r1 = (if wrap32 (r + bytes) \<ge> start + sz then start else wrap32 (r + bytes))"
    note s = ring_step [OF less.prems(2,3) lt pos, folded bytes_def, folded r1_def]
    have brem: "bytes \<le> remain" "bytes \<le> length buffer" using s(2) less.prems(6) by (simp_all add: m_def)
    obtain st1 where st1: "rd r buffer bytes st = Some (st1, int bytes, overwrite buffer 0 (take bytes (drop r c)))" "repr st1 c"
      using rd_law [OF less.prems(1), of r bytes buffer] s(3) less.prems(4) brem by auto
    have ch: "take bytes (overwrite buffer 0 (take bytes (drop r c))) = ring_read (log_data start sz c) sz (r - start) bytes"
    proof -
      have l: "length (take bytes (drop r c)) = bytes" using s(3) less.prems(4) lc by simp
      then have "take bytes (overwrite buffer 0 (take bytes (drop r c))) = take bytes (drop r c)"
        using take_drop_overwrite_same [of 0 "take bytes (drop r c)" buffer] brem by simp
      also have "\<dots> = ring_read (log_data start sz c) sz (r - start) bytes"
        using ring_chunk [OF less.prems(2,3) s(3)] less.prems(4) lc by simp
      finally show ?thesis .
    qed
    have rlt: "remain - bytes < remain" using s(1) brem by simp
    have lb: "maxsize \<le> length (overwrite buffer 0 (take bytes (drop r c)))" using less.prems(6) brem by simp
    obtain st' where r': "output_loop rd (\<lambda>ctx bs. (ctx @ bs, True)) start (start + sz) maxsize
        (overwrite buffer 0 (take bytes (drop r c))) r1 (remain - bytes)
        (ctx @ ring_read (log_data start sz c) sz (r - start) bytes) st1 =
      Some (st', (ctx @ ring_read (log_data start sz c) sz (r - start) bytes) @
        ring_read (log_data start sz c) sz (r1 - start) (remain - bytes), 0)" "repr st' c"
      using less.IH [OF rlt st1(2) s(6,7) less.prems(4,5) lb, of "ctx @ ring_read (log_data start sz c) sz (r - start) bytes"]
        less.prems(7) by (auto simp: le_diff_conv)
    have "ring_read (log_data start sz c) sz (r - start) bytes @ ring_read (log_data start sz c) sz (r1 - start) (remain - bytes) =
        ring_read (log_data start sz c) sz (r - start) remain"
      using ring_read_append [of "log_data start sz c" sz "r - start" bytes "remain - bytes"] brem by (simp add: s(5))
    then show ?thesis
      using False st1(1) s(1) r' ch
      by (subst output_loop.simps) (simp add: bytes r1_def [symmetric] Let_def)
  qed
qed

lemma disklog_ouput_ok:
  assumes "repr st c" "log_inv plen l" "general_malloc (wrap32 ((if maxsize = 0 then LOG_SIZE else maxsize) + 1)) = Some buffer"
    "(if maxsize = 0 then LOG_SIZE else maxsize) \<le> length buffer"
  shows "\<exists>st'. disklog_ouput general_malloc rd (Some (\<lambda>ctx bs. (ctx @ bs, True))) ctx maxsize l st =
      Some (st', ctx @ log_bytes l c, 0) \<and> repr st' c"
proof -
  have i: "dl_end l = dl_start l + dl_size l" "dl_start l + dl_size l \<le> plen" "dl_start l \<le> dl_rd_ofs l"
    "dl_rd_ofs l < dl_start l + dl_size l" "dl_d_size l \<le> dl_size l"
    using assms(2) by (auto simp: log_inv_def)
  have "0 < (if maxsize = 0 then LOG_SIZE else maxsize)" by (simp add: LOG_SIZE_def)
  from output_loop_ok [OF assms(1) i(3,4,2) this assms(4) i(5), of ctx] show ?thesis
    using assms(3) i(1) by (simp add: disklog_ouput_def Let_def log_bytes_def)
qed

lemma disk_log_of_bytes:
  assumes "log_inv plen l" "plen < 2 ^ 32"
  shows "disk_log_of (disk_log_bytes l) = l"
proof -
  let ?ws = "[dl_magic l, dl_start l, dl_end l, dl_size l, dl_wr_ofs l, dl_rd_ofs l, dl_d_size l]"
  have "dl_wr_ofs l < dl_start l + dl_size l" "dl_start l + dl_size l \<le> plen" "dl_end l \<le> plen"
    "dl_rd_ofs l < plen" "dl_d_size l \<le> dl_size l" "dl_magic l < 2 ^ 32"
    using assms(1) by (auto simp: log_inv_def DISKLOG_MAGIC_def)
  then have "\<forall>w \<in> set ?ws. w < 2 ^ 32" using assms(2) by auto
  note w = words32_concat [OF this]
  have len7: "length ?ws = 7" by simp
  have "words32 7 (disk_log_bytes l) = ?ws" using w unfolding len7 disk_log_bytes_def .
  then show ?thesis by (simp add: disk_log_of_def Let_def)
qed

lemma disklog_init_reload_ok:
  assumes "repr st c" "log_inv plen l" "take 28 c = disk_log_bytes l"
  shows "\<exists>st'. disklog_init rd wr plen blksz False l0 st = Some (st', True, l, 0) \<and> repr st' c"
proof -
  have lb: "length (disk_log_bytes x) = 28" for x unfolding disk_log_bytes_def by (subst length_concat_le32) simp
  have p: "28 \<le> plen" "plen < 2 ^ 32" using assms(2) repr_len(2) [OF assms(1)] by (auto simp: log_inv_def)
  obtain st' where "rd 0 (disk_log_bytes l0) 28 st =
      Some (st', int 28, overwrite (disk_log_bytes l0) 0 (take 28 (drop 0 c)))" "repr st' c"
    using rd_law [OF assms(1), of 0 28 "disk_log_bytes l0"] p lb by auto
  moreover have "overwrite (disk_log_bytes l0) 0 (disk_log_bytes l) = disk_log_bytes l"
    by (simp add: overwrite_def lb)
  ultimately show ?thesis
    using assms(2,3) disk_log_of_bytes [OF assms(2) p(2)] by (auto simp: disklog_init_def log_inv_def)
qed

lemma disklog_init_fresh_ok:
  assumes "repr st c" "28 \<le> blksz" "2 * blksz \<le> plen" "dl_magic (disk_log_of (take 28 c)) \<noteq> DISKLOG_MAGIC"
  shows "\<exists>st' l c'. disklog_init rd wr plen blksz False l0 st = Some (st', True, l, 0) \<and> repr st' c' \<and>
    log_inv plen l \<and> log_bytes l c' = [] \<and> take 28 c' = disk_log_bytes l"
proof -
  have lb: "length (disk_log_bytes x) = 28" for x unfolding disk_log_bytes_def by (subst length_concat_le32) simp
  have p: "28 \<le> plen" "plen < 2 ^ 32" using assms(2,3) repr_len(2) [OF assms(1)] by auto
  have lc: "length c = plen" by (rule repr_len(1) [OF assms(1)])
  obtain st1 where r1: "rd 0 (disk_log_bytes l0) 28 st =
      Some (st1, int 28, overwrite (disk_log_bytes l0) 0 (take 28 (drop 0 c)))" "repr st1 c"
    using rd_law [OF assms(1), of 0 28 "disk_log_bytes l0"] p lb by auto
  have ov: "overwrite (disk_log_bytes l0) 0 (take 28 c) = take 28 c"
    using lb lc p by (simp add: overwrite_def)
  have sub: "wrap32 (plen + (2 ^ 32 - blksz)) = plen - blksz"
  proof -
    have "plen + (2 ^ 32 - blksz) = (plen - blksz) + 2 ^ 32" using assms(3) p(2) by simp
    then have "wrap32 (plen + (2 ^ 32 - blksz)) = (plen - blksz) mod 2 ^ 32"
      unfolding wrap32_def by (simp only: mod_add_self2)
    then show ?thesis using p(2) by simp
  qed
  let ?s = "(plen - blksz) div blksz * blksz"
  have s: "?s \<le> plen - blksz" by simp
  have s0: "0 < ?s" using assms(2,3) by (simp add: div_greater_zero_iff)
  have w: "wrap32 ?s = ?s" "wrap32 (blksz + ?s) = blksz + ?s"
  proof -
    have "blksz + ?s \<le> plen" using s assms(3) by linarith
    then show "wrap32 ?s = ?s" "wrap32 (blksz + ?s) = blksz + ?s" using p(2) by (intro wrap32_id; linarith)+
  qed
  let ?l = "\<lparr>dl_magic = DISKLOG_MAGIC, dl_start = blksz, dl_end = blksz + ?s, dl_size = ?s,
     dl_wr_ofs = blksz, dl_rd_ofs = blksz, dl_d_size = 0\<rparr>"
  obtain st2 where sv: "logfile_save wr ?l st1 = Some st2" "repr st2 (overwrite c 0 (disk_log_bytes ?l))"
    using logfile_save_ok [OF r1(2) p(1), of ?l] by auto
  have "disklog_init rd wr plen blksz False l0 st = Some (st2, True, ?l, 0)"
    using r1(1) ov assms(2,4) sv(1) sub w by (simp add: disklog_init_def disklog_reset_locked_def Let_def)
  moreover have "log_inv plen ?l"
  proof -
    have "blksz + ?s \<le> plen" using s assms(3) by linarith
    then show ?thesis using s0 assms(2) by (simp add: log_inv_def)
  qed
  moreover have "log_bytes ?l (overwrite c 0 (disk_log_bytes ?l)) = []" by (simp add: log_bytes_def)
  moreover have "take 28 (overwrite c 0 (disk_log_bytes ?l)) = disk_log_bytes ?l"
    using take_drop_overwrite_same [of 0 "disk_log_bytes ?l" c] lb lc p by simp
  ultimately show ?thesis using sv(2) by blast
qed

lemma disklog_read_wrapped_ok:
  assumes "repr st c" "log_inv plen l" "dl_end l < dl_rd_ofs l + dl_d_size l" "dl_d_size l \<le> maxlen"
    "dl_d_size l \<le> length buf"
  defines "b1 \<equiv> dl_end l - dl_rd_ofs l" and "b2 \<equiv> dl_d_size l - (dl_end l - dl_rd_ofs l)"
  shows "\<exists>st' r. disklog_read rd (Some buf) maxlen True l rdlog st =
    Some (st', Some (overwrite (overwrite buf 0 (take b1 (log_bytes l c))) 0 (drop b1 (log_bytes l c))), r, int b2)"
proof -
  let ?a = "dl_start l" and ?s = "dl_size l" and ?d = "dl_d_size l" and ?r = "dl_rd_ofs l"
  have i: "dl_end l = ?a + ?s" "?a + ?s \<le> plen" "?a \<le> ?r" "?r < ?a + ?s" "?d \<le> ?s"
    using assms(2) by (auto simp: log_inv_def)
  have lt: "?a + ?s < 2 ^ 32" using i(2) repr_len(2) [OF assms(1)] by simp
  have lc: "length c = plen" by (rule repr_len(1) [OF assms(1)])
  have b: "0 < b1" "b1 < ?d" "b2 = ?d - b1" "0 < b2" "b1 = ?a + ?s - ?r"
    using assms(3) i by (auto simp: b1_def b2_def)
  have d0: "0 < ?d" using b by simp
  note s1 = ring_step [OF i(3,4) lt d0]
  have m1: "min (usub32 (?a + ?s) ?r) ?d = b1" using s1(4) b by simp
  have n1: "wrap32 (?r + b1) = ?a + ?s" using b(5) i(4) lt by (simp add: wrap32_id)
  have s20: "?a < ?a + ?s" using i(3,4) by simp
  note s2 = ring_step [OF order_refl s20 lt b(4)]
  have m2: "min (usub32 (?a + ?s) ?a) b2 = b2" using s2(4) b i(5) by simp
  have c1: "take b1 (drop ?r c) = take b1 (log_bytes l c)"
    using ring_chunk [OF i(3,4), of b1 c] b i lc by (simp add: log_bytes_def take_ring_read)
  have "?r - ?a + b1 = ?s" using b(5) i(3,4) by simp
  then have c2: "take b2 (drop ?a c) = drop b1 (log_bytes l c)"
    using ring_chunk [OF order_refl s20, of b2 c] b i lc by (simp add: log_bytes_def drop_ring_read)
  let ?buf1 = "overwrite buf 0 (take b1 (log_bytes l c))"
  obtain st1 where r1: "rd ?r buf b1 st = Some (st1, int b1, ?buf1)" "repr st1 c"
  proof -
    have "?r + b1 \<le> plen" "b1 \<le> length buf" using b i(2,4) assms(5) by simp_all
    from rd_law [OF assms(1) this] show thesis unfolding c1 using that by blast
  qed
  have lb1: "b2 \<le> length ?buf1" using b assms(5) by simp
  obtain st2 where r2: "rd ?a ?buf1 b2 st1 = Some (st2, int b2, overwrite ?buf1 0 (drop b1 (log_bytes l c)))"
  proof -
    have "?a + b2 \<le> plen" using b(2,3) i(2,5) by simp
    from rd_law [OF r1(2) this lb1] show thesis unfolding c2 using that by blast
  qed
  have 2: "\<exists>z. read_loop rd ?a (?a + ?s) ?buf1 ?a b2 x y st1 =
      Some (st2, overwrite ?buf1 0 (drop b1 (log_bytes l c)), z, int b2)" for x y
    using r2 b(4) by (subst read_loop.simps) (simp add: m2 Let_def read_loop.simps [where remain = 0])
  have "\<exists>z. read_loop rd ?a (?a + ?s) buf ?r ?d ?d 0 st =
      Some (st2, overwrite ?buf1 0 (drop b1 (log_bytes l c)), z, int b2)"
    using r1(1) b(1-3) 2 d0 by (subst read_loop.simps) (simp add: m1 n1 Let_def)
  then obtain z where "read_loop rd ?a (?a + ?s) buf ?r ?d ?d 0 st =
      Some (st2, overwrite ?buf1 0 (drop b1 (log_bytes l c)), z, int b2)" by blast
  moreover have "min maxlen ?d = ?d" "maxlen \<noteq> 0" using assms(4) d0 by auto
  ultimately show ?thesis using i(1) by (simp add: disklog_read_def Let_def)
qed
end

section \<open>The main results\<close>

text \<open>
  C12. \<^verbatim>\<open>disklog_input\<close> appends to the log: afterwards it holds the newest bytes of the old
  log followed by the new ones, as many as the ring can hold, for input of any length; the
  invariant is kept and the header on the partition is up to date.
\<close>

theorem disklog_input_keeps_newest:
  assumes "part_sim devs cont ok ps i st c" "log_inv (part_len ps i) l" "0 < n" "n \<le> length buf"
    "dl_d_size l + n < 2 ^ 32"
  shows "\<exists>st' l' c'. disklog_input (lgpt_write ps (Top i)) (Some buf) n l st = Some (st', l', 0) \<and>
    part_sim devs cont ok ps i st' c' \<and> log_inv (part_len ps i) l' \<and>
    dl_start l' = dl_start l \<and> dl_size l' = dl_size l \<and> take 28 c' = disk_log_bytes l' \<and>
    log_bytes l' c' = drop (dl_d_size l + n - dl_size l) (log_bytes l c @ take n buf)"
  using assms by (rule lg.disklog_input_ok)



text \<open>\<^verbatim>\<open>disklog_read\<close> loses the front of a log that wraps around the end of the ring: the second
  piece is stored over the first, and the result counts the second piece only, although
  the cursor moves past both.
\<close>

theorem disklog_read_loses_wrapped:
  assumes "part_sim devs cont ok ps i st c" "log_inv (part_len ps i) l"
    "dl_end l < dl_rd_ofs l + dl_d_size l" "dl_d_size l \<le> maxlen" "dl_d_size l \<le> length buf"
  shows "let b1 = dl_end l - dl_rd_ofs l; b2 = dl_d_size l - b1 in
    \<exists>st' r. disklog_read (lgpt_read ps (Top i)) (Some buf) maxlen True l rdlog st =
      Some (st', Some (overwrite (overwrite buf 0 (take b1 (log_bytes l c))) 0 (drop b1 (log_bytes l c))), r, int b2)"
  unfolding Let_def by (rule lg.disklog_read_wrapped_ok [OF assms])

text \<open>A small log in the first partition of the demonstration table: a ring of 32 bytes.\<close>

definition demo_log :: disk_log where
  "demo_log = \<lparr>dl_magic = DISKLOG_MAGIC, dl_start = 28, dl_end = 60, dl_size = 32, dl_wr_ofs = 33,
     dl_rd_ofs = 58, dl_d_size = 7\<rparr>"

lemma demo_log_ok: "part_len demo_parts 0 = 64" "log_inv (part_len demo_parts 0) demo_log"
  by (simp_all add: part_len_def demo_parts_def log_inv_def demo_log_def)

lemma demo_log_bytes: "log_bytes demo_log (replicate 64 0) = replicate 7 0"
  by (rule nth_equalityI) (simp_all add: log_bytes_def log_data_def demo_log_def)

theorem disklog_input_witness:
  "\<exists>st' l' c'. disklog_input (lgpt_write demo_parts (Top 0)) (Some [1, 2, 3]) 3 demo_log vflash_boot = Some (st', l', 0) \<and>
     log_bytes l' c' = replicate 7 0 @ [1, 2, 3]"
  using disklog_input_keeps_newest [OF demo_part_sim(1) demo_log_ok(2), of 3 "[1, 2, 3]"]
  unfolding demo_log_bytes by (auto simp: demo_log_def)



theorem disklog_read_witness:
  "\<exists>st' r. disklog_read (lgpt_read demo_parts (Top 0)) (Some (replicate 8 1)) 8 True demo_log demo_log vflash_boot =
     Some (st', Some (replicate 5 0 @ replicate 3 1), r, 5)"
proof -
  have d: "dl_end demo_log = 60" "dl_rd_ofs demo_log = 58" "dl_d_size demo_log = 7" by (simp_all add: demo_log_def)
  have "overwrite (overwrite (replicate 8 1) 0 (take 2 (replicate 7 0))) 0 (drop 2 (replicate 7 0)) =
      (replicate 5 0 @ replicate 3 1 :: u8 list)" by (simp add: overwrite_def numeral_eq_Suc)
  then show ?thesis
    using disklog_read_loses_wrapped [OF demo_part_sim(1) demo_log_ok(2), of 8 "replicate 8 1" demo_log]
    unfolding demo_log_bytes d by simp
qed

end
