(* ===== verification/Crc.thy ===== *)
theory Crc
  imports Prelude
begin

text \<open>
  \<^verbatim>\<open>basework/lib/libcrc16.c\<close>, the table-driven CRC-16 (polynomial 0x1021, most significant
  bit first), and \<^verbatim>\<open>crc32_update\<close> of \<^verbatim>\<open>basework/boot/boot.c\<close>, with the bitwise polynomial
  divisions they implement.
\<close>

definition crc16_tab :: "u16 list" where
  "crc16_tab =
     [0x0000, 0x1021, 0x2042, 0x3063, 0x4084, 0x50a5, 0x60c6, 0x70e7,
      0x8108, 0x9129, 0xa14a, 0xb16b, 0xc18c, 0xd1ad, 0xe1ce, 0xf1ef,
      0x1231, 0x0210, 0x3273, 0x2252, 0x52b5, 0x4294, 0x72f7, 0x62d6,
      0x9339, 0x8318, 0xb37b, 0xa35a, 0xd3bd, 0xc39c, 0xf3ff, 0xe3de,
      0x2462, 0x3443, 0x0420, 0x1401, 0x64e6, 0x74c7, 0x44a4, 0x5485,
      0xa56a, 0xb54b, 0x8528, 0x9509, 0xe5ee, 0xf5cf, 0xc5ac, 0xd58d,
      0x3653, 0x2672, 0x1611, 0x0630, 0x76d7, 0x66f6, 0x5695, 0x46b4,
      0xb75b, 0xa77a, 0x9719, 0x8738, 0xf7df, 0xe7fe, 0xd79d, 0xc7bc,
      0x48c4, 0x58e5, 0x6886, 0x78a7, 0x0840, 0x1861, 0x2802, 0x3823,
      0xc9cc, 0xd9ed, 0xe98e, 0xf9af, 0x8948, 0x9969, 0xa90a, 0xb92b,
      0x5af5, 0x4ad4, 0x7ab7, 0x6a96, 0x1a71, 0x0a50, 0x3a33, 0x2a12,
      0xdbfd, 0xcbdc, 0xfbbf, 0xeb9e, 0x9b79, 0x8b58, 0xbb3b, 0xab1a,
      0x6ca6, 0x7c87, 0x4ce4, 0x5cc5, 0x2c22, 0x3c03, 0x0c60, 0x1c41,
      0xedae, 0xfd8f, 0xcdec, 0xddcd, 0xad2a, 0xbd0b, 0x8d68, 0x9d49,
      0x7e97, 0x6eb6, 0x5ed5, 0x4ef4, 0x3e13, 0x2e32, 0x1e51, 0x0e70,
      0xff9f, 0xefbe, 0xdfdd, 0xcffc, 0xbf1b, 0xaf3a, 0x9f59, 0x8f78,
      0x9188, 0x81a9, 0xb1ca, 0xa1eb, 0xd10c, 0xc12d, 0xf14e, 0xe16f,
      0x1080, 0x00a1, 0x30c2, 0x20e3, 0x5004, 0x4025, 0x7046, 0x6067,
      0x83b9, 0x9398, 0xa3fb, 0xb3da, 0xc33d, 0xd31c, 0xe37f, 0xf35e,
      0x02b1, 0x1290, 0x22f3, 0x32d2, 0x4235, 0x5214, 0x6277, 0x7256,
      0xb5ea, 0xa5cb, 0x95a8, 0x8589, 0xf56e, 0xe54f, 0xd52c, 0xc50d,
      0x34e2, 0x24c3, 0x14a0, 0x0481, 0x7466, 0x6447, 0x5424, 0x4405,
      0xa7db, 0xb7fa, 0x8799, 0x97b8, 0xe75f, 0xf77e, 0xc71d, 0xd73c,
      0x26d3, 0x36f2, 0x0691, 0x16b0, 0x6657, 0x7676, 0x4615, 0x5634,
      0xd94c, 0xc96d, 0xf90e, 0xe92f, 0x99c8, 0x89e9, 0xb98a, 0xa9ab,
      0x5844, 0x4865, 0x7806, 0x6827, 0x18c0, 0x08e1, 0x3882, 0x28a3,
      0xcb7d, 0xdb5c, 0xeb3f, 0xfb1e, 0x8bf9, 0x9bd8, 0xabbb, 0xbb9a,
      0x4a75, 0x5a54, 0x6a37, 0x7a16, 0x0af1, 0x1ad0, 0x2ab3, 0x3a92,
      0xfd2e, 0xed0f, 0xdd6c, 0xcd4d, 0xbdaa, 0xad8b, 0x9de8, 0x8dc9,
      0x7c26, 0x6c07, 0x5c64, 0x4c45, 0x3ca2, 0x2c83, 0x1ce0, 0x0cc1,
      0xef1f, 0xff3e, 0xcf5d, 0xdf7c, 0xaf9b, 0xbfba, 0x8fd9, 0x9ff8,
      0x6e17, 0x7e36, 0x4e55, 0x5e74, 0x2e93, 0x3eb2, 0x0ed1, 0x1ef0]"

definition crc16_step :: "u16 \<Rightarrow> u8 \<Rightarrow> u16" where
  "crc16_step crc b =
     crc16_tab ! unat ((drop_bit 8 crc AND 0xff) XOR ucast b) XOR push_bit 8 crc"

definition crc16part :: "u8 list \<Rightarrow> u16 \<Rightarrow> u16" where
  "crc16part src crc = foldl crc16_step crc src"

definition crc16 :: "u8 list \<Rightarrow> u16" where
  "crc16 src = crc16part src 0"

section \<open>The bitwise reference\<close>

text \<open>One bit of the polynomial division, and the division of the register by eight bits.\<close>

definition crc16_bit :: "u16 \<Rightarrow> u16" where
  "crc16_bit r = (if bit r 15 then push_bit 1 r XOR 0x1021 else push_bit 1 r)"

definition crc16_byte :: "u16 \<Rightarrow> u8 \<Rightarrow> u16" where
  "crc16_byte crc b = (crc16_bit ^^ 8) (crc XOR push_bit 8 (ucast b))"

lemma crc16_bit_xor: "crc16_bit (a XOR b) = crc16_bit a XOR crc16_bit b"
  by (auto simp: crc16_bit_def bit_xor_iff push_bit_xor ac_simps)

lemma crc16_bits_xor: "(crc16_bit ^^ n) (a XOR b) = (crc16_bit ^^ n) a XOR (crc16_bit ^^ n) b"
  by (induction n) (simp_all add: crc16_bit_xor)

text \<open>
  A table of a linear function, built by doubling: entry \<open>2 ^ k + i\<close> is entry \<open>i\<close> plus the entry
  of the new bit.
\<close>

definition xor_double :: "'a::len word \<Rightarrow> 'a word list \<Rightarrow> 'a word list" where
  "xor_double b xs = xs @ map (\<lambda>x. b XOR x) xs"

definition xor_linear :: "('b::len word \<Rightarrow> 'a::len word) \<Rightarrow> bool" where
  "xor_linear f \<longleftrightarrow> (\<forall>a b. f (a XOR b) = f a XOR f b)"

lemma of_nat_add_bit:
  assumes "i < 2 ^ k"
  shows "(of_nat (2 ^ k + i) :: 'a::len word) = of_nat (2 ^ k) XOR of_nat i"
proof -
  have "\<not> bit i k" using assms by (simp add: bit_iff_odd)
  then have "(of_nat (2 ^ k) :: 'a word) AND of_nat i = 0"
    by (intro bit_word_eqI) (auto simp: bit_and_iff bit_of_nat_iff bit_exp_iff)
  then show ?thesis by (simp add: disjunctive_add_eq_xor)
qed

lemma xor_double_table:
  assumes "xor_linear f" "xs = map (\<lambda>i. f (of_nat i)) [0..<2 ^ k]" "b = f (2 ^ k)"
  shows "xor_double b xs = map (\<lambda>i. f (of_nat i)) [0..<2 ^ Suc k]"
proof (rule nth_equalityI)
  show "length (xor_double b xs) = length (map (\<lambda>i. f (of_nat i)) [0..<2 ^ Suc k])"
    by (simp add: xor_double_def assms(2))
  fix i assume "i < length (xor_double b xs)"
  then have i: "i < 2 ^ Suc k" by (simp add: xor_double_def assms(2))
  show "xor_double b xs ! i = map (\<lambda>i. f (of_nat i)) [0..<2 ^ Suc k] ! i"
  proof (cases "i < 2 ^ k")
    case True
    then show ?thesis using i by (simp add: xor_double_def assms(2) nth_append)
  next
    case False
    then obtain j where j: "i = 2 ^ k + j" "j < 2 ^ k" using i by (metis add_diff_inverse_nat mult_2 nat_add_left_cancel_less power_Suc)
    have "f (of_nat (2 ^ k + j)) = f (2 ^ k) XOR f (of_nat j)"
      unfolding of_nat_add_bit [OF j(2)] using assms(1) by (simp add: xor_linear_def)
    then show ?thesis using i j by (simp add: xor_double_def assms(2,3) nth_append)
  qed
qed

lemma xor_linear_table:
  assumes "xor_linear f"
  shows "fold (\<lambda>k. xor_double (f (2 ^ k))) [0..<n] [0] = map (\<lambda>i. f (of_nat i)) [0..<2 ^ n]"
proof (induction n)
  case 0
  have "f (0 XOR 0) = f 0 XOR f 0" using assms unfolding xor_linear_def by blast
  then show ?case by simp
next
  case (Suc n)
  then show ?case using xor_double_table [OF assms, of _ n] by simp
qed

definition crc16_of :: "u16 \<Rightarrow> u16" where
  "crc16_of i = (crc16_bit ^^ 8) (push_bit 8 i)"

lemma xor_linear_crc16_of: "xor_linear crc16_of"
  by (simp add: xor_linear_def crc16_of_def push_bit_xor crc16_bits_xor)

lemma crc16_of_basis:
  "crc16_of 1 = 0x1021" "crc16_of 2 = 0x2042" "crc16_of 4 = 0x4084" "crc16_of 8 = 0x8108"
  "crc16_of 16 = 0x1231" "crc16_of 32 = 0x2462" "crc16_of 64 = 0x48c4" "crc16_of 128 = 0x9188"
  by code_simp+

lemma crc16_tab_double:
  "crc16_tab = xor_double 0x9188 (xor_double 0x48c4 (xor_double 0x2462 (xor_double 0x1231
     (xor_double 0x8108 (xor_double 0x4084 (xor_double 0x2042 (xor_double 0x1021 [0])))))))"
  by (simp add: crc16_tab_def xor_double_def)

lemma crc16_tab_linear: "crc16_tab = map (\<lambda>i. crc16_of (of_nat i)) [0..<256]"
proof -
  have "[0..<8] = [0, 1, 2, 3, 4, 5, 6, 7 :: nat]" by (simp add: upt_rec)
  then have "fold (\<lambda>k. xor_double (crc16_of (2 ^ k))) [0..<8] [0] = crc16_tab"
    by (simp add: crc16_of_basis crc16_tab_double)
  with xor_linear_table [OF xor_linear_crc16_of, of 8] show ?thesis by simp
qed

lemma crc16_bits_low:
  assumes "n \<le> 8" "\<And>j. 8 \<le> j \<Longrightarrow> \<not> bit r j"
  shows "(crc16_bit ^^ n) r = push_bit n r"
  using assms(1)
proof (induction n)
  case (Suc n)
  then have "\<not> bit (push_bit n r) 15" using assms(2) by (simp add: bit_push_bit_iff)
  then show ?case using Suc by (simp add: crc16_bit_def)
qed simp

lemma crc16_step_bitwise: "crc16_step crc b = crc16_byte crc b"
proof -
  let ?h = "drop_bit 8 crc AND 0xff :: u16" and ?l = "crc AND 0xff :: u16"
  let ?i = "?h XOR ucast b :: u16"
  have ff: "(0xff :: u16) = mask 8" by (simp add: mask_eq_exp_minus_1)
  have hi: "\<not> bit (?i) j" if "8 \<le> j" for j
    using that by (auto simp: ff bit_xor_iff bit_and_iff bit_mask_iff bit_ucast_iff dest: bit_imp_le_length)
  then have lt: "unat ?i < 256" using unat_bits_bound [of 8 ?i] by simp
  have tab: "crc16_tab ! unat ?i = crc16_of ?i" using lt by (simp add: crc16_tab_linear)
  have low: "\<not> bit ?l j" if "8 \<le> j" for j using that by (simp add: ff bit_and_iff bit_mask_iff)
  have split: "crc XOR push_bit 8 (ucast b) = push_bit 8 ?i XOR ?l"
    by (rule bit_word_eqI) (auto simp: ff bit_xor_iff bit_and_iff bit_mask_iff bit_push_bit_iff bit_ucast_iff bit_drop_bit_eq)
  have "push_bit 8 ?l = push_bit 8 crc"
    by (rule bit_word_eqI) (auto simp: ff bit_and_iff bit_mask_iff bit_push_bit_iff)
  moreover have "(crc16_bit ^^ 8) ?l = push_bit 8 ?l" by (rule crc16_bits_low) (use low in auto)
  ultimately show ?thesis
    unfolding crc16_step_def crc16_byte_def tab split crc16_bits_xor crc16_of_def by simp
qed

lemma crc16_bit_inj: "crc16_bit a = crc16_bit b \<Longrightarrow> a = b"
proof -
  have ker: "r = 0" if "crc16_bit r = 0" for r
  proof (cases "bit r 15")
    case True
    have "\<not> bit (push_bit 1 r) 0" by (simp only: bit_push_bit_iff) simp
    then have "bit (push_bit 1 r XOR 0x1021) 0" by (simp only: bit_xor_iff) simp
    moreover have "push_bit 1 r XOR 0x1021 = 0" using that True by (simp add: crc16_bit_def)
    ultimately show ?thesis by simp
  next
    case False
    then have z: "push_bit 1 r = 0" using that by (simp add: crc16_bit_def)
    show ?thesis
    proof (rule bit_word_eqI)
      fix j assume j: "j < LENGTH(16)"
      have "\<not> bit (push_bit 1 r) (Suc j)" unfolding z by simp
      then have "Suc j < 16 \<longrightarrow> \<not> bit r j" by (simp only: bit_push_bit_iff possible_bit_word) simp
      then show "bit r j = bit 0 j" using False j by (cases "j = 15") auto
    qed
  qed
  assume "crc16_bit a = crc16_bit b"
  then have "crc16_bit (a XOR b) = 0" by (simp add: crc16_bit_xor)
  then have "a XOR b = 0" by (rule ker)
  then show "a = b" using xor_cancel(1) [of a b b] by simp
qed

lemma crc16_bits_inj: "(crc16_bit ^^ n) a = (crc16_bit ^^ n) b \<Longrightarrow> a = b"
  by (induction n) (auto dest: crc16_bit_inj)

lemma crc16part_inj: "crc16part xs a = crc16part xs b \<Longrightarrow> a = b"
proof (induction xs arbitrary: a b)
  case Nil
  then show ?case by (simp add: crc16part_def)
next
  case (Cons x xs)
  then have "crc16_step a x = crc16_step b x" by (simp add: crc16part_def)
  then show ?case by (auto simp: crc16_step_bitwise crc16_byte_def xor_cancel dest!: crc16_bits_inj)
qed

text \<open>The table-driven \<^verbatim>\<open>crc16part\<close> computes the bitwise division by the CCITT polynomial for
  every buffer and every starting value, and can be continued buffer by buffer.
\<close>

theorem crc16part_bitwise:
  "crc16part src crc = foldl crc16_byte crc src \<and> crc16part (src @ more) crc = crc16part more (crc16part src crc)"
  by (simp add: crc16part_def crc16_step_bitwise [abs_def])

text \<open>C34. A buffer in which one byte was changed has another CRC.\<close>

theorem crc16_detects_byte_error:
  assumes "b \<noteq> b'"
  shows "crc16 (xs @ b # ys) \<noteq> crc16 (xs @ b' # ys)"
proof
  assume "crc16 (xs @ b # ys) = crc16 (xs @ b' # ys)"
  then have "crc16part ys (crc16_step (crc16part xs 0) b) = crc16part ys (crc16_step (crc16part xs 0) b')"
    by (simp add: crc16_def crc16part_def)
  then have "crc16_byte (crc16part xs 0) b = crc16_byte (crc16part xs 0) b'"
    unfolding crc16_step_bitwise by (rule crc16part_inj)
  then have pe: "push_bit 8 (ucast b :: u16) = push_bit 8 (ucast b')"
    by (auto simp: crc16_byte_def xor_cancel dest!: crc16_bits_inj)
  have "b = b'"
  proof (rule bit_word_eqI)
    fix j assume j: "j < LENGTH(8)"
    have "bit (push_bit 8 (ucast b :: u16)) (8 + j) = bit (push_bit 8 (ucast b' :: u16)) (8 + j)" unfolding pe ..
    with j show "bit b j = bit b' j" by (simp add: bit_push_bit_iff bit_ucast_iff)
  qed
  with assms show False by simp
qed

theorem crc16_detects_byte_error_witness: "crc16 [1, 2, 3] \<noteq> crc16 [1, 7, 3]"
  using crc16_detects_byte_error [of 2 7 "[1]" "[3]"] by simp

section \<open>CRC-32\<close>

text \<open>
  \<^verbatim>\<open>crc32_update\<close> of \<^verbatim>\<open>basework/boot/boot.c\<close>: the reflected CRC-32 (polynomial 0xedb88320),
  four bits at a time.
\<close>

definition crc32_tab :: "u32 list" where
  "crc32_tab =
     [0x00000000, 0x1db71064, 0x3b6e20c8, 0x26d930ac, 0x76dc4190, 0x6b6b51f4, 0x4db26158, 0x5005713c,
      0xedb88320, 0xf00f9344, 0xd6d6a3e8, 0xcb61b38c, 0x9b64c2b0, 0x86d3d2d4, 0xa00ae278, 0xbdbdf21c]"

definition crc32_nibble :: "u32 \<Rightarrow> u32 \<Rightarrow> u32" where
  "crc32_nibble crc x = drop_bit 4 crc XOR crc32_tab ! unat ((crc XOR x) AND 0x0f)"

definition crc32_step :: "u32 \<Rightarrow> u8 \<Rightarrow> u32" where
  "crc32_step crc b = crc32_nibble (crc32_nibble crc (ucast b)) (drop_bit 4 (ucast b))"

definition crc32_update :: "u32 \<Rightarrow> u8 list \<Rightarrow> u32" where
  "crc32_update crc data = NOT (foldl crc32_step (NOT crc) data)"

definition crc32_bit :: "u32 \<Rightarrow> u32" where
  "crc32_bit r = (if bit r 0 then drop_bit 1 r XOR 0xedb88320 else drop_bit 1 r)"

definition crc32_byte :: "u32 \<Rightarrow> u8 \<Rightarrow> u32" where
  "crc32_byte crc b = (crc32_bit ^^ 8) (crc XOR ucast b)"

lemma crc32_bit_xor: "crc32_bit (a XOR b) = crc32_bit a XOR crc32_bit b"
  by (auto simp: crc32_bit_def bit_xor_iff drop_bit_xor ac_simps)

lemma crc32_bits_xor: "(crc32_bit ^^ n) (a XOR b) = (crc32_bit ^^ n) a XOR (crc32_bit ^^ n) b"
  by (induction n) (simp_all add: crc32_bit_xor)

lemma xor_linear_crc32_bits: "xor_linear (crc32_bit ^^ n)"
  by (simp add: xor_linear_def crc32_bits_xor)

lemma crc32_basis:
  "(crc32_bit ^^ 4) 1 = 0x1db71064" "(crc32_bit ^^ 4) 2 = 0x3b6e20c8"
  "(crc32_bit ^^ 4) 4 = 0x76dc4190" "(crc32_bit ^^ 4) 8 = 0xedb88320"
  by code_simp+

lemma crc32_tab_linear: "crc32_tab = map (\<lambda>i. (crc32_bit ^^ 4) (of_nat i)) [0..<16]"
proof -
  have "[0..<4] = [0, 1, 2, 3 :: nat]" by (simp add: upt_rec)
  moreover have "crc32_tab = xor_double 0xedb88320 (xor_double 0x76dc4190 (xor_double 0x3b6e20c8 (xor_double 0x1db71064 [0])))"
    by (simp add: crc32_tab_def xor_double_def)
  ultimately have "fold (\<lambda>k. xor_double ((crc32_bit ^^ 4) (2 ^ k))) [0..<4] [0] = crc32_tab"
    by (simp add: crc32_basis)
  with xor_linear_table [OF xor_linear_crc32_bits, of 4 4] show ?thesis by simp
qed

lemma crc32_bits_high:
  assumes "\<And>j. j < n \<Longrightarrow> \<not> bit r j"
  shows "(crc32_bit ^^ n) r = drop_bit n r"
  using assms
proof (induction n)
  case (Suc n)
  then have "\<not> bit (drop_bit n r) 0" using Suc.prems [of n] by (simp only: bit_drop_bit_eq) simp
  then show ?case using Suc by (simp add: crc32_bit_def add.commute)
qed simp

lemma crc32_nibble_bitwise: "crc32_nibble crc x = (crc32_bit ^^ 4) (crc XOR (x AND 0x0f))"
proof -
  have f: "(0x0f :: u32) = mask 4" by (simp add: mask_eq_exp_minus_1)
  let ?lo = "(crc XOR x) AND mask 4" and ?hi = "push_bit 4 (drop_bit 4 crc)"
  have "unat ?lo < 16" using unat_bits_bound [of 4 ?lo] by (simp add: bit_and_iff bit_mask_iff)
  then have tab: "crc32_tab ! unat ?lo = (crc32_bit ^^ 4) ?lo" by (simp add: crc32_tab_linear)
  have "crc XOR (x AND mask 4) = ?hi XOR ?lo"
    by (rule bit_word_eqI) (auto simp: bit_xor_iff bit_and_iff bit_mask_iff bit_push_bit_iff bit_drop_bit_eq)
  moreover have "(crc32_bit ^^ 4) ?hi = drop_bit 4 crc"
  proof -
    have "(crc32_bit ^^ 4) ?hi = drop_bit 4 ?hi" by (rule crc32_bits_high) (simp add: bit_push_bit_iff)
    also have "\<dots> = drop_bit 4 crc"
      by (rule bit_word_eqI) (auto simp: bit_push_bit_iff bit_drop_bit_eq dest: bit_imp_le_length)
    finally show ?thesis .
  qed
  ultimately show ?thesis by (simp only: crc32_nibble_def f tab crc32_bits_xor)
qed

lemma crc32_step_bitwise: "crc32_step crc b = crc32_byte crc b"
proof -
  have f: "(0x0f :: u32) = mask 4" by (simp add: mask_eq_exp_minus_1)
  let ?b = "ucast b :: u32"
  let ?lo = "?b AND mask 4" and ?hi = "drop_bit 4 ?b AND mask 4"
  have "(crc32_bit ^^ 4) (push_bit 4 ?hi) = drop_bit 4 (push_bit 4 ?hi)"
    by (rule crc32_bits_high) (simp only: bit_push_bit_iff, simp)
  also have "\<dots> = ?hi"
    by (rule bit_word_eqI) (auto simp: bit_push_bit_iff bit_drop_bit_eq bit_and_iff bit_mask_iff bit_ucast_iff)
  finally have hi: "?hi = (crc32_bit ^^ 4) (push_bit 4 ?hi)" by simp
  have b: "?b = ?lo XOR push_bit 4 ?hi"
    by (rule bit_word_eqI)
       (auto simp: bit_xor_iff bit_push_bit_iff bit_drop_bit_eq bit_and_iff bit_mask_iff bit_ucast_iff dest: bit_imp_le_length)
  have "crc32_step crc b = (crc32_bit ^^ 4) ((crc32_bit ^^ 4) (crc XOR ?lo) XOR ?hi)"
    by (simp only: crc32_step_def crc32_nibble_bitwise f)
  also have "\<dots> = (crc32_bit ^^ 4) ((crc32_bit ^^ 4) ((crc XOR ?lo) XOR push_bit 4 ?hi))"
    unfolding crc32_bits_xor [of 4 "crc XOR ?lo"] by (simp only: hi [symmetric])
  also have "\<dots> = (crc32_bit ^^ (4 + 4)) (crc XOR ?b)"
    by (subst (2) b) (simp only: funpow_add o_apply xor.assoc)
  finally show ?thesis by (simp add: crc32_byte_def)
qed

text \<open>
  C33. The nibble-table \<^verbatim>\<open>crc32_update\<close> computes the bitwise reflected CRC-32, and a buffer can
  be processed in pieces.
\<close>

theorem crc32_update_bitwise:
  "crc32_update crc data = NOT (foldl crc32_byte (NOT crc) data) \<and>
   crc32_update crc (data @ more) = crc32_update (crc32_update crc data) more"
  by (simp add: crc32_update_def crc32_step_bitwise [abs_def])

end
