(* ===== verification/SFile.thy ===== *)
theory SFile
  imports Partition Crc
begin

text \<open>
  \<^verbatim>\<open>basework/dev/partition_file.c\<close>: fixed-size files with a checksummed header, one per
  partition. An open file is identified by the partition it lives in. The per-file mutex is
  left out: the code releases it after the file was freed (at the last close and when the
  header cannot be read), which has no effect on the rest of the state.
\<close>

section \<open>State and operations\<close>

record sfile_metadata =
  md_magic :: nat
  md_crc :: nat
  md_len :: nat
  md_end :: nat

definition USR_FILE_MAGIC :: nat where "USR_FILE_MAGIC = 0x3721"

record 's sfile =
  sf_ref :: part_ref
  sf_dp :: disk_partition
  sf_dd :: "'s disk_device"
  sf_metadata :: sfile_metadata
  sf_base :: nat
  sf_offset :: nat
  sf_fsize :: nat
  sf_refcnt :: int
  sf_dirty :: bool

text \<open>The packed little-endian image of the header, and the header read back.\<close>

definition SFILE_METADATA_SIZE :: nat where "SFILE_METADATA_SIZE = 12"

definition metadata_bytes :: "sfile_metadata \<Rightarrow> u8 list" where
  "metadata_bytes m = concat (map le32 [md_magic m + 65536 * md_crc m, md_len m, md_end m])"

definition metadata_of :: "u8 list \<Rightarrow> sfile_metadata" where
  "metadata_of bs = (let w = words32 3 bs in
     \<lparr>md_magic = w ! 0 mod 65536, md_crc = w ! 0 div 65536, md_len = w ! 1, md_end = w ! 2\<rparr>)"

definition sfile_read :: "'s sfile \<Rightarrow> 's blkdev reader" where
  "sfile_read fp offset buf sz = blkdev_read (sf_dd fp) buf sz (part_addr (sf_dp fp) offset)"

definition sfile_write :: "'s sfile \<Rightarrow> 's blkdev writer" where
  "sfile_write fp offset buf sz = blkdev_write (sf_dd fp) buf sz (part_addr (sf_dp fp) offset)"

text \<open>
  The list \<^verbatim>\<open>sfile_head\<close>: \<open>find_sfile\<close> is the search for an open file. A new file's memory comes
  from \<open>general_malloc\<close> with arbitrary contents.
\<close>

definition find_sfile :: "'s sfile list \<Rightarrow> part_ref \<Rightarrow> 's sfile option" where
  "find_sfile fs ref = find (\<lambda>f. sf_ref f = ref) fs"

definition update_sfile :: "'s sfile \<Rightarrow> 's sfile list \<Rightarrow> 's sfile list" where
  "update_sfile fp fs = map (\<lambda>f. if sf_ref f = sf_ref fp then fp else f) fs"

definition sfile_open ::
    "'s disk_device list \<Rightarrow> 's part_state \<Rightarrow> 's sfile option \<Rightarrow> 's sfile list \<Rightarrow> string \<Rightarrow>
     ('s sfile list \<times> 's sfile option \<times> bool) option" where
  "sfile_open disks ps general_malloc fs name =
     do {
       r \<leftarrow> disk_partition_find ps name;
       case r of
         None \<Rightarrow> Some (fs, None, False)
       | Some ref \<Rightarrow>
           do {
             dp \<leftarrow> part_deref ps ref;
             parent \<leftarrow> p_parent dp;
             case disk_device_open disks parent of
               (err, dd) \<Rightarrow>
                 if err \<noteq> 0 then Some (fs, None, False)
                 else (case find_sfile fs ref of
                         Some fp \<Rightarrow>
                           let fp' = fp\<lparr>sf_refcnt := sf_refcnt fp + 1\<rparr> in
                           Some (update_sfile fp' fs, Some fp', True)
                       | None \<Rightarrow>
                           (case general_malloc of
                              None \<Rightarrow> Some (fs, None, False)
                            | Some junk \<Rightarrow>
                                do {
                                  d \<leftarrow> dd;
                                  let fp = junk\<lparr>sf_ref := ref, sf_dp := dp, sf_dd := d\<rparr>;
                                  Some (fp # fs, Some fp, False)
                                }))
           }
     }"

definition sfile_close :: "part_ref \<Rightarrow> 's sfile list \<Rightarrow> 's sfile list \<times> int" where
  "sfile_close ref fs =
     (case find_sfile fs ref of
        None \<Rightarrow> (fs, - ENODATA)
      | Some fp \<Rightarrow> (filter (\<lambda>f. sf_ref f \<noteq> ref) fs, 0))"

text \<open>The checksum loop, through a buffer of 256 bytes; a failed read gives the checksum 0.\<close>

function chksum_loop :: "'st reader \<Rightarrow> nat \<Rightarrow> nat \<Rightarrow> u8 list \<Rightarrow> u16 \<Rightarrow> 'st \<Rightarrow> ('st \<times> u16) option" where
  "chksum_loop rd sz ofs buffer crc st =
     (if sz = 0 then Some (st, crc)
      else
        let bytes = min 256 sz in
        do {
          (st1, ret, buffer1) \<leftarrow> rd ofs buffer bytes st;
          if ret \<noteq> int bytes then Some (st1, 0)
          else chksum_loop rd (sz - bytes) (wrap32 (ofs + bytes)) buffer1 (crc16part (take bytes buffer1) crc) st1
        })"
  by pat_completeness auto
termination by (relation "measure (\<lambda>(rd, sz, ofs, buffer, crc, st). sz)") auto

declare chksum_loop.simps [simp del]

definition usr_sfile_chksum :: "'s sfile \<Rightarrow> 's blkdev \<Rightarrow> ('s blkdev \<times> u16) option" where
  "usr_sfile_chksum fp st =
     chksum_loop (sfile_read fp) (md_len (sf_metadata fp)) (sf_base fp) (replicate 256 0) 0 st"

definition empty_metadata :: sfile_metadata where
  "empty_metadata = \<lparr>md_magic = USR_FILE_MAGIC, md_crc = 0, md_len = 0, md_end = 0\<rparr>"

text \<open>
  \<^verbatim>\<open>usr_sfile_open\<close>. When \<^verbatim>\<open>sfile_open\<close> fails, the code dereferences its null result. When
  the header cannot be read, the file is closed again and 0 is returned without a handle.
  The checksum is computed with the \<^verbatim>\<open>base\<close> the allocation happens to hold.
\<close>

definition usr_sfile_open ::
    "'s disk_device list \<Rightarrow> 's part_state \<Rightarrow> 's sfile option \<Rightarrow> string option \<Rightarrow> bool \<Rightarrow> 's sfile list \<Rightarrow> 's blkdev \<Rightarrow>
     ('s sfile list \<times> 's blkdev \<times> part_ref option \<times> int) option" where
  "usr_sfile_open disks ps general_malloc name p fs st =
     (case name of
        None \<Rightarrow> Some (fs, st, None, - EINVAL)
      | Some nm \<Rightarrow>
          if \<not> p then Some (fs, st, None, - EINVAL)
          else do {
            (fs1, r, found) \<leftarrow> sfile_open disks ps general_malloc fs nm;
            fp \<leftarrow> r;
            if found then Some (fs1, st, Some (sf_ref fp), 0)
            else do {
              (st1, err, bs) \<leftarrow> sfile_read fp 0 (metadata_bytes (sf_metadata fp)) SFILE_METADATA_SIZE st;
              if err \<le> 0 then Some (fst (sfile_close (sf_ref fp) fs1), st1, None, 0)
              else do {
                let fp1 = fp\<lparr>sf_metadata := metadata_of bs\<rparr>;
                (st2, valid) \<leftarrow>
                  (if md_magic (sf_metadata fp1) \<noteq> USR_FILE_MAGIC then Some (st1, False)
                   else do {
                     (st2, crc) \<leftarrow> usr_sfile_chksum fp1 st1;
                     Some (st2, unat crc = md_crc (sf_metadata fp1))
                   });
                let md = (if valid then sf_metadata fp1 else empty_metadata);
                let fp2 = fp1\<lparr>sf_metadata := md, sf_refcnt := 1, sf_dirty := False, sf_base := SFILE_METADATA_SIZE,
                              sf_fsize := md_len md, sf_offset := 0\<rparr>;
                Some (update_sfile fp2 fs1, st2, Some (sf_ref fp), 0)
              }
            }
          })"

text \<open>The remaining calls take the handle; a handle of a closed file dangles.\<close>

definition usr_sfile_invalid ::
    "'s part_state \<Rightarrow> part_ref option \<Rightarrow> 's sfile list \<Rightarrow> 's blkdev \<Rightarrow> ('s sfile list \<times> 's blkdev \<times> int) option" where
  "usr_sfile_invalid ps h fs st =
     (case h of
        None \<Rightarrow> Some (fs, st, - EINVAL)
      | Some ref \<Rightarrow>
          do {
            fp \<leftarrow> find_sfile fs ref;
            let fp1 = fp\<lparr>sf_metadata := empty_metadata\<rparr>;
            (st1, err) \<leftarrow> lgpt_write ps ref 0 (metadata_bytes empty_metadata) SFILE_METADATA_SIZE st;
            Some (update_sfile fp1 fs, st1, if err > 0 then 0 else err)
          })"

definition usr_sfile_write ::
    "part_ref \<Rightarrow> u8 list \<Rightarrow> nat \<Rightarrow> 's sfile list \<Rightarrow> 's blkdev \<Rightarrow> ('s sfile list \<times> 's blkdev \<times> int) option" where
  "usr_sfile_write ref buffer sz fs st =
     do {
       fp \<leftarrow> find_sfile fs ref;
       if sz = 0 then Some (fs, st, 0)
       else if wrap32 (sf_base fp + sf_offset fp + sz) > p_len (sf_dp fp) then Some (fs, st, - EINVAL)
       else do {
         (st1, ret) \<leftarrow> sfile_write fp (wrap32 (sf_base fp + sf_offset fp)) buffer sz st;
         if ret \<noteq> int sz then Some (fs, st1, - EIO)
         else
           let ofs = wrap32 (sf_offset fp + sz) in
           Some (update_sfile (fp\<lparr>sf_dirty := True, sf_offset := ofs,
                                  sf_fsize := (if ofs > sf_fsize fp then ofs else sf_fsize fp)\<rparr>) fs,
                 st1, ret)
       }
     }"

definition usr_sfile_read ::
    "part_ref \<Rightarrow> u8 list \<Rightarrow> nat \<Rightarrow> 's sfile list \<Rightarrow> 's blkdev \<Rightarrow> ('s sfile list \<times> 's blkdev \<times> int \<times> u8 list) option" where
  "usr_sfile_read ref buffer sz fs st =
     do {
       fp \<leftarrow> find_sfile fs ref;
       if sz = 0 then Some (fs, st, 0, buffer)
       else if wrap32 (sf_base fp + sf_offset fp + sz) > p_len (sf_dp fp) then Some (fs, st, - EINVAL, buffer)
       else do {
         (st1, ret, buffer1) \<leftarrow> sfile_read fp (wrap32 (sf_base fp + sf_offset fp)) buffer sz st;
         if ret \<noteq> int sz then Some (fs, st1, - EIO, buffer1)
         else Some (update_sfile (fp\<lparr>sf_offset := wrap32 (sf_offset fp + sz)\<rparr>) fs, st1, ret, buffer1)
       }
     }"

definition usr_sfile_setoffset :: "part_ref \<Rightarrow> int \<Rightarrow> 's sfile list \<Rightarrow> ('s sfile list \<times> int) option" where
  "usr_sfile_setoffset ref offset fs =
     do {
       fp \<leftarrow> find_sfile fs ref;
       if offset > to_long (p_len (sf_dp fp)) then Some (fs, - EINVAL)
       else Some (update_sfile (fp\<lparr>sf_offset := u32_of offset\<rparr>) fs, 0)
     }"

definition usr_sfile_size :: "part_ref \<Rightarrow> 's sfile list \<Rightarrow> nat option" where
  "usr_sfile_size ref fs = map_option sf_fsize (find_sfile fs ref)"

definition usr_sfile_close ::
    "part_ref \<Rightarrow> 's sfile list \<Rightarrow> 's blkdev \<Rightarrow> ('s sfile list \<times> 's blkdev \<times> int) option" where
  "usr_sfile_close ref fs st =
     do {
       fp \<leftarrow> find_sfile fs ref;
       if \<not> sf_refcnt fp > 0 then Some (fs, st, 0)
       else if sf_refcnt fp - 1 \<noteq> 0 then Some (update_sfile (fp\<lparr>sf_refcnt := sf_refcnt fp - 1\<rparr>) fs, st, 0)
       else
         let fp0 = fp\<lparr>sf_refcnt := 0\<rparr> in
         if \<not> sf_dirty fp then Some (fst (sfile_close ref fs), st, snd (sfile_close ref fs))
         else do {
           let fp1 = fp0\<lparr>sf_dirty := False, sf_metadata := (sf_metadata fp)\<lparr>md_len := sf_fsize fp\<rparr>\<rparr>;
           (st1, crc) \<leftarrow> usr_sfile_chksum fp1 st;
           let md = (sf_metadata fp1)\<lparr>md_crc := unat crc\<rparr>;
           let fp2 = fp1\<lparr>sf_metadata := md\<rparr>;
           (st2, err) \<leftarrow> sfile_write fp2 0 (metadata_bytes md) SFILE_METADATA_SIZE st1;
           if err \<le> 0 then Some (update_sfile fp2 fs, st2, - EIO)
           else do {
             (st3, e) \<leftarrow> blkdev_sync st2;
             Some (fst (sfile_close ref fs), st3, snd (sfile_close ref fs))
           }
         }
     }"

section \<open>Headers and checksums\<close>

lemma length_metadata_bytes [simp]: "length (metadata_bytes m) = 12"
  unfolding metadata_bytes_def by (subst length_concat_le32) simp

lemma metadata_roundtrip:
  assumes "md_magic m < 65536" "md_crc m < 65536" "md_len m < 2 ^ 32" "md_end m < 2 ^ 32"
  shows "metadata_of (metadata_bytes m) = m"
proof -
  let ?ws = "[md_magic m + 65536 * md_crc m, md_len m, md_end m]"
  have "\<forall>w \<in> set ?ws. w < 2 ^ 32" using assms by auto
  note w = words32_concat [OF this]
  have len3: "length ?ws = 3" by simp
  have "words32 3 (metadata_bytes m) = ?ws" using w unfolding len3 metadata_bytes_def .
  then show ?thesis using assms(1) by (simp add: metadata_of_def Let_def)
qed

context byte_array
begin

lemma chksum_loop_ok:
  assumes "repr st c" "ofs + sz \<le> plen" "256 \<le> length buffer"
  shows "\<exists>st'. chksum_loop rd sz ofs buffer crc st = Some (st', crc16part (take sz (drop ofs c)) crc) \<and> repr st' c"
  using assms
proof (induction sz arbitrary: st ofs buffer crc rule: less_induct)
  case (less sz)
  show ?case
  proof (cases "sz = 0")
    case True
    then show ?thesis using less.prems by (simp add: chksum_loop.simps crc16part_def)
  next
    case False
    define b where "b = min 256 sz"
    have b: "0 < b" "b \<le> sz" "b \<le> length buffer" using False less.prems(3) by (auto simp: b_def)
    let ?ch = "take b (drop ofs c)"
    obtain st1 where r: "rd ofs buffer b st = Some (st1, int b, overwrite buffer 0 ?ch)" "repr st1 c"
      using rd_law [OF less.prems(1) _ b(3), of ofs] b less.prems(2) by auto
    have lch: "length ?ch = b" using b less.prems(2) repr_len(1) [OF less.prems(1)] by simp
    have ow: "take b (overwrite buffer 0 ?ch) = ?ch" using lch by (simp add: overwrite_def)
    have w: "wrap32 (ofs + b) = ofs + b"
      using b less.prems(2) repr_len(2) [OF less.prems(1)] by (intro wrap32_id) simp
    have tk: "take sz (drop ofs c) = ?ch @ take (sz - b) (drop (ofs + b) c)"
      using take_add [of b "sz - b" "drop ofs c"] b by (simp add: add.commute)
    have "sz - b < sz" using b by simp
    from less.IH [OF this r(2), of "ofs + b" "overwrite buffer 0 ?ch" "crc16part ?ch crc"]
    obtain st2 where "chksum_loop rd (sz - b) (ofs + b) (overwrite buffer 0 ?ch) (crc16part ?ch crc) st1 =
        Some (st2, crc16part (take (sz - b) (drop (ofs + b) c)) (crc16part ?ch crc))" "repr st2 c"
      using b lch less.prems(2,3) by auto
    then show ?thesis
      using False r(1) b(1) unfolding tk
      by (subst chksum_loop.simps) (simp add: b_def [symmetric] Let_def ow w crc16part_def)
  qed
qed

end

interpretation sfa: byte_array "slice_sim devs cont ok (sf_dd fp) (sf_dp fp)" "p_len (sf_dp fp)"
    "sfile_read fp" "sfile_write fp" for devs cont ok fp
  unfolding sfile_read_def [abs_def] sfile_write_def [abs_def] by (rule sl.byte_array_axioms)

lemma slice_sim_sync:
  assumes "slice_sim devs cont ok d p st c"
  shows "\<exists>st'. blkdev_sync st = Some (st', 0) \<and> slice_sim devs cont ok d p st' c"
  using assms blk_cache.blkdev_sync_ok [of devs cont ok _ st] unfolding slice_sim_def by blast

lemma find_sfile_simps:
  "find_sfile fs ref = Some fp \<Longrightarrow> sf_ref fp = ref"
  "find_sfile fs ref = Some fp \<Longrightarrow> sf_ref fp' = ref \<Longrightarrow> find_sfile (update_sfile fp' fs) ref = Some fp'"
  "find_sfile (filter (\<lambda>f. sf_ref f \<noteq> ref) fs) ref = None"
  by (induction fs) (auto simp: find_sfile_def update_sfile_def find_None_iff split: if_splits)

section \<open>The main results\<close>


text \<open>
  What opening a file does that is not open yet: the header is accepted when its magic and
  the checksum over \<open>md_len\<close> bytes from the base found in the fresh allocation agree.
\<close>

lemma usr_sfile_open_ok:
  assumes nm: "disk_partition_find ps name = Some (Some ref)" "part_deref ps ref = Some p"
    "p_parent p = Some dev" "disk_device_open disks dev = (0, Some d)" "find_sfile fs ref = None"
    and sim: "slice_sim devs cont ok d p st c" and len: "12 \<le> p_len p" "sf_base junk + md_len (metadata_of (take 12 c)) \<le> p_len p"
  defines "md \<equiv> metadata_of (take 12 c)"
  defines "valid \<equiv> md_magic md = USR_FILE_MAGIC \<and> unat (crc16 (take (md_len md) (drop (sf_base junk) c))) = md_crc md"
  shows "\<exists>fs' st' fp. usr_sfile_open disks ps (Some junk) (Some name) True fs st = Some (fs', st', Some ref, 0) \<and>
    find_sfile fs' ref = Some fp \<and> sf_dd fp = d \<and> sf_dp fp = p \<and> sf_base fp = 12 \<and> sf_offset fp = 0 \<and>
    sf_refcnt fp = 1 \<and> sf_fsize fp = (if valid then md_len md else 0) \<and>
    slice_sim devs cont ok d p st' c"
proof -
  let ?fp = "junk\<lparr>sf_ref := ref, sf_dp := p, sf_dd := d\<rparr>"
  have op: "sfile_open disks ps (Some junk) fs name = Some (?fp # fs, Some ?fp, False)"
    using nm by (simp add: sfile_open_def Let_def)
  have sim0: "slice_sim devs cont ok (sf_dd ?fp) (sf_dp ?fp) st c" using sim by simp
  have lc: "length c = p_len p" using sl.repr_len(1) [OF sim] .
  obtain st1 where r1: "sfile_read ?fp 0 (metadata_bytes (sf_metadata ?fp)) 12 st = Some (st1, 12, take 12 c)"
    "slice_sim devs cont ok d p st1 c"
    using sfa.rd_law [OF sim0, of 0 12 "metadata_bytes (sf_metadata ?fp)"] len(1) lc
    by (auto simp: overwrite_def)
  let ?fp1 = "?fp\<lparr>sf_metadata := md\<rparr>"
  have sim1: "slice_sim devs cont ok (sf_dd ?fp1) (sf_dp ?fp1) st1 c" using r1(2) by simp
  obtain st2 where r2: "usr_sfile_chksum ?fp1 st1 = Some (st2, crc16 (take (md_len md) (drop (sf_base junk) c)))"
    "slice_sim devs cont ok d p st2 c"
    using sfa.chksum_loop_ok [OF sim1, of "sf_base junk" "md_len md" "replicate 256 0" 0] len(2)
    by (auto simp: usr_sfile_chksum_def crc16_def md_def)
  let ?st2 = "if md_magic md \<noteq> USR_FILE_MAGIC then st1 else st2"
  let ?md = "if valid then md else empty_metadata"
  let ?fp2 = "?fp1\<lparr>sf_metadata := ?md, sf_refcnt := 1, sf_dirty := False, sf_base := SFILE_METADATA_SIZE,
      sf_fsize := md_len ?md, sf_offset := 0\<rparr>"
  have m: "metadata_of (take 12 c) = md" by (simp add: md_def)
  have "usr_sfile_open disks ps (Some junk) (Some name) True fs st =
      Some (update_sfile ?fp2 (?fp # fs), ?st2, Some ref, 0)"
    using op r1(1) r2(1) unfolding usr_sfile_open_def SFILE_METADATA_SIZE_def
    by (simp add: m Let_def valid_def)
  moreover have "find_sfile (update_sfile ?fp2 (?fp # fs)) ref = Some ?fp2"
    by (simp add: find_sfile_def update_sfile_def)
  moreover have "slice_sim devs cont ok d p ?st2 c" using r1(2) r2(2) by simp
  moreover have "md_len ?md = (if valid then md_len md else 0)" by (simp add: empty_metadata_def)
  ultimately show ?thesis by (fastforce simp: SFILE_METADATA_SIZE_def)
qed

text \<open>Closing the last handle of a modified file writes the header and synchronises the cache.\<close>

lemma usr_sfile_close_ok:
  assumes f: "find_sfile fs ref = Some fp" and sim: "slice_sim devs cont ok (sf_dd fp) (sf_dp fp) st c"
    and base: "sf_base fp = 12" and size: "12 + sf_fsize fp \<le> p_len (sf_dp fp)"
    and st: "sf_refcnt fp = 1" "sf_dirty fp"
  defines "md \<equiv> (sf_metadata fp)\<lparr>md_len := sf_fsize fp, md_crc := unat (crc16 (take (sf_fsize fp) (drop 12 c)))\<rparr>"
  shows "\<exists>st'. usr_sfile_close ref fs st = Some (filter (\<lambda>f. sf_ref f \<noteq> ref) fs, st', 0) \<and>
    slice_sim devs cont ok (sf_dd fp) (sf_dp fp) st' (overwrite c 0 (metadata_bytes md))"
proof -
  let ?fp1 = "fp\<lparr>sf_refcnt := 0, sf_dirty := False, sf_metadata := (sf_metadata fp)\<lparr>md_len := sf_fsize fp\<rparr>\<rparr>"
  have sim1: "slice_sim devs cont ok (sf_dd ?fp1) (sf_dp ?fp1) st c" using sim by simp
  obtain st1 where r1: "usr_sfile_chksum ?fp1 st = Some (st1, crc16 (take (sf_fsize fp) (drop 12 c)))"
    "slice_sim devs cont ok (sf_dd fp) (sf_dp fp) st1 c"
    using sfa.chksum_loop_ok [OF sim1, of 12 "sf_fsize fp" "replicate 256 0" 0] size base
    by (auto simp: usr_sfile_chksum_def crc16_def)
  let ?fp2 = "?fp1\<lparr>sf_metadata := md\<rparr>"
  have sim2: "slice_sim devs cont ok (sf_dd ?fp2) (sf_dp ?fp2) st1 c" using r1(2) by simp
  obtain st2 where r2: "sfile_write ?fp2 0 (metadata_bytes md) 12 st1 = Some (st2, 12)"
    "slice_sim devs cont ok (sf_dd fp) (sf_dp fp) st2 (overwrite c 0 (metadata_bytes md))"
    using sfa.wr_law [OF sim2, of 0 12 "metadata_bytes md"] size by auto
  obtain st3 where r3: "blkdev_sync st2 = Some (st3, 0)"
    "slice_sim devs cont ok (sf_dd fp) (sf_dp fp) st3 (overwrite c 0 (metadata_bytes md))"
    using slice_sim_sync [OF r2(2)] by blast
  have "usr_sfile_close ref fs st = Some (filter (\<lambda>f. sf_ref f \<noteq> ref) fs, st3, 0)"
    using f st r1(1) r2(1) r3(1)
    by (simp add: usr_sfile_close_def Let_def sfile_close_def SFILE_METADATA_SIZE_def md_def)
  with r3(2) show ?thesis by blast
qed


text \<open>Opening a file checks its checksum from an uninitialised base: when the bytes from
  there do not have the stored checksum, an intact file is treated as empty.
\<close>

theorem sfile_open_uninitialised_base:
  assumes nm: "disk_partition_find ps name = Some (Some ref)" "part_deref ps ref = Some p"
    "p_parent p = Some dev" "disk_device_open disks dev = (0, Some d)" "find_sfile fs ref = None"
    and sim: "slice_sim devs cont ok d p st c" and len: "12 \<le> p_len p" "sf_base junk + md_len (metadata_of (take 12 c)) \<le> p_len p"
    and bad: "unat (crc16 (take (md_len (metadata_of (take 12 c))) (drop (sf_base junk) c))) \<noteq> md_crc (metadata_of (take 12 c))"
  shows "\<exists>fs' st' fp. usr_sfile_open disks ps (Some junk) (Some name) True fs st = Some (fs', st', Some ref, 0) \<and>
    find_sfile fs' ref = Some fp \<and> sf_fsize fp = 0"
  using usr_sfile_open_ok [OF nm sim len] bad by auto

text \<open>A modified file of three bytes in the first partition of the demonstration table.\<close>

definition demo_part_a :: disk_partition where
  "demo_part_a = Disk_Partition ''a'' (Some FLASH_DEVNAME) 4096 64 None"

definition demo_file :: "u8 list sfile" where
  "demo_file = \<lparr>sf_ref = Top 0, sf_dp = demo_part_a, sf_dd = vdisk, sf_metadata = empty_metadata,
     sf_base = 12, sf_offset = 3, sf_fsize = 3, sf_refcnt = 1, sf_dirty = True\<rparr>"

lemma demo_file_ok:
  "slice_sim {vdisk} (\<lambda>d m. m) (\<lambda>m. length m = FLASH_CAPACITY) vdisk demo_part_a vflash_boot (replicate 64 0)"
  "disk_partition_find demo_parts ''a'' = Some (Some (Top 0))" "part_deref demo_parts (Top 0) = Some demo_part_a"
  "p_parent demo_part_a = Some FLASH_DEVNAME" "disk_device_open [vdisk] FLASH_DEVNAME = (0, Some vdisk)"
  "p_len demo_part_a = 64"
  using demo_part_sim(1)
  by (simp_all add: part_sim_def demo_parts_def demo_part_a_def disk_partition_find_def partition_match_def
      strchr_slash_def vdisk_def)



theorem sfile_open_uninitialised_base_witness:
  "\<exists>st c fs' st' fp. slice_sim {vdisk} (\<lambda>d m. m) (\<lambda>m. length m = FLASH_CAPACITY) vdisk demo_part_a st c \<and>
     take 12 c = metadata_bytes \<lparr>md_magic = USR_FILE_MAGIC, md_crc = 0x1021, md_len = 1, md_end = 0\<rparr> \<and>
     unat (crc16 (take 1 (drop 12 c))) = 0x1021 \<and>
     usr_sfile_open [vdisk] demo_parts (Some (demo_file\<lparr>sf_base := 20\<rparr>)) (Some ''a'') True [] st = Some (fs', st', Some (Top 0), 0) \<and>
     find_sfile fs' (Top 0) = Some fp \<and> sf_fsize fp = 0"
proof -
  let ?md = "\<lparr>md_magic = USR_FILE_MAGIC, md_crc = 0x1021, md_len = 1, md_end = 0\<rparr>"
  let ?bs = "metadata_bytes ?md @ [1]"
  let ?c = "overwrite (replicate 64 0) 0 ?bs"
  obtain st where st: "slice_sim {vdisk} (\<lambda>d m. m) (\<lambda>m. length m = FLASH_CAPACITY) vdisk demo_part_a st ?c"
    using sl.wr_law [OF demo_file_ok(1), of 0 13 ?bs] demo_file_ok(6) by auto
  have c: "?c = metadata_bytes ?md @ [1] @ replicate 51 0" by (simp add: overwrite_def)
  have tk: "take 12 ?c = metadata_bytes ?md" unfolding c by simp
  have rt: "metadata_of (metadata_bytes ?md) = ?md"
    by (rule metadata_roundtrip) (simp_all add: USR_FILE_MAGIC_def)
  have crc: "unat (crc16 [1]) = 0x1021" "unat (crc16 [0]) = 0" by code_simp+
  have d: "take 1 (drop 12 ?c) = [1]" unfolding c by simp
  have d2: "take 1 (drop 20 ?c) = [0]" unfolding c by (simp add: numeral_eq_Suc)
  have "find_sfile [] (Top 0) = None" by (simp add: find_sfile_def)
  note o = sfile_open_uninitialised_base [OF demo_file_ok(2-5) this st, of "demo_file\<lparr>sf_base := 20\<rparr>"]
  have "\<exists>fs' st' fp. usr_sfile_open [vdisk] demo_parts (Some (demo_file\<lparr>sf_base := 20\<rparr>)) (Some ''a'') True [] st =
      Some (fs', st', Some (Top 0), 0) \<and> find_sfile fs' (Top 0) = Some fp \<and> sf_fsize fp = 0"
  proof -
    have L: "md_len (metadata_of (take 12 ?c)) = 1" "md_crc (metadata_of (take 12 ?c)) = 0x1021"
      "sf_base (demo_file\<lparr>sf_base := 20\<rparr>) = 20"
      unfolding tk rt by simp_all
    show ?thesis by (rule o [unfolded L d2 crc demo_file_ok(6)]) simp_all
  qed
  with st tk d crc show ?thesis by fastforce
qed

end
