(* ===== verification/CString.thy ===== *)
theory CString
  imports Prelude
begin

text \<open>
  The string routines: \<^verbatim>\<open>basework/lib/libstrlcpy.c\<close>, \<^verbatim>\<open>basework/lib/itoa.c\<close> (and its copy
  \<^verbatim>\<open>libitoa.c\<close>), and the C library's \<^verbatim>\<open>strchr\<close> and \<^verbatim>\<open>strtoul\<close> as far as the sources use
  them. Memory that holds strings is a list of characters, with \<open>NUL\<close> as terminator; reading
  past its end gives \<^const>\<open>None\<close>.
\<close>

abbreviation NUL :: char where "NUL \<equiv> CHR 0x00"

section \<open>strlcpy\<close>

text \<open>The copy loop, from position \<open>i\<close>, with \<open>nleft\<close> as it is before the decrement.\<close>

fun strlcpy_copy :: "string \<Rightarrow> string \<Rightarrow> nat \<Rightarrow> nat \<Rightarrow> (string \<times> nat \<times> nat) option" where
  "strlcpy_copy dst src i 0 = Some (dst, i, 0)"
| "strlcpy_copy dst src i (Suc nleft) =
     (if nleft = 0 then Some (dst, i, 0)
      else if i < length src \<and> i < length dst
      then (if src ! i = NUL then Some (dst[i := NUL], i + 1, nleft)
            else strlcpy_copy (dst[i := src ! i]) src (i + 1) nleft)
      else None)"

text \<open>The distance to the terminator.\<close>

definition strlen_from :: "string \<Rightarrow> nat \<Rightarrow> nat option" where
  "strlen_from src i =
     (let n = length (takeWhile (\<lambda>c. c \<noteq> NUL) (drop i src)) in if i + n < length src then Some n else None)"

definition strlcpy :: "string \<Rightarrow> string \<Rightarrow> nat \<Rightarrow> (string \<times> nat) option" where
  "strlcpy dst src dsize =
     do {
       (dst1, i, nleft) \<leftarrow> strlcpy_copy dst src 0 dsize;
       if nleft \<noteq> 0 then Some (dst1, i - 1)
       else do {
         dst2 \<leftarrow> (if dsize \<noteq> 0 then if i < length dst1 then Some (dst1[i := NUL]) else None
                  else Some dst1);
         n \<leftarrow> strlen_from src i;
         Some (dst2, i + n)
       }
     }"

section \<open>itoa\<close>

definition digits :: string where
  "digits = ''0123456789abcdefghijklmnopqrstuvwxyz''"

text \<open>The digit loop stores the digits least significant first.\<close>

function itoa_digits :: "nat \<Rightarrow> nat \<Rightarrow> string" where
  "itoa_digits base n =
     (if 2 \<le> base \<and> 0 < n div base then digits ! (n mod base) # itoa_digits base (n div base)
      else [digits ! (n mod base)])"
  by pat_completeness auto
termination by (relation "measure (\<lambda>(base, n). n)") (auto intro!: div_less_dividend intro: gr0I)

declare itoa_digits.simps [simp del]

text \<open>The reversal in place.\<close>

function itoa_swap :: "nat \<Rightarrow> string \<Rightarrow> string" where
  "itoa_swap pos str =
     (if pos < length str div 2
      then itoa_swap (pos + 1) (str[length str - pos - 1 := str ! pos, pos := str ! (length str - pos - 1)])
      else str)"
  by pat_completeness auto
termination by (relation "measure (\<lambda>(pos, str). length str - pos)") auto

declare itoa_swap.simps [simp del]

text \<open>\<^verbatim>\<open>abs\<close> of the least \<^verbatim>\<open>int\<close> overflows.\<close>

definition itoa :: "int \<Rightarrow> nat \<Rightarrow> string option" where
  "itoa val base =
     (if val = - (2 ^ 31) then None
      else if 2 \<le> base \<and> base \<le> 36
      then Some (itoa_swap 0 (itoa_digits base (nat \<bar>val\<bar>) @ (if val < 0 then ''-'' else [])))
      else Some [])"

section \<open>strtoul, base 16\<close>

definition hex_val :: "char \<Rightarrow> nat option" where
  "hex_val c =
     (let n = of_char c :: nat in
      if 48 \<le> n \<and> n \<le> 57 then Some (n - 48)
      else if 97 \<le> n \<and> n \<le> 102 then Some (n - 87)
      else if 65 \<le> n \<and> n \<le> 70 then Some (n - 55)
      else None)"

fun hex_digits :: "nat \<Rightarrow> string \<Rightarrow> nat" where
  "hex_digits acc [] = acc"
| "hex_digits acc (c # cs) = (case hex_val c of None \<Rightarrow> acc | Some v \<Rightarrow> hex_digits (16 * acc + v) cs)"

definition is_space :: "char \<Rightarrow> bool" where
  "is_space c \<longleftrightarrow> c \<in> {CHR '' '', CHR 0x09, CHR 0x0A, CHR 0x0B, CHR 0x0C, CHR 0x0D}"

definition skip_0x :: "string \<Rightarrow> string" where
  "skip_0x s = (case s of
     a # b # c # r \<Rightarrow> if a = CHR ''0'' \<and> b \<in> {CHR ''x'', CHR ''X''} \<and> hex_val c \<noteq> None then c # r else s
   | _ \<Rightarrow> s)"

text \<open>\<^verbatim>\<open>strtoul (s, NULL, 16)\<close>: the result saturates, and a minus sign negates it modulo \<open>2 ^ 32\<close>.\<close>

definition strtoul16 :: "string \<Rightarrow> nat" where
  "strtoul16 s =
     (let t = dropWhile is_space s;
          neg = (t \<noteq> [] \<and> hd t = CHR ''-'');
          u = (if t \<noteq> [] \<and> hd t \<in> {CHR ''-'', CHR ''+''} then tl t else t);
          v = hex_digits 0 (skip_0x u)
      in if v \<ge> 2 ^ 32 then 2 ^ 32 - 1 else if neg then wrap32 (2 ^ 32 - v) else v)"

text \<open>\<^verbatim>\<open>strtol (s, NULL, 16)\<close>: the result saturates at the bounds of \<^verbatim>\<open>long\<close>.\<close>

definition strtol16 :: "string \<Rightarrow> int" where
  "strtol16 s =
     (let t = dropWhile is_space s;
          neg = (t \<noteq> [] \<and> hd t = CHR ''-'');
          u = (if t \<noteq> [] \<and> hd t \<in> {CHR ''-'', CHR ''+''} then tl t else t);
          v = int (hex_digits 0 (skip_0x u))
      in if neg then max (- (2 ^ 31)) (- v) else min (2 ^ 31 - 1) v)"

section \<open>strchr\<close>

text \<open>\<^verbatim>\<open>strchr\<close> from position \<open>i\<close> of a memory area, for a character other than the terminator.\<close>

definition strchr_from :: "string \<Rightarrow> nat \<Rightarrow> char \<Rightarrow> nat option option" where
  "strchr_from m i ch =
     (let n = length (takeWhile (\<lambda>c. c \<noteq> ch \<and> c \<noteq> NUL) (drop i m)) in
      if i + n < length m then Some (if m ! (i + n) = ch then Some (i + n) else None) else None)"

section \<open>Correctness\<close>

text \<open>The reversal swaps the positions it has not reached yet.\<close>

lemma itoa_swap_nth:
  "length (itoa_swap pos s) = length s \<and>
   (\<forall>i < length s. itoa_swap pos s ! i = (if pos \<le> i \<and> i + pos < length s then s ! (length s - 1 - i) else s ! i))"
proof (induction pos s rule: itoa_swap.induct)
  case (1 pos s)
  show ?case
  proof (cases "pos < length s div 2")
    case False
    then have "itoa_swap pos s = s" by (simp add: itoa_swap.simps)
    moreover have "length s - 1 - i = i" if "pos \<le> i" "i + pos < length s" for i
      using False that by linarith
    ultimately show ?thesis by auto
  next
    case True
    let ?t = "s[length s - pos - 1 := s ! pos, pos := s ! (length s - pos - 1)]"
    have e: "itoa_swap pos s = itoa_swap (pos + 1) ?t" using True by (subst itoa_swap.simps) simp
    from "1.IH" [OF True] have ih: "length (itoa_swap (pos + 1) ?t) = length s"
      "\<And>i. i < length s \<Longrightarrow> itoa_swap (pos + 1) ?t ! i =
        (if pos + 1 \<le> i \<and> i + (pos + 1) < length s then ?t ! (length s - 1 - i) else ?t ! i)" by auto
    show ?thesis unfolding e
    proof (intro conjI allI impI)
      fix i assume i: "i < length s"
      consider "i = pos" | "i = length s - pos - 1" "i \<noteq> pos" | "i \<noteq> pos" "i \<noteq> length s - pos - 1" by blast
      then show "itoa_swap (pos + 1) ?t ! i = (if pos \<le> i \<and> i + pos < length s then s ! (length s - 1 - i) else s ! i)"
        by cases (use i True ih(2) [OF i] in \<open>auto simp: nth_list_update\<close>)
    qed (rule ih(1))
  qed
qed

lemma itoa_swap_rev: "itoa_swap 0 s = rev s"
  using itoa_swap_nth [of 0 s] by (intro nth_equalityI) (auto simp: rev_nth)

lemma hex_val_digits: "k < 16 \<Longrightarrow> hex_val (digits ! k) = Some k"
proof -
  have "\<forall>k \<in> set [0..<16]. hex_val (digits ! k) = Some k" by code_simp
  then show "k < 16 \<Longrightarrow> hex_val (digits ! k) = Some k" by simp
qed

lemma itoa_digits_hex: "set (itoa_digits 16 n) \<subseteq> (!) digits ` {0..<16} \<and> itoa_digits 16 n \<noteq> []"
proof (induction n rule: less_induct)
  case (less n)
  have "n mod 16 < 16" by simp
  then show ?case using less [of "n div 16"] by (subst itoa_digits.simps) (auto simp: itoa_digits.simps [of 16 n])
qed

lemma hex_digits_append:
  "(\<forall>c \<in> set cs. hex_val c \<noteq> None) \<Longrightarrow> hex_digits acc (cs @ ds) = hex_digits (hex_digits acc cs) ds"
  by (induction cs arbitrary: acc) (auto split: option.split)

lemma hex_digits_itoa: "hex_digits 0 (rev (itoa_digits 16 n)) = n"
proof (induction n rule: less_induct)
  case (less n)
  show ?case
  proof (cases "0 < n div 16")
    case False
    then have "itoa_digits 16 n = [digits ! n]" "n < 16" by (simp_all add: itoa_digits.simps)
    then show ?thesis by (simp add: hex_val_digits)
  next
    case True
    then have e: "itoa_digits 16 n = digits ! (n mod 16) # itoa_digits 16 (n div 16)" by (simp add: itoa_digits.simps)
    have "\<forall>c \<in> set (rev (itoa_digits 16 (n div 16))). hex_val c \<noteq> None"
      using itoa_digits_hex [of "n div 16"] hex_val_digits by auto
    moreover have "n div 16 < n" using True by (intro div_less_dividend) (auto intro: gr0I)
    ultimately show ?thesis using less [of "n div 16"] by (simp add: e hex_digits_append hex_val_digits)
  qed
qed

text \<open>A hexadecimal numeral starts with no space, sign or \<open>0x\<close>.\<close>

lemma hex_numeral_plain:
  assumes "set t \<subseteq> (!) digits ` {0..<16}" "t \<noteq> []"
  shows "dropWhile is_space t = t" "hd t \<notin> {CHR ''-'', CHR ''+''}" "skip_0x t = t"
proof -
  have all: "\<forall>k \<in> set [0..<16]. \<not> is_space (digits ! k) \<and> digits ! k \<notin> {CHR ''-'', CHR ''+'', CHR ''x'', CHR ''X''}"
    by code_simp
  have d: "\<forall>c \<in> set t. \<not> is_space c \<and> c \<notin> {CHR ''-'', CHR ''+'', CHR ''x'', CHR ''X''}"
  proof
    fix c assume "c \<in> set t"
    then obtain k where "k < 16" "c = digits ! k" using assms(1) by auto
    with all show "\<not> is_space c \<and> c \<notin> {CHR ''-'', CHR ''+'', CHR ''x'', CHR ''X''}" by simp
  qed
  obtain a r where t: "t = a # r" using assms(2) by (cases t) auto
  show "dropWhile is_space t = t" "hd t \<notin> {CHR ''-'', CHR ''+''}" using d t by auto
  show "skip_0x t = t" using d by (auto simp: skip_0x_def split: list.splits)
qed

lemma itoa_nonneg: "0 \<le> v \<Longrightarrow> itoa v 16 = Some (rev (itoa_digits 16 (nat v)))"
  by (simp add: itoa_def itoa_swap_rev)

text \<open>
  C37. \<^verbatim>\<open>itoa\<close> and \<^verbatim>\<open>strtoul\<close>/\<^verbatim>\<open>strtol\<close> in base 16 are inverse: every \<^verbatim>\<open>int\<close> but the least prints
  to a text that \<^verbatim>\<open>strtol\<close> reads back, and \<^verbatim>\<open>strtoul\<close> reads back every non-negative one.
\<close>

theorem itoa_strtol_roundtrip:
  assumes "- (2 ^ 31) < v" "v < 2 ^ 31"
  shows "\<exists>t. itoa v 16 = Some t \<and> strtol16 t = v \<and> (0 \<le> v \<longrightarrow> strtoul16 t = nat v)"
proof -
  let ?t = "rev (itoa_digits 16 (nat \<bar>v\<bar>))"
  have s: "set ?t \<subseteq> (!) digits ` {0..<16}" "?t \<noteq> []" using itoa_digits_hex [of "nat \<bar>v\<bar>"] by auto
  note p = hex_numeral_plain [OF s]
  have e: "itoa v 16 = Some ((if v < 0 then ''-'' else []) @ ?t)"
    using assms by (simp add: itoa_def itoa_swap_rev)
  show ?thesis
  proof (cases "v < 0")
    case True
    have "dropWhile is_space (CHR ''-'' # ?t) = CHR ''-'' # ?t" by (simp add: is_space_def)
    then have "strtol16 (CHR ''-'' # ?t) = v"
      using True assms p(3) by (simp add: strtol16_def Let_def hex_digits_itoa)
    then show ?thesis using True e by simp
  next
    case False
    then have "strtol16 ?t = v" using assms p s(2)
      by (simp add: strtol16_def Let_def hex_digits_itoa del: rev_is_Nil_conv)
    moreover have "strtoul16 ?t = nat v" using False assms p s(2)
      by (simp add: strtoul16_def Let_def hex_digits_itoa del: rev_is_Nil_conv)
    ultimately show ?thesis using False e by simp
  qed
qed

theorem itoa_strtol_witness: "\<exists>t. itoa (- 300) 16 = Some t \<and> strtol16 t = - 300"
  using itoa_strtol_roundtrip [of "- 300"] by auto

lemma strlcpy_copy_ok:
  assumes "NUL \<notin> set s" "i \<le> length s" "min (i + nleft) (length s + 1) \<le> length dst" "0 < nleft" "take i dst = take i s"
  shows "strlcpy_copy dst (s @ NUL # rest) i nleft =
    (if i + nleft \<le> length s + 1
     then Some (take (i + nleft - 1) s @ drop (i + nleft - 1) dst, i + nleft - 1, 0)
     else Some (s @ NUL # drop (length s + 1) dst, length s + 1, i + nleft - length s - 1))"
  using assms(2-5)
proof (induction nleft arbitrary: i dst)
  case (Suc n)
  show ?case
  proof (cases "n = 0")
    case True
    then show ?thesis using Suc.prems by simp (metis append_take_drop_id)
  next
    case False
    have i: "i < length dst" using Suc.prems False by simp
    show ?thesis
    proof (cases "i = length s")
      case True
      then have "dst[i := NUL] = s @ NUL # drop (length s + 1) dst"
        using Suc.prems(4) i upd_conv_take_nth_drop [of i dst NUL] by simp
      then show ?thesis using True False i by (simp add: nth_append)
    next
      case F: False
      then have lt: "i < length s" using Suc.prems(1) by simp
      have "s ! i \<noteq> NUL" using assms(1) lt nth_mem by metis
      moreover have "take (Suc i) (dst[i := s ! i]) = take (Suc i) s"
        using Suc.prems(4) lt i by (simp add: take_Suc_conv_app_nth)
      ultimately show ?thesis
        using Suc.IH [of "Suc i" "dst[i := s ! i]"] Suc.prems lt False i by (simp add: nth_append)
    qed
  qed
qed simp

lemma strlen_from_ok:
  assumes "NUL \<notin> set s" "i \<le> length s"
  shows "strlen_from (s @ NUL # rest) i = Some (length s - i)"
proof -
  have "takeWhile (\<lambda>c. c \<noteq> NUL) (drop i s @ NUL # rest) = drop i s"
    using assms(1) by (auto simp: takeWhile_append dest: in_set_dropD)
  then show ?thesis using assms(2) by (simp add: strlen_from_def)
qed

text \<open>\<^verbatim>\<open>strlcpy\<close> copies as much of the source as fits, always terminates a non-empty destination,
  touches nothing behind the terminator, and returns the length of the source.
\<close>

theorem strlcpy_correct:
  assumes "NUL \<notin> set s" "min dsize (length s + 1) \<le> length dst"
  shows "strlcpy dst (s @ NUL # rest) dsize =
    Some (if dsize = 0 then dst
          else take (dsize - 1) s @ NUL # drop (min dsize (length s + 1)) dst, length s)"
proof (cases "dsize = 0")
  case True
  then show ?thesis using strlen_from_ok [OF assms(1), of 0 rest] by (simp add: strlcpy_def)
next
  case False
  then have c: "strlcpy_copy dst (s @ NUL # rest) 0 dsize =
    (if dsize \<le> length s + 1 then Some (take (dsize - 1) s @ drop (dsize - 1) dst, dsize - 1, 0)
     else Some (s @ NUL # drop (length s + 1) dst, length s + 1, dsize - length s - 1))"
    using strlcpy_copy_ok [OF assms(1), of 0 dsize dst rest] assms(2) by simp
  show ?thesis
  proof (cases "dsize \<le> length s + 1")
    case True
    then have l: "dsize - 1 < length dst" "dsize - 1 \<le> length s" using False assms(2) by auto
    have "(take (dsize - 1) s @ drop (dsize - 1) dst)[dsize - 1 := NUL] = take (dsize - 1) s @ NUL # drop dsize dst"
      using l False by (simp add: list_update_append Cons_nth_drop_Suc [symmetric])
    then show ?thesis
      using True False c l strlen_from_ok [OF assms(1), of "dsize - 1" rest] by (simp add: strlcpy_def)
  next
    case F: False
    then show ?thesis using False c by (simp add: strlcpy_def)
  qed
qed

theorem strlcpy_witness:
  "strlcpy ''123456'' (''hello'' @ NUL # []) 4 = Some (''hel'' @ NUL # ''56'', 5)"
  using strlcpy_correct [of "''hello''" 4 "''123456''" "[]"] by (simp add: numeral_eq_Suc)

end
