(* ===== verification/Env.thy ===== *)
theory Env
  imports CString
begin

text \<open>
  \<^verbatim>\<open>basework/lib/env_core.c\<close> and \<^verbatim>\<open>basework/env.c\<close>: the environment, an array of
  \<open>name=value\<close> strings, with its text format in a RAM area. An entry is the string up to its
  terminator. The outcomes of the two allocations a call may make are parameters.
\<close>

section \<open>State and operations\<close>

definition ENV_MAX :: nat where "ENV_MAX = 1024"

text \<open>
  \<open>environ\<close> is the null-terminated array, or \<^const>\<open>None\<close> for a null pointer; \<open>on_heap\<close> records whether
  it was allocated or is still the initial static array.
\<close>

record env_reent =
  environ :: "string list option"
  alloced :: bool
  on_heap :: bool

definition env_init :: env_reent where
  "env_init = \<lparr>environ = Some [], alloced = False, on_heap = False\<rparr>"

abbreviation eq_chr :: char where "eq_chr \<equiv> CHR ''=''"

definition env_hit :: "string \<Rightarrow> string \<Rightarrow> bool" where
  "env_hit name e \<longleftrightarrow> take (length name) e = name \<and> length name < length e \<and> e ! length name = eq_chr"

fun env_lookup :: "string \<Rightarrow> string list \<Rightarrow> nat \<Rightarrow> (nat \<times> string) option" where
  "env_lookup name [] i = None"
| "env_lookup name (e # es) i =
     (if env_hit name e then Some (i, drop (length name + 1) e) else env_lookup name es (i + 1))"

definition env_find :: "env_reent \<Rightarrow> string \<Rightarrow> (nat \<times> string) option" where
  "env_find r name =
     (case environ r of
        None \<Rightarrow> None
      | Some es \<Rightarrow> if eq_chr \<in> set name then None else env_lookup name es 0)"

text \<open>
  Storing a new string in slot \<open>offset\<close>: the slot is cleared when the allocation fails, which
  ends the array there.
\<close>

definition env_store :: "bool \<Rightarrow> env_reent \<Rightarrow> string list \<Rightarrow> nat \<Rightarrow> string \<Rightarrow> string \<Rightarrow> env_reent \<times> int" where
  "env_store str_ok r es offset name val =
     (if \<not> str_ok then (r\<lparr>environ := Some (take offset es)\<rparr>, - 1)
      else (r\<lparr>environ := Some (take offset es @ [name @ eq_chr # val] @ drop (offset + 1) es)\<rparr>, 0))"

definition env_set_core ::
    "bool \<Rightarrow> bool \<Rightarrow> env_reent \<Rightarrow> string \<Rightarrow> string \<Rightarrow> bool \<Rightarrow> (env_reent \<times> int) option" where
  "env_set_core arr_ok str_ok r name val rewrite =
     (if eq_chr \<in> set name then Some (r, - 1)
      else case env_find r name of
        Some (offset, c) \<Rightarrow>
          (case environ r of
             None \<Rightarrow> None
           | Some es \<Rightarrow>
               if \<not> rewrite then Some (r, 0)
               else if length c \<ge> length val
               then Some (r\<lparr>environ := Some (es[offset := name @ eq_chr # val])\<rparr>, 0)
               else Some (env_store str_ok r es offset name val))
      | None \<Rightarrow>
          (case environ r of
             None \<Rightarrow> None
           | Some es \<Rightarrow>
               if alloced r
               then (if \<not> on_heap r then None
                     else if \<not> arr_ok then Some (r\<lparr>environ := None\<rparr>, - 1)
                     else Some (env_store str_ok r es (length es) name val))
               else
                 let r1 = r\<lparr>alloced := True\<rparr> in
                 if \<not> arr_ok then Some (r1, - 1)
                 else Some (env_store str_ok (r1\<lparr>on_heap := True\<rparr>) es (length es) name val)))"

lemma env_lookup_Some:
  "env_lookup name es i = Some (j, v) \<Longrightarrow>
     i \<le> j \<and> j < i + length es \<and> env_hit name (es ! (j - i)) \<and> v = drop (length name + 1) (es ! (j - i))"
  by (induction es arbitrary: i) (fastforce split: if_splits simp: nth_Cons')+

text \<open>The removal loop: entries move down until no entry of the name is left.\<close>

function env_unset_loop :: "string \<Rightarrow> string list \<Rightarrow> string list" where
  "env_unset_loop name es =
     (case env_lookup name es 0 of
        None \<Rightarrow> es
      | Some (off, c) \<Rightarrow> env_unset_loop name (take off es @ drop (off + 1) es))"
  by pat_completeness auto
termination
  by (relation "measure (\<lambda>(name, es). length es)") (auto dest!: env_lookup_Some)

declare env_unset_loop.simps [simp del]

definition env_unset_core :: "env_reent \<Rightarrow> string option \<Rightarrow> env_reent \<times> int" where
  "env_unset_core r name =
     (case name of
        None \<Rightarrow> (r, - 1)
      | Some nm \<Rightarrow>
          if nm = [] \<or> eq_chr \<in> set nm then (r, - 1)
          else (r\<lparr>environ := map_option (env_unset_loop nm) (environ r)\<rparr>, 0))"

definition env_get :: "env_reent \<Rightarrow> string \<Rightarrow> string option" where
  "env_get r name = map_option snd (env_find r name)"

text \<open>
  Loading: the callback fills the line buffer and returns the number of bytes. The result is
  that of the last \<^verbatim>\<open>_env_set\<close>; when there was none, the variable is uninitialised, which is
  \<^const>\<open>None\<close>. The loop ends only when the callback says so.
\<close>

definition cstr :: "string \<Rightarrow> nat \<Rightarrow> string" where
  "cstr m i = takeWhile (\<lambda>c. c \<noteq> NUL) (drop i m)"

type_synonym 'c line_reader = "'c \<Rightarrow> string \<Rightarrow> nat \<Rightarrow> ('c \<times> string \<times> int) option"

partial_function (option) env_load_loop ::
    "bool \<Rightarrow> bool \<Rightarrow> 'c line_reader \<Rightarrow> env_reent \<Rightarrow> 'c \<Rightarrow> string \<Rightarrow> int option \<Rightarrow> (env_reent \<times> 'c \<times> int option) option" where
  "env_load_loop arr_ok str_ok cb r ctx buffer err =
     do {
       (ctx1, b1, ret) \<leftarrow> cb ctx buffer (ENV_MAX - 1);
       if ret \<le> 0 then Some (r, ctx1, err)
       else if nat ret \<ge> length b1 then None
       else do {
         let b2 = b1[nat ret := NUL];
         p \<leftarrow> strchr_from b2 0 eq_chr;
         case p of
           None \<Rightarrow> env_load_loop arr_ok str_ok cb r ctx1 b2 err
         | Some k \<Rightarrow>
             do {
               let b3 = b2[k := NUL];
               let b4 = (if b3 ! (nat ret - 1) = CHR 0x0A then b3[nat ret - 1 := NUL] else b3);
               (r1, e) \<leftarrow> env_set_core arr_ok str_ok r (cstr b4 0) (cstr b4 (k + 1)) False;
               if e \<noteq> 0 then Some (r1, ctx1, Some e)
               else env_load_loop arr_ok str_ok cb r1 ctx1 b4 (Some e)
             }
       }
     }"

definition env_load_core ::
    "bool \<Rightarrow> bool \<Rightarrow> bool \<Rightarrow> 'c line_reader option \<Rightarrow> env_reent \<Rightarrow> 'c \<Rightarrow> (env_reent \<times> 'c \<times> int option) option" where
  "env_load_core buf_ok arr_ok str_ok cb r ctx =
     (case cb of
        None \<Rightarrow> Some (r, ctx, Some (- EINVAL))
      | Some f \<Rightarrow>
          if \<not> buf_ok then Some (r, ctx, Some (- EINVAL))
          else env_load_loop arr_ok str_ok f r ctx (replicate ENV_MAX NUL) None)"

text \<open>Flushing: an entry that does not fit the line buffer overruns it.\<close>

fun env_flush_loop :: "('c \<Rightarrow> string \<Rightarrow> ('c \<times> int) option) \<Rightarrow> string list \<Rightarrow> 'c \<Rightarrow> int \<Rightarrow> ('c \<times> int) option" where
  "env_flush_loop cb [] ctx ret = Some (ctx, ret)"
| "env_flush_loop cb (e # es) ctx ret =
     (if eq_chr \<notin> set e then env_flush_loop cb es ctx ret
      else if length e + 1 > ENV_MAX then None
      else do {
        (ctx1, ret1) \<leftarrow> cb ctx (e @ [CHR 0x0A]);
        if ret1 < 0 then Some (ctx1, ret1) else env_flush_loop cb es ctx1 ret1
      })"

definition env_flush_core ::
    "bool \<Rightarrow> ('c \<Rightarrow> string \<Rightarrow> ('c \<times> int) option) option \<Rightarrow> env_reent \<Rightarrow> 'c \<Rightarrow> ('c \<times> int) option" where
  "env_flush_core buf_ok cb r ctx =
     (case cb of
        None \<Rightarrow> Some (ctx, - EINVAL)
      | Some f \<Rightarrow>
          if \<not> buf_ok then Some (ctx, - EINVAL)
          else do { es \<leftarrow> environ r; env_flush_loop f es ctx 0 })"

definition env_free_core :: "env_reent \<Rightarrow> env_reent option" where
  "env_free_core r = (case environ r of None \<Rightarrow> None | Some es \<Rightarrow> if alloced r \<and> \<not> on_heap r then None else Some env_init)"

section \<open>The system environment and its RAM format\<close>

definition env_streq :: "env_reent \<Rightarrow> string \<Rightarrow> string option \<Rightarrow> bool" where
  "env_streq r key s = (case (env_get r key, s) of (Some v, Some t) \<Rightarrow> v = t | _ \<Rightarrow> False)"

definition env_getul :: "env_reent \<Rightarrow> string \<Rightarrow> nat" where
  "env_getul r key = (case env_get r key of None \<Rightarrow> 0 | Some v \<Rightarrow> strtoul16 v)"

definition env_getl :: "env_reent \<Rightarrow> string \<Rightarrow> int" where
  "env_getl r key = (case env_get r key of None \<Rightarrow> 0 | Some v \<Rightarrow> strtol16 v)"

definition env_setint :: "bool \<Rightarrow> bool \<Rightarrow> env_reent \<Rightarrow> string \<Rightarrow> int \<Rightarrow> (env_reent \<times> int) option" where
  "env_setint arr_ok str_ok r key v =
     do { str \<leftarrow> itoa v 16; env_set_core arr_ok str_ok r key str True }"

record env_ram =
  er_buffer :: string
  er_offset :: nat
  er_maxlen :: nat
  er_total :: nat

definition MAX_KEY_SIZE :: nat where "MAX_KEY_SIZE = 64"

definition env_ram_write :: "env_ram \<Rightarrow> string \<Rightarrow> (env_ram \<times> int) option" where
  "env_ram_write ram s =
     (let remain = er_maxlen ram - er_offset ram in
      if remain = 0 then Some (ram, - EINVAL)
      else do {
        let bytes = (if remain > length s then length s else remain);
        m \<leftarrow> mem_write (er_buffer ram) (er_offset ram) (take bytes s);
        Some (ram\<lparr>er_buffer := m, er_offset := er_offset ram + bytes, er_total := er_total ram + bytes\<rparr>, 0)
      })"

definition env_ram_readline :: "env_ram line_reader" where
  "env_ram_readline ram buffer max_size =
     (let ofs = er_offset ram in
      if ofs \<ge> er_maxlen ram then Some (ram, buffer, - EINVAL)
      else do {
        p \<leftarrow> strchr_from (er_buffer ram) ofs eq_chr;
        case p of
          None \<Rightarrow> Some (ram, buffer, - EINVAL)
        | Some k \<Rightarrow>
            if k - ofs > MAX_KEY_SIZE then Some (ram, buffer, - EINVAL)
            else do {
              q \<leftarrow> strchr_from (er_buffer ram) k (CHR 0x0A);
              case q of
                None \<Rightarrow> Some (ram, buffer, - EINVAL)
              | Some l \<Rightarrow>
                  let len = l - ofs + 1 in
                  if len < ENV_MAX \<and> ofs + len < er_maxlen ram
                  then do {
                    b \<leftarrow> mem_write buffer 0 (take len (drop ofs (er_buffer ram)));
                    Some (ram\<lparr>er_offset := ofs + len\<rparr>, b, int len)
                  }
                  else Some (ram, buffer, - EINVAL)
            }
      })"

definition env_load_ram ::
    "bool \<Rightarrow> bool \<Rightarrow> bool \<Rightarrow> env_reent \<Rightarrow> string option \<Rightarrow> nat \<Rightarrow> (env_reent \<times> int option) option" where
  "env_load_ram buf_ok arr_ok str_ok r input sz =
     (case input of
        None \<Rightarrow> Some (r, Some 0)
      | Some m \<Rightarrow>
          if sz = 0 then Some (r, Some 0)
          else do {
            (r1, ram, err) \<leftarrow> env_load_core buf_ok arr_ok str_ok (Some env_ram_readline) r
                                \<lparr>er_buffer = m, er_offset = 0, er_maxlen = sz, er_total = 0\<rparr>;
            Some (r1, err)
          })"

definition env_flush_ram :: "bool \<Rightarrow> env_reent \<Rightarrow> string option \<Rightarrow> nat \<Rightarrow> (string option \<times> int) option" where
  "env_flush_ram buf_ok r buffer maxlen =
     (case buffer of
        None \<Rightarrow> Some (None, - EINVAL)
      | Some m \<Rightarrow>
          if maxlen = 0 then Some (Some m, - EINVAL)
          else do {
            (ram, err) \<leftarrow> env_flush_core buf_ok (Some env_ram_write) r
                            \<lparr>er_buffer = m, er_offset = 0, er_maxlen = maxlen, er_total = 0\<rparr>;
            Some (Some (er_buffer ram), if err \<noteq> 0 then err else int (er_total ram))
          })"

section \<open>The environment as a map\<close>

text \<open>What a client of a key-value store relies on, and what follows for any sequence of updates.\<close>

datatype ('k, 'v) kv_op = Put 'k 'v | Del 'k

fun kv_spec :: "('k, 'v) kv_op \<Rightarrow> ('k \<rightharpoonup> 'v) \<Rightarrow> ('k \<rightharpoonup> 'v)" where
  "kv_spec (Put k v) m = m(k \<mapsto> v)"
| "kv_spec (Del k) m = m(k := None)"

fun kv_key :: "('k, 'v) kv_op \<Rightarrow> 'k" where
  "kv_key (Put k v) = k"
| "kv_key (Del k) = k"

fun kv_run :: "('s \<Rightarrow> 'k \<Rightarrow> 'v \<Rightarrow> ('s \<times> int) option) \<Rightarrow> ('s \<Rightarrow> 'k \<Rightarrow> 's \<times> int) \<Rightarrow>
    ('k, 'v) kv_op list \<Rightarrow> 's \<Rightarrow> 's option" where
  "kv_run put del [] s = Some s"
| "kv_run put del (Put k v # ops) s =
     (case put s k v of Some (s1, e) \<Rightarrow> if e = 0 then kv_run put del ops s1 else None | None \<Rightarrow> None)"
| "kv_run put del (Del k # ops) s =
     (case del s k of (s1, e) \<Rightarrow> if e = 0 then kv_run put del ops s1 else None)"

locale kv_store =
  fixes ok :: "'s \<Rightarrow> bool" and key :: "'k \<Rightarrow> bool"
    and get :: "'s \<Rightarrow> 'k \<Rightarrow> 'v option"
    and put :: "'s \<Rightarrow> 'k \<Rightarrow> 'v \<Rightarrow> ('s \<times> int) option" and del :: "'s \<Rightarrow> 'k \<Rightarrow> 's \<times> int"
  assumes put_law: "\<lbrakk>ok s; key k\<rbrakk> \<Longrightarrow>
      \<exists>s'. put s k v = Some (s', 0) \<and> ok s' \<and> get s' k = Some v \<and> (\<forall>k'. key k' \<longrightarrow> k' \<noteq> k \<longrightarrow> get s' k' = get s k')"
    and del_law: "\<lbrakk>ok s; key k\<rbrakk> \<Longrightarrow>
      \<exists>s'. del s k = (s', 0) \<and> ok s' \<and> get s' k = None \<and> (\<forall>k'. key k' \<longrightarrow> k' \<noteq> k \<longrightarrow> get s' k' = get s k')"
begin

lemma step_refines:
  assumes "ok s" "key (kv_key op)" "\<forall>k. key k \<longrightarrow> get s k = m k"
  shows "\<exists>s'. kv_run put del (op # ops) s = kv_run put del ops s' \<and> ok s' \<and>
           (\<forall>k. key k \<longrightarrow> get s' k = kv_spec op m k)"
proof (cases op)
  case (Put k v)
  with put_law [of s k v] assms show ?thesis by auto
next
  case (Del k)
  with del_law [of s k] assms show ?thesis by auto
qed

lemma run_refines:
  assumes "ok s" "\<forall>op \<in> set ops. key (kv_key op)" "\<forall>k. key k \<longrightarrow> get s k = m k"
  shows "\<exists>s'. kv_run put del ops s = Some s' \<and> ok s' \<and> (\<forall>k. key k \<longrightarrow> get s' k = fold kv_spec ops m k)"
  using assms
proof (induction ops arbitrary: s m)
  case (Cons op ops)
  then obtain s' where "kv_run put del (op # ops) s = kv_run put del ops s'" "ok s'"
      "\<forall>k. key k \<longrightarrow> get s' k = kv_spec op m k"
    using step_refines [of s op m ops] by auto
  with Cons.IH [of s' "kv_spec op m"] Cons.prems show ?case by simp
qed simp

end

text \<open>The scan of the array, by its first hit.\<close>

lemma env_hit_entry [simp]:
  "eq_chr \<notin> set name \<Longrightarrow> env_hit name e \<longleftrightarrow> (\<exists>v. e = name @ eq_chr # v)"
  unfolding env_hit_def
  by (metis append_take_drop_id append_eq_conv_conj Cons_nth_drop_Suc length_append length_Cons
      less_add_Suc1 add_Suc_right nth_append_length)

lemma env_hit_other:
  "\<lbrakk>eq_chr \<notin> set name; eq_chr \<notin> set k\<rbrakk> \<Longrightarrow> env_hit name (k @ eq_chr # v) \<longleftrightarrow> name = k"
  by (auto simp: append_eq_append_conv2 append_eq_Cons_conv Cons_eq_append_conv)

lemma env_lookup_find:
  "map_option snd (env_lookup name es i) = map_option (drop (length name + 1)) (find (env_hit name) es)"
  by (induction es arbitrary: i) auto

lemma env_lookup_split:
  "env_lookup name es i = Some (j, c) \<Longrightarrow> \<exists>pre e post. es = pre @ e # post \<and> j = i + length pre \<and>
     env_hit name e \<and> c = drop (length name + 1) e \<and> (\<forall>e' \<in> set pre. \<not> env_hit name e')"
proof (induction es arbitrary: i)
  case (Cons x xs)
  show ?case
  proof (cases "env_hit name x")
    case True
    with Cons.prems have "x # xs = [] @ x # xs \<and> j = i + length []" by simp
    with True Cons.prems show ?thesis by fastforce
  next
    case False
    with Cons.prems have "env_lookup name xs (i + 1) = Some (j, c)" by simp
    then obtain pre e post where "xs = pre @ e # post" "j = i + 1 + length pre" "env_hit name e"
        "c = drop (length name + 1) e" "\<forall>e' \<in> set pre. \<not> env_hit name e'"
      using Cons.IH by blast
    with False have "x # xs = (x # pre) @ e # post \<and> j = i + length (x # pre) \<and> (\<forall>e' \<in> set (x # pre). \<not> env_hit name e')"
      by simp
    then show ?thesis using \<open>env_hit name e\<close> \<open>c = _\<close> by blast
  qed
qed simp

lemma env_lookup_None: "env_lookup name es i = None \<longleftrightarrow> (\<forall>e \<in> set es. \<not> env_hit name e)"
  by (induction es arbitrary: i) auto

lemma find_append: "find P (xs @ ys) = (case find P xs of None \<Rightarrow> find P ys | Some x \<Rightarrow> Some x)"
  by (induction xs) auto

lemma env_unset_loop_filter: "env_unset_loop name es = filter (\<lambda>e. \<not> env_hit name e) es"
proof (induction es rule: env_unset_loop.induct)
  case (1 name es)
  show ?case
  proof (cases "env_lookup name es 0")
    case None
    then have "env_unset_loop name es = es" by (simp add: env_unset_loop.simps [of name es])
    with None show ?thesis by (simp add: env_lookup_None del: env_hit_entry)
  next
    case (Some p)
    then obtain j c where p: "env_lookup name es 0 = Some (j, c)" by (cases p) simp
    then obtain pre e post where "es = pre @ e # post" "j = length pre" "env_hit name e"
      using env_lookup_split by fastforce
    moreover have "env_unset_loop name es = env_unset_loop name (take j es @ drop (j + 1) es)"
      using p by (simp add: env_unset_loop.simps [of name es])
    ultimately show ?thesis using 1 [OF p refl] by simp
  qed
qed

definition env_ok :: "env_reent \<Rightarrow> bool" where
  "env_ok r \<longleftrightarrow> environ r \<noteq> None \<and> (alloced r \<longrightarrow> on_heap r)"

definition env_key :: "string \<Rightarrow> bool" where
  "env_key k \<longleftrightarrow> k \<noteq> [] \<and> eq_chr \<notin> set k"

lemma env_get_find:
  "\<lbrakk>environ r = Some es; eq_chr \<notin> set k\<rbrakk> \<Longrightarrow>
     env_get r k = map_option (drop (length k + 1)) (find (env_hit k) es)"
  by (simp add: env_get_def env_find_def env_lookup_find del: env_hit_entry)

text \<open>When both allocations succeed, setting replaces the first entry of the name or appends one.\<close>

lemma env_set_core_entries:
  assumes "environ r = Some es" "alloced r \<longrightarrow> on_heap r" "eq_chr \<notin> set name"
  shows "\<exists>r'. env_set_core True True r name val True = Some (r', 0) \<and> (alloced r' \<longrightarrow> on_heap r') \<and>
     environ r' = Some (case env_lookup name es 0 of
        None \<Rightarrow> es @ [name @ eq_chr # val] | Some (off, c) \<Rightarrow> es[off := name @ eq_chr # val])"
proof (cases "env_lookup name es 0")
  case None
  with assms show ?thesis by (simp add: env_set_core_def env_find_def env_store_def Let_def)
next
  case (Some p)
  obtain off c where "p = (off, c)" by (cases p) simp
  moreover from this Some env_lookup_Some have "off < length es" by fastforce
  ultimately show ?thesis using assms Some
    by (simp add: env_set_core_def env_find_def env_store_def upd_conv_take_nth_drop)
qed

lemma find_hit_update:
  assumes "env_lookup name es 0 = Some (off, c)" "eq_chr \<notin> set name" "eq_chr \<notin> set k"
  shows "find (env_hit k) (es[off := name @ eq_chr # val]) =
    (if k = name then Some (name @ eq_chr # val) else find (env_hit k) es)"
proof -
  obtain pre e post where es: "es = pre @ e # post" "off = length pre" "env_hit name e"
      "\<forall>e' \<in> set pre. \<not> env_hit name e'"
    using env_lookup_split [OF assms(1)] by auto
  then obtain v where "e = name @ eq_chr # v" using assms by auto
  then have "env_hit k e \<longleftrightarrow> k = name" using env_hit_other assms by simp
  moreover have "find (env_hit name) pre = None" using es by (simp add: find_None_iff del: env_hit_entry)
  moreover have "env_hit k (name @ eq_chr # val) \<longleftrightarrow> k = name" using env_hit_other assms by simp
  ultimately show ?thesis using es by (auto simp: find_append simp del: env_hit_entry split: option.split)
qed

lemma find_hit_append:
  assumes "env_lookup name es 0 = None" "eq_chr \<notin> set name" "eq_chr \<notin> set k"
  shows "find (env_hit k) (es @ [name @ eq_chr # val]) =
    (if k = name then Some (name @ eq_chr # val) else find (env_hit k) es)"
proof -
  have "find (env_hit name) es = None"
    using assms by (simp add: find_None_iff env_lookup_None del: env_hit_entry)
  moreover have "env_hit k (name @ eq_chr # val) \<longleftrightarrow> k = name" using env_hit_other assms by simp
  ultimately show ?thesis by (auto simp: find_append simp del: env_hit_entry split: option.split)
qed

lemma env_set_core_law:
  assumes "env_ok r" "env_key k"
  shows "\<exists>r'. env_set_core True True r k v True = Some (r', 0) \<and> env_ok r' \<and> env_get r' k = Some v \<and>
     (\<forall>k'. env_key k' \<longrightarrow> k' \<noteq> k \<longrightarrow> env_get r' k' = env_get r k')"
proof -
  obtain es where es: "environ r = Some es" using assms by (auto simp: env_ok_def)
  obtain r' where r': "env_set_core True True r k v True = Some (r', 0)" "alloced r' \<longrightarrow> on_heap r'"
      "environ r' = Some (case env_lookup k es 0 of
        None \<Rightarrow> es @ [k @ eq_chr # v] | Some (off, c) \<Rightarrow> es[off := k @ eq_chr # v])"
    using env_set_core_entries [OF es, of k v] assms by (auto simp: env_ok_def env_key_def)
  have "env_get r' k' = (if k' = k then Some v else env_get r k')" if "env_key k'" for k'
    using that assms r'(3) es
    by (auto simp: env_get_find env_key_def find_hit_update find_hit_append simp del: env_hit_entry split: option.splits)
  with r' assms show ?thesis by (auto simp: env_ok_def)
qed

lemma env_unset_core_law:
  assumes "env_ok r" "env_key k"
  shows "\<exists>r'. env_unset_core r (Some k) = (r', 0) \<and> env_ok r' \<and> env_get r' k = None \<and>
     (\<forall>k'. env_key k' \<longrightarrow> k' \<noteq> k \<longrightarrow> env_get r' k' = env_get r k')"
proof -
  obtain es where es: "environ r = Some es" using assms by (auto simp: env_ok_def)
  let ?r = "r\<lparr>environ := Some (env_unset_loop k es)\<rparr>"
  have "find (env_hit k') (filter (\<lambda>e. \<not> env_hit k e) es) = (if k' = k then None else find (env_hit k') es)"
    if "env_key k'" for k'
    using that assms env_hit_other by (induction es) (auto simp: env_key_def)
  with es assms show ?thesis
    by (auto simp: env_unset_core_def env_unset_loop_filter env_get_find env_key_def env_ok_def simp del: env_hit_entry)
qed

interpretation ev: kv_store env_ok env_key env_get "\<lambda>r k v. env_set_core True True r k v True"
    "\<lambda>r k. env_unset_core r (Some k)"
  by unfold_locales (use env_set_core_law env_unset_core_law in blast)+

text \<open>
  C13. The environment is a map: when allocation succeeds, any sequence of \<^verbatim>\<open>env_set\<close> (with overwrite) and
  \<^verbatim>\<open>env_unset\<close> on names without \<open>=\<close> completes with return code 0, and \<^verbatim>\<open>env_get\<close> then returns for every such
  name what the corresponding updates of a finite map give.
\<close>

theorem env_refines_map:
  assumes "env_ok r" "\<forall>op \<in> set ops. env_key (kv_key op)"
  shows "\<exists>r'. kv_run (\<lambda>r k v. env_set_core True True r k v True) (\<lambda>r k. env_unset_core r (Some k)) ops r = Some r' \<and>
     env_ok r' \<and> (\<forall>k. env_key k \<longrightarrow> env_get r' k = fold kv_spec ops (env_get r) k)"
  using ev.run_refines [OF assms, of "env_get r"] by simp

theorem env_refines_map_witness:
  "\<exists>r'. kv_run (\<lambda>r k v. env_set_core True True r k v True) (\<lambda>r k. env_unset_core r (Some k))
      [Put ''fw'' ''1'', Put ''fwx'' ''2'', Del ''fw''] env_init = Some r' \<and>
    env_get r' ''fw'' = None \<and> env_get r' ''fwx'' = Some ''2''"
  using env_refines_map [of env_init "[Put ''fw'' ''1'', Put ''fwx'' ''2'', Del ''fw'']"]
  by (force simp: env_ok_def env_init_def env_key_def)

section \<open>Saving and loading through RAM\<close>

abbreviation newline :: char where "newline \<equiv> CHR 0x0A"

definition env_image :: "string list \<Rightarrow> string" where
  "env_image es = concat (map (\<lambda>e. e @ [newline]) es)"

definition env_name :: "string \<Rightarrow> string" where
  "env_name e = takeWhile (\<lambda>c. c \<noteq> eq_chr) e"

text \<open>The entries the text format can carry.\<close>

definition env_entry_ok :: "string \<Rightarrow> bool" where
  "env_entry_ok e \<longleftrightarrow> eq_chr \<in> set e \<and> NUL \<notin> set e \<and> newline \<notin> set e \<and>
     length (env_name e) \<le> MAX_KEY_SIZE \<and> length e + 1 < ENV_MAX"

lemma env_image_simps [simp]:
  "env_image [] = []" "env_image (e # es) = e @ newline # env_image es"
  by (simp_all add: env_image_def)

lemma takeWhile_stop: "\<lbrakk>\<forall>x \<in> set xs. P x; \<not> P y\<rbrakk> \<Longrightarrow> takeWhile P (xs @ y # ys) = xs"
  by (simp add: takeWhile_append2)

lemma env_name_entry [simp]: "eq_chr \<notin> set k \<Longrightarrow> env_name (k @ eq_chr # v) = k"
  unfolding env_name_def by (rule takeWhile_stop) auto

lemma env_entry_split:
  assumes "env_entry_ok e"
  obtains k v where "e = k @ eq_chr # v" "eq_chr \<notin> set k" "env_name e = k"
      "length k \<le> 64" "length k + length v + 2 < 1024" "NUL \<notin> set k" "NUL \<notin> set v" "newline \<notin> set k" "newline \<notin> set v"
proof -
  obtain k v where "e = k @ eq_chr # v" "eq_chr \<notin> set k"
    using assms split_list_first [of eq_chr e] by (auto simp: env_entry_ok_def)
  moreover from this have "env_name e = k" by simp
  ultimately show ?thesis using assms that by (auto simp: env_entry_ok_def MAX_KEY_SIZE_def ENV_MAX_def)
qed

lemma strchr_from_hit:
  assumes "\<forall>c \<in> set xs. c \<noteq> ch \<and> c \<noteq> NUL"
  shows "strchr_from (pre @ xs @ ch # post) (length pre) ch = Some (Some (length pre + length xs))"
proof -
  have "takeWhile (\<lambda>c. c \<noteq> ch \<and> c \<noteq> NUL) (xs @ ch # post) = xs"
    using assms by (simp add: takeWhile_append2)
  then show ?thesis by (simp add: strchr_from_def nth_append)
qed

lemma cstr_append: "NUL \<notin> set s \<Longrightarrow> cstr (pre @ s @ NUL # post) (length pre) = s"
  by (simp add: cstr_def) (rule takeWhile_stop; auto)

lemma env_flush_loop_image:
  assumes "\<forall>e \<in> set es. env_entry_ok e"
    and "er_offset ram + length (env_image es) \<le> er_maxlen ram" "er_maxlen ram \<le> length (er_buffer ram)"
  shows "env_flush_loop env_ram_write es ram 0 =
    Some (ram\<lparr>er_buffer := overwrite (er_buffer ram) (er_offset ram) (env_image es),
              er_offset := er_offset ram + length (env_image es), er_total := er_total ram + length (env_image es)\<rparr>, 0)"
  using assms
proof (induction es arbitrary: ram)
  case (Cons e es)
  let ?l = "e @ [newline]"
  let ?ram = "ram\<lparr>er_buffer := overwrite (er_buffer ram) (er_offset ram) ?l,
                  er_offset := er_offset ram + length ?l, er_total := er_total ram + length ?l\<rparr>"
  have "eq_chr \<in> set e" "length e + 1 < ENV_MAX" using Cons.prems by (auto simp: env_entry_ok_def)
  moreover have "env_ram_write ram ?l = Some (?ram, 0)"
    using Cons.prems by (simp add: env_ram_write_def Let_def)
  ultimately have "env_flush_loop env_ram_write (e # es) ram 0 = env_flush_loop env_ram_write es ?ram 0"
    by simp
  also have "\<dots> = Some (?ram\<lparr>er_buffer := overwrite (er_buffer ?ram) (er_offset ?ram) (env_image es),
      er_offset := er_offset ?ram + length (env_image es), er_total := er_total ?ram + length (env_image es)\<rparr>, 0)"
    by (rule Cons.IH) (use Cons.prems in auto)
  finally show ?case
    using Cons.prems overwrite_append [of "er_offset ram" ?l "env_image es" "er_buffer ram"] by (simp add: algebra_simps)
qed simp

lemma env_ram_readline_entry:
  assumes "env_entry_ok e" "er_buffer ram = pre @ e @ newline # post" "er_offset ram = length pre"
    "length pre + length e + 1 < er_maxlen ram" "length b = ENV_MAX"
  shows "env_ram_readline ram b (ENV_MAX - 1) =
    Some (ram\<lparr>er_offset := length pre + length e + 1\<rparr>, e @ newline # drop (length e + 1) b, int (length e + 1))"
proof -
  obtain k v where e: "e = k @ eq_chr # v" "eq_chr \<notin> set k" "length k \<le> 64" "length k + length v + 2 < 1024"
      "NUL \<notin> set k" "NUL \<notin> set v" "newline \<notin> set k" "newline \<notin> set v"
    using env_entry_split [OF assms(1)] by metis
  have "strchr_from (er_buffer ram) (length pre) eq_chr = Some (Some (length pre + length k))"
    using strchr_from_hit [of k eq_chr pre "v @ newline # post"] e assms(2) by auto
  moreover have "strchr_from (er_buffer ram) (length pre + length k) newline = Some (Some (length pre + length e))"
    using strchr_from_hit [of "eq_chr # v" newline "pre @ k" post] e assms(2) by (auto simp: add.assoc)
  ultimately show ?thesis
    using assms e by (simp add: env_ram_readline_def Let_def MAX_KEY_SIZE_def ENV_MAX_def overwrite_def)
qed

lemma no_hit_name:
  assumes "eq_chr \<notin> set k" "k \<notin> env_name ` set es"
  shows "\<forall>e \<in> set es. \<not> env_hit k e"
proof (intro ballI notI)
  fix e assume "e \<in> set es" "env_hit k e"
  moreover from this obtain w where "e = k @ eq_chr # w" using assms by auto
  ultimately show False using assms env_name_entry [of k w] by force
qed

text \<open>One line of the load: its entry is appended to the environment.\<close>

lemma env_set_core_fresh:
  assumes "environ r = Some es" "alloced r \<longrightarrow> on_heap r" "eq_chr \<notin> set k" "k \<notin> env_name ` set es"
  shows "\<exists>r'. env_set_core True True r k v False = Some (r', 0) \<and> (alloced r' \<longrightarrow> on_heap r') \<and>
     environ r' = Some (es @ [k @ eq_chr # v])"
proof -
  have "env_lookup k es 0 = None" using no_hit_name assms(3,4) by (simp add: env_lookup_None del: env_hit_entry)
  with assms show ?thesis by (simp add: env_set_core_def env_find_def env_store_def Let_def)
qed

lemma env_load_loop_line:
  assumes "cb ctx b (ENV_MAX - 1) = Some (ctx1, b1, int n)" "0 < n" "n < length b1" "b1[n := NUL] = b2"
    "strchr_from b2 0 eq_chr = Some (Some k)" "b2[k := NUL] = b3" "b3 ! (n - 1) = newline" "b3[n - 1 := NUL] = b4"
    "env_set_core True True r (cstr b4 0) (cstr b4 (k + 1)) False = Some (r1, 0)"
  shows "env_load_loop True True cb r ctx b err = env_load_loop True True cb r1 ctx1 b4 (Some 0)"
  using assms by (subst env_load_loop.simps) (simp add: Let_def)

lemma env_load_loop_image:
  assumes "\<forall>e \<in> set es. env_entry_ok e" "distinct (map env_name (ds @ es))"
    and "er_buffer ram = pre @ env_image es @ NUL # post" "er_offset ram = length pre"
    and "length pre + length (env_image es) < er_maxlen ram" "length b = ENV_MAX"
    and "environ r = Some ds" "alloced r \<longrightarrow> on_heap r"
  shows "\<exists>r' ram'. env_load_loop True True env_ram_readline r ram b err =
           Some (r', ram', if es = [] then err else Some 0) \<and> environ r' = Some (ds @ es) \<and> env_ok r'"
  using assms
proof (induction es arbitrary: ds ram pre b r err)
  case Nil
  have "strchr_from (er_buffer ram) (length pre) eq_chr = Some None"
    using Nil.prems by (simp add: strchr_from_def)
  with Nil.prems have "env_ram_readline ram b (ENV_MAX - 1) = Some (ram, b, - EINVAL)"
    by (simp add: env_ram_readline_def Let_def)
  with Nil.prems show ?case by (subst env_load_loop.simps) (simp add: EINVAL_def env_ok_def)
next
  case (Cons e es)
  have ok: "env_entry_ok e" using Cons.prems by simp
  then obtain k v where e: "e = k @ eq_chr # v" "eq_chr \<notin> set k" "env_name e = k" "length k + length v + 2 < 1024"
      "NUL \<notin> set k" "NUL \<notin> set v"
    using env_entry_split by metis
  define n where "n = length e + 1"
  let ?ram = "ram\<lparr>er_offset := length pre + length e + 1\<rparr>"
  define t where "t = drop (n + 1) b"
  let ?b2 = "k @ eq_chr # v @ newline # NUL # t" and ?b4 = "k @ NUL # v @ NUL # NUL # t"
  have n: "n < length b" "0 < n" using e Cons.prems by (simp_all add: ENV_MAX_def n_def)
  have rd: "env_ram_readline ram b (ENV_MAX - 1) = Some (?ram, e @ newline # drop n b, int n)"
    unfolding n_def by (rule env_ram_readline_entry [OF ok]) (use Cons.prems in auto)
  have b2: "(e @ newline # drop n b)[n := NUL] = ?b2"
    using n(1) by (simp add: n_def list_update_append t_def e Cons_nth_drop_Suc [symmetric] del: drop_Suc)
  have eq: "strchr_from ?b2 0 eq_chr = Some (Some (length k))"
    using strchr_from_hit [of k eq_chr "[]" "v @ newline # NUL # t"] e by auto
  have b3: "?b2[length k := NUL] = k @ NUL # v @ newline # NUL # t" by simp
  have b3n: "(k @ NUL # v @ newline # NUL # t) ! (n - 1) = newline" by (simp add: n_def e nth_append)
  have b4: "(k @ NUL # v @ newline # NUL # t)[n - 1 := NUL] = ?b4" by (simp add: n_def e list_update_append)
  have c: "cstr ?b4 0 = k" "cstr ?b4 (length k + 1) = v"
    using cstr_append [of k "[]" "v @ NUL # NUL # t"] cstr_append [of v "k @ [NUL]" "NUL # t"] e by auto
  have "k \<notin> env_name ` set ds" using Cons.prems e by auto
  then obtain r1 where r1: "env_set_core True True r k v False = Some (r1, 0)" "alloced r1 \<longrightarrow> on_heap r1"
      "environ r1 = Some (ds @ [e])"
    using env_set_core_fresh [OF Cons.prems(7,8) e(2)] e by blast
  have "env_load_loop True True env_ram_readline r ram b err = env_load_loop True True env_ram_readline r1 ?ram ?b4 (Some 0)"
    by (rule env_load_loop_line [where cb = env_ram_readline, OF rd n(2) _ b2 eq b3 b3n b4]) (use n r1(1) c in \<open>simp_all add: n_def\<close>)
  moreover have "\<exists>r' ram'. env_load_loop True True env_ram_readline r1 ?ram ?b4 (Some 0) =
      Some (r', ram', if es = [] then Some 0 else Some 0) \<and> environ r' = Some ((ds @ [e]) @ es) \<and> env_ok r'"
    by (rule Cons.IH [where pre = "pre @ e @ [newline]"])
       (use Cons.prems r1 e n in \<open>auto simp: t_def n_def\<close>)
  ultimately show ?case by simp
qed



text \<open>Removing a variable does not survive the next save: after the environment was saved to an area once, unsetting
  its last variable and saving again leaves the area exactly as it was, so the next load brings the variable back.
\<close>

theorem env_unset_not_persistent:
  assumes "environ r = Some (es @ [k @ eq_chr # v])" "env_key k" "\<forall>e \<in> set (es @ [k @ eq_chr # v]). env_entry_ok e"
    and "distinct (map env_name (es @ [k @ eq_chr # v]))"
    and "length (env_image (es @ [k @ eq_chr # v])) < maxlen" "maxlen \<le> length m"
    and "m ! length (env_image (es @ [k @ eq_chr # v])) = NUL"
  shows "\<exists>m' n r'. env_flush_ram True r (Some m) maxlen = Some (Some m', int (length (env_image (es @ [k @ eq_chr # v])))) \<and>
     env_get (fst (env_unset_core r (Some k))) k = None \<and>
     env_flush_ram True (fst (env_unset_core r (Some k))) (Some m') maxlen = Some (Some m', n) \<and>
     env_load_ram True True True env_init (Some m') maxlen = Some (r', Some 0) \<and> env_get r' k = Some v"
proof -
  let ?es = "es @ [k @ eq_chr # v]" and ?r = "fst (env_unset_core r (Some k))"
  define m' where "m' = overwrite m 0 (env_image ?es)"
  have k: "eq_chr \<notin> set k" using assms(2) by (simp add: env_key_def)
  have nohit: "\<forall>e \<in> set es. \<not> env_hit k e" by (rule no_hit_name [OF k]) (use assms(4) k in simp)
  have pre: "env_image ?es = env_image es @ k @ eq_chr # v @ [newline]" by (simp add: env_image_def)
  have m': "m' = env_image ?es @ NUL # drop (length (env_image ?es) + 1) m"
    using assms(5-7) by (simp add: m'_def overwrite_def Cons_nth_drop_Suc [symmetric])
  have "filter (\<lambda>e. \<not> env_hit k e) ?es = es" using nohit k env_hit_other by (simp add: filter_id_conv del: env_hit_entry)
  then have unset: "environ ?r = Some es" using assms(1,2)
    by (simp add: env_unset_core_def env_key_def env_unset_loop_filter del: env_hit_entry)
  then have "env_get ?r k = None" using k nohit by (simp add: env_get_find find_None_iff del: env_hit_entry)
  moreover have "env_flush_ram True r (Some m) maxlen = Some (Some m', int (length (env_image ?es)))"
    using assms env_flush_loop_image [of ?es "\<lparr>er_buffer = m, er_offset = 0, er_maxlen = maxlen, er_total = 0\<rparr>"]
    by (simp add: env_flush_ram_def env_flush_core_def m'_def)
  moreover have "overwrite m' 0 (env_image es) = m'" by (simp add: m' pre overwrite_def)
  then have "env_flush_ram True ?r (Some m') maxlen = Some (Some m', int (length (env_image es)))"
    using assms(3,5,6) unset pre m' env_flush_loop_image [of es "\<lparr>er_buffer = m', er_offset = 0, er_maxlen = maxlen, er_total = 0\<rparr>"]
    by (simp add: env_flush_ram_def env_flush_core_def)
  moreover obtain r' ram' where "env_load_loop True True env_ram_readline env_init
      \<lparr>er_buffer = m', er_offset = 0, er_maxlen = maxlen, er_total = 0\<rparr> (replicate ENV_MAX NUL) None = Some (r', ram', Some 0)"
      "environ r' = Some ?es"
    using assms m' env_load_loop_image [of ?es "[]" "\<lparr>er_buffer = m', er_offset = 0, er_maxlen = maxlen, er_total = 0\<rparr>" "[]"
        "drop (length (env_image ?es) + 1) m" "replicate ENV_MAX NUL" env_init None]
    by (auto simp: env_init_def)
  moreover from this(2) k nohit have "env_get r' k = Some v"
    by (simp add: env_get_find find_append find_None_iff [THEN iffD2] env_hit_other del: env_hit_entry)
  ultimately show ?thesis using assms(5)
    by (auto simp: env_load_ram_def env_load_core_def)
qed

theorem env_unset_not_persistent_witness:
  "\<exists>m' n r'. env_flush_ram True \<lparr>environ = Some ([''crash=yes''] @ [''runtime'' @ eq_chr # ''10'']), alloced = True, on_heap = True\<rparr>
       (Some (replicate 64 NUL)) 64 = Some (Some m', n) \<and>
     env_load_ram True True True env_init (Some m') 64 = Some (r', Some 0) \<and> env_get r' ''runtime'' = Some ''10''"
  using env_unset_not_persistent [of "\<lparr>environ = Some ([''crash=yes''] @ [''runtime'' @ eq_chr # ''10'']), alloced = True, on_heap = True\<rparr>"
      "[''crash=yes'']" "''runtime''" "''10''" 64 "replicate 64 NUL"]
  by (fastforce simp: env_entry_ok_def env_name_def env_key_def MAX_KEY_SIZE_def ENV_MAX_def eval_nat_numeral)

end
