(* ===== verification/Boot.thy ===== *)
theory Boot
  imports Disk Crc Env
begin

text \<open>
  \<^verbatim>\<open>basework/boot/boot.c\<close>: the boot loader, which copies a downloaded firmware image into the
  region it runs from, checks it and records its header; with \<^verbatim>\<open>basework/system.c\<close> and the flash
  device of \<^verbatim>\<open>basework/os/zephyr/os_platform.c\<close>, whose driver calls are parameters.
\<close>

section \<open>The platform flash device\<close>

definition platform_flash_disk ::
    "nat \<Rightarrow> string \<Rightarrow> nat \<Rightarrow> nat \<Rightarrow> ('s \<Rightarrow> nat \<Rightarrow> nat \<Rightarrow> ('s \<times> int \<times> u8 list) option) \<Rightarrow>
     ('s \<Rightarrow> nat \<Rightarrow> u8 list \<Rightarrow> ('s \<times> int) option) \<Rightarrow> ('s \<Rightarrow> nat \<Rightarrow> nat \<Rightarrow> ('s \<times> int) option) \<Rightarrow> 's disk_device" where
  "platform_flash_disk zdev zname pages_size pages_count flash_read flash_write flash_erase =
     \<lparr>dd_id = zdev, dd_dev = zdev, dd_len = wrap32 (pages_count * pages_size), dd_blk_size = pages_size,
      dd_get_name = zname,
      dd_read = Some (\<lambda>s sz offset. flash_read s offset sz),
      dd_write = Some (\<lambda>s buf offset. flash_write s offset buf),
      dd_erase = Some (\<lambda>s offset sz. flash_erase s offset sz),
      dd_ioctl = Some (\<lambda>s cmd arg. Some (s, - ENOSYS, arg))\<rparr>"

section \<open>Headers and state\<close>

definition FH_MAGIC :: nat where "FH_MAGIC = 0xa578875a"
definition FW_FLASH_BLKSIZE :: nat where "FW_FLASH_BLKSIZE = 4096"
definition FW_INFO_OFFSET :: nat where "FW_INFO_OFFSET = 0x01b00000"
definition FW_LOAD_OFFSET :: nat where "FW_LOAD_OFFSET = 0x01b01000"
definition FW_RUN_OFFSET :: nat where "FW_RUN_OFFSET = 0x24000"
definition FW_DEVICE :: string where "FW_DEVICE = ''spi_flash''"

record firmware_header =
  fh_magic :: nat
  fh_devid :: nat
  fh_version :: nat
  fh_dcrc :: nat
  fh_size :: nat
  fh_isize :: nat
  fh_comp :: nat
  fh_entry :: nat
  fh_name :: "u8 list"

definition FH_SIZE :: nat where "FH_SIZE = 64"

text \<open>The layout of the structure in memory; three bytes of padding follow \<open>fh_comp\<close>.\<close>

definition firmware_header_of :: "u8 list \<Rightarrow> firmware_header" where
  "firmware_header_of b =
     \<lparr>fh_magic = de32 (take 4 b), fh_devid = de32 (take 4 (drop 4 b)), fh_version = de32 (take 4 (drop 8 b)),
      fh_dcrc = de32 (take 4 (drop 12 b)), fh_size = de32 (take 4 (drop 16 b)), fh_isize = de32 (take 4 (drop 20 b)),
      fh_comp = unat (b ! 24), fh_entry = de32 (take 4 (drop 28 b)), fh_name = take 32 (drop 32 b)\<rparr>"

text \<open>Its first four words, which are a \<^verbatim>\<open>struct firmware_pointer\<close>.\<close>

definition firmware_pointer_bytes :: "firmware_header \<Rightarrow> u8 list" where
  "firmware_pointer_bytes fw = concat (map le32 [fh_magic fw, fh_devid fw, fh_version fw, fh_dcrc fw])"

definition FP_SIZE :: nat where "FP_SIZE = 16"

definition zero_header :: firmware_header where
  "zero_header = firmware_header_of (replicate FH_SIZE 0)"

record 's fw_desc =
  fd_dd :: "'s disk_device"
  fd_offset :: nat

text \<open>
  What the boot loader works on: the flash hardware, the static block buffer, the last progress value and
  the notifications made so far.
\<close>

record 's boot_io =
  bo_hw :: 's
  bo_cache :: "u8 list"
  bo_progress :: int
  bo_notified :: "(string \<times> int) list"

definition cache_read :: "'s disk_device \<Rightarrow> 's boot_io \<Rightarrow> nat \<Rightarrow> nat \<Rightarrow> ('s boot_io \<times> int) option" where
  "cache_read dd io n offset =
     do {
       (s, ret, b) \<leftarrow> disk_device_read dd (bo_hw io) (Some (bo_cache io)) n offset;
       cache \<leftarrow> b;
       Some (io\<lparr>bo_hw := s, bo_cache := cache\<rparr>, ret)
     }"

definition cache_write :: "'s disk_device \<Rightarrow> 's boot_io \<Rightarrow> nat \<Rightarrow> nat \<Rightarrow> ('s boot_io \<times> int) option" where
  "cache_write dd io n offset =
     do {
       (s, ret) \<leftarrow> disk_device_write dd (bo_hw io) (Some (bo_cache io)) n offset;
       Some (io\<lparr>bo_hw := s\<rparr>, ret)
     }"

definition flash_erase_io :: "'s disk_device \<Rightarrow> 's boot_io \<Rightarrow> nat \<Rightarrow> nat \<Rightarrow> ('s boot_io \<times> int) option" where
  "flash_erase_io dd io offset n =
     do {
       (s, ret) \<leftarrow> disk_device_erase dd (bo_hw io) offset n;
       Some (io\<lparr>bo_hw := s\<rparr>, ret)
     }"

section \<open>Checking an image\<close>

abbreviation crc32_nat :: "nat \<Rightarrow> u8 list \<Rightarrow> nat" where
  "crc32_nat crc bs \<equiv> unat (crc32_update (word_of_nat crc) bs)"

text \<open>The checksum loop: an error code, or the checksum.\<close>

function fw_crc_loop ::
    "'s disk_device \<Rightarrow> 's boot_io \<Rightarrow> nat \<Rightarrow> nat \<Rightarrow> nat \<Rightarrow> ('s boot_io \<times> (int + nat)) option" where
  "fw_crc_loop dd io sz offset crc =
     (if sz = 0 then Some (io, Inr crc)
      else do {
        let bytes = min sz FW_FLASH_BLKSIZE;
        (io1, ret) \<leftarrow> cache_read dd io bytes offset;
        if ret \<noteq> 0 then Some (io1, Inl ret)
        else do {
          bs \<leftarrow> mem_read (bo_cache io1) 0 bytes;
          fw_crc_loop dd io1 (sz - bytes) (wrap32 (offset + bytes)) (crc32_nat crc bs)
        }
      })"
  by pat_completeness auto
termination by (relation "measure (\<lambda>(dd, io, sz, offset, crc). sz)") (auto simp: FW_FLASH_BLKSIZE_def)

declare fw_crc_loop.simps [simp del]

text \<open>
  \<^verbatim>\<open>is_fw_valid\<close> converts a nonzero error code of a read to \<^const>\<open>True\<close>, without storing the header.
\<close>

definition is_fw_valid ::
    "'s fw_desc \<Rightarrow> 's boot_io \<Rightarrow> firmware_header \<Rightarrow> ('s boot_io \<times> bool \<times> firmware_header) option" where
  "is_fw_valid fd io outfw =
     do {
       (s, ret, b) \<leftarrow> disk_device_read (fd_dd fd) (bo_hw io) (Some (replicate FH_SIZE 0)) FH_SIZE (fd_offset fd);
       let io1 = io\<lparr>bo_hw := s\<rparr>;
       if ret \<noteq> 0 then Some (io1, True, outfw)
       else do {
         bytes \<leftarrow> b;
         let fw = firmware_header_of bytes;
         if fh_magic fw \<noteq> FH_MAGIC then Some (io1, False, outfw)
         else if fh_size fw > fh_isize fw then Some (io1, False, outfw)
         else do {
           (io2, r) \<leftarrow> fw_crc_loop (fd_dd fd) io1 (fh_isize fw) (wrap32 (fd_offset fd + FH_SIZE)) 0;
           case r of
             Inl ret \<Rightarrow> Some (io2, True, outfw)
           | Inr crc \<Rightarrow>
               if crc \<noteq> fh_dcrc fw then Some (io2, False, outfw) else Some (io2, True, fw)
         }
       }
     }"

section \<open>Copying an image\<close>

text \<open>The callback is present when \<open>notify\<close> holds.\<close>

definition ota_progress_indicate :: "bool \<Rightarrow> string \<Rightarrow> int \<Rightarrow> 's boot_io \<Rightarrow> 's boot_io" where
  "ota_progress_indicate notify action progress io =
     (if notify \<and> progress \<noteq> bo_progress io
      then io\<lparr>bo_progress := progress, bo_notified := bo_notified io @ [(action, progress)]\<rparr>
      else io)"

text \<open>\<open>(ofs * 100) / (fh_isize << 1)\<close> in 32-bit arithmetic; a zero divisor faults.\<close>

definition half_percent :: "nat \<Rightarrow> nat \<Rightarrow> nat option" where
  "half_percent ofs isize =
     (if wrap32 (2 * isize) = 0 then None else Some (wrap32 (ofs * 100) div wrap32 (2 * isize)))"

definition fw_save_header :: "'s fw_desc \<Rightarrow> 's boot_io \<Rightarrow> u8 list \<Rightarrow> ('s boot_io \<times> int) option" where
  "fw_save_header fd io fp =
     do {
       (io1, ret) \<leftarrow> cache_read (fd_dd fd) io FW_FLASH_BLKSIZE (fd_offset fd);
       if ret \<noteq> 0 then Some (io1, ret)
       else do {
         (io2, ret) \<leftarrow> flash_erase_io (fd_dd fd) io1 (fd_offset fd) FW_FLASH_BLKSIZE;
         if ret \<noteq> 0 then Some (io2, ret)
         else do {
           cache \<leftarrow> mem_write (bo_cache io2) 0 fp;
           (io3, ret) \<leftarrow> cache_write (fd_dd fd) (io2\<lparr>bo_cache := cache\<rparr>) FW_FLASH_BLKSIZE (fd_offset fd);
           if ret \<noteq> 0 then Some (io3, ret) else Some (io3, 0)
         }
       }
     }"

function fw_copy_loop ::
    "'s fw_desc \<Rightarrow> 's fw_desc \<Rightarrow> bool \<Rightarrow> string \<Rightarrow> nat \<Rightarrow> 's boot_io \<Rightarrow> nat \<Rightarrow> nat \<Rightarrow> nat \<Rightarrow> ('s boot_io \<times> int) option" where
  "fw_copy_loop dst src notify action isize io fw_size src_ofs ofs =
     (if fw_size = 0 then Some (io, 0)
      else do {
        let bytes = min fw_size FW_FLASH_BLKSIZE;
        (io1, ret) \<leftarrow> cache_read (fd_dd src) io bytes src_ofs;
        if ret \<noteq> 0 then Some (io1, ret)
        else do {
          (io2, ret) \<leftarrow> flash_erase_io (fd_dd dst) io1 (wrap32 (fd_offset dst + ofs)) FW_FLASH_BLKSIZE;
          if ret \<noteq> 0 then Some (io2, - EIO)
          else do {
            (io3, ret) \<leftarrow> cache_write (fd_dd dst) io2 bytes (wrap32 (fd_offset dst + ofs));
            if ret \<noteq> 0 then Some (io3, ret)
            else do {
              p \<leftarrow> half_percent (wrap32 (ofs + bytes)) isize;
              fw_copy_loop dst src notify action isize (ota_progress_indicate notify action (int p) io3)
                (fw_size - bytes) (wrap32 (src_ofs + bytes)) (wrap32 (ofs + bytes))
            }
          }
        }
      })"
  by pat_completeness auto
termination
  by (relation "measure (\<lambda>(dst, src, notify, action, isize, io, fw_size, src_ofs, ofs). fw_size)")
     (auto simp: FW_FLASH_BLKSIZE_def)

declare fw_copy_loop.simps [simp del]

text \<open>The verification loop; a failing read only leaves it, and the result is then 0.\<close>

function fw_verify_loop ::
    "'s fw_desc \<Rightarrow> 's fw_desc \<Rightarrow> bool \<Rightarrow> string \<Rightarrow> firmware_header \<Rightarrow> 's boot_io \<Rightarrow> nat \<Rightarrow> nat \<Rightarrow> nat \<Rightarrow> ('s boot_io \<times> int) option" where
  "fw_verify_loop fw_curinfo dst notify action fw io fw_size ofs crc =
     (if fw_size = 0 then Some (io, 0)
      else do {
        let bytes = min fw_size FW_FLASH_BLKSIZE;
        (io1, ret) \<leftarrow> cache_read (fd_dd dst) io bytes (wrap32 (fd_offset dst + ofs));
        if ret \<noteq> 0 then Some (io1, 0)
        else do {
          bs \<leftarrow> mem_read (bo_cache io1) 0 bytes;
          let crc1 = crc32_nat crc bs;
          if fw_size - bytes = 0
          then (if crc1 \<noteq> fh_dcrc fw then Some (io1, - EBADF)
                else do {
                  (io2, ret) \<leftarrow> fw_save_header fw_curinfo io1 (firmware_pointer_bytes fw);
                  if ret \<le> 0 then Some (io2, ret)
                  else Some (ota_progress_indicate notify action 100 io2, 0)
                })
          else do {
            p \<leftarrow> half_percent (wrap32 (ofs + bytes)) (fh_isize fw);
            fw_verify_loop fw_curinfo dst notify action fw (ota_progress_indicate notify action (int p + 50) io1)
              (fw_size - bytes) (wrap32 (ofs + bytes)) crc1
          }
        }
      })"
  by pat_completeness auto
termination
  by (relation "measure (\<lambda>(fw_curinfo, dst, notify, action, fw, io, fw_size, ofs, crc). fw_size)")
     (auto simp: FW_FLASH_BLKSIZE_def)

declare fw_verify_loop.simps [simp del]

definition fw_copy_decomp ::
    "'s fw_desc \<Rightarrow> 's fw_desc \<Rightarrow> 's fw_desc \<Rightarrow> bool \<Rightarrow> string \<Rightarrow> 's boot_io \<Rightarrow> ('s boot_io \<times> int) option" where
  "fw_copy_decomp fw_curinfo dst src notify action io =
     do {
       (io1, valid, fw) \<leftarrow> is_fw_valid src io zero_header;
       if \<not> valid then Some (io1, - EINVAL)
       else do {
         (io2, ret) \<leftarrow> fw_copy_loop dst src notify action (fh_isize fw) (io1\<lparr>bo_progress := 0\<rparr>)
                         (fh_isize fw) (wrap32 (fd_offset src + FH_SIZE)) 0;
         if ret \<noteq> 0 then Some (io2, ret)
         else fw_verify_loop fw_curinfo dst notify action fw io2 (fh_isize fw) 0 0
       }
     }"

section \<open>Booting\<close>

record nvram_desc =
  nv_magic :: nat
  nv_env_ram :: string
  nv_crash_ram :: string

definition NVRAM_MAGIC :: nat where "NVRAM_MAGIC = 0x5abcdefa"

definition sys_nvram_get :: "nvram_desc \<Rightarrow> nvram_desc" where
  "sys_nvram_get nv =
     (if nv_magic nv \<noteq> NVRAM_MAGIC
      then \<lparr>nv_magic = NVRAM_MAGIC, nv_env_ram = replicate 512 NUL, nv_crash_ram = replicate 1024 NUL\<rparr>
      else nv)"

definition is_fw_need_update :: "'s fw_desc \<Rightarrow> 's fw_desc \<Rightarrow> 's boot_io \<Rightarrow> ('s boot_io \<times> bool) option" where
  "is_fw_need_update fw_loader fw_curinfo io =
     do {
       (s1, ret, b) \<leftarrow> disk_device_read (fd_dd fw_loader) (bo_hw io) (Some (replicate FP_SIZE 0)) FP_SIZE (fd_offset fw_loader);
       let io1 = io\<lparr>bo_hw := s1\<rparr>;
       if ret \<noteq> 0 then Some (io1, False)
       else do {
         loader \<leftarrow> b;
         if de32 (take 4 loader) \<noteq> FH_MAGIC then Some (io1, False)
         else do {
           (s2, ret, b) \<leftarrow> disk_device_read (fd_dd fw_curinfo) s1 (Some (replicate FP_SIZE 0)) FP_SIZE (fd_offset fw_curinfo);
           let io2 = io1\<lparr>bo_hw := s2\<rparr>;
           if ret \<noteq> 0 then Some (io2, False)
           else do {
             curr \<leftarrow> b;
             if de32 (take 4 curr) = FH_MAGIC
             then Some (io2, de32 (take 4 loader) = de32 (take 4 curr) \<and>
                             de32 (take 4 (drop 4 curr)) = de32 (take 4 (drop 4 loader)) \<and>
                             de32 (take 4 (drop 12 curr)) \<noteq> de32 (take 4 (drop 12 loader)))
             else Some (io2, de32 (take 4 loader) = FH_MAGIC)
           }
         }
       }
     }"

definition is_fw_runtime_okay :: "env_reent \<Rightarrow> bool" where
  "is_fw_runtime_okay env = (env_getul env ''runtime'' > 3600)"

definition REBOOT_MAX_LIMIT :: nat where "REBOOT_MAX_LIMIT = 10"
definition MIN_TIME :: nat where "MIN_TIME = 60"

text \<open>The counter is stored in a C \<^verbatim>\<open>int\<close>.\<close>

definition is_fw_need_recovery :: "bool \<Rightarrow> bool \<Rightarrow> env_reent \<Rightarrow> (env_reent \<times> bool) option" where
  "is_fw_need_recovery arr_ok str_ok env =
     (if env_streq env ''crash'' (Some ''yes'')
      then
        let errs = env_getul env ''crash-cnt'' in
        if errs > REBOOT_MAX_LIMIT then Some (env, True)
        else if env_getul env ''runtime'' < MIN_TIME
        then do { (env1, e) \<leftarrow> env_setint arr_ok str_ok env ''crash-cnt'' (int errs); Some (env1, False) }
        else Some (env, False)
      else Some (env, False))"

text \<open>The three devices are opened by name; \<open>disks\<close> is the list of registered devices.\<close>

definition bootloader_init ::
    "'s disk_device list \<Rightarrow> int + ('s fw_desc \<times> 's fw_desc \<times> 's fw_desc)" where
  "bootloader_init disks =
     (case disk_device_open disks FW_DEVICE of
        (err, None) \<Rightarrow> Inl (- ENODEV)
      | (err, Some dd) \<Rightarrow>
          Inr (\<lparr>fd_dd = dd, fd_offset = FW_INFO_OFFSET\<rparr>, \<lparr>fd_dd = dd, fd_offset = FW_LOAD_OFFSET\<rparr>,
               \<lparr>fd_dd = dd, fd_offset = FW_RUN_OFFSET\<rparr>))"

text \<open>The update is tried once and then up to \<open>n\<close> more times.\<close>

fun fw_update_loop ::
    "'s fw_desc \<Rightarrow> 's fw_desc \<Rightarrow> 's fw_desc \<Rightarrow> bool \<Rightarrow> nat \<Rightarrow> 's boot_io \<Rightarrow> ('s boot_io \<times> int) option" where
  "fw_update_loop fw_curinfo fw_runner fw_loader notify n io =
     do {
       (io1, err) \<leftarrow> fw_copy_decomp fw_curinfo fw_runner fw_loader notify ''update'' io;
       if err = 0 then Some (io1, 0)
       else case n of 0 \<Rightarrow> Some (io1, err) | Suc n \<Rightarrow> fw_update_loop fw_curinfo fw_runner fw_loader notify n io1
     }"

declare fw_update_loop.simps [simp del]

record 's boot_sys =
  by_io :: "'s boot_io"
  by_env :: env_reent
  by_nvram :: nvram_desc
  by_booted :: bool

definition env_unset_of :: "env_reent \<Rightarrow> string \<Rightarrow> env_reent" where
  "env_unset_of env name = fst (env_unset_core env (Some name))"

text \<open>From the label \<^verbatim>\<open>_do_boot\<close> on; \<open>by_booted\<close> records the call of \<^verbatim>\<open>boot\<close>.\<close>

definition do_boot :: "bool \<Rightarrow> bool \<Rightarrow> bool \<Rightarrow> 's boot_sys \<Rightarrow> ('s boot_sys) option" where
  "do_boot buf_ok arr_ok str_ok b =
     do {
       let env1 = (if is_fw_runtime_okay (by_env b) then env_unset_of (by_env b) ''crash-cnt'' else by_env b);
       (env2, e) \<leftarrow> env_set_core arr_ok str_ok env1 ''crash'' ''yes'' True;
       let env3 = env_unset_of env2 ''runtime'';
       (ram, ret) \<leftarrow> env_flush_ram buf_ok env3 (Some (nv_env_ram (by_nvram b))) 512;
       ram' \<leftarrow> ram;
       Some (b\<lparr>by_env := env3, by_nvram := (by_nvram b)\<lparr>nv_env_ram := ram'\<rparr>, by_booted := True\<rparr>)
     }"

definition general_boot ::
    "bool \<Rightarrow> bool \<Rightarrow> bool \<Rightarrow> 's disk_device list \<Rightarrow> bool \<Rightarrow> bool \<Rightarrow> 's boot_sys \<Rightarrow> ('s boot_sys \<times> int) option" where
  "general_boot buf_ok arr_ok str_ok disks boot notify b =
     (if \<not> boot then Some (b, - EINVAL)
      else do {
        let nv = sys_nvram_get (by_nvram b);
        (env, e) \<leftarrow> env_load_ram buf_ok arr_ok str_ok (by_env b) (Some (nv_env_ram nv)) 512;
        case bootloader_init disks of
          Inl err \<Rightarrow> None
        | Inr (fw_curinfo, fw_loader, fw_runner) \<Rightarrow>
            do {
              (io, need) \<leftarrow> is_fw_need_update fw_loader fw_curinfo (by_io b);
              if need
              then do {
                (io1, err) \<leftarrow> fw_update_loop fw_curinfo fw_runner fw_loader notify 3 io;
                let env1 = (if err = 0 then env_unset_of env ''crash-cnt'' else env);
                b1 \<leftarrow> do_boot buf_ok arr_ok str_ok (b\<lparr>by_io := io1, by_env := env1, by_nvram := nv\<rparr>);
                Some (b1, err)
              }
              else do {
                (env1, rec) \<leftarrow> is_fw_need_recovery arr_ok str_ok env;
                env2 \<leftarrow> (if rec then map_option fst (env_set_core arr_ok str_ok env1 ''ota-update'' ''yes'' True) else Some env1);
                b1 \<leftarrow> do_boot buf_ok arr_ok str_ok (b\<lparr>by_io := io, by_env := env2, by_nvram := nv\<rparr>);
                Some (b1, 0)
              }
            }
      })"

section \<open>What the boot loader relies on\<close>

text \<open>
  The documented behaviour of the flash driver under \<^verbatim>\<open>platform_flash_read\<close> and the other glue functions: the contract of
  the locale \<open>flash_devices\<close>, with 0 as the result of a successful read or write.
\<close>

definition zephyr_flash :: "'s disk_device \<Rightarrow> ('s \<Rightarrow> u8 list) \<Rightarrow> ('s \<Rightarrow> bool) \<Rightarrow> bool" where
  "zephyr_flash dd cont ok \<longleftrightarrow> flash_devices {dd} (\<lambda>d. cont) ok \<and>
     (\<forall>rd s n off s' ret bs. dd_read dd = Some rd \<longrightarrow> ok s \<longrightarrow> off + n \<le> dd_len dd \<longrightarrow>
        rd s n off = Some (s', ret, bs) \<longrightarrow> ret = 0) \<and>
     (\<forall>wr s b off s' ret. dd_write dd = Some wr \<longrightarrow> ok s \<longrightarrow> off + length b \<le> dd_len dd \<longrightarrow>
        wr s b off = Some (s', ret) \<longrightarrow> ret = 0)"

lemma overwrite_prefix:
  assumes "length xs \<le> length ys" "off + length ys \<le> length m"
  shows "overwrite (overwrite m off ys) off xs = overwrite m off (xs @ drop (length xs) ys)"
  by (rule nth_equalityI) (use assms in \<open>auto simp: nth_overwrite nth_append\<close>)

lemma crc32_update_append: "crc32_update (crc32_update c xs) ys = crc32_update c (xs @ ys)"
  by (simp add: crc32_update_def)

lemma disk_read_zephyr:
  assumes F: "zephyr_flash dd cont ok" and "ok s" "off + n \<le> dd_len dd" "0 < n" "n \<le> length b"
  shows "disk_device_read dd s (Some b) n off = Some (s, 0, Some (overwrite b 0 (take n (drop off (cont s)))))"
proof -
  have L: "flash_devices {dd} (\<lambda>d. cont) ok" using F by (simp add: zephyr_flash_def)
  obtain rd ret where rd: "dd_read dd = Some rd" "rd s n off = Some (s, ret, take n (drop off (cont s)))"
    using flash_devices.read_law [OF L, of dd s n off] assms by auto
  moreover have "ret = 0" using F rd assms unfolding zephyr_flash_def by blast
  moreover have "wrap32 (off + n) = off + n"
    using assms flash_devices.len(2) [OF L, of dd] by (intro wrap32_id) simp
  moreover have "length (take n (drop off (cont s))) = n"
    using assms flash_devices.cont_len [OF L, of dd s] by simp
  ultimately show ?thesis using assms by (simp add: disk_device_read_def)
qed

lemma cache_read_zephyr:
  assumes "zephyr_flash dd cont ok" "ok (bo_hw io)" "off + n \<le> dd_len dd" "0 < n" "n \<le> length (bo_cache io)"
  shows "cache_read dd io n off = Some (io\<lparr>bo_cache := overwrite (bo_cache io) 0 (take n (drop off (cont (bo_hw io))))\<rparr>, 0)"
  using disk_read_zephyr [OF assms] by (simp add: cache_read_def)

text \<open>Erasing a block and programming its first bytes.\<close>

lemma erase_zephyr:
  assumes F: "zephyr_flash dd cont ok" and "ok (bo_hw io)" "off + blk \<le> dd_len dd" "0 < blk"
    "dd_blk_size dd dvd off" "dd_blk_size dd dvd blk"
  shows "\<exists>s1. flash_erase_io dd io off blk = Some (io\<lparr>bo_hw := s1\<rparr>, 0) \<and> ok s1 \<and>
     cont s1 = overwrite (cont (bo_hw io)) off (replicate blk 0xFF)"
proof -
  have L: "flash_devices {dd} (\<lambda>d. cont) ok" using F by (simp add: zephyr_flash_def)
  obtain er s1 where "dd_erase dd = Some er" "er (bo_hw io) off blk = Some (s1, 0)" "ok s1"
      "cont s1 = overwrite (cont (bo_hw io)) off (replicate blk 0xFF)"
    using flash_devices.erase_law [OF L, of dd "bo_hw io" blk off] assms by auto
  moreover have "wrap32 (off + blk) = off + blk"
    using assms flash_devices.len(2) [OF L, of dd] by (intro wrap32_id) simp
  ultimately show ?thesis using assms flash_devices.blk_rem_mod [OF L, of dd]
    by (intro exI [of _ s1]) (simp add: flash_erase_io_def disk_device_erase_def)
qed

lemma program_zephyr:
  assumes F: "zephyr_flash dd cont ok" and "ok (bo_hw io)" "off + blk \<le> dd_len dd" "0 < n" "n \<le> blk"
    "length (bo_cache io) = blk" and c: "cont (bo_hw io) = overwrite m off (replicate blk 0xFF)" "length m = dd_len dd"
  shows "\<exists>s1. cache_write dd io n off = Some (io\<lparr>bo_hw := s1\<rparr>, 0) \<and> ok s1 \<and>
     cont s1 = overwrite m off (take n (bo_cache io) @ replicate (blk - n) 0xFF)"
proof -
  have L: "flash_devices {dd} (\<lambda>d. cont) ok" using F by (simp add: zephyr_flash_def)
  let ?bs = "take n (bo_cache io)"
  have n: "length ?bs = n" "?bs \<noteq> []" using assms by auto
  have "take blk (drop off (cont (bo_hw io))) = replicate blk 0xFF"
    using take_drop_overwrite_same [of off "replicate blk 0xFF" m] assms by simp
  then have "take n (take blk (drop off (cont (bo_hw io)))) = replicate n 0xFF" using assms(5) by simp
  then have "erased (cont (bo_hw io)) off (length ?bs)" using assms(5) n by (simp add: erased_def min_def)
  then obtain wr ret s1 where w: "dd_write dd = Some wr" "wr (bo_hw io) ?bs off = Some (s1, ret)" "ok s1"
      "cont s1 = overwrite (cont (bo_hw io)) off ?bs"
    using flash_devices.write_law [OF L, of dd "bo_hw io" ?bs off] assms n by auto
  moreover have "off + length ?bs \<le> dd_len dd" using n assms by simp
  with F w assms(2) have "ret = 0" unfolding zephyr_flash_def by blast
  moreover have "wrap32 (off + n) = off + n"
    using assms flash_devices.len(2) [OF L, of dd] by (intro wrap32_id) simp
  ultimately show ?thesis using assms n overwrite_prefix [of ?bs "replicate blk 0xFF" off m]
    by (intro exI [of _ s1]) (simp add: cache_write_def disk_device_write_def)
qed

text \<open>Reading a region through the block buffer computes the checksum of its content.\<close>

lemma cache_prefix: "length bs \<le> length m \<Longrightarrow> take (length bs) (overwrite m 0 bs) = bs"
  by (simp add: overwrite_def)

lemma fw_crc_loop_zephyr:
  assumes F: "zephyr_flash dd cont ok" and "ok (bo_hw io)" "off + sz \<le> dd_len dd" "length (bo_cache io) = FW_FLASH_BLKSIZE"
    "crc < 2 ^ 32"
  shows "\<exists>c. length c = FW_FLASH_BLKSIZE \<and> fw_crc_loop dd io sz off crc =
     Some (io\<lparr>bo_cache := c\<rparr>, Inr (crc32_nat crc (take sz (drop off (cont (bo_hw io))))))"
  using assms(2-5)
proof (induction sz arbitrary: io off crc rule: less_induct)
  case (less sz)
  show ?case
  proof (cases "sz = 0")
    case True
    have "crc32_nat crc [] = crc" using less.prems(4) by (simp add: crc32_update_def unat_of_nat)
    with True less.prems show ?thesis
      by (subst fw_crc_loop.simps) (auto intro!: exI [of _ "bo_cache io"])
  next
    case False
    have L: "flash_devices {dd} (\<lambda>d. cont) ok" using F by (simp add: zephyr_flash_def)
    define n where "n = min sz FW_FLASH_BLKSIZE"
    have n: "0 < n" "n \<le> sz" "n \<le> length (bo_cache io)" using False less.prems(3) by (auto simp: n_def FW_FLASH_BLKSIZE_def)
    let ?x = "take n (drop off (cont (bo_hw io)))"
    let ?io = "io\<lparr>bo_cache := overwrite (bo_cache io) 0 ?x\<rparr>"
    have lx: "length ?x = n" using flash_devices.cont_len [OF L, of dd "bo_hw io"] less.prems n by simp
    have len: "length (bo_cache ?io) = FW_FLASH_BLKSIZE" using lx n less.prems by simp
    have rd: "cache_read dd io n off = Some (?io, 0)"
      by (rule cache_read_zephyr [OF F less.prems(1)]) (use n less.prems in auto)
    have mr: "mem_read (bo_cache ?io) 0 n = Some ?x" using cache_prefix [of ?x "bo_cache io"] lx n len by simp
    have w: "wrap32 (off + n) = off + n"
      using less.prems(2) n flash_devices.len(2) [OF L, of dd] by (intro wrap32_id) simp
    obtain c where c: "length c = FW_FLASH_BLKSIZE" "fw_crc_loop dd ?io (sz - n) (off + n) (crc32_nat crc ?x) =
       Some (?io\<lparr>bo_cache := c\<rparr>, Inr (crc32_nat (crc32_nat crc ?x) (take (sz - n) (drop (off + n) (cont (bo_hw ?io))))))"
      using less.IH [of "sz - n" ?io "off + n" "crc32_nat crc ?x"] n less.prems len unat_u32_less by auto
    have "fw_crc_loop dd io sz off crc = fw_crc_loop dd ?io (sz - n) (off + n) (crc32_nat crc ?x)"
      using False rd mr w by (subst fw_crc_loop.simps) (simp add: Let_def n_def [symmetric])
    moreover have "?x @ take (sz - n) (drop (off + n) (cont (bo_hw io))) = take sz (drop off (cont (bo_hw io)))"
      using take_add [of n "sz - n" "drop off (cont (bo_hw io))"] n by (simp add: add.commute)
    ultimately show ?thesis using c by (intro exI [of _ c]) (simp add: crc32_update_append)
  qed
qed

section \<open>Copying an image\<close>

definition blk_round :: "nat \<Rightarrow> nat" where
  "blk_round n = (n + (FW_FLASH_BLKSIZE - 1)) div FW_FLASH_BLKSIZE * FW_FLASH_BLKSIZE"

lemma blk_round_step:
  assumes "0 < n"
  shows "blk_round n = FW_FLASH_BLKSIZE + blk_round (n - FW_FLASH_BLKSIZE)"
proof (cases "n \<le> FW_FLASH_BLKSIZE")
  case True
  with assms show ?thesis by (simp add: blk_round_def FW_FLASH_BLKSIZE_def)
next
  case False
  then obtain m where "n = FW_FLASH_BLKSIZE + m" using less_imp_add_positive [of FW_FLASH_BLKSIZE n] by auto
  moreover have "(FW_FLASH_BLKSIZE + m + (FW_FLASH_BLKSIZE - 1)) div FW_FLASH_BLKSIZE = 1 + (m + (FW_FLASH_BLKSIZE - 1)) div FW_FLASH_BLKSIZE"
    using div_add_self1 [of FW_FLASH_BLKSIZE "m + (FW_FLASH_BLKSIZE - 1)"] by (simp add: FW_FLASH_BLKSIZE_def)
  ultimately show ?thesis unfolding blk_round_def by simp
qed

lemma blk_round_ge: "n \<le> blk_round n"
  by (simp add: blk_round_def FW_FLASH_BLKSIZE_def)

lemma half_percent_ok: "0 < isize \<Longrightarrow> isize < 2 ^ 31 \<Longrightarrow> \<exists>p. half_percent ofs isize = Some p"
  by (simp add: half_percent_def wrap32_id)

text \<open>What the copy leaves in flash: the image, then ones up to the end of the last block.\<close>

definition padded :: "u8 list \<Rightarrow> u8 list" where
  "padded img = img @ replicate (blk_round (length img) - length img) 0xFF"

lemma length_padded [simp]: "length (padded img) = blk_round (length img)"
  using blk_round_ge [of "length img"] by (simp add: padded_def)

lemma padded_Nil [simp]: "padded [] = []"
  by (simp add: padded_def blk_round_def FW_FLASH_BLKSIZE_def)

lemma padded_split:
  assumes "length xs = min (length xs + length ys) FW_FLASH_BLKSIZE" "xs \<noteq> []"
  shows "padded (xs @ ys) = (xs @ replicate (FW_FLASH_BLKSIZE - length xs) 0xFF) @ padded ys"
proof -
  have "blk_round (length xs + length ys) = FW_FLASH_BLKSIZE + blk_round (length ys)"
    using blk_round_step [of "length xs + length ys"] assms
    by (cases "length ys = 0") (auto simp: min_def split: if_splits)
  moreover have "ys = [] \<or> length xs = FW_FLASH_BLKSIZE" using assms(1) by (auto simp: min_def split: if_splits)
  ultimately show ?thesis
    by (auto simp: padded_def blk_round_def FW_FLASH_BLKSIZE_def)
qed

lemma fw_copy_loop_zephyr:
  assumes F: "zephyr_flash dd cont ok" and al: "dd_blk_size dd dvd FW_FLASH_BLKSIZE" "dd_blk_size dd dvd fd_offset dst"
    and dd: "fd_dd src = dd" "fd_dd dst = dd" and isz: "0 < isize" "isize < 2 ^ 31"
    and "ok (bo_hw io)" "length (bo_cache io) = FW_FLASH_BLKSIZE"
    and "n = 0 \<or> FW_FLASH_BLKSIZE dvd ofs" "fd_offset dst + ofs + blk_round n \<le> dd_len dd" "so + n \<le> dd_len dd"
    and "so + n \<le> fd_offset dst + ofs \<or> fd_offset dst + ofs + blk_round n \<le> so"
  shows "\<exists>io'. fw_copy_loop dst src notify action isize io n so ofs = Some (io', 0) \<and> ok (bo_hw io') \<and>
     length (bo_cache io') = FW_FLASH_BLKSIZE \<and>
     cont (bo_hw io') = overwrite (cont (bo_hw io)) (fd_offset dst + ofs) (padded (take n (drop so (cont (bo_hw io)))))"
  using assms(8-)
proof (induction n arbitrary: io so ofs rule: less_induct)
  case (less n)
  show ?case
  proof (cases "n = 0")
    case True
    with less.prems show ?thesis by (subst fw_copy_loop.simps) (simp add: padded_def blk_round_def FW_FLASH_BLKSIZE_def)
  next
    case False
    have L: "flash_devices {dd} (\<lambda>d. cont) ok" using F by (simp add: zephyr_flash_def)
    let ?B = "FW_FLASH_BLKSIZE" and ?A = "fd_offset dst + ofs" and ?c = "cont (bo_hw io)"
    define k where "k = min n ?B"
    have k: "0 < k" "k \<le> n" "k \<le> ?B" using False by (auto simp: k_def FW_FLASH_BLKSIZE_def)
    have lenc: "length ?c = dd_len dd" "dd_len dd < 2 ^ 32"
      using flash_devices.cont_len [OF L, of dd] flash_devices.len(2) [OF L, of dd] less.prems by auto
    have rnd: "blk_round n = ?B + blk_round (n - k)" "?A + ?B + blk_round (n - k) \<le> dd_len dd"
      using blk_round_step [of n] False less.prems(4) by (auto simp: k_def min_def blk_round_def FW_FLASH_BLKSIZE_def)
    let ?x = "take k (drop so ?c)"
    have lx: "length ?x = k" using lenc k less.prems(5) by simp
    define io1 where "io1 = io\<lparr>bo_cache := overwrite (bo_cache io) 0 ?x\<rparr>"
    have rd: "cache_read dd io k so = Some (io1, 0)" unfolding io1_def
      by (rule cache_read_zephyr [OF F less.prems(1)]) (use k less.prems in auto)
    have c1: "length (bo_cache io1) = ?B" "take k (bo_cache io1) = ?x" "bo_hw io1 = bo_hw io"
      using cache_prefix [of ?x "bo_cache io"] lx k less.prems(2) by (simp_all add: io1_def)
    have w: "wrap32 ?A = ?A" "wrap32 (so + k) = so + k" "wrap32 (ofs + k) = ofs + k"
      using rnd(2) lenc k less.prems by (auto intro!: wrap32_id)
    have dv: "dd_blk_size dd dvd ?A" using al less.prems(3) False by (auto intro: dvd_trans)
    obtain s1 where er: "flash_erase_io dd io1 ?A ?B = Some (io1\<lparr>bo_hw := s1\<rparr>, 0)" "ok s1"
        "cont s1 = overwrite ?c ?A (replicate ?B 0xFF)"
      using erase_zephyr [OF F, of io1 ?A ?B] less.prems(1) rnd(2) dv al c1 by (auto simp: FW_FLASH_BLKSIZE_def)
    obtain s2 where wr: "cache_write dd (io1\<lparr>bo_hw := s1\<rparr>) k ?A = Some (io1\<lparr>bo_hw := s2\<rparr>, 0)" "ok s2"
        "cont s2 = overwrite ?c ?A (?x @ replicate (?B - k) 0xFF)"
      using program_zephyr [OF F, of "io1\<lparr>bo_hw := s1\<rparr>" ?A ?B k ?c] er rnd(2) c1 k lenc by auto
    obtain p where p: "half_percent (ofs + k) isize = Some p" using half_percent_ok isz by blast
    define io2 where "io2 = ota_progress_indicate notify action (int p) (io1\<lparr>bo_hw := s2\<rparr>)"
    have io2: "bo_hw io2 = s2" "bo_cache io2 = bo_cache io1" by (simp_all add: io2_def ota_progress_indicate_def)
    have step: "fw_copy_loop dst src notify action isize io n so ofs =
        fw_copy_loop dst src notify action isize io2 (n - k) (so + k) (ofs + k)"
      using False rd er(1) wr(1) w p dd
      by (subst fw_copy_loop.simps) (simp add: Let_def k_def [symmetric] io2_def)
    have src: "take (n - k) (drop (so + k) (cont s2)) = take (n - k) (drop (so + k) ?c)"
      unfolding wr(3) by (rule take_drop_overwrite_outside) (use less.prems(6) rnd k lx lenc in auto)
    have ofs: "n - k = 0 \<or> k = ?B" by (auto simp: k_def)
    have next_ok: "n - k = 0 \<or> ?B dvd ofs + k" "fd_offset dst + (ofs + k) + blk_round (n - k) \<le> dd_len dd"
        "so + k + (n - k) \<le> dd_len dd"
        "so + k + (n - k) \<le> fd_offset dst + (ofs + k) \<or> fd_offset dst + (ofs + k) + blk_round (n - k) \<le> so + k"
      using ofs less.prems(3-6) k rnd False by auto
    have "\<exists>io'. fw_copy_loop dst src notify action isize io2 (n - k) (so + k) (ofs + k) = Some (io', 0) \<and>
       ok (bo_hw io') \<and> length (bo_cache io') = ?B \<and>
       cont (bo_hw io') = overwrite (cont (bo_hw io2)) (fd_offset dst + (ofs + k)) (padded (take (n - k) (drop (so + k) (cont (bo_hw io2)))))"
      by (rule less.IH [OF _ _ _ next_ok]) (use io2 wr(2) c1 k in auto)
    then obtain io' where io': "fw_copy_loop dst src notify action isize io2 (n - k) (so + k) (ofs + k) = Some (io', 0)"
       "ok (bo_hw io')" "length (bo_cache io') = ?B"
       "cont (bo_hw io') = overwrite (cont s2) (?A + k) (padded (take (n - k) (drop (so + k) ?c)))"
      using src io2 by (auto simp: add.assoc)
    have img: "take n (drop so ?c) = ?x @ take (n - k) (drop (so + k) ?c)"
      using take_add [of k "n - k" "drop so ?c"] k by (simp add: add.commute)
    have "cont (bo_hw io') = overwrite ?c ?A (padded (take n (drop so ?c)))"
    proof (cases "n - k = 0")
      case True
      with io'(4) have "cont (bo_hw io') = cont s2" by simp
      moreover have "take n (drop so ?c) = ?x" using True k by simp
      moreover have "?x \<noteq> []" using lx k by auto
      moreover have "length ?x = min (length ?x + length []) ?B" using k lx by simp
      ultimately show ?thesis using wr(3) lx padded_split [of ?x "[]"] by simp
    next
      case False
      with ofs have "k = ?B" by simp
      then have rep: "?x @ replicate (?B - k) 0xFF = ?x" by simp
      let ?y = "take (n - k) (drop (so + k) ?c)"
      have ly: "length ?y = n - k" using lenc less.prems(5) k by simp
      have "overwrite (overwrite ?c ?A ?x) (?A + length ?x) (padded ?y) = overwrite ?c ?A (?x @ padded ?y)"
        by (rule overwrite_append) (use lx ly rnd lenc \<open>k = ?B\<close> in simp)
      moreover have "padded (?x @ ?y) = (?x @ replicate (?B - length ?x) 0xFF) @ padded ?y"
        by (rule padded_split) (use lx ly k \<open>k = ?B\<close> False in auto)
      ultimately show ?thesis using io'(4) wr(3) img lx rep by simp
    qed
    with step io' show ?thesis by auto
  qed
qed

section \<open>Verifying the copy and recording it\<close>

lemma overwrite_block:
  assumes "length fp \<le> n" "off + n \<le> length m"
  shows "overwrite m off (overwrite (take n (drop off m)) 0 fp) = overwrite m off fp"
  by (rule nth_equalityI) (use assms in \<open>auto simp: nth_overwrite\<close>)

lemma fw_save_header_zephyr:
  assumes F: "zephyr_flash dd cont ok" and "fd_dd fd = dd" "dd_blk_size dd dvd FW_FLASH_BLKSIZE" "dd_blk_size dd dvd fd_offset fd"
    and "ok (bo_hw io)" "length (bo_cache io) = FW_FLASH_BLKSIZE" "fd_offset fd + FW_FLASH_BLKSIZE \<le> dd_len dd"
    and "length fp \<le> FW_FLASH_BLKSIZE"
  shows "\<exists>io'. fw_save_header fd io fp = Some (io', 0) \<and> ok (bo_hw io') \<and>
     cont (bo_hw io') = overwrite (cont (bo_hw io)) (fd_offset fd) fp"
proof -
  have L: "flash_devices {dd} (\<lambda>d. cont) ok" using F by (simp add: zephyr_flash_def)
  let ?B = FW_FLASH_BLKSIZE and ?I = "fd_offset fd" and ?c = "cont (bo_hw io)"
  have lenc: "length ?c = dd_len dd" using flash_devices.cont_len [OF L, of dd] assms by auto
  let ?blk = "take ?B (drop ?I ?c)"
  have lb: "length ?blk = ?B" using lenc assms by simp
  have B: "0 < ?B" by (simp add: FW_FLASH_BLKSIZE_def)
  have ow: "overwrite (bo_cache io) 0 ?blk = ?blk" using lb assms(6) by (simp add: overwrite_def)
  have rd: "cache_read dd io ?B ?I = Some (io\<lparr>bo_cache := ?blk\<rparr>, 0)"
    using cache_read_zephyr [OF F assms(5) assms(7) B] ow assms(6) by simp
  obtain s1 where er: "flash_erase_io dd (io\<lparr>bo_cache := ?blk\<rparr>) ?I ?B = Some (io\<lparr>bo_cache := ?blk, bo_hw := s1\<rparr>, 0)" "ok s1"
      "cont s1 = overwrite ?c ?I (replicate ?B 0xFF)"
    using erase_zephyr [OF F, of "io\<lparr>bo_cache := ?blk\<rparr>" ?I ?B] assms B by auto
  let ?new = "overwrite ?blk 0 fp" and ?io = "io\<lparr>bo_hw := s1, bo_cache := overwrite (take FW_FLASH_BLKSIZE (drop (fd_offset fd) (cont (bo_hw io)))) 0 fp\<rparr>"
  have ln: "length ?new = ?B" using lb assms(8) by simp
  obtain s2 where wr: "cache_write dd ?io ?B ?I = Some (?io\<lparr>bo_hw := s2\<rparr>, 0)" "ok s2"
      "cont s2 = overwrite ?c ?I (take ?B ?new @ replicate (?B - ?B) 0xFF)"
    using program_zephyr [OF F, of ?io ?I ?B ?B ?c] er(2,3) assms(7) B ln lenc by auto
  have "cont s2 = overwrite ?c ?I fp" using wr(3) ln overwrite_block [of fp ?B ?I ?c] assms(7,8) lenc by simp
  moreover have "mem_write ?blk 0 fp = Some ?new" using lb assms(8) by simp
  ultimately show ?thesis using rd er wr assms(2) by (simp add: fw_save_header_def)
qed

lemma fw_verify_loop_zephyr:
  assumes F: "zephyr_flash dd cont ok" and al: "dd_blk_size dd dvd FW_FLASH_BLKSIZE" "dd_blk_size dd dvd fd_offset info"
    and dd: "fd_dd info = dd" "fd_dd dst = dd" and isz: "0 < fh_isize fw" "fh_isize fw < 2 ^ 31"
    and info: "fd_offset info + FW_FLASH_BLKSIZE \<le> dd_len dd"
    and "0 < n" "ok (bo_hw io)" "length (bo_cache io) = FW_FLASH_BLKSIZE" "fd_offset dst + ofs + n \<le> dd_len dd"
    and "crc < 2 ^ 32" "crc32_nat crc (take n (drop (fd_offset dst + ofs) (cont (bo_hw io)))) = fh_dcrc fw"
  shows "\<exists>io'. fw_verify_loop info dst notify action fw io n ofs crc = Some (io', 0) \<and> ok (bo_hw io') \<and>
     cont (bo_hw io') = overwrite (cont (bo_hw io)) (fd_offset info) (firmware_pointer_bytes fw)"
  using assms(9-)
proof (induction n arbitrary: io ofs crc rule: less_induct)
  case (less n)
  have L: "flash_devices {dd} (\<lambda>d. cont) ok" using F by (simp add: zephyr_flash_def)
  let ?B = FW_FLASH_BLKSIZE and ?A = "fd_offset dst + ofs" and ?c = "cont (bo_hw io)"
  define k where "k = min n ?B"
  have k: "0 < k" "k \<le> n" "k \<le> ?B" using less.prems(1) by (auto simp: k_def FW_FLASH_BLKSIZE_def)
  have lenc: "length ?c = dd_len dd" "dd_len dd < 2 ^ 32"
    using flash_devices.cont_len [OF L, of dd] flash_devices.len(2) [OF L, of dd] less.prems by auto
  let ?x = "take k (drop ?A ?c)"
  have lx: "length ?x = k" using lenc k less.prems(4) by simp
  define io1 where "io1 = io\<lparr>bo_cache := overwrite (bo_cache io) 0 ?x\<rparr>"
  have rd: "cache_read dd io k ?A = Some (io1, 0)" unfolding io1_def
    by (rule cache_read_zephyr [OF F less.prems(2)]) (use k less.prems in auto)
  have c1: "length (bo_cache io1) = ?B" "take k (bo_cache io1) = ?x" "bo_hw io1 = bo_hw io"
    using cache_prefix [of ?x "bo_cache io"] lx k less.prems(3) by (simp_all add: io1_def)
  have mr: "mem_read (bo_cache io1) 0 k = Some ?x" using c1 k by simp
  have w: "wrap32 ?A = ?A" "wrap32 (ofs + k) = ofs + k" using lenc k less.prems(4) by (auto intro!: wrap32_id)
  show ?case
  proof (cases "n - k = 0")
    case True
    then have "n = k" using k by simp
    then have "crc32_nat crc ?x = fh_dcrc fw" using less.prems(6) by simp
    moreover obtain io' where "fw_save_header info io1 (firmware_pointer_bytes fw) = Some (io', 0)" "ok (bo_hw io')"
        "cont (bo_hw io') = overwrite ?c (fd_offset info) (firmware_pointer_bytes fw)"
      using fw_save_header_zephyr [OF F dd(1) al, of io1 "firmware_pointer_bytes fw"] c1 info less.prems(2)
      by (auto simp: firmware_pointer_bytes_def FW_FLASH_BLKSIZE_def)
    ultimately show ?thesis using rd mr w True less.prems(1) dd
      by (subst fw_verify_loop.simps) (simp add: Let_def k_def [symmetric])
  next
    case False
    obtain p where p: "half_percent (ofs + k) (fh_isize fw) = Some p" using half_percent_ok isz by blast
    define io2 where "io2 = ota_progress_indicate notify action (int p + 50) io1"
    have io2: "bo_hw io2 = bo_hw io" "bo_cache io2 = bo_cache io1"
      using c1 by (simp_all add: io2_def ota_progress_indicate_def)
    have step: "fw_verify_loop info dst notify action fw io n ofs crc =
        fw_verify_loop info dst notify action fw io2 (n - k) (ofs + k) (crc32_nat crc ?x)"
      using rd mr w False less.prems(1) dd p
      by (subst fw_verify_loop.simps) (simp add: Let_def k_def [symmetric] io2_def)
    have "?x @ take (n - k) (drop (?A + k) ?c) = take n (drop ?A ?c)"
      using take_add [of k "n - k" "drop ?A ?c"] k by (simp add: add.commute add.left_commute)
    then have "crc32_nat (crc32_nat crc ?x) (take (n - k) (drop (fd_offset dst + (ofs + k)) (cont (bo_hw io2)))) = fh_dcrc fw"
      using less.prems(6) io2 by (simp add: crc32_update_append add.assoc)
    with less.IH [of "n - k" io2 "ofs + k" "crc32_nat crc ?x"] k False less.prems io2 c1 unat_u32_less
    have "\<exists>io'. fw_verify_loop info dst notify action fw io2 (n - k) (ofs + k) (crc32_nat crc ?x) = Some (io', 0) \<and>
        ok (bo_hw io') \<and> cont (bo_hw io') = overwrite ?c (fd_offset info) (firmware_pointer_bytes fw)" by auto
    with step show ?thesis by simp
  qed
qed

section \<open>The update\<close>

text \<open>Where the three regions may lie on the device.\<close>

definition boot_layout :: "'s disk_device \<Rightarrow> 's fw_desc \<Rightarrow> 's fw_desc \<Rightarrow> 's fw_desc \<Rightarrow> nat \<Rightarrow> bool" where
  "boot_layout dd info dst src isize \<longleftrightarrow>
     fd_dd info = dd \<and> fd_dd dst = dd \<and> fd_dd src = dd \<and> dd_blk_size dd dvd FW_FLASH_BLKSIZE \<and>
     dd_blk_size dd dvd fd_offset info \<and> dd_blk_size dd dvd fd_offset dst \<and>
     0 < isize \<and> isize < 2 ^ 31 \<and>
     fd_offset dst + blk_round isize \<le> fd_offset info \<and> fd_offset info + FW_FLASH_BLKSIZE \<le> fd_offset src \<and>
     fd_offset src + FH_SIZE + isize \<le> dd_len dd"

lemma is_fw_valid_zephyr:
  assumes F: "zephyr_flash dd cont ok" and "fd_dd src = dd" "ok (bo_hw io)" "length (bo_cache io) = FW_FLASH_BLKSIZE"
    and hdr: "hdr = firmware_header_of (take FH_SIZE (drop (fd_offset src) (cont (bo_hw io))))"
    and "fd_offset src + FH_SIZE + fh_isize hdr \<le> dd_len dd" "fh_magic hdr = FH_MAGIC" "fh_size hdr \<le> fh_isize hdr"
  shows "\<exists>c. length c = FW_FLASH_BLKSIZE \<and> is_fw_valid src io out =
     (if crc32_nat 0 (take (fh_isize hdr) (drop (fd_offset src + FH_SIZE) (cont (bo_hw io)))) = fh_dcrc hdr
      then Some (io\<lparr>bo_cache := c\<rparr>, True, hdr) else Some (io\<lparr>bo_cache := c\<rparr>, False, out))"
proof -
  have L: "flash_devices {dd} (\<lambda>d. cont) ok" using F by (simp add: zephyr_flash_def)
  have lenc: "length (cont (bo_hw io)) = dd_len dd" "dd_len dd < 2 ^ 32"
    using flash_devices.cont_len [OF L, of dd] flash_devices.len(2) [OF L, of dd] assms by auto
  let ?h = "take FH_SIZE (drop (fd_offset src) (cont (bo_hw io)))"
  have "overwrite (replicate FH_SIZE 0) 0 ?h = ?h" using lenc assms(6) by (simp add: overwrite_def)
  then have rd: "disk_device_read dd (bo_hw io) (Some (replicate FH_SIZE 0)) FH_SIZE (fd_offset src) = Some (bo_hw io, 0, Some ?h)"
    using disk_read_zephyr [OF F assms(3), of "fd_offset src" FH_SIZE "replicate FH_SIZE 0"] assms(6) by (simp add: FH_SIZE_def)
  have w: "wrap32 (fd_offset src + FH_SIZE) = fd_offset src + FH_SIZE" using lenc assms(6) by (intro wrap32_id) simp
  obtain c where "length c = FW_FLASH_BLKSIZE" "fw_crc_loop dd io (fh_isize hdr) (fd_offset src + FH_SIZE) 0 =
      Some (io\<lparr>bo_cache := c\<rparr>, Inr (crc32_nat 0 (take (fh_isize hdr) (drop (fd_offset src + FH_SIZE) (cont (bo_hw io))))))"
    using fw_crc_loop_zephyr [OF F assms(3), of "fd_offset src + FH_SIZE" "fh_isize hdr" 0] assms(4,6) by auto
  with rd w assms(2,7,8) hdr [symmetric] show ?thesis
    by (intro exI [of _ c]) (simp add: is_fw_valid_def Let_def)
qed

lemma fw_copy_decomp_zephyr:
  assumes F: "zephyr_flash dd cont ok" and "ok (bo_hw io)" "length (bo_cache io) = FW_FLASH_BLKSIZE"
    and hdr: "hdr = firmware_header_of (take FH_SIZE (drop (fd_offset src) (cont (bo_hw io))))"
    and img: "img = take (fh_isize hdr) (drop (fd_offset src + FH_SIZE) (cont (bo_hw io)))"
    and lay: "boot_layout dd info dst src (fh_isize hdr)" and "fh_magic hdr = FH_MAGIC" "fh_size hdr \<le> fh_isize hdr"
    and "crc32_nat 0 img = fh_dcrc hdr"
  shows "\<exists>io'. fw_copy_decomp info dst src notify action io = Some (io', 0) \<and> ok (bo_hw io') \<and>
     cont (bo_hw io') = overwrite (overwrite (cont (bo_hw io)) (fd_offset dst) (padded img)) (fd_offset info) (firmware_pointer_bytes hdr)"
proof -
  note lay' = lay [unfolded boot_layout_def]
  have L: "flash_devices {dd} (\<lambda>d. cont) ok" using F by (simp add: zephyr_flash_def)
  let ?c = "cont (bo_hw io)" and ?n = "fh_isize hdr"
  have lenc: "length ?c = dd_len dd" "dd_len dd < 2 ^ 32"
    using flash_devices.cont_len [OF L, of dd] flash_devices.len(2) [OF L, of dd] assms by auto
  have li: "length img = ?n" using lay' lenc img by auto
  obtain c where c: "length c = FW_FLASH_BLKSIZE" "is_fw_valid src io zero_header = Some (io\<lparr>bo_cache := c\<rparr>, True, hdr)"
    using is_fw_valid_zephyr [OF F _ assms(2,3) hdr, of zero_header] lay' assms(7-9) img by auto
  let ?io = "io\<lparr>bo_cache := c, bo_progress := 0\<rparr>"
  have w: "wrap32 (fd_offset src + FH_SIZE) = fd_offset src + FH_SIZE" using lay' lenc by (intro wrap32_id) simp
  obtain io1 where cp: "fw_copy_loop dst src notify action ?n ?io ?n (fd_offset src + FH_SIZE) 0 = Some (io1, 0)"
      "ok (bo_hw io1)" "length (bo_cache io1) = FW_FLASH_BLKSIZE" "cont (bo_hw io1) = overwrite ?c (fd_offset dst) (padded img)"
    using fw_copy_loop_zephyr [OF F, of dst src ?n ?io ?n 0 "fd_offset src + FH_SIZE" notify action] lay' c assms(2) img by auto
  have "take (length (padded img)) (drop (fd_offset dst) (cont (bo_hw io1))) = padded img"
    unfolding cp(4) by (rule take_drop_overwrite_same) (use lay' li lenc in simp)
  then have "take ?n (take (length (padded img)) (drop (fd_offset dst) (cont (bo_hw io1)))) = img"
    using li by (simp add: padded_def)
  then have "take ?n (drop (fd_offset dst) (cont (bo_hw io1))) = img"
    using li blk_round_ge [of ?n] by (simp add: min_def)
  then obtain io' where "fw_verify_loop info dst notify action hdr io1 ?n 0 0 = Some (io', 0)" "ok (bo_hw io')"
      "cont (bo_hw io') = overwrite (cont (bo_hw io1)) (fd_offset info) (firmware_pointer_bytes hdr)"
    using fw_verify_loop_zephyr [OF F, of info dst hdr ?n io1 0 0 notify action] lay' cp(2,3) assms(9) blk_round_ge [of ?n] by auto
  with c cp w show ?thesis by (simp add: fw_copy_decomp_def)
qed

lemma take_fp:
  "length h \<ge> 16 \<Longrightarrow> take 4 (take 16 h) = take 4 h" "take 4 (drop 4 (take 16 h)) = take 4 (drop 4 h)"
  "take 4 (drop 12 (take 16 h)) = take 4 (drop 12 h)"
  by (simp_all add: drop_take)

lemma firmware_pointer_words:
  assumes "fh_magic hdr < 2 ^ 32" "fh_devid hdr < 2 ^ 32" "fh_dcrc hdr < 2 ^ 32"
  shows "de32 (take 4 (firmware_pointer_bytes hdr)) = fh_magic hdr"
    "de32 (take 4 (drop 4 (firmware_pointer_bytes hdr))) = fh_devid hdr"
    "de32 (take 4 (drop 12 (firmware_pointer_bytes hdr))) = fh_dcrc hdr"
  using assms by (simp_all add: firmware_pointer_bytes_def)

lemma header_words_less:
  "fh_magic (firmware_header_of b) < 2 ^ 32" "fh_devid (firmware_header_of b) < 2 ^ 32"
  "fh_dcrc (firmware_header_of b) < 2 ^ 32"
  using de32_less by (auto simp: firmware_header_of_def)

lemma disk_read_pointer:
  assumes F: "zephyr_flash dd cont ok" and "ok s" "off + FP_SIZE \<le> dd_len dd"
  shows "disk_device_read dd s (Some (replicate FP_SIZE 0)) FP_SIZE off = Some (s, 0, Some (take FP_SIZE (drop off (cont s))))"
proof -
  have L: "flash_devices {dd} (\<lambda>d. cont) ok" using F by (simp add: zephyr_flash_def)
  have "length (cont s) = dd_len dd" using flash_devices.cont_len [OF L, of dd] assms by auto
  then have "overwrite (replicate FP_SIZE 0) 0 (take FP_SIZE (drop off (cont s))) = take FP_SIZE (drop off (cont s))"
    using assms by (simp add: overwrite_def)
  then show ?thesis using disk_read_zephyr [OF F assms(2,3), of "replicate FP_SIZE 0"] by (simp add: FP_SIZE_def)
qed

lemma need_update_same:
  assumes F: "zephyr_flash dd cont ok" and "fd_dd src = dd" "fd_dd info = dd" "ok (bo_hw io)"
    and "fd_offset src + FH_SIZE \<le> dd_len dd" "fd_offset info + FP_SIZE \<le> dd_len dd"
    and hdr: "firmware_header_of (take FH_SIZE (drop (fd_offset src) (cont (bo_hw io)))) = hdr" "fh_magic hdr = FH_MAGIC"
    and "take FP_SIZE (drop (fd_offset info) (cont (bo_hw io))) = firmware_pointer_bytes hdr"
  shows "is_fw_need_update src info io = Some (io, False)"
proof -
  let ?h = "take FH_SIZE (drop (fd_offset src) (cont (bo_hw io)))"
  let ?l = "take FP_SIZE (drop (fd_offset src) (cont (bo_hw io)))"
  have l: "?l = take 16 ?h" by (simp add: FP_SIZE_def FH_SIZE_def)
  have w: "de32 (take 4 ?l) = fh_magic hdr" "de32 (take 4 (drop 4 ?l)) = fh_devid hdr" "de32 (take 4 (drop 12 ?l)) = fh_dcrc hdr"
    unfolding l using hdr(1) by (auto simp: firmware_header_of_def drop_take FH_SIZE_def)
  have b: "fh_magic hdr < 2 ^ 32" "fh_devid hdr < 2 ^ 32" "fh_dcrc hdr < 2 ^ 32" using header_words_less hdr(1) by metis+
  have r: "disk_device_read dd (bo_hw io) (Some (replicate FP_SIZE 0)) FP_SIZE (fd_offset src) = Some (bo_hw io, 0, Some ?l)"
    by (rule disk_read_pointer [OF F assms(4)]) (use assms(5) in \<open>simp add: FP_SIZE_def FH_SIZE_def\<close>)
  show ?thesis using r disk_read_pointer [OF F assms(4,6)] assms(2,3,9) w firmware_pointer_words [OF b] hdr(2)
    by (simp add: is_fw_need_update_def Let_def)
qed

text \<open>
  C9. A firmware update installs the image: on a flash that behaves as documented, with the three regions in place and a
  valid image in the download region, \<^verbatim>\<open>fw_copy_decomp\<close> returns 0; the run region then holds the image, the information
  block the image's header, every byte outside the two regions is unchanged, and \<^verbatim>\<open>is_fw_need_update\<close> answers no, so
  that the next boot does not update again.
\<close>

theorem fw_copy_decomp_installs:
  assumes F: "zephyr_flash dd cont ok" and "ok (bo_hw io)" "length (bo_cache io) = FW_FLASH_BLKSIZE"
    and hdr: "hdr = firmware_header_of (take FH_SIZE (drop (fd_offset src) (cont (bo_hw io))))"
    and img: "img = take (fh_isize hdr) (drop (fd_offset src + FH_SIZE) (cont (bo_hw io)))"
    and lay: "boot_layout dd info dst src (fh_isize hdr)" and "fh_magic hdr = FH_MAGIC" "fh_size hdr \<le> fh_isize hdr"
    and "crc32_nat 0 img = fh_dcrc hdr"
  shows "\<exists>io'. fw_copy_decomp info dst src notify action io = Some (io', 0) \<and> ok (bo_hw io') \<and>
     take (fh_isize hdr) (drop (fd_offset dst) (cont (bo_hw io'))) = img \<and>
     take FP_SIZE (drop (fd_offset info) (cont (bo_hw io'))) = firmware_pointer_bytes hdr \<and>
     (\<forall>i < dd_len dd. \<not> (fd_offset dst \<le> i \<and> i < fd_offset dst + blk_round (fh_isize hdr)) \<longrightarrow>
        \<not> (fd_offset info \<le> i \<and> i < fd_offset info + FP_SIZE) \<longrightarrow> cont (bo_hw io') ! i = cont (bo_hw io) ! i) \<and>
     is_fw_need_update src info io' = Some (io', False)"
proof -
  obtain io' where io': "fw_copy_decomp info dst src notify action io = Some (io', 0)" "ok (bo_hw io')"
    and c': "cont (bo_hw io') = overwrite (overwrite (cont (bo_hw io)) (fd_offset dst) (padded img)) (fd_offset info) (firmware_pointer_bytes hdr)"
    using fw_copy_decomp_zephyr [OF assms] by blast
  have L: "flash_devices {dd} (\<lambda>d. cont) ok" using F by (simp add: zephyr_flash_def)
  let ?c = "cont (bo_hw io)" and ?n = "fh_isize hdr" and ?c1 = "overwrite (cont (bo_hw io)) (fd_offset dst) (padded img)"
  have len: "length ?c = dd_len dd" using flash_devices.cont_len [OF L, of dd] assms by auto
  have l: "fd_dd src = dd" "fd_dd info = dd" "fd_offset dst + blk_round ?n \<le> fd_offset info" "fd_offset info + FP_SIZE \<le> fd_offset src"
      "fd_offset src + FH_SIZE + ?n \<le> dd_len dd"
    using lay by (auto simp: boot_layout_def FP_SIZE_def FW_FLASH_BLKSIZE_def)
  have li: "length img = ?n" using len l(5) img by auto
  have r: "?n \<le> blk_round ?n" by (rule blk_round_ge)
  have l1: "length ?c1 = dd_len dd" "length (firmware_pointer_bytes hdr) = FP_SIZE"
    using l li len r by (simp_all add: firmware_pointer_bytes_def FP_SIZE_def)
  have "take ?n (drop (fd_offset dst) (cont (bo_hw io'))) = take ?n (drop (fd_offset dst) ?c1)"
    unfolding c' by (rule take_drop_overwrite_outside) (use l l1 r in auto)
  also have "\<dots> = take ?n (take (length (padded img)) (drop (fd_offset dst) ?c1))" using li r by (simp add: min_def)
  also have "\<dots> = img" using take_drop_overwrite_same [of "fd_offset dst" "padded img" ?c] li l len r by (simp add: padded_def)
  finally have dst: "take ?n (drop (fd_offset dst) (cont (bo_hw io'))) = img" .
  have info: "take FP_SIZE (drop (fd_offset info) (cont (bo_hw io'))) = firmware_pointer_bytes hdr"
    using take_drop_overwrite_same [of "fd_offset info" "firmware_pointer_bytes hdr" ?c1] c' l l1 by simp
  have rest: "cont (bo_hw io') ! i = ?c ! i"
    if "i < dd_len dd" "\<not> (fd_offset dst \<le> i \<and> i < fd_offset dst + blk_round ?n)" "\<not> (fd_offset info \<le> i \<and> i < fd_offset info + FP_SIZE)" for i
    using that l l1 li len unfolding c' by (auto simp: nth_overwrite)
  have "take FH_SIZE (drop (fd_offset src) (cont (bo_hw io'))) = take FH_SIZE (drop (fd_offset src) ?c1)"
    unfolding c' by (rule take_drop_overwrite_outside) (use l l1 in auto)
  also have "\<dots> = take FH_SIZE (drop (fd_offset src) ?c)"
    by (rule take_drop_overwrite_outside) (use l li len in auto)
  finally have "firmware_header_of (take FH_SIZE (drop (fd_offset src) (cont (bo_hw io')))) = hdr" using hdr by simp
  then have "is_fw_need_update src info io' = Some (io', False)"
    using need_update_same [OF F l(1,2) io'(2)] l info assms(7) by simp
  with io' dst info rest show ?thesis by blast
qed

lemma fw_loops_empty:
  "fw_copy_loop dst src notify action isize io 0 so ofs = Some (io, 0)"
  "fw_verify_loop info dst notify action fw io 0 ofs crc = Some (io, 0)"
  by (subst fw_copy_loop.simps fw_verify_loop.simps, simp)+

lemma zero_header_isize: "fh_isize zero_header = 0"
proof -
  have "replicate 4 (0 :: u8) = [0, 0, 0, 0]" by (simp add: numeral_eq_Suc)
  then show ?thesis by (simp add: zero_header_def firmware_header_of_def FH_SIZE_def de32_def)
qed

text \<open>
  C38. What happens when the header of the downloaded image cannot be read: the error code is taken for a valid image, the
  copy has length 0, and \<^verbatim>\<open>fw_copy_decomp\<close> reports success without having written anything.
\<close>

theorem fw_copy_decomp_read_error:
  assumes "disk_device_read (fd_dd src) (bo_hw io) (Some (replicate FH_SIZE 0)) FH_SIZE (fd_offset src) = Some (s, ret, b)" "ret \<noteq> 0"
  shows "fw_copy_decomp info dst src notify action io = Some (io\<lparr>bo_hw := s, bo_progress := 0\<rparr>, 0)"
  using assms by (simp add: fw_copy_decomp_def is_fw_valid_def fw_loops_empty zero_header_isize Let_def)

section \<open>A flash for which the laws hold\<close>

definition lf_read :: "u8 list \<Rightarrow> nat \<Rightarrow> nat \<Rightarrow> (u8 list \<times> int \<times> u8 list) option" where
  "lf_read m off n = (if off + n \<le> length m then Some (m, 0, take n (drop off m)) else Some (m, - EINVAL, []))"

definition lf_write :: "u8 list \<Rightarrow> nat \<Rightarrow> u8 list \<Rightarrow> (u8 list \<times> int) option" where
  "lf_write m off bs = (if off + length bs \<le> length m then Some (overwrite m off bs, 0) else Some (m, - EINVAL))"

definition lf_erase :: "u8 list \<Rightarrow> nat \<Rightarrow> nat \<Rightarrow> (u8 list \<times> int) option" where
  "lf_erase m off n = (if off + n \<le> length m then Some (overwrite m off (replicate n 0xFF), 0) else Some (m, - EINVAL))"

definition demo_flash :: "u8 list disk_device" where
  "demo_flash = platform_flash_disk 1 FW_DEVICE 4096 4 lf_read lf_write lf_erase"

lemma demo_flash_zephyr: "zephyr_flash demo_flash (\<lambda>m. m) (\<lambda>m. length m = 16384)"
proof -
  have "flash_devices {demo_flash} (\<lambda>d m. m) (\<lambda>m. length m = 16384)"
  proof
    show "\<exists>k<32. dd_blk_size d = 2 ^ k" if "d \<in> {demo_flash}" for d
      using that by (auto simp: demo_flash_def platform_flash_disk_def intro: exI [of _ 12])
  qed (auto simp: demo_flash_def platform_flash_disk_def lf_read_def lf_write_def lf_erase_def wrap32_def)
  then show ?thesis
    by (auto simp: zephyr_flash_def demo_flash_def platform_flash_disk_def lf_read_def lf_write_def wrap32_def split: if_splits)
qed

definition demo_header :: "u8 list" where
  "demo_header = concat (map le32 [FH_MAGIC, 7, 1, crc32_nat 0 [5], 1, 1, 0, 0]) @ replicate 32 0"

definition demo_image :: "u8 list" where
  "demo_image = replicate 8192 0xFF @ demo_header @ [5] @ replicate 8127 0"

definition demo_io :: "u8 list \<Rightarrow> u8 list boot_io" where
  "demo_io m = \<lparr>bo_hw = m, bo_cache = replicate FW_FLASH_BLKSIZE 0, bo_progress = 0, bo_notified = []\<rparr>"

abbreviation demo_at :: "nat \<Rightarrow> u8 list fw_desc" where
  "demo_at off \<equiv> \<lparr>fd_dd = demo_flash, fd_offset = off\<rparr>"

lemma demo_image_parts:
  "length demo_image = 16384" "take FH_SIZE (drop 8192 demo_image) = demo_header" "take (Suc 0) (drop (8192 + FH_SIZE) demo_image) = [5]"
  by (simp_all add: demo_image_def demo_header_def FH_SIZE_def)

lemma demo_header_fields:
  "fh_magic (firmware_header_of demo_header) = FH_MAGIC" "fh_size (firmware_header_of demo_header) = 1"
  "fh_isize (firmware_header_of demo_header) = 1" "fh_dcrc (firmware_header_of demo_header) = crc32_nat 0 [5]"
  using unat_u32_less by (simp_all add: demo_header_def firmware_header_of_def FH_MAGIC_def)

lemma demo_layout: "boot_layout demo_flash (demo_at 4096) (demo_at 0) (demo_at 8192) (Suc 0)"
  by (simp add: boot_layout_def blk_round_def FW_FLASH_BLKSIZE_def FH_SIZE_def demo_flash_def platform_flash_disk_def wrap32_def)

theorem fw_copy_decomp_installs_witness:
  "\<exists>io'. fw_copy_decomp (demo_at 4096) (demo_at 0) (demo_at 8192) True ''update'' (demo_io demo_image) = Some (io', 0) \<and>
     take 1 (bo_hw io') = [5]"
  using fw_copy_decomp_installs [OF demo_flash_zephyr, of "demo_io demo_image" _ "demo_at 8192" _ "demo_at 4096" "demo_at 0" True "''update''",
      OF _ _ refl refl]
  by (auto simp: demo_io_def demo_image_parts demo_header_fields demo_layout)

theorem fw_copy_decomp_read_error_witness:
  "fw_copy_decomp (demo_at 4096) (demo_at 0) (demo_at 16384) True ''update'' (demo_io demo_image) = Some (demo_io demo_image, 0)"
  using fw_copy_decomp_read_error [of "demo_at 16384" "demo_io demo_image" demo_image "- EINVAL" "Some (replicate FH_SIZE 0)"
      "demo_at 4096" "demo_at 0" True "''update''"]
  by (simp add: disk_device_read_def demo_flash_def platform_flash_disk_def wrap32_def demo_io_def FH_SIZE_def EINVAL_def)

end
