(* ===== verification/Avl.thy ===== *)
theory Avl
  imports Prelude "HOL-Library.Product_Lexorder"
begin

text \<open>
  The AVL tree of \<^verbatim>\<open>basework/lib/block/bdbuf.c\<close>, which finds the buffer of a device block. The C code
  links the buffers themselves and keeps the path from the root in an array of
  \<^verbatim>\<open>RTEMS_BDBUF_AVL_MAX_HEIGHT\<close> pointers. Here a tree is a value, and the path is a list of frames: a
  frame is a node on the path, the direction the search took there (the field \<^verbatim>\<open>avl.cache\<close>) and the
  other subtree. A push beyond the end of the array and an access through a null pointer are \<^const>\<open>None\<close>.
\<close>

section \<open>Trees and paths\<close>

text \<open>A buffer, as far as the tree is concerned: its key and its identity.\<close>

record avl_node =
  nd_dd :: nat
  nd_block :: nat
  nd_buf :: nat

datatype avl_tree = Null | Nd avl_tree avl_node int avl_tree

text \<open>\<open>WentLeft\<close> has \<^verbatim>\<open>cache = -1\<close> and keeps the right subtree, \<open>WentRight\<close> has \<^verbatim>\<open>cache = 1\<close> and keeps the left one.\<close>

datatype avl_frame = WentLeft avl_node int avl_tree | WentRight avl_tree avl_node int

definition RTEMS_BDBUF_AVL_MAX_HEIGHT :: nat where "RTEMS_BDBUF_AVL_MAX_HEIGHT = 32"

fun plug :: "avl_frame list \<Rightarrow> avl_tree \<Rightarrow> avl_tree" where
  "plug [] t = t"
| "plug (WentLeft n b r # fs) t = plug fs (Nd t n b r)"
| "plug (WentRight l n b # fs) t = plug fs (Nd l n b t)"

text \<open>The two comparisons of the code: key smaller than the searched one, and key different from it.\<close>

definition key_before :: "avl_node \<Rightarrow> nat \<Rightarrow> nat \<Rightarrow> bool" where
  "key_before p dd block \<longleftrightarrow> nd_dd p < dd \<or> (nd_dd p = dd \<and> nd_block p < block)"

definition key_differs :: "avl_node \<Rightarrow> nat \<Rightarrow> nat \<Rightarrow> bool" where
  "key_differs p dd block \<longleftrightarrow> nd_dd p \<noteq> dd \<or> nd_block p \<noteq> block"

fun rtems_bdbuf_avl_search :: "avl_tree \<Rightarrow> nat \<Rightarrow> nat \<Rightarrow> avl_node option" where
  "rtems_bdbuf_avl_search Null dd block = None"
| "rtems_bdbuf_avl_search (Nd l p b r) dd block =
     (if key_differs p dd block
      then (if key_before p dd block then rtems_bdbuf_avl_search r dd block else rtems_bdbuf_avl_search l dd block)
      else Some p)"

text \<open>The way down: the path, and the subtree at the key (\<^const>\<open>Null\<close> when there is no such node).\<close>

fun avl_descend :: "avl_tree \<Rightarrow> nat \<Rightarrow> nat \<Rightarrow> avl_frame list \<Rightarrow> (avl_frame list \<times> avl_tree) option" where
  "avl_descend Null dd block stack = Some (stack, Null)"
| "avl_descend (Nd l p b r) dd block stack =
     (if length stack \<ge> RTEMS_BDBUF_AVL_MAX_HEIGHT then None
      else if key_before p dd block then avl_descend r dd block (WentRight l p b # stack)
      else if key_differs p dd block then avl_descend l dd block (WentLeft p b r # stack)
      else Some (stack, Nd l p b r))"

section \<open>Insertion\<close>

text \<open>
  One pass of the rebalancing loop at the node of a frame, whose subtree \<open>q\<close> grew: the new subtree and
  whether the loop goes on.
\<close>

fun ins_fix :: "avl_frame \<Rightarrow> avl_tree \<Rightarrow> (avl_tree \<times> bool) option" where
  "ins_fix (WentLeft p b r) q =
     (if b = 1 then Some (Nd q p 0 r, False)
      else if b = 0 then Some (Nd q p (- 1) r, True)
      else if b = - 1 then
        (case q of
           Null \<Rightarrow> None
         | Nd ll p1 b1 lr \<Rightarrow>
             if b1 = - 1 then Some (Nd ll p1 0 (Nd lr p 0 r), False)
             else (case lr of
                Null \<Rightarrow> None
              | Nd l2 p2 b2 r2 \<Rightarrow>
                  Some (Nd (Nd ll p1 (if b2 = 1 then - 1 else 0) l2) p2 0 (Nd r2 p (if b2 = - 1 then 1 else 0) r), False)))
      else Some (Nd q p b r, True))"
| "ins_fix (WentRight l p b) q =
     (if b = - 1 then Some (Nd l p 0 q, False)
      else if b = 0 then Some (Nd l p 1 q, True)
      else if b = 1 then
        (case q of
           Null \<Rightarrow> None
         | Nd rl p1 b1 rr \<Rightarrow>
             if b1 = 1 then Some (Nd (Nd l p 0 rl) p1 0 rr, False)
             else (case rl of
                Null \<Rightarrow> None
              | Nd l2 p2 b2 r2 \<Rightarrow>
                  Some (Nd (Nd l p (if b2 = 1 then - 1 else 0) l2) p2 0 (Nd r2 p1 (if b2 = - 1 then 1 else 0) rr), False)))
      else Some (Nd l p b q, True))"

text \<open>The rebalancing loop; when it stops, only the link of the parent is left to be set.\<close>

fun ins_up :: "avl_frame list \<Rightarrow> avl_tree \<Rightarrow> avl_tree option" where
  "ins_up [] q = Some q"
| "ins_up (f # fs) q =
     (case ins_fix f q of
        None \<Rightarrow> None
      | Some (p, modified) \<Rightarrow> if modified then ins_up fs p else Some (plug fs p))"

definition rtems_bdbuf_avl_insert :: "avl_tree \<Rightarrow> avl_node \<Rightarrow> (avl_tree \<times> int) option" where
  "rtems_bdbuf_avl_insert root node =
     (case avl_descend root (nd_dd node) (nd_block node) [] of
        None \<Rightarrow> None
      | Some (stack, Null) \<Rightarrow> map_option (\<lambda>t. (t, 0)) (ins_up stack (Nd Null node 0 Null))
      | Some (stack, Nd l p b r) \<Rightarrow> Some (root, - 1))"

section \<open>Removal\<close>

text \<open>One pass at the node of a frame whose subtree \<open>q\<close> shrank.\<close>

fun del_fix :: "avl_frame \<Rightarrow> avl_tree \<Rightarrow> (avl_tree \<times> bool) option" where
  "del_fix (WentLeft p b r) q =
     (if b = - 1 then Some (Nd q p 0 r, True)
      else if b = 0 then Some (Nd q p 1 r, False)
      else if b = 1 then
        (case r of
           Null \<Rightarrow> None
         | Nd rl p1 b1 rr \<Rightarrow>
             if b1 \<ge> 0 then
               (if b1 = 0 then Some (Nd (Nd q p b rl) p1 (- 1) rr, False)
                else Some (Nd (Nd q p 0 rl) p1 0 rr, True))
             else (case rl of
                Null \<Rightarrow> None
              | Nd l2 p2 b2 r2 \<Rightarrow>
                  Some (Nd (Nd q p (if b2 = 1 then - 1 else 0) l2) p2 0 (Nd r2 p1 (if b2 = - 1 then 1 else 0) rr), True)))
      else Some (Nd q p b r, True))"
| "del_fix (WentRight l p b) q =
     (if b = 1 then Some (Nd l p 0 q, True)
      else if b = 0 then Some (Nd l p (- 1) q, False)
      else if b = - 1 then
        (case l of
           Null \<Rightarrow> None
         | Nd ll p1 b1 lr \<Rightarrow>
             if b1 \<le> 0 then
               (if b1 = 0 then Some (Nd ll p1 1 (Nd lr p b q), False)
                else Some (Nd ll p1 0 (Nd lr p 0 q), True))
             else (case lr of
                Null \<Rightarrow> None
              | Nd l2 p2 b2 r2 \<Rightarrow>
                  Some (Nd (Nd ll p1 (if b2 = 1 then - 1 else 0) l2) p2 0 (Nd r2 p (if b2 = - 1 then 1 else 0) q), True)))
      else Some (Nd l p b q, True))"

fun del_up :: "avl_frame list \<Rightarrow> avl_tree \<Rightarrow> avl_tree option" where
  "del_up [] q = Some q"
| "del_up (f # fs) q =
     (case del_fix f q of
        None \<Rightarrow> None
      | Some (p, modified) \<Rightarrow> if modified then del_up fs p else Some (plug fs p))"

text \<open>The walk to the leftmost node of the right subtree: the pushed nodes, the node and its right subtree.\<close>

fun avl_leftmost :: "avl_tree \<Rightarrow> avl_node \<Rightarrow> int \<Rightarrow> avl_tree \<Rightarrow> nat \<Rightarrow> avl_frame list \<Rightarrow>
    (avl_frame list \<times> avl_node \<times> avl_tree) option" where
  "avl_leftmost Null s b sr depth pushed = Some (pushed, s, sr)"
| "avl_leftmost (Nd l p bp r) s b sr depth pushed =
     (if depth + length pushed \<ge> RTEMS_BDBUF_AVL_MAX_HEIGHT then None
      else avl_leftmost l p bp r depth (WentLeft s b sr # pushed))"

definition avl_with_bal :: "int \<Rightarrow> avl_tree \<Rightarrow> avl_tree" where
  "avl_with_bal b t = (case t of Null \<Rightarrow> Null | Nd l p _ r \<Rightarrow> Nd l p b r)"

text \<open>The path to rebalance from and the subtree at its end, once the node of the third argument is taken out.\<close>

definition avl_unlink :: "avl_frame list \<Rightarrow> avl_tree \<Rightarrow> int \<Rightarrow> avl_tree \<Rightarrow> (avl_frame list \<times> avl_tree) option" where
  "avl_unlink stack l b r =
     (case r of
        Null \<Rightarrow> Some (stack, avl_with_bal 0 l)
      | Nd Null p bp rr \<Rightarrow>
          if length stack \<ge> RTEMS_BDBUF_AVL_MAX_HEIGHT then None else Some (WentRight l p b # stack, rr)
      | Nd rl p bp rr \<Rightarrow>
          if length stack \<ge> RTEMS_BDBUF_AVL_MAX_HEIGHT then None
          else (case avl_leftmost rl p bp rr (length stack + 1) [] of
             None \<Rightarrow> None
           | Some (pushed, s, sr) \<Rightarrow> Some (pushed @ WentRight l s b # stack, sr)))"

definition rtems_bdbuf_avl_remove :: "avl_tree \<Rightarrow> avl_node \<Rightarrow> (avl_tree \<times> int) option" where
  "rtems_bdbuf_avl_remove root node =
     (case avl_descend root (nd_dd node) (nd_block node) [] of
        None \<Rightarrow> None
      | Some (stack, Null) \<Rightarrow> Some (root, - 1)
      | Some (stack, Nd l p b r) \<Rightarrow>
          (case avl_unlink stack l b r of
             None \<Rightarrow> None
           | Some (path, q) \<Rightarrow> map_option (\<lambda>t. (t, 0)) (del_up path q)))"

section \<open>The invariant\<close>

abbreviation nkey :: "avl_node \<Rightarrow> nat \<times> nat" where
  "nkey n \<equiv> (nd_dd n, nd_block n)"

fun avl_height :: "avl_tree \<Rightarrow> nat" where
  "avl_height Null = 0"
| "avl_height (Nd l n b r) = Suc (max (avl_height l) (avl_height r))"

fun avl_size :: "avl_tree \<Rightarrow> nat" where
  "avl_size Null = 0"
| "avl_size (Nd l n b r) = Suc (avl_size l + avl_size r)"

fun inorder :: "avl_tree \<Rightarrow> avl_node list" where
  "inorder Null = []"
| "inorder (Nd l n b r) = inorder l @ n # inorder r"

fun balanced :: "avl_tree \<Rightarrow> bool" where
  "balanced Null = True"
| "balanced (Nd l n b r) \<longleftrightarrow>
     balanced l \<and> balanced r \<and> b = int (avl_height r) - int (avl_height l) \<and> - 1 \<le> b \<and> b \<le> 1"

definition ordered :: "avl_tree \<Rightarrow> bool" where
  "ordered t \<longleftrightarrow> sorted_wrt (\<lambda>m n. nkey m < nkey n) (inorder t)"

lemma key_tests:
  "key_before p dd block \<longleftrightarrow> nkey p < (dd, block)" "key_differs p dd block \<longleftrightarrow> nkey p \<noteq> (dd, block)"
  by (auto simp: key_before_def key_differs_def)

subsection \<open>Paths\<close>

fun lefts :: "avl_frame list \<Rightarrow> avl_node list" where
  "lefts [] = []"
| "lefts (WentLeft n b r # fs) = lefts fs"
| "lefts (WentRight l n b # fs) = lefts fs @ inorder l @ [n]"

fun rights :: "avl_frame list \<Rightarrow> avl_node list" where
  "rights [] = []"
| "rights (WentLeft n b r # fs) = n # inorder r @ rights fs"
| "rights (WentRight l n b # fs) = rights fs"

fun frame_ok :: "nat \<Rightarrow> avl_frame \<Rightarrow> bool" where
  "frame_ok h (WentLeft n b r) \<longleftrightarrow> balanced r \<and> b = int (avl_height r) - int h \<and> - 1 \<le> b \<and> b \<le> 1"
| "frame_ok h (WentRight l n b) \<longleftrightarrow> balanced l \<and> b = int h - int (avl_height l) \<and> - 1 \<le> b \<and> b \<le> 1"

fun frame_height :: "nat \<Rightarrow> avl_frame \<Rightarrow> nat" where
  "frame_height h (WentLeft n b r) = Suc (max h (avl_height r))"
| "frame_height h (WentRight l n b) = Suc (max (avl_height l) h)"

fun path_ok :: "nat \<Rightarrow> avl_frame list \<Rightarrow> bool" where
  "path_ok h [] = True"
| "path_ok h (f # fs) \<longleftrightarrow> frame_ok h f \<and> path_ok (frame_height h f) fs"

lemma inorder_plug: "inorder (plug fs t) = lefts fs @ inorder t @ rights fs"
  by (induction fs t rule: plug.induct) simp_all

lemma balanced_plug: "balanced (plug fs t) \<longleftrightarrow> balanced t \<and> path_ok (avl_height t) fs"
  by (induction fs t rule: plug.induct) (auto simp: max.commute)

lemma plug_append: "plug (fs @ gs) t = plug gs (plug fs t)"
  by (induction fs t rule: plug.induct) simp_all

lemma path_ok_append:
  "balanced t \<Longrightarrow> path_ok (avl_height t) (fs @ gs) \<longleftrightarrow> path_ok (avl_height t) fs \<and> path_ok (avl_height (plug fs t)) gs"
  using balanced_plug [of "fs @ gs" t] balanced_plug [of gs "plug fs t"] balanced_plug [of fs t]
  by (auto simp: plug_append)

text \<open>The way down keeps the tree, stays within the array and separates the keys.\<close>

lemma avl_descend_ok:
  assumes "length stack + avl_height t \<le> RTEMS_BDBUF_AVL_MAX_HEIGHT"
    and "\<forall>n \<in> set (lefts stack). nkey n < (dd, block)" "\<forall>n \<in> set (rights stack). (dd, block) < nkey n" "ordered t"
  shows "\<exists>fs u. avl_descend t dd block stack = Some (fs, u) \<and> plug fs u = plug stack t \<and>
     length fs + avl_height u \<le> length stack + avl_height t \<and>
     (\<forall>n \<in> set (lefts fs). nkey n < (dd, block)) \<and> (\<forall>n \<in> set (rights fs). (dd, block) < nkey n) \<and>
     (case u of Null \<Rightarrow> True | Nd l n b r \<Rightarrow> nkey n = (dd, block))"
  using assms
proof (induction t dd block stack rule: avl_descend.induct)
  case (2 l p b r dd block stack)
  have o: "ordered l" "ordered r" "\<forall>n \<in> set (inorder l). nkey n < nkey p" "\<forall>n \<in> set (inorder r). nkey p < nkey n"
    using "2.prems"(4) by (auto simp: ordered_def sorted_wrt_append)
  have len: "length stack < RTEMS_BDBUF_AVL_MAX_HEIGHT" using "2.prems"(1) by simp
  consider "nkey p < (dd, block)" | "nkey p = (dd, block)" | "(dd, block) < nkey p" using less_linear by blast
  then show ?case
  proof cases
    case 1
    then have "\<forall>n \<in> set (lefts (WentRight l p b # stack)). nkey n < (dd, block)"
      using o(3) "2.prems"(2) by (auto intro: less_trans)
    with "2.IH"(1) len 1 o "2.prems" show ?thesis by (fastforce simp: key_tests)
  next
    case 2
    with len "2.prems" show ?thesis by (auto simp: key_tests)
  next
    case 3
    then have "\<forall>n \<in> set (rights (WentLeft p b r # stack)). (dd, block) < nkey n"
      using o(4) "2.prems"(3) by (auto intro: less_trans)
    with "2.IH"(2) len 3 o "2.prems" show ?thesis by (fastforce simp: key_tests)
  qed
qed auto

subsection \<open>Rebalancing\<close>

fun grown :: "avl_tree \<Rightarrow> bool" where
  "grown Null = False"
| "grown (Nd l n b r) \<longleftrightarrow> b \<noteq> 0 \<or> (l = Null \<and> r = Null)"

text \<open>Each rotation is checked at the shape of the trees it is applied to.\<close>

lemma balanced_shape:
  assumes "balanced (Nd l n b r)" "avl_height (Nd l n b r) = Suc k"
  shows "(b = - 1 \<and> avl_height l = k \<and> k = Suc (avl_height r)) \<or> (b = 0 \<and> avl_height l = k \<and> avl_height r = k) \<or>
     (b = 1 \<and> k = Suc (avl_height l) \<and> avl_height r = k)"
proof -
  have "max (avl_height l) (avl_height r) = k" "b = int (avl_height r) - int (avl_height l)" "- 1 \<le> b" "b \<le> 1"
    using assms by auto
  then show ?thesis by (simp add: max_def split: if_splits) linarith+
qed

text \<open>The result of a double turn; \<open>a\<close> and \<open>c\<close> are the outer subtrees.\<close>

abbreviation double_turn :: "avl_tree \<Rightarrow> avl_node \<Rightarrow> avl_tree \<Rightarrow> avl_node \<Rightarrow> int \<Rightarrow> avl_tree \<Rightarrow> avl_node \<Rightarrow> avl_tree \<Rightarrow> avl_tree" where
  "double_turn a m l2 p2 b2 r2 n c \<equiv> Nd (Nd a m (if b2 = 1 then - 1 else 0) l2) p2 0 (Nd r2 n (if b2 = - 1 then 1 else 0) c)"

lemma double_turn_ok:
  assumes "balanced (Nd l2 p2 b2 r2)" "avl_height (Nd l2 p2 b2 r2) = Suc k" "balanced a" "avl_height a = k" "balanced c" "avl_height c = k"
  shows "balanced (double_turn a m l2 p2 b2 r2 n c)" "avl_height (double_turn a m l2 p2 b2 r2 n c) = Suc (Suc k)"
proof -
  have "balanced l2" "balanced r2" using assms(1) by simp_all
  with balanced_shape [OF assms(1,2)] assms(3-) show "balanced (double_turn a m l2 p2 b2 r2 n c)"
    "avl_height (double_turn a m l2 p2 b2 r2 n c) = Suc (Suc k)" by (elim disjE conjE; simp)+
qed

lemma fix_resultI:
  "F = Some (t, m) \<Longrightarrow> balanced t \<Longrightarrow> inorder t = xs \<Longrightarrow> Q t m \<Longrightarrow>
     \<exists>t m. F = Some (t, m) \<and> balanced t \<and> inorder t = xs \<and> Q t m"
  by blast

lemma ins_fix_left:
  assumes "frame_ok h (WentLeft p b r)" "balanced q" "avl_height q = Suc h" "grown q"
  shows "\<exists>t m. ins_fix (WentLeft p b r) q = Some (t, m) \<and> balanced t \<and> inorder t = inorder q @ p # inorder r \<and>
     (if m then avl_height t = Suc (Suc (max h (avl_height r))) \<and> grown t else avl_height t = Suc (max h (avl_height r)))"
proof -
  consider "b = 1" | "b = 0" | "b = - 1" using assms(1) by fastforce
  then show ?thesis
  proof cases
    case 3
    then have h: "h = Suc (avl_height r)" using assms(1) by simp
    obtain ll p1 b1 lr where q: "q = Nd ll p1 b1 lr" using assms(4) by (cases q) auto
    have "b1 \<noteq> 0" using assms h q by auto
    then consider "b1 = - 1" | "b1 = 1" using assms(2) q by fastforce
    then show ?thesis
    proof cases
      case 1
      then have "avl_height ll = h" "avl_height lr = avl_height r" using assms h q by auto
      with 1 3 assms q h show ?thesis by auto
    next
      case 2
      then have lr: "avl_height lr = Suc (avl_height r)" "avl_height ll = avl_height r" using assms h q by auto
      then obtain l2 p2 b2 r2 where "lr = Nd l2 p2 b2 r2" by (cases lr) auto
      with 2 3 assms q h lr double_turn_ok [of l2 p2 b2 r2 "avl_height r" ll r p1 p] show ?thesis
        by (intro fix_resultI [where t = "double_turn ll p1 l2 p2 b2 r2 p r" and m = False]) simp_all
    qed
  qed (use assms in auto)
qed

lemma ins_fix_right:
  assumes "frame_ok h (WentRight l p b)" "balanced q" "avl_height q = Suc h" "grown q"
  shows "\<exists>t m. ins_fix (WentRight l p b) q = Some (t, m) \<and> balanced t \<and> inorder t = inorder l @ p # inorder q \<and>
     (if m then avl_height t = Suc (Suc (max (avl_height l) h)) \<and> grown t else avl_height t = Suc (max (avl_height l) h))"
proof -
  consider "b = 1" | "b = 0" | "b = - 1" using assms(1) by fastforce
  then show ?thesis
  proof cases
    case 1
    then have h: "h = Suc (avl_height l)" using assms(1) by simp
    obtain rl p1 b1 rr where q: "q = Nd rl p1 b1 rr" using assms(4) by (cases q) auto
    have "b1 \<noteq> 0" using assms h q by auto
    then consider "b1 = 1" | "b1 = - 1" using assms(2) q by fastforce
    then show ?thesis
    proof cases
      case 1
      then have "avl_height rr = h" "avl_height rl = avl_height l" using assms h q by auto
      with 1 \<open>b = 1\<close> assms q h show ?thesis by auto
    next
      case 2
      then have rl: "avl_height rl = Suc (avl_height l)" "avl_height rr = avl_height l" using assms h q by auto
      then obtain l2 p2 b2 r2 where "rl = Nd l2 p2 b2 r2" by (cases rl) auto
      with 2 \<open>b = 1\<close> assms q h rl double_turn_ok [of l2 p2 b2 r2 "avl_height l" l rr p p1] show ?thesis
        by (intro fix_resultI [where t = "double_turn l p l2 p2 b2 r2 p1 rr" and m = False]) simp_all
    qed
  qed (use assms in auto)
qed

lemma del_fix_left:
  assumes "frame_ok h (WentLeft p b r)" "balanced q" "h = Suc (avl_height q)"
  shows "\<exists>t m. del_fix (WentLeft p b r) q = Some (t, m) \<and> balanced t \<and> inorder t = inorder q @ p # inorder r \<and>
     (if m then avl_height t = max h (avl_height r) else avl_height t = Suc (max h (avl_height r)))"
proof -
  consider "b = 1" | "b = 0" | "b = - 1" using assms(1) by fastforce
  then show ?thesis
  proof cases
    case 1
    then have h: "avl_height r = Suc (Suc (avl_height q))" using assms(1,3) by simp
    then obtain rl p1 b1 rr where r: "r = Nd rl p1 b1 rr" by (cases r) auto
    have br: "balanced (Nd rl p1 b1 rr)" using assms(1) r by simp
    have sh: "(b1 = - 1 \<and> avl_height rl = Suc (avl_height q) \<and> avl_height q = avl_height rr) \<or>
        (b1 = 0 \<and> avl_height rl = Suc (avl_height q) \<and> avl_height rr = Suc (avl_height q)) \<or>
        (b1 = 1 \<and> avl_height q = avl_height rl \<and> avl_height rr = Suc (avl_height q))"
      using balanced_shape [OF br, of "Suc (avl_height q)"] h r by auto
    then consider "b1 = 0" | "b1 = 1" | "b1 = - 1" by blast
    then show ?thesis
    proof cases
      case 3
      then have rl: "avl_height rl = Suc (avl_height q)" "avl_height rr = avl_height q" using sh by auto
      then obtain l2 p2 b2 r2 where "rl = Nd l2 p2 b2 r2" by (cases rl) auto
      with 3 \<open>b = 1\<close> assms r h rl br double_turn_ok [of l2 p2 b2 r2 "avl_height q" q rr p p1] show ?thesis
        by (intro fix_resultI [where t = "double_turn q p l2 p2 b2 r2 p1 rr" and m = True]) simp_all
    qed (use \<open>b = 1\<close> assms r h sh br in auto)
  qed (use assms in auto)
qed

lemma del_fix_right:
  assumes "frame_ok h (WentRight l p b)" "balanced q" "h = Suc (avl_height q)"
  shows "\<exists>t m. del_fix (WentRight l p b) q = Some (t, m) \<and> balanced t \<and> inorder t = inorder l @ p # inorder q \<and>
     (if m then avl_height t = max (avl_height l) h else avl_height t = Suc (max (avl_height l) h))"
proof -
  consider "b = 1" | "b = 0" | "b = - 1" using assms(1) by fastforce
  then show ?thesis
  proof cases
    case 3
    then have h: "avl_height l = Suc (Suc (avl_height q))" using assms(1,3) by simp
    then obtain ll p1 b1 lr where l: "l = Nd ll p1 b1 lr" by (cases l) auto
    have bl: "balanced (Nd ll p1 b1 lr)" using assms(1) l by simp
    have sh: "(b1 = - 1 \<and> avl_height ll = Suc (avl_height q) \<and> avl_height q = avl_height lr) \<or>
        (b1 = 0 \<and> avl_height ll = Suc (avl_height q) \<and> avl_height lr = Suc (avl_height q)) \<or>
        (b1 = 1 \<and> avl_height q = avl_height ll \<and> avl_height lr = Suc (avl_height q))"
      using balanced_shape [OF bl, of "Suc (avl_height q)"] h l by auto
    then consider "b1 = 0" | "b1 = - 1" | "b1 = 1" by blast
    then show ?thesis
    proof cases
      case 1
      then have "avl_height ll = Suc (avl_height q)" "avl_height lr = Suc (avl_height q)" using sh by auto
      moreover have df: "del_fix (WentRight l p b) q = Some (Nd ll p1 1 (Nd lr p b q), False)" using 1 \<open>b = - 1\<close> l by simp
      ultimately show ?thesis using bl assms(2) \<open>b = - 1\<close> by (intro fix_resultI [OF df]) (simp_all add: l assms(3))
    next
      case 2
      then have "avl_height ll = Suc (avl_height q)" "avl_height lr = avl_height q" using sh by auto
      moreover have df: "del_fix (WentRight l p b) q = Some (Nd ll p1 0 (Nd lr p 0 q), True)" using 2 \<open>b = - 1\<close> l by simp
      ultimately show ?thesis using bl assms(2) \<open>b = - 1\<close> by (intro fix_resultI [OF df]) (simp_all add: l assms(3))
    next
      case 3
      then have lr: "avl_height lr = Suc (avl_height q)" "avl_height ll = avl_height q" using sh by auto
      then obtain l2 p2 b2 r2 where lr': "lr = Nd l2 p2 b2 r2" by (cases lr) auto
      have "balanced (Nd l2 p2 b2 r2)" "avl_height (Nd l2 p2 b2 r2) = Suc (avl_height q)" "balanced ll"
        using bl lr(1) lr' by simp_all
      note dt = double_turn_ok [OF this lr(2) assms(2) refl, of p1 p]
      have "del_fix (WentRight l p b) q = Some (double_turn ll p1 l2 p2 b2 r2 p q, True)" using 3 \<open>b = - 1\<close> l lr' by simp
      then show ?thesis by (rule fix_resultI [OF _ dt(1)]) (use dt(2) l lr' h assms(3) in \<open>simp_all del: avl_height.simps\<close>)
    qed
  qed (use assms in auto)
qed

lemma ins_fix_ok:
  assumes "frame_ok h f" "balanced q" "avl_height q = Suc h" "grown q"
  shows "\<exists>t m. ins_fix f q = Some (t, m) \<and> balanced t \<and> inorder t = inorder (plug [f] q) \<and>
     (if m then avl_height t = Suc (frame_height h f) \<and> grown t else avl_height t = frame_height h f)"
proof (cases f)
  case (WentLeft n b r)
  then show ?thesis using ins_fix_left [OF assms(1) [unfolded WentLeft] assms(2-)] by (simp only: plug.simps inorder.simps frame_height.simps)
next
  case (WentRight l n b)
  then show ?thesis using ins_fix_right [OF assms(1) [unfolded WentRight] assms(2-)] by (simp only: plug.simps inorder.simps frame_height.simps)
qed

lemma del_fix_ok:
  assumes "frame_ok h f" "balanced q" "h = Suc (avl_height q)"
  shows "\<exists>t m. del_fix f q = Some (t, m) \<and> balanced t \<and> inorder t = inorder (plug [f] q) \<and>
     (if m then Suc (avl_height t) = frame_height h f else avl_height t = frame_height h f)"
proof (cases f)
  case (WentLeft n b r)
  then show ?thesis using del_fix_left [OF assms(1) [unfolded WentLeft] assms(2-)]
    by (simp only: plug.simps inorder.simps frame_height.simps nat.inject)
next
  case (WentRight l n b)
  then show ?thesis using del_fix_right [OF assms(1) [unfolded WentRight] assms(2-)]
    by (simp only: plug.simps inorder.simps frame_height.simps nat.inject)
qed

lemma ins_up_ok:
  assumes "path_ok h fs" "balanced q" "avl_height q = Suc h" "grown q"
  shows "\<exists>t. ins_up fs q = Some t \<and> balanced t \<and> inorder t = lefts fs @ inorder q @ rights fs"
  using assms
proof (induction fs arbitrary: h q)
  case (Cons f fs)
  have "frame_ok h f" using Cons.prems(1) by simp
  from ins_fix_ok [OF this Cons.prems(2-)]
  obtain t m where t: "ins_fix f q = Some (t, m)" "balanced t" "inorder t = inorder (plug [f] q)"
    "if m then avl_height t = Suc (frame_height h f) \<and> grown t else avl_height t = frame_height h f" by blast
  have io: "lefts fs @ inorder t @ rights fs = lefts (f # fs) @ inorder q @ rights (f # fs)"
    unfolding t(3) by (cases f) simp_all
  show ?case
  proof (cases m)
    case True
    then show ?thesis using Cons.IH [of "frame_height h f" t] Cons.prems(1) t io by auto
  next
    case False
    then show ?thesis using Cons.prems(1) t io balanced_plug [of fs t] inorder_plug [of fs t] by auto
  qed
qed simp

lemma del_up_ok:
  assumes "path_ok (Suc (avl_height q)) fs" "balanced q"
  shows "\<exists>t. del_up fs q = Some t \<and> balanced t \<and> inorder t = lefts fs @ inorder q @ rights fs"
  using assms
proof (induction fs arbitrary: q)
  case (Cons f fs)
  have "frame_ok (Suc (avl_height q)) f" using Cons.prems(1) by simp
  from del_fix_ok [OF this Cons.prems(2) refl]
  obtain t m where t: "del_fix f q = Some (t, m)" "balanced t" "inorder t = inorder (plug [f] q)"
    "if m then Suc (avl_height t) = frame_height (Suc (avl_height q)) f else avl_height t = frame_height (Suc (avl_height q)) f" by blast
  have io: "lefts fs @ inorder t @ rights fs = lefts (f # fs) @ inorder q @ rights (f # fs)"
    unfolding t(3) by (cases f) simp_all
  show ?case
  proof (cases m)
    case True
    then show ?thesis using Cons.IH [of t] Cons.prems(1) t io by auto
  next
    case False
    then show ?thesis using Cons.prems(1) t io balanced_plug [of fs t] inorder_plug [of fs t] by auto
  qed
qed simp

subsection \<open>Taking a node out\<close>

lemma avl_leftmost_ok:
  assumes "depth + length pushed + avl_height l \<le> RTEMS_BDBUF_AVL_MAX_HEIGHT"
  shows "\<exists>pu s bs sr. avl_leftmost l p bp r depth pushed = Some (pu, s, sr) \<and>
     plug pu (Nd Null s bs sr) = plug pushed (Nd l p bp r) \<and> lefts pu = lefts pushed"
  using assms
proof (induction l arbitrary: p bp r pushed)
  case (Nd l1 p1 b1 r1)
  then have "\<exists>pu s bs sr. avl_leftmost l1 p1 b1 r1 depth (WentLeft p bp r # pushed) = Some (pu, s, sr) \<and>
      plug pu (Nd Null s bs sr) = plug (WentLeft p bp r # pushed) (Nd l1 p1 b1 r1) \<and> lefts pu = lefts (WentLeft p bp r # pushed)"
    by (intro Nd.IH(1)) simp
  with Nd.prems show ?case by simp
qed auto

lemma avl_unlink_ok:
  assumes "balanced (Nd l p b r)" "path_ok (avl_height (Nd l p b r)) stack"
    "length stack + avl_height (Nd l p b r) \<le> RTEMS_BDBUF_AVL_MAX_HEIGHT"
  shows "\<exists>path q. avl_unlink stack l b r = Some (path, q) \<and> balanced q \<and> path_ok (Suc (avl_height q)) path \<and>
     lefts path @ inorder q @ rights path = lefts stack @ inorder l @ inorder r @ rights stack"
proof (cases r)
  case Null
  have "avl_with_bal 0 l = l" using assms(1) Null by (cases l) (auto simp: avl_with_bal_def)
  with Null assms show ?thesis by (simp add: avl_unlink_def)
next
  case (Nd rl p1 b1 rr)
  have len: "length stack < RTEMS_BDBUF_AVL_MAX_HEIGHT" using assms(3) by simp
  show ?thesis
  proof (cases rl)
    case Null
    with Nd assms len show ?thesis by (auto simp: avl_unlink_def)
  next
    case (Nd a n c d)
    then have "\<exists>pu s bs sr. avl_leftmost rl p1 b1 rr (length stack + 1) [] = Some (pu, s, sr) \<and> plug pu (Nd Null s bs sr) = r \<and> lefts pu = []"
      using avl_leftmost_ok [of "length stack + 1" "[]" rl p1 b1 rr] \<open>r = _\<close> assms(3) by simp
    then obtain pu s bs sr where lm: "avl_leftmost rl p1 b1 rr (length stack + 1) [] = Some (pu, s, sr)" "plug pu (Nd Null s bs sr) = r" "lefts pu = []"
      by blast
    have bal: "balanced (Nd Null s bs sr)" "path_ok (Suc (avl_height sr)) pu"
      using balanced_plug [of pu "Nd Null s bs sr"] lm(2) assms(1) by auto
    have "path_ok (avl_height (Nd Null s bs sr)) (pu @ WentRight l s b # stack)"
      unfolding path_ok_append [OF bal(1)] lm(2) using bal(2) assms(1,2) by simp
    moreover have "inorder r = lefts pu @ s # inorder sr @ rights pu" using inorder_plug [of pu "Nd Null s bs sr"] lm(2) by simp
    moreover have "lefts (pu @ WentRight l s b # stack) = lefts stack @ inorder l @ s # lefts pu" for stack
      by (induction pu rule: lefts.induct) simp_all
    moreover have "rights (pu @ WentRight l s b # stack) = rights pu @ rights stack"
      by (induction pu rule: rights.induct) simp_all
    ultimately show ?thesis using lm(1,3) Nd \<open>r = _\<close> len bal(1) by (auto simp: avl_unlink_def)
  qed
qed

subsection \<open>Height and number of nodes\<close>

text \<open>\<open>avl_min h 0 1\<close> is the least number of nodes of a tree of height \<open>h\<close>.\<close>

primrec avl_min :: "nat \<Rightarrow> nat \<Rightarrow> nat \<Rightarrow> nat" where
  "avl_min 0 a b = a"
| "avl_min (Suc h) a b = avl_min h b (Suc (a + b))"

lemma avl_min_rec: "avl_min (Suc (Suc h)) a b = Suc (avl_min h a b + avl_min (Suc h) a b)"
proof (induction h arbitrary: a b)
  case (Suc h)
  show ?case using Suc [of b "Suc (a + b)"] by (simp only: avl_min.simps(2))
qed simp

lemma avl_min_step: "avl_min h 0 1 \<le> avl_min (Suc h) 0 1"
proof (cases h)
  case (Suc k)
  then show ?thesis using avl_min_rec [of k 0 1] by simp
qed simp

lemma avl_min_le: "h \<le> k \<Longrightarrow> avl_min h 0 1 \<le> avl_min k 0 1"
  by (induction k rule: dec_induct) (use avl_min_step order_trans in blast)+

lemma avl_min_size: "balanced t \<Longrightarrow> avl_min (avl_height t) 0 1 \<le> avl_size t"
proof (induction t)
  case (Nd l n b r)
  then have l: "avl_min (avl_height l) 0 1 \<le> avl_size l" and r: "avl_min (avl_height r) 0 1 \<le> avl_size r" by auto
  let ?m = "max (avl_height l) (avl_height r)"
  show ?case
  proof (cases ?m)
    case 0
    then show ?thesis by simp
  next
    case (Suc k)
    then have "k \<le> avl_height l \<and> Suc k \<le> avl_height r \<or> Suc k \<le> avl_height l \<and> k \<le> avl_height r"
      using Nd.prems by (auto simp: max_def split: if_splits)
    then have "avl_min k 0 1 + avl_min (Suc k) 0 1 \<le> avl_size l + avl_size r"
      using l r avl_min_le by (metis add.commute add_mono order_trans)
    then show ?thesis using Suc by (simp add: avl_min_rec del: avl_min.simps(2))
  qed
qed simp

lemma avl_min_numeral: "avl_min (numeral n) a b = avl_min (pred_numeral n) b (a + b + 1)" "avl_min 1 a b = b"
  by (simp_all add: numeral_eq_Suc)

definition AVL_MAX_NODES :: nat where "AVL_MAX_NODES = 9227463"

lemma avl_height_bound:
  assumes "balanced t" "avl_size t \<le> AVL_MAX_NODES"
  shows "avl_height t \<le> RTEMS_BDBUF_AVL_MAX_HEIGHT"
proof (rule ccontr)
  assume "\<not> ?thesis"
  then have "avl_min 33 0 1 \<le> avl_size t"
    using avl_min_le [of 33 "avl_height t"] avl_min_size [OF assms(1)] by (simp add: RTEMS_BDBUF_AVL_MAX_HEIGHT_def)
  moreover have "avl_min 33 0 1 = 9227464" by (simp add: avl_min_numeral del: One_nat_def)
  ultimately show False using assms(2) by (simp add: AVL_MAX_NODES_def)
qed

lemma avl_size_inorder: "avl_size t = length (inorder t)"
  by (induction t) auto

section \<open>The tree as an index\<close>

definition has_key :: "nat \<times> nat \<Rightarrow> avl_node \<Rightarrow> bool" where
  "has_key k n \<longleftrightarrow> nkey n = k"

definition avl_map :: "avl_tree \<Rightarrow> nat \<times> nat \<Rightarrow> avl_node option" where
  "avl_map t k = find (has_key k) (inorder t)"

lemma find_none: "\<forall>n \<in> set xs. \<not> P n \<Longrightarrow> find P (xs @ ys) = find P ys"
  by (induction xs) auto

lemma find_skip: "\<not> P n \<Longrightarrow> find P (xs @ n # ys) = find P (xs @ ys)"
  by (induction xs) auto

lemma find_absent: "\<forall>n \<in> set xs. \<not> P n \<Longrightarrow> find P xs = None"
  by (induction xs) auto

lemma find_prefix: "\<forall>n \<in> set ys. \<not> P n \<Longrightarrow> find P (xs @ ys) = find P xs"
  by (induction xs) (auto simp: find_absent)

lemma avl_search_map: "ordered t \<Longrightarrow> rtems_bdbuf_avl_search t dd block = avl_map t (dd, block)"
proof (induction t)
  case (Nd l p b r)
  have o: "ordered l" "ordered r" "\<forall>n \<in> set (inorder l). nkey n < nkey p" "\<forall>n \<in> set (inorder r). nkey p < nkey n"
    using Nd.prems by (auto simp: ordered_def sorted_wrt_append)
  consider "nkey p < (dd, block)" | "nkey p = (dd, block)" | "(dd, block) < nkey p" using less_linear by blast
  then show ?case
  proof cases
    case 1
    then have "\<forall>n \<in> set (inorder l @ [p]). \<not> has_key (dd, block) n" using o(3) by (auto simp: has_key_def)
    then have "avl_map (Nd l p b r) (dd, block) = avl_map r (dd, block)"
      using find_none [of "inorder l @ [p]" "has_key (dd, block)" "inorder r"] by (simp add: avl_map_def)
    with 1 Nd.IH(2) o show ?thesis by (auto simp: key_tests)
  next
    case 2
    then have "\<forall>n \<in> set (inorder l). \<not> has_key (dd, block) n" using o(3) by (auto simp: has_key_def)
    with 2 show ?thesis by (simp add: key_tests avl_map_def find_none has_key_def)
  next
    case 3
    then have "\<forall>n \<in> set (p # inorder r). \<not> has_key (dd, block) n" using o(4) by (auto simp: has_key_def dest: less_trans)
    then have "avl_map (Nd l p b r) (dd, block) = avl_map l (dd, block)"
      by (simp add: avl_map_def find_prefix)
    with 3 Nd.IH(1) o show ?thesis by (auto simp: key_tests)
  qed
qed (simp add: avl_map_def)

lemma avl_map_split:
  assumes "\<forall>n \<in> set xs. nkey n < k" "\<forall>n \<in> set ys. k < nkey n"
  shows "find (has_key k) (xs @ ys) = None" "find (has_key k') (xs @ zs @ ys) = (if k' = k then find (has_key k) zs else find (has_key k') (xs @ zs @ ys))"
proof -
  have "\<forall>n \<in> set xs. \<not> has_key k n" "\<forall>n \<in> set ys. \<not> has_key k n" using assms by (auto simp: has_key_def)
  then show "find (has_key k) (xs @ ys) = None" "find (has_key k') (xs @ zs @ ys) = (if k' = k then find (has_key k) zs else find (has_key k') (xs @ zs @ ys))"
    by (auto simp: find_absent find_none find_prefix)
qed

lemma find_other: "nkey n \<noteq> k \<Longrightarrow> find (has_key k) (xs @ n # ys) = find (has_key k) (xs @ ys)"
  by (rule find_skip) (simp add: has_key_def)

definition avl_inv :: "avl_tree \<Rightarrow> bool" where
  "avl_inv t \<longleftrightarrow> balanced t \<and> ordered t"

lemma avl_insert_law:
  assumes "avl_inv t" "avl_size t \<le> AVL_MAX_NODES"
  shows "\<exists>t'. rtems_bdbuf_avl_insert t n = Some (t', if avl_map t (nkey n) = None then 0 else - 1) \<and> avl_inv t' \<and>
     avl_size t' \<le> Suc (avl_size t) \<and> avl_map t' = (if avl_map t (nkey n) = None then (avl_map t)(nkey n \<mapsto> n) else avl_map t)"
proof -
  have inv: "balanced t" "ordered t" using assms(1) by (auto simp: avl_inv_def)
  obtain fs u where d: "avl_descend t (nd_dd n) (nd_block n) [] = Some (fs, u)" "plug fs u = t"
      "\<forall>m \<in> set (lefts fs). nkey m < nkey n" "\<forall>m \<in> set (rights fs). nkey n < nkey m"
      "case u of Null \<Rightarrow> True | Nd l m b r \<Rightarrow> nkey m = nkey n"
    using avl_descend_ok [of "[]" t "nd_dd n" "nd_block n"] avl_height_bound [OF inv(1) assms(2)] inv(2) by auto
  have io: "inorder t = lefts fs @ inorder u @ rights fs" using inorder_plug [of fs u] d(2) by simp
  show ?thesis
  proof (cases u)
    case Null
    have absent: "avl_map t (nkey n) = None" using avl_map_split(1) [OF d(3,4)] io Null by (simp add: avl_map_def)
    obtain t' where t': "ins_up fs (Nd Null n 0 Null) = Some t'" "balanced t'" "inorder t' = lefts fs @ [n] @ rights fs"
      using ins_up_ok [of 0 fs "Nd Null n 0 Null"] balanced_plug [of fs u] inv(1) d(2) Null by auto
    have "ordered t'" using inv(2) io Null d(3,4) unfolding ordered_def t'(3) by (auto simp: sorted_wrt_append)
    moreover have "avl_map t' = (avl_map t)(nkey n \<mapsto> n)"
    proof
      fix k
      show "avl_map t' k = ((avl_map t)(nkey n \<mapsto> n)) k"
        using avl_map_split(2) [OF d(3,4), of "nkey n" "[n]"] find_other [of n k "lefts fs" "rights fs"]
        by (cases "k = nkey n") (auto simp: avl_map_def t'(3) io Null has_key_def)
    qed
    moreover have "avl_size t' = Suc (avl_size t)" using io t'(3) Null by (simp add: avl_size_inorder)
    ultimately show ?thesis using d(1) Null t' absent by (simp add: rtems_bdbuf_avl_insert_def avl_inv_def)
  next
    case (Nd l m b r)
    then have "m \<in> set (inorder t)" "has_key (nkey n) m" using io d(5) by (auto simp: has_key_def)
    then have "avl_map t (nkey n) \<noteq> None" by (auto simp: avl_map_def find_None_iff)
    with d(1) Nd assms(1) show ?thesis by (auto simp: rtems_bdbuf_avl_insert_def)
  qed
qed

lemma avl_remove_law:
  assumes "avl_inv t" "avl_size t \<le> AVL_MAX_NODES"
  shows "\<exists>t'. rtems_bdbuf_avl_remove t n = Some (t', if avl_map t (nkey n) = None then - 1 else 0) \<and> avl_inv t' \<and>
     avl_size t' \<le> avl_size t \<and> avl_map t' = (avl_map t)(nkey n := None)"
proof -
  have inv: "balanced t" "ordered t" using assms(1) by (auto simp: avl_inv_def)
  obtain fs u where d: "avl_descend t (nd_dd n) (nd_block n) [] = Some (fs, u)" "plug fs u = t" "length fs + avl_height u \<le> avl_height t"
      "\<forall>m \<in> set (lefts fs). nkey m < nkey n" "\<forall>m \<in> set (rights fs). nkey n < nkey m"
      "case u of Null \<Rightarrow> True | Nd l m b r \<Rightarrow> nkey m = nkey n"
    using avl_descend_ok [of "[]" t "nd_dd n" "nd_block n"] avl_height_bound [OF inv(1) assms(2)] inv(2) by auto
  have io: "inorder t = lefts fs @ inorder u @ rights fs" using inorder_plug [of fs u] d(2) by simp
  show ?thesis
  proof (cases u)
    case Null
    then have "avl_map t (nkey n) = None" using avl_map_split(1) [OF d(4,5)] io by (simp add: avl_map_def)
    moreover from this have "(avl_map t)(nkey n := None) = avl_map t" by auto
    ultimately show ?thesis using d(1) Null assms(1) by (auto simp: rtems_bdbuf_avl_remove_def)
  next
    case (Nd l m b r)
    have key: "nkey m = nkey n" using d(6) Nd by simp
    have "\<exists>path q. avl_unlink fs l b r = Some (path, q) \<and> balanced q \<and> path_ok (Suc (avl_height q)) path \<and>
        lefts path @ inorder q @ rights path = lefts fs @ inorder l @ inorder r @ rights fs"
      using avl_unlink_ok [of l m b r fs] balanced_plug [of fs u] inv(1) d(2,3) Nd avl_height_bound [OF inv(1) assms(2)] by simp
    then obtain path q where u: "avl_unlink fs l b r = Some (path, q)" "balanced q" "path_ok (Suc (avl_height q)) path"
        "lefts path @ inorder q @ rights path = lefts fs @ inorder l @ inorder r @ rights fs" by blast
    obtain t' where t': "del_up path q = Some t'" "balanced t'" "inorder t' = lefts fs @ inorder l @ inorder r @ rights fs"
      using del_up_ok [OF u(3,2)] u(4) by auto
    let ?xs = "lefts fs @ inorder l" and ?ys = "inorder r @ rights fs"
    have iom: "inorder t = ?xs @ m # ?ys" "inorder t' = ?xs @ ?ys" using io Nd t'(3) by simp_all
    then have sep: "\<forall>x \<in> set ?xs. nkey x < nkey n" "\<forall>x \<in> set ?ys. nkey n < nkey x" and o: "ordered t'"
      using inv(2) key unfolding ordered_def iom by (auto simp: sorted_wrt_append)
    have "avl_map t' = (avl_map t)(nkey n := None)"
    proof
      fix k
      show "avl_map t' k = ((avl_map t)(nkey n := None)) k"
        using avl_map_split(1) [OF sep] find_other [of m k ?xs ?ys] key by (cases "k = nkey n") (auto simp: avl_map_def iom)
    qed
    moreover have "avl_map t (nkey n) \<noteq> None" using iom(1) key by (auto simp: avl_map_def find_None_iff has_key_def)
    moreover have "avl_size t' \<le> avl_size t" using iom by (simp add: avl_size_inorder)
    ultimately show ?thesis using d(1) Nd u t' o by (simp add: rtems_bdbuf_avl_remove_def avl_inv_def)
  qed
qed

text \<open>What the cache relies on, for any index with a bounded number of entries.\<close>

datatype 'n index_op = Add 'n | Remove 'n

fun index_spec :: "('n \<Rightarrow> 'k) \<Rightarrow> 'n index_op \<Rightarrow> ('k \<rightharpoonup> 'n) \<Rightarrow> ('k \<rightharpoonup> 'n) \<times> int" where
  "index_spec key (Add n) m = (if m (key n) = None then (m(key n \<mapsto> n), 0) else (m, - 1))"
| "index_spec key (Remove n) m = (m(key n := None), if m (key n) = None then - 1 else 0)"

fun spec_run :: "('n \<Rightarrow> 'k) \<Rightarrow> 'n index_op list \<Rightarrow> ('k \<rightharpoonup> 'n) \<Rightarrow> ('k \<rightharpoonup> 'n) \<times> int list" where
  "spec_run key [] m = (m, [])"
| "spec_run key (x # xs) m = (let (m1, e) = index_spec key x m; (m2, es) = spec_run key xs m1 in (m2, e # es))"

fun index_run :: "('t \<Rightarrow> 'n \<Rightarrow> ('t \<times> int) option) \<Rightarrow> ('t \<Rightarrow> 'n \<Rightarrow> ('t \<times> int) option) \<Rightarrow>
    'n index_op list \<Rightarrow> 't \<Rightarrow> ('t \<times> int list) option" where
  "index_run add del [] t = Some (t, [])"
| "index_run add del (x # xs) t =
     do {
       (t1, e) \<leftarrow> (case x of Add n \<Rightarrow> add t n | Remove n \<Rightarrow> del t n);
       (t2, es) \<leftarrow> index_run add del xs t1;
       Some (t2, e # es)
     }"

locale bounded_index =
  fixes inv :: "'t \<Rightarrow> bool" and entries :: "'t \<Rightarrow> nat" and cap :: nat and key :: "'n \<Rightarrow> 'k"
    and look :: "'t \<Rightarrow> 'k \<Rightarrow> 'n option"
    and add :: "'t \<Rightarrow> 'n \<Rightarrow> ('t \<times> int) option" and del :: "'t \<Rightarrow> 'n \<Rightarrow> ('t \<times> int) option"
  assumes add_law: "inv t \<Longrightarrow> entries t \<le> cap \<Longrightarrow>
      \<exists>t'. add t n = Some (t', if look t (key n) = None then 0 else - 1) \<and> inv t' \<and> entries t' \<le> Suc (entries t) \<and>
        look t' = (if look t (key n) = None then (look t)(key n \<mapsto> n) else look t)"
    and remove_law: "inv t \<Longrightarrow> entries t \<le> cap \<Longrightarrow>
      \<exists>t'. del t n = Some (t', if look t (key n) = None then - 1 else 0) \<and> inv t' \<and> entries t' \<le> entries t \<and>
        look t' = (look t)(key n := None)"
begin

lemma index_step:
  assumes "inv t" "entries t \<le> cap"
  shows "\<exists>t'. (case x of Add n \<Rightarrow> add t n | Remove n \<Rightarrow> del t n) = Some (t', snd (index_spec key x (look t))) \<and> inv t' \<and>
     entries t' \<le> Suc (entries t) \<and> look t' = fst (index_spec key x (look t))"
proof (cases x)
  case (Add n)
  then show ?thesis using add_law [OF assms, of n] by auto
next
  case (Remove n)
  then show ?thesis using remove_law [OF assms, of n] by fastforce
qed

lemma index_run_refines:
  assumes "inv t" "entries t + length xs \<le> Suc cap"
  shows "\<exists>t'. index_run add del xs t = Some (t', snd (spec_run key xs (look t))) \<and> inv t' \<and> look t' = fst (spec_run key xs (look t))"
  using assms
proof (induction xs arbitrary: t)
  case (Cons x xs)
  obtain t1 where t1: "(case x of Add n \<Rightarrow> add t n | Remove n \<Rightarrow> del t n) = Some (t1, snd (index_spec key x (look t)))" "inv t1"
      "entries t1 \<le> Suc (entries t)" "look t1 = fst (index_spec key x (look t))"
    using index_step [of t x] Cons.prems by auto
  obtain t2 where "index_run add del xs t1 = Some (t2, snd (spec_run key xs (look t1)))" "inv t2" "look t2 = fst (spec_run key xs (look t1))"
    using Cons.IH [of t1] t1 Cons.prems by auto
  with t1 show ?case by (auto simp: split_beta Let_def)
qed auto

end

interpretation av: bounded_index avl_inv avl_size AVL_MAX_NODES nkey avl_map rtems_bdbuf_avl_insert rtems_bdbuf_avl_remove
  by unfold_locales (use avl_insert_law avl_remove_law in blast)+

text \<open>
  C10. The AVL tree is a map from device blocks to buffers: from the empty tree, any sequence of at most 9227464 insertions and
  removals completes without leaving the path array or following a null pointer, returns 0 or -1 exactly as the same updates
  of a map would, and leaves a balanced search tree in which \<^verbatim>\<open>rtems_bdbuf_avl_search\<close> finds what the map holds.
\<close>

theorem avl_refines_map:
  assumes "length xs \<le> Suc AVL_MAX_NODES"
  shows "\<exists>t. index_run rtems_bdbuf_avl_insert rtems_bdbuf_avl_remove xs Null = Some (t, snd (spec_run nkey xs Map.empty)) \<and>
     balanced t \<and> ordered t \<and> (\<forall>dd block. rtems_bdbuf_avl_search t dd block = fst (spec_run nkey xs Map.empty) (dd, block))"
proof -
  have "avl_inv Null" "avl_map Null = Map.empty" by (auto simp: avl_inv_def ordered_def avl_map_def)
  with av.index_run_refines [of Null xs] assms show ?thesis by (auto simp: avl_inv_def avl_search_map)
qed

theorem avl_refines_map_witness:
  "\<exists>t. index_run rtems_bdbuf_avl_insert rtems_bdbuf_avl_remove
       (map (\<lambda>k. Add \<lparr>nd_dd = 1, nd_block = k, nd_buf = k\<rparr>) [1, 2, 3] @ [Remove \<lparr>nd_dd = 1, nd_block = 2, nd_buf = 0\<rparr>]) Null =
         Some (t, [0, 0, 0, 0]) \<and> rtems_bdbuf_avl_search t 1 2 = None \<and> rtems_bdbuf_avl_search t 1 3 = Some \<lparr>nd_dd = 1, nd_block = 3, nd_buf = 3\<rparr>"
  using avl_refines_map [of "map (\<lambda>k. Add \<lparr>nd_dd = 1, nd_block = k, nd_buf = k\<rparr>) [1, 2, 3] @ [Remove \<lparr>nd_dd = 1, nd_block = 2, nd_buf = 0\<rparr>]"]
  by (auto simp: AVL_MAX_NODES_def Let_def simp del: index_run.simps)

end
