(* ===== verification/TimerList.thy ===== *)
theory TimerList
  imports Prelude
begin

text \<open>
  \<^verbatim>\<open>basework/lib/timer/timer_list.c\<close>: software timers in a list ordered by expiry, each storing the
  ticks after the timer before it. Timers are identified by number; \<open>tl_mem\<close> is the memory of the
  timer structures and \<open>tl_nodes\<close> the linked list. \<^verbatim>\<open>long\<close> is a signed 32-bit integer whose overflow
  is undefined behaviour, written \<^const>\<open>None\<close>. An expiry function is a parameter that may change the
  timers and a context of its own.
\<close>

section \<open>State and operations\<close>

datatype timer_state = TIMER_STATE_IDLE | TIMER_STATE_INSERT | TIMER_STATE_ACTIVED | TIMER_STATE_INVALID

record timer =
  t_expires :: int
  t_state :: timer_state
  t_fn :: nat
  t_arg :: nat

record timers =
  tl_nodes :: "nat list"
  tl_mem :: "nat \<Rightarrow> timer"

definition long_val :: "int \<Rightarrow> int option" where
  "long_val x = (if - (2 ^ 31) \<le> x \<and> x < 2 ^ 31 then Some x else None)"

definition timer_first :: "timers \<Rightarrow> nat option" where
  "timer_first s = (case tl_nodes s of [] \<Rightarrow> None | t # _ \<Rightarrow> Some t)"

definition set_expires :: "nat \<Rightarrow> int \<Rightarrow> (nat \<Rightarrow> timer) \<Rightarrow> nat \<Rightarrow> timer" where
  "set_expires t x m = m(t := (m t)\<lparr>t_expires := x\<rparr>)"

definition set_state :: "nat \<Rightarrow> timer_state \<Rightarrow> (nat \<Rightarrow> timer) \<Rightarrow> nat \<Rightarrow> timer" where
  "set_state t st m = m(t := (m t)\<lparr>t_state := st\<rparr>)"

text \<open>The walk to the first timer that expires later: what it leaves before and after the new timer.\<close>

fun add_walk :: "(nat \<Rightarrow> timer) \<Rightarrow> nat list \<Rightarrow> int \<Rightarrow> (nat list \<times> nat list \<times> (nat \<Rightarrow> timer) \<times> int) option" where
  "add_walk m [] expires = Some ([], [], m, expires)"
| "add_walk m (n # ns) expires =
     (if expires < t_expires (m n)
      then do { x \<leftarrow> long_val (t_expires (m n) - expires); Some ([], n # ns, set_expires n x m, expires) }
      else do {
        x \<leftarrow> long_val (expires - t_expires (m n));
        (before, after, m', x') \<leftarrow> add_walk m ns x;
        Some (n # before, after, m', x')
      })"

definition timer_add_locked :: "timers \<Rightarrow> nat \<Rightarrow> int \<Rightarrow> (timers \<times> int) option" where
  "timer_add_locked s t expires =
     (if t_state (tl_mem s t) \<noteq> TIMER_STATE_IDLE then Some (s, - EBUSY)
      else do {
        (before, after, m, x) \<leftarrow> add_walk (set_state t TIMER_STATE_INSERT (tl_mem s)) (tl_nodes s) expires;
        Some (s\<lparr>tl_nodes := before @ t # after, tl_mem := set_state t TIMER_STATE_ACTIVED (set_expires t x m)\<rparr>, 0)
      })"

text \<open>Unlinking a node that is in no list would follow stale pointers.\<close>

definition timer_remove_locked :: "timers \<Rightarrow> nat \<Rightarrow> (timers \<times> int) option" where
  "timer_remove_locked s t =
     (if t_state (tl_mem s t) = TIMER_STATE_IDLE then Some (s, 0)
      else case dropWhile (\<lambda>n. n \<noteq> t) (tl_nodes s) of
        [] \<Rightarrow> None
      | [_] \<Rightarrow> Some (s\<lparr>tl_nodes := remove1 t (tl_nodes s), tl_mem := set_state t TIMER_STATE_IDLE (tl_mem s)\<rparr>, 1)
      | _ # nxt # _ \<Rightarrow>
          do {
            x \<leftarrow> long_val (t_expires (tl_mem s nxt) + t_expires (tl_mem s t));
            Some (s\<lparr>tl_nodes := remove1 t (tl_nodes s),
                    tl_mem := set_state t TIMER_STATE_IDLE (set_expires nxt x (tl_mem s))\<rparr>, 1)
          })"

type_synonym 'c expired_fn = "nat \<Rightarrow> nat \<Rightarrow> timers \<Rightarrow> 'c \<Rightarrow> (timers \<times> 'c) option"

text \<open>The loop over the expired timers; \<open>t\<close> is the first one. It returns the remaining ticks.\<close>

partial_function (option) schedule_loop ::
    "(nat \<Rightarrow> 'c expired_fn) \<Rightarrow> timers \<Rightarrow> 'c \<Rightarrow> nat \<Rightarrow> int \<Rightarrow> (timers \<times> 'c \<times> nat option \<times> int) option" where
  "schedule_loop fns s c t expires =
     do {
       let s1 = s\<lparr>tl_nodes := remove1 t (tl_nodes s)\<rparr>;
       expires1 \<leftarrow> long_val (expires - t_expires (tl_mem s t));
       (s2, c2) \<leftarrow> fns (t_fn (tl_mem s t)) t (t_arg (tl_mem s t))
                      (s1\<lparr>tl_mem := set_state t TIMER_STATE_IDLE (tl_mem s1)\<rparr>) c;
       case timer_first s2 of
         None \<Rightarrow> Some (s2, c2, None, expires1)
       | Some t' \<Rightarrow>
           if t_expires (tl_mem s2 t') \<le> expires1 then schedule_loop fns s2 c2 t' expires1
           else Some (s2, c2, Some t', expires1)
     }"

definition timer_schedule :: "(nat \<Rightarrow> 'c expired_fn) \<Rightarrow> timers \<Rightarrow> 'c \<Rightarrow> int \<Rightarrow> (timers \<times> 'c \<times> int) option" where
  "timer_schedule fns s c expires =
     (case timer_first s of
        None \<Rightarrow> Some (s, c, 0)
      | Some t \<Rightarrow>
          do {
            (s1, c1, nxt, left) \<leftarrow> (if t_expires (tl_mem s t) > expires then Some (s, c, Some t, expires)
                                    else schedule_loop fns s c t expires);
            case nxt of
              None \<Rightarrow> Some (s1, c1, 0)
            | Some t' \<Rightarrow>
                do {
                  x \<leftarrow> long_val (t_expires (tl_mem s1 t') - left);
                  Some (s1\<lparr>tl_mem := set_expires t' x (tl_mem s1)\<rparr>, c1, x)
                }
          })"

definition timer_init :: "timers \<Rightarrow> nat \<Rightarrow> nat \<Rightarrow> nat \<Rightarrow> timers" where
  "timer_init s t fn arg =
     s\<lparr>tl_mem := (tl_mem s)(t := \<lparr>t_expires = 0, t_state = TIMER_STATE_IDLE, t_fn = fn, t_arg = arg\<rparr>)\<rparr>"

definition timer_mod :: "timers \<Rightarrow> nat \<Rightarrow> int \<Rightarrow> (timers \<times> int) option" where
  "timer_mod s t expires =
     do {
       (s1, pending) \<leftarrow> timer_remove_locked s t;
       timer_add_locked s1 t expires
     }"

definition timer_add :: "timers \<Rightarrow> nat \<Rightarrow> int \<Rightarrow> (timers \<times> int) option" where
  "timer_add s t expires = timer_add_locked s t expires"

definition timer_del :: "timers \<Rightarrow> nat \<Rightarrow> (timers \<times> int) option" where
  "timer_del s t = timer_remove_locked s t"

definition timer_visit :: "(timer \<Rightarrow> 'c \<Rightarrow> 'c) option \<Rightarrow> timers \<Rightarrow> 'c \<Rightarrow> 'c \<times> int" where
  "timer_visit visitor s c =
     (case visitor of
        None \<Rightarrow> (c, - EINVAL)
      | Some v \<Rightarrow> (fold (\<lambda>n. v (tl_mem s n)) (tl_nodes s) c, 0))"

section \<open>Deadlines\<close>

text \<open>The absolute expiry times the list stands for.\<close>

fun deadlines :: "(nat \<Rightarrow> timer) \<Rightarrow> nat list \<Rightarrow> int \<Rightarrow> (nat \<times> int) list" where
  "deadlines m [] now = []"
| "deadlines m (n # ns) now = (n, now + t_expires (m n)) # deadlines m ns (now + t_expires (m n))"

abbreviation schedule_of :: "timers \<Rightarrow> (nat \<times> int) list" where
  "schedule_of s \<equiv> deadlines (tl_mem s) (tl_nodes s) 0"

definition timers_inv :: "timers \<Rightarrow> bool" where
  "timers_inv s \<longleftrightarrow> distinct (tl_nodes s) \<and> (\<forall>t. t \<in> set (tl_nodes s) \<longleftrightarrow> t_state (tl_mem s t) \<noteq> TIMER_STATE_IDLE) \<and>
     (\<forall>n \<in> set (tl_nodes s). 0 \<le> t_expires (tl_mem s n)) \<and> (\<forall>(n, d) \<in> set (schedule_of s). d < 2 ^ 31)"

fun sched_insert :: "nat \<Rightarrow> int \<Rightarrow> (nat \<times> int) list \<Rightarrow> (nat \<times> int) list" where
  "sched_insert t d [] = [(t, d)]"
| "sched_insert t d ((n, x) # q) = (if d < x then (t, d) # (n, x) # q else (n, x) # sched_insert t d q)"

lemma deadlines_cong: "(\<And>n. n \<in> set ns \<Longrightarrow> t_expires (m n) = t_expires (m' n)) \<Longrightarrow> deadlines m ns now = deadlines m' ns now"
  by (induction ns arbitrary: now) auto

lemma map_fst_deadlines [simp]: "map fst (deadlines m ns now) = ns"
  by (induction ns arbitrary: now) auto

lemma deadlines_shift: "deadlines m ns (now + k) = map (\<lambda>(n, d). (n, d + k)) (deadlines m ns now)"
proof (induction ns arbitrary: now)
  case (Cons n ns)
  show ?case using Cons [of "now + t_expires (m n)"] by (simp add: algebra_simps)
qed simp

lemma deadlines_ge: "\<lbrakk>\<forall>n \<in> set ns. 0 \<le> t_expires (m n); (n, d) \<in> set (deadlines m ns now)\<rbrakk> \<Longrightarrow> now \<le> d"
  by (induction ns arbitrary: now) fastforce+

lemma deadlines_append:
  "deadlines m (xs @ ys) now = deadlines m xs now @ deadlines m ys (now + (\<Sum>n\<leftarrow>xs. t_expires (m n)))"
  by (induction xs arbitrary: now) (simp_all add: add.assoc)

lemma expires_le_deadline:
  assumes "\<forall>n \<in> set ns. 0 \<le> t_expires (m n)" "n \<in> set ns" "0 \<le> now"
  shows "\<exists>d. (n, d) \<in> set (deadlines m ns now) \<and> t_expires (m n) \<le> d"
  using assms
proof (induction ns arbitrary: now)
  case (Cons a ns)
  show ?case
  proof (cases "n = a")
    case False
    then show ?thesis using Cons.IH [of "now + t_expires (m a)"] Cons.prems by auto
  qed (use Cons.prems in auto)
qed simp

lemma timers_inv_bound:
  assumes "timers_inv s" "n \<in> set (tl_nodes s)"
  shows "0 \<le> t_expires (tl_mem s n)" "t_expires (tl_mem s n) < 2 ^ 31"
proof -
  show "0 \<le> t_expires (tl_mem s n)" using assms by (simp add: timers_inv_def)
  obtain d where "(n, d) \<in> set (schedule_of s)" "t_expires (tl_mem s n) \<le> d"
    using expires_le_deadline [of "tl_nodes s" "tl_mem s" n 0] assms by (auto simp: timers_inv_def)
  then show "t_expires (tl_mem s n) < 2 ^ 31" using assms by (fastforce simp: timers_inv_def)
qed

lemma set_expires_simps [simp]:
  "t_expires (set_expires t x m n) = (if n = t then x else t_expires (m n))"
  "t_state (set_expires t x m n) = t_state (m n)" "n \<noteq> t \<Longrightarrow> set_expires t x m n = m n"
  "t_fn (set_expires t x m n) = t_fn (m n)" "t_arg (set_expires t x m n) = t_arg (m n)"
  by (auto simp: set_expires_def)

lemma set_state_simps [simp]:
  "t_state (set_state t st m n) = (if n = t then st else t_state (m n))"
  "t_expires (set_state t st m n) = t_expires (m n)"
  "t_fn (set_state t st m n) = t_fn (m n)" "t_arg (set_state t st m n) = t_arg (m n)"
  by (auto simp: set_state_def)

lemma deadlines_set_state [simp]: "deadlines (set_state t st m) ns now = deadlines m ns now"
  by (rule deadlines_cong) simp

lemma deadlines_set_expires [simp]: "t \<notin> set ns \<Longrightarrow> deadlines (set_expires t x m) ns now = deadlines m ns now"
  by (rule deadlines_cong) auto

lemma set_sched_insert: "set (sched_insert t d q) = insert (t, d) (set q)"
  by (induction t d q rule: sched_insert.induct) auto

subsection \<open>Starting a timer\<close>

lemma add_walk_frame: "add_walk m ns e = Some (before, after, m', x) \<Longrightarrow> k \<notin> set ns \<Longrightarrow> m' k = m k"
  by (induction ns arbitrary: e before after m' x) (auto simp: Option.bind_eq_Some_conv split: if_splits)

lemma add_walk_ok:
  assumes "distinct ns" "\<forall>n \<in> set ns. 0 \<le> t_expires (m n) \<and> t_expires (m n) < 2 ^ 31" "0 \<le> e" "e < 2 ^ 31" "t \<notin> set ns"
  shows "\<exists>before after m' x. add_walk m ns e = Some (before, after, m', x) \<and> before @ after = ns \<and> 0 \<le> x \<and>
     (\<forall>n. t_state (m' n) = t_state (m n)) \<and> (\<forall>n \<in> set ns. 0 \<le> t_expires (m' n)) \<and>
     deadlines (set_expires t x m') (before @ t # after) now = sched_insert t (now + e) (deadlines m ns now)"
  using assms
proof (induction ns arbitrary: e now)
  case Nil
  then show ?case by simp
next
  case (Cons n ns)
  show ?case
  proof (cases "e < t_expires (m n)")
    case True
    with Cons.prems show ?thesis by (simp add: long_val_def)
  next
    case False
    then have r: "long_val (e - t_expires (m n)) = Some (e - t_expires (m n))" "0 \<le> e - t_expires (m n)" "e - t_expires (m n) < 2 ^ 31"
      using Cons.prems by (auto simp: long_val_def)
    obtain before after m' x where w: "add_walk m ns (e - t_expires (m n)) = Some (before, after, m', x)" "before @ after = ns" "0 \<le> x"
        "\<forall>n. t_state (m' n) = t_state (m n)" "\<forall>n \<in> set ns. 0 \<le> t_expires (m' n)"
        "deadlines (set_expires t x m') (before @ t # after) (now + t_expires (m n)) = sched_insert t (now + e) (deadlines m ns (now + t_expires (m n)))"
      using Cons.IH [of "e - t_expires (m n)" "now + t_expires (m n)"] Cons.prems r by auto
    have "t_expires (m' n) = t_expires (m n)" using add_walk_frame [OF w(1)] Cons.prems by simp
    with False r w Cons.prems show ?thesis by auto
  qed
qed

lemma timer_add_law:
  assumes "timers_inv s" "0 \<le> e" "e < 2 ^ 31"
  shows "\<exists>s'. timer_add s t e = Some (s', if t \<in> fst ` set (schedule_of s) then - EBUSY else 0) \<and> timers_inv s' \<and>
     schedule_of s' = (if t \<in> fst ` set (schedule_of s) then schedule_of s else sched_insert t e (schedule_of s))"
proof -
  have mem: "t \<in> fst ` set (schedule_of s) \<longleftrightarrow> t_state (tl_mem s t) \<noteq> TIMER_STATE_IDLE"
    using assms(1) by (simp add: timers_inv_def flip: set_map)
  show ?thesis
  proof (cases "t_state (tl_mem s t) = TIMER_STATE_IDLE")
    case False
    then show ?thesis using mem assms(1) by (simp add: timer_add_def timer_add_locked_def)
  next
    case True
    let ?m = "set_state t TIMER_STATE_INSERT (tl_mem s)"
    have t: "t \<notin> set (tl_nodes s)" "distinct (tl_nodes s)" using assms(1) True by (auto simp: timers_inv_def)
    have ex: "\<forall>n \<in> set (tl_nodes s). 0 \<le> t_expires (?m n) \<and> t_expires (?m n) < 2 ^ 31" using timers_inv_bound [OF assms(1)] by simp
    obtain before after m' x where w: "add_walk ?m (tl_nodes s) e = Some (before, after, m', x)" "before @ after = tl_nodes s" "0 \<le> x"
        "\<forall>n. t_state (m' n) = t_state (?m n)" "\<forall>n \<in> set (tl_nodes s). 0 \<le> t_expires (m' n)"
        "deadlines (set_expires t x m') (before @ t # after) 0 = sched_insert t e (schedule_of s)"
      using add_walk_ok [OF t(2) ex assms(2,3) t(1), of 0] by auto
    let ?s = "s\<lparr>tl_nodes := before @ t # after, tl_mem := set_state t TIMER_STATE_ACTIVED (set_expires t x m')\<rparr>"
    have nodes: "set (before @ t # after) = insert t (set (tl_nodes s))" "distinct (before @ t # after)"
      using w(2) t by (auto simp flip: w(2))
    have "timers_inv ?s" unfolding timers_inv_def
    proof (intro conjI)
      show "\<forall>k. k \<in> set (tl_nodes ?s) \<longleftrightarrow> t_state (tl_mem ?s k) \<noteq> TIMER_STATE_IDLE"
        using nodes(1) w(4) assms(1) by (auto simp: timers_inv_def)
      show "\<forall>(n, d) \<in> set (schedule_of ?s). d < 2 ^ 31" using w(6) assms by (auto simp: set_sched_insert timers_inv_def)
    qed (use nodes w in auto)
    with True w mem show ?thesis by (simp add: timer_add_def timer_add_locked_def)
  qed
qed

subsection \<open>Stopping a timer\<close>

text \<open>Taking a linked timer out leaves the expiry times of the others.\<close>

lemma timer_unlink:
  assumes "timers_inv s" and ns: "tl_nodes s = pre @ t # post"
  shows "\<exists>m'. timer_remove_locked s t = Some (s\<lparr>tl_nodes := pre @ post, tl_mem := set_state t TIMER_STATE_IDLE m'\<rparr>, 1) \<and>
        (\<forall>n. t_state (m' n) = t_state (tl_mem s n)) \<and> (\<forall>n \<in> set (pre @ post). 0 \<le> t_expires (m' n)) \<and>
        deadlines m' (pre @ post) 0 =
          deadlines (tl_mem s) pre 0 @ deadlines (tl_mem s) post ((\<Sum>n\<leftarrow>pre. t_expires (tl_mem s n)) + t_expires (tl_mem s t))"
proof -
  let ?m = "tl_mem s" and ?p = "\<Sum>n\<leftarrow>pre. t_expires (tl_mem s n)"
  have d: "distinct (pre @ t # post)" "t_state (?m t) \<noteq> TIMER_STATE_IDLE" "\<forall>n \<in> set (tl_nodes s). 0 \<le> t_expires (?m n)"
    using assms by (auto simp: timers_inv_def)
  have dw: "dropWhile (\<lambda>n. n \<noteq> t) (pre @ t # post) = t # post" by (subst dropWhile_append2) (use d in auto)
  have rm: "remove1 t (pre @ t # post) = pre @ post" using d by (simp add: remove1_append)
  show ?thesis
  proof (cases post)
    case Nil
    then show ?thesis using d dw rm ns by (auto simp: timer_remove_locked_def intro!: exI [of _ ?m])
  next
    case (Cons n post')
    have "(n, ?p + t_expires (?m t) + t_expires (?m n)) \<in> set (schedule_of s)"
      using ns Cons by (simp add: deadlines_append)
    then have "?p + t_expires (?m t) + t_expires (?m n) < 2 ^ 31" using assms by (auto simp: timers_inv_def)
    moreover have "0 \<le> ?p" using d(3) ns by (intro sum_list_nonneg) auto
    ultimately have lv: "long_val (t_expires (?m n) + t_expires (?m t)) = Some (t_expires (?m n) + t_expires (?m t))"
      using timers_inv_bound [OF assms(1), of n] timers_inv_bound [OF assms(1), of t] ns Cons by (simp add: long_val_def)
    let ?m' = "set_expires n (t_expires (?m n) + t_expires (?m t)) ?m"
    have n: "n \<notin> set pre" "n \<notin> set post'" using d Cons by auto
    have "(\<Sum>k\<leftarrow>pre. t_expires (?m' k)) = ?p" using n by (intro arg_cong [of _ _ sum_list] map_cong) auto
    then have "deadlines ?m' (pre @ post) 0 = deadlines ?m pre 0 @ deadlines ?m post (?p + t_expires (?m t))"
      using n Cons by (simp add: deadlines_append algebra_simps)
    then show ?thesis using lv d dw rm ns Cons by (auto simp: timer_remove_locked_def intro!: exI [of _ ?m'])
  qed
qed

lemma filter_deadlines:
  assumes "t \<notin> set pre" "t \<notin> set post"
  shows "filter (\<lambda>(n, d). n \<noteq> t) (deadlines m (pre @ t # post) now) =
    deadlines m pre now @ deadlines m post (now + (\<Sum>n\<leftarrow>pre. t_expires (m n)) + t_expires (m t))"
proof -
  have "filter (\<lambda>(n, d). n \<noteq> t) (deadlines m xs x) = deadlines m xs x" if "t \<notin> set xs" for xs x
    using that by (induction xs arbitrary: x) auto
  with assms show ?thesis by (simp add: deadlines_append)
qed

lemma timer_del_law:
  assumes "timers_inv s"
  shows "\<exists>s'. timer_del s t = Some (s', if t \<in> fst ` set (schedule_of s) then 1 else 0) \<and> timers_inv s' \<and>
     schedule_of s' = filter (\<lambda>(n, d). n \<noteq> t) (schedule_of s) \<and> t_state (tl_mem s' t) = TIMER_STATE_IDLE"
proof -
  have mem: "t \<in> fst ` set (schedule_of s) \<longleftrightarrow> t_state (tl_mem s t) \<noteq> TIMER_STATE_IDLE"
    and mem': "t \<in> set (tl_nodes s) \<longleftrightarrow> t_state (tl_mem s t) \<noteq> TIMER_STATE_IDLE"
    using assms by (simp_all add: timers_inv_def flip: set_map)
  show ?thesis
  proof (cases "t_state (tl_mem s t) = TIMER_STATE_IDLE")
    case True
    then have "filter (\<lambda>(n, d). n \<noteq> t) (schedule_of s) = schedule_of s" using mem by (force simp: filter_id_conv)
    with True mem assms show ?thesis by (simp add: timer_del_def timer_remove_locked_def)
  next
    case False
    then obtain pre post where ns: "tl_nodes s = pre @ t # post" using mem' by (meson split_list)
    then have tpp: "t \<notin> set pre" "t \<notin> set post" "distinct (pre @ post)" using assms by (auto simp: timers_inv_def)
    obtain m' where m': "timer_remove_locked s t = Some (s\<lparr>tl_nodes := pre @ post, tl_mem := set_state t TIMER_STATE_IDLE m'\<rparr>, 1)"
        "\<forall>n. t_state (m' n) = t_state (tl_mem s n)" "\<forall>n \<in> set (pre @ post). 0 \<le> t_expires (m' n)"
        "deadlines m' (pre @ post) 0 = filter (\<lambda>(n, d). n \<noteq> t) (schedule_of s)"
      using timer_unlink [OF assms ns] filter_deadlines [OF tpp(1,2), of "tl_mem s" 0] ns by auto
    have "timers_inv (s\<lparr>tl_nodes := pre @ post, tl_mem := set_state t TIMER_STATE_IDLE m'\<rparr>)"
      unfolding timers_inv_def using m'(2-4) tpp assms ns by (auto simp: timers_inv_def)
    with m' mem False show ?thesis by (simp add: timer_del_def)
  qed
qed

subsection \<open>Expiry\<close>

text \<open>Expiry functions that leave the timers alone, and what a number of them does to the context.\<close>

definition quiet :: "(nat \<Rightarrow> 'c expired_fn) \<Rightarrow> (nat \<Rightarrow> nat \<Rightarrow> nat \<Rightarrow> 'c \<Rightarrow> 'c) \<Rightarrow> bool" where
  "quiet fns g \<longleftrightarrow> (\<forall>f t a s c. fns f t a s c = Some (s, g f t a c))"

definition fire :: "(nat \<Rightarrow> nat \<Rightarrow> nat \<Rightarrow> 'c \<Rightarrow> 'c) \<Rightarrow> (nat \<Rightarrow> timer) \<Rightarrow> nat list \<Rightarrow> 'c \<Rightarrow> 'c" where
  "fire g m ts c = fold (\<lambda>t. g (t_fn (m t)) t (t_arg (m t))) ts c"

lemma fire_cong: "(\<And>t. t_fn (m t) = t_fn (m' t) \<and> t_arg (m t) = t_arg (m' t)) \<Longrightarrow> fire g m ts c = fire g m' ts c"
  by (auto simp: fire_def)

abbreviation due :: "int \<Rightarrow> nat \<times> int \<Rightarrow> bool" where
  "due e \<equiv> (\<lambda>(n, d). d \<le> e)"

lemma timers_inv_pop:
  assumes "timers_inv s" "tl_nodes s = t # ns"
  shows "timers_inv (s\<lparr>tl_nodes := ns, tl_mem := set_state t TIMER_STATE_IDLE (tl_mem s)\<rparr>)"
proof -
  have e: "0 \<le> t_expires (tl_mem s t)" using timers_inv_bound [OF assms(1), of t] assms(2) by simp
  have "d < 2 ^ 31" if "(n, d) \<in> set (deadlines (tl_mem s) ns 0)" for n d
  proof -
    have "(n, d + t_expires (tl_mem s t)) \<in> set (schedule_of s)"
      using that assms(2) deadlines_shift [of "tl_mem s" ns 0 "t_expires (tl_mem s t)"] by force
    then show ?thesis using e assms(1) by (fastforce simp: timers_inv_def)
  qed
  then show ?thesis using assms by (auto simp: timers_inv_def)
qed

lemma due_shift:
  "map (\<lambda>(n, d). (n, d - e)) (dropWhile (due e) (deadlines m ns k)) =
     map (\<lambda>(n, d). (n, d - (e - k))) (dropWhile (due (e - k)) (deadlines m ns 0))"
  "map fst (takeWhile (due e) (deadlines m ns k)) = map fst (takeWhile (due (e - k)) (deadlines m ns 0))"
proof -
  have "deadlines m ns k = map (\<lambda>(n, d). (n, d + k)) (deadlines m ns 0)" using deadlines_shift [of m ns 0 k] by simp
  moreover have "due e \<circ> (\<lambda>(n, d). (n, d + k)) = due (e - k)" by (auto simp: fun_eq_iff)
  ultimately show "map (\<lambda>(n, d). (n, d - e)) (dropWhile (due e) (deadlines m ns k)) =
     map (\<lambda>(n, d). (n, d - (e - k))) (dropWhile (due (e - k)) (deadlines m ns 0))"
    "map fst (takeWhile (due e) (deadlines m ns k)) = map fst (takeWhile (due (e - k)) (deadlines m ns 0))"
    by (auto simp: dropWhile_map takeWhile_map split_beta algebra_simps)
qed

text \<open>The loop, up to the ticks \<open>left\<close> it did not use.\<close>

lemma schedule_loop_ok:
  assumes "quiet fns g" "timers_inv s" "tl_nodes s = t # ns" "t_expires (tl_mem s t) \<le> e" "e < 2 ^ 31"
  shows "\<exists>s' left. schedule_loop fns s c t e =
       Some (s', fire g (tl_mem s) (map fst (takeWhile (due e) (schedule_of s))) c, timer_first s', left) \<and>
     timers_inv s' \<and> 0 \<le> left \<and> left < 2 ^ 31 \<and> (\<forall>t'. timer_first s' = Some t' \<longrightarrow> left < t_expires (tl_mem s' t')) \<and>
     map (\<lambda>(n, d). (n, d - left)) (schedule_of s') = map (\<lambda>(n, d). (n, d - e)) (dropWhile (due e) (schedule_of s))"
  using assms(2-)
proof (induction ns arbitrary: s t e c)
  case Nil
  have e: "0 \<le> t_expires (tl_mem s t)" "long_val (e - t_expires (tl_mem s t)) = Some (e - t_expires (tl_mem s t))"
    using timers_inv_bound [OF Nil.prems(1), of t] Nil.prems by (auto simp: long_val_def)
  then show ?case using Nil.prems timers_inv_pop [OF Nil.prems(1,2)] assms(1)
    by (subst schedule_loop.simps) (simp add: quiet_def Let_def timer_first_def fire_def)
next
  case (Cons t' ns)
  let ?x = "t_expires (tl_mem s t)" and ?s = "s\<lparr>tl_nodes := t' # ns, tl_mem := set_state t TIMER_STATE_IDLE (tl_mem s)\<rparr>"
  let ?c = "g (t_fn (tl_mem s t)) t (t_arg (tl_mem s t)) c"
  have e: "0 \<le> ?x" "long_val (e - ?x) = Some (e - ?x)"
    using timers_inv_bound [OF Cons.prems(1), of t] Cons.prems by (auto simp: long_val_def)
  have inv: "timers_inv ?s" by (rule timers_inv_pop [OF Cons.prems(1,2)])
  have loop: "schedule_loop fns s c t e =
      (if t_expires (tl_mem s t') \<le> e - ?x then schedule_loop fns ?s ?c t' (e - ?x) else Some (?s, ?c, Some t', e - ?x))"
    using e Cons.prems(2) assms(1) by (subst schedule_loop.simps) (simp add: quiet_def Let_def timer_first_def)
  have sch: "schedule_of s = (t, ?x) # deadlines (tl_mem s) (t' # ns) ?x" "schedule_of ?s = deadlines (tl_mem s) (t' # ns) 0"
    using Cons.prems(2) by simp_all
  have tw: "map fst (takeWhile (due e) (schedule_of s)) = t # map fst (takeWhile (due (e - ?x)) (schedule_of ?s))"
    and dw: "map (\<lambda>(n, d). (n, d - e)) (dropWhile (due e) (schedule_of s)) = map (\<lambda>(n, d). (n, d - (e - ?x))) (dropWhile (due (e - ?x)) (schedule_of ?s))"
    unfolding sch using Cons.prems(3) due_shift [of e "tl_mem s" "t' # ns" ?x] by (simp_all del: deadlines.simps)
  have fc: "fire g (tl_mem s) (t # ts) c = fire g (tl_mem ?s) ts ?c" for ts by (simp add: fire_def)
  show ?case
  proof (cases "t_expires (tl_mem s t') \<le> e - ?x")
    case True
    then show ?thesis using Cons.IH [OF inv, of t' "e - ?x" ?c] Cons.prems e loop tw dw fc by simp
  next
    case False
    then have "takeWhile (due (e - ?x)) (schedule_of ?s) = []" "dropWhile (due (e - ?x)) (schedule_of ?s) = schedule_of ?s" by simp_all
    with False show ?thesis using loop tw dw fc inv e Cons.prems by (simp add: timer_first_def fire_def del: deadlines.simps)
  qed
qed

lemma timer_schedule_law:
  assumes "quiet fns g" "timers_inv s" "0 \<le> e" "e < 2 ^ 31"
  shows "\<exists>s'. timer_schedule fns s c e =
       Some (s', fire g (tl_mem s) (map fst (takeWhile (due e) (schedule_of s))) c, case schedule_of s' of [] \<Rightarrow> 0 | (n, d) # _ \<Rightarrow> d) \<and>
     timers_inv s' \<and> schedule_of s' = map (\<lambda>(n, d). (n, d - e)) (dropWhile (due e) (schedule_of s))"
proof (cases "tl_nodes s")
  case Nil
  then show ?thesis using assms by (simp add: timer_schedule_def timer_first_def fire_def)
next
  case (Cons t ns)
  have "\<exists>s1 left. (if t_expires (tl_mem s t) > e then Some (s, c, Some t, e) else schedule_loop fns s c t e) =
       Some (s1, fire g (tl_mem s) (map fst (takeWhile (due e) (schedule_of s))) c, timer_first s1, left) \<and>
     timers_inv s1 \<and> 0 \<le> left \<and> left < 2 ^ 31 \<and> (\<forall>t'. timer_first s1 = Some t' \<longrightarrow> left < t_expires (tl_mem s1 t')) \<and>
     map (\<lambda>(n, d). (n, d - left)) (schedule_of s1) = map (\<lambda>(n, d). (n, d - e)) (dropWhile (due e) (schedule_of s))"
    using schedule_loop_ok [OF assms(1,2) Cons _ assms(4), of c] assms Cons by (cases "t_expires (tl_mem s t) \<le> e") (auto simp: timer_first_def fire_def)
  then obtain s1 left where l: "(if t_expires (tl_mem s t) > e then Some (s, c, Some t, e) else schedule_loop fns s c t e) =
       Some (s1, fire g (tl_mem s) (map fst (takeWhile (due e) (schedule_of s))) c, timer_first s1, left)"
     "timers_inv s1" "0 \<le> left" "left < 2 ^ 31" "\<forall>t'. timer_first s1 = Some t' \<longrightarrow> left < t_expires (tl_mem s1 t')"
     "map (\<lambda>(n, d). (n, d - left)) (schedule_of s1) = map (\<lambda>(n, d). (n, d - e)) (dropWhile (due e) (schedule_of s))" by blast
  show ?thesis
  proof (cases "tl_nodes s1")
    case Nil
    with l Cons show ?thesis by (simp add: timer_schedule_def timer_first_def)
  next
    case (Cons t' ns')
    let ?x = "t_expires (tl_mem s1 t') - left" and ?s = "s1\<lparr>tl_mem := set_expires t' (t_expires (tl_mem s1 t') - left) (tl_mem s1)\<rparr>"
    have x: "0 \<le> ?x" "long_val ?x = Some ?x" using l(3-5) timers_inv_bound [OF l(2), of t'] Cons by (auto simp: timer_first_def long_val_def)
    have d: "t' \<notin> set ns'" using l(2) Cons by (auto simp: timers_inv_def)
    have sch: "schedule_of ?s = map (\<lambda>(n, d). (n, d - left)) (schedule_of s1)"
      using Cons d deadlines_shift [of "tl_mem s1" ns' "t_expires (tl_mem s1 t')" "- left"] by simp
    have inv: "timers_inv ?s" unfolding timers_inv_def sch
      using l(2,3) x(1) Cons by (fastforce simp: timers_inv_def simp del: deadlines.simps)
    have ret: "(case schedule_of ?s of [] \<Rightarrow> 0 | (n, d) # _ \<Rightarrow> d) = ?x" using Cons by simp
    have "timer_schedule fns s c e = Some (?s, fire g (tl_mem s) (map fst (takeWhile (due e) (schedule_of s))) c, ?x)"
      using l(1) x(2) \<open>tl_nodes s = t # ns\<close> Cons by (simp add: timer_schedule_def timer_first_def del: deadlines.simps)
    then show ?thesis by (intro exI [of _ ?s] conjI inv) (simp only: ret, simp only: sch l(6))
  qed
qed

section \<open>The timers as a schedule\<close>

text \<open>A timer service seen from outside: expiry times, and what each operation does to them, returns and fires.\<close>

datatype timer_op = Start nat int | Stop nat | Restart nat int | Tick int

fun sched_step :: "timer_op \<Rightarrow> (nat \<times> int) list \<Rightarrow> (nat \<times> int) list \<times> int \<times> nat list" where
  "sched_step (Start t e) q = (if t \<in> fst ` set q then (q, - EBUSY, []) else (sched_insert t e q, 0, []))"
| "sched_step (Stop t) q = (filter (\<lambda>(n, d). n \<noteq> t) q, if t \<in> fst ` set q then 1 else 0, [])"
| "sched_step (Restart t e) q = (sched_insert t e (filter (\<lambda>(n, d). n \<noteq> t) q), 0, [])"
| "sched_step (Tick e) q =
     (let q' = map (\<lambda>(n, d). (n, d - e)) (dropWhile (due e) q)
      in (q', case q' of [] \<Rightarrow> 0 | (n, d) # _ \<Rightarrow> d, map fst (takeWhile (due e) q)))"

fun op_ticks :: "timer_op \<Rightarrow> int" where
  "op_ticks (Start t e) = e"
| "op_ticks (Stop t) = 0"
| "op_ticks (Restart t e) = e"
| "op_ticks (Tick e) = e"

fun sched_run :: "timer_op list \<Rightarrow> (nat \<times> int) list \<Rightarrow> (nat \<times> int) list \<times> (int \<times> nat list) list" where
  "sched_run [] q = (q, [])"
| "sched_run (x # xs) q = (let (q1, r) = sched_step x q; (q2, rs) = sched_run xs q1 in (q2, r # rs))"

fun machine_run :: "(timer_op \<Rightarrow> 's \<Rightarrow> ('s \<times> int \<times> nat list) option) \<Rightarrow> timer_op list \<Rightarrow> 's \<Rightarrow> ('s \<times> (int \<times> nat list) list) option" where
  "machine_run step [] s = Some (s, [])"
| "machine_run step (x # xs) s =
     do { (s1, r) \<leftarrow> step x s; (s2, rs) \<leftarrow> machine_run step xs s1; Some (s2, r # rs) }"

locale timer_service =
  fixes ok :: "'s \<Rightarrow> bool" and queue :: "'s \<Rightarrow> (nat \<times> int) list" and limit :: int
    and step :: "timer_op \<Rightarrow> 's \<Rightarrow> ('s \<times> int \<times> nat list) option"
  assumes step_law: "\<lbrakk>ok s; 0 \<le> op_ticks x; op_ticks x < limit\<rbrakk> \<Longrightarrow>
      \<exists>s'. step x s = Some (s', snd (sched_step x (queue s))) \<and> ok s' \<and> queue s' = fst (sched_step x (queue s))"
begin

lemma machine_run_refines:
  assumes "ok s" "\<forall>x \<in> set xs. 0 \<le> op_ticks x \<and> op_ticks x < limit"
  shows "\<exists>s'. machine_run step xs s = Some (s', snd (sched_run xs (queue s))) \<and> ok s' \<and> queue s' = fst (sched_run xs (queue s))"
  using assms
proof (induction xs arbitrary: s)
  case (Cons x xs)
  then obtain s1 where s1: "step x s = Some (s1, snd (sched_step x (queue s)))" "ok s1" "queue s1 = fst (sched_step x (queue s))"
    using step_law [of s x] by auto
  obtain s2 where "machine_run step xs s1 = Some (s2, snd (sched_run xs (queue s1)))" "ok s2" "queue s2 = fst (sched_run xs (queue s1))"
    using Cons.IH [OF s1(2)] Cons.prems by auto
  with s1 show ?case by (simp add: split_beta Let_def)
qed simp

end

text \<open>The C functions as such a service; the expiry functions note which timer fired.\<close>

definition note_fired :: "nat \<Rightarrow> nat list expired_fn" where
  "note_fired f t a s c = Some (s, c @ [t])"

fun timer_step :: "timer_op \<Rightarrow> timers \<Rightarrow> (timers \<times> int \<times> nat list) option" where
  "timer_step (Start t e) s = do { (s', r) \<leftarrow> timer_add s t e; Some (s', r, []) }"
| "timer_step (Stop t) s = do { (s', r) \<leftarrow> timer_del s t; Some (s', r, []) }"
| "timer_step (Restart t e) s = do { (s', r) \<leftarrow> timer_mod s t e; Some (s', r, []) }"
| "timer_step (Tick e) s = do { (s', fired, r) \<leftarrow> timer_schedule note_fired s [] e; Some (s', r, fired) }"

lemma fire_note: "fire (\<lambda>f t a c. c @ [t]) m ts c = c @ ts"
  by (induction ts arbitrary: c) (simp_all add: fire_def)

lemma timer_step_law:
  assumes "timers_inv s" "0 \<le> op_ticks x" "op_ticks x < 2 ^ 31"
  shows "\<exists>s'. timer_step x s = Some (s', snd (sched_step x (schedule_of s))) \<and> timers_inv s' \<and> schedule_of s' = fst (sched_step x (schedule_of s))"
proof (cases x)
  case (Start t e)
  then show ?thesis using timer_add_law [OF assms(1), of e t] assms(2,3) by (cases "t \<in> fst ` set (schedule_of s)") auto
next
  case (Stop t)
  then show ?thesis using timer_del_law [OF assms(1), of t] by (cases "t \<in> fst ` set (schedule_of s)") auto
next
  case (Restart t e)
  obtain s1 r where s1: "timer_remove_locked s t = Some (s1, r)" "timers_inv s1" "schedule_of s1 = filter (\<lambda>(n, d). n \<noteq> t) (schedule_of s)"
    using timer_del_law [OF assms(1), of t] by (auto simp: timer_del_def)
  have "t \<notin> fst ` set (schedule_of s1)" using s1(3) by auto
  then show ?thesis using timer_add_law [OF s1(2), of e t] assms(2,3) s1 Restart by (auto simp: timer_mod_def timer_add_def)
next
  case (Tick e)
  have "quiet note_fired (\<lambda>f t a c. c @ [t])" by (simp add: quiet_def note_fired_def)
  from timer_schedule_law [OF this assms(1), of e "[]"] assms(2,3) Tick
  obtain s' where "timer_schedule note_fired s [] e = Some (s', map fst (takeWhile (due e) (schedule_of s)), case schedule_of s' of [] \<Rightarrow> 0 | (n, d) # _ \<Rightarrow> d)"
      "timers_inv s'" "schedule_of s' = map (\<lambda>(n, d). (n, d - e)) (dropWhile (due e) (schedule_of s))"
    by (auto simp: fire_note)
  with Tick show ?thesis by (simp add: Let_def)
qed

interpretation ts: timer_service timers_inv schedule_of "2 ^ 31" timer_step
  by unfold_locales (rule timer_step_law)

text \<open>
  C11. The timer list is a schedule of absolute expiry times: any sequence of \<^verbatim>\<open>timer_add\<close>, \<^verbatim>\<open>timer_del\<close>, \<^verbatim>\<open>timer_mod\<close> and
  \<^verbatim>\<open>timer_schedule\<close> with non-negative 32-bit ticks completes without overflow, returns the same codes as the schedule, and
  each \<^verbatim>\<open>timer_schedule\<close> fires exactly the timers that are due, in the order of their expiry times and, for equal times, in the
  order they were started; it returns the ticks until the next one.
\<close>

theorem timers_refine_schedule:
  assumes "timers_inv s" "\<forall>x \<in> set xs. 0 \<le> op_ticks x \<and> op_ticks x < 2 ^ 31"
  shows "\<exists>s'. machine_run timer_step xs s = Some (s', snd (sched_run xs (schedule_of s))) \<and> timers_inv s' \<and>
     schedule_of s' = fst (sched_run xs (schedule_of s))"
  by (rule ts.machine_run_refines [OF assms])

definition no_timers :: timers where
  "no_timers = \<lparr>tl_nodes = [], tl_mem = \<lambda>t. \<lparr>t_expires = 0, t_state = TIMER_STATE_IDLE, t_fn = 0, t_arg = 0\<rparr>\<rparr>"

theorem timers_refine_schedule_witness:
  "\<exists>s'. machine_run timer_step [Start 1 10, Start 2 3, Start 3 10, Stop 9, Tick 4, Restart 1 20, Tick 6] no_timers =
     Some (s', [(0, []), (0, []), (0, []), (0, []), (6, [2]), (0, []), (14, [3])])"
  using timers_refine_schedule [of no_timers "[Start 1 10, Start 2 3, Start 3 10, Stop 9, Tick 4, Restart 1 20, Tick 6]"]
  by (auto simp: timers_inv_def no_timers_def Let_def simp del: machine_run.simps)

end
