(* ===== verification/Rq.thy ===== *)
theory Rq
  imports Prelude "HOL-Library.Multiset"
begin

text \<open>
  \<^verbatim>\<open>basework/rq.c\<close>: the run queue, a pool of nodes that carry calls from any thread to one service
  thread. Nodes are numbered by their position in the buffer. A critical section is one step, as
  its lock makes it; \<open>rs_locked\<close> records whether the service thread believes to hold the lock, so
  that what it does without the lock is visible.
\<close>

section \<open>The queue\<close>

text \<open>
  A queued call: \<open>Direct\<close> for \<^verbatim>\<open>exec(arg)\<close>, \<open>Copied\<close> for \<^verbatim>\<open>exec_adaptor_cb\<close> on a buffer that holds the
  function and a copy of the data.
\<close>

datatype work = Direct nat nat | Copied nat "u8 list"

record rq_context =
  rq_frees :: "nat list"
  rq_pending :: "nat list"
  rq_node :: "nat \<Rightarrow> work"
  rq_nq :: nat
  rq_wakeups :: nat

definition RQ_NODE_SIZE :: nat where "RQ_NODE_SIZE = 16"

definition rq_static_init :: "rq_context \<Rightarrow> rq_context" where
  "rq_static_init rq = rq\<lparr>rq_frees := [0..<rq_nq rq], rq_pending := [], rq_wakeups := 0\<rparr>"

text \<open>\<open>nq\<close> is a 16-bit field; the buffer is given by its address.\<close>

definition rq_init :: "rq_context \<Rightarrow> nat \<Rightarrow> nat \<Rightarrow> rq_context \<times> int" where
  "rq_init rq buffer sz =
     (if buffer = 0 \<or> buffer mod 4 \<noteq> 0 then (rq, - EINVAL)
      else if sz < RQ_NODE_SIZE then (rq, - EINVAL)
      else (rq_static_init (rq\<lparr>rq_nq := sz div RQ_NODE_SIZE mod 2 ^ 16\<rparr>), 0))"

definition rq_put_locked :: "rq_context \<Rightarrow> nat \<Rightarrow> rq_context" where
  "rq_put_locked rq rn = rq\<lparr>rq_frees := rn # rq_frees rq\<rparr>"

fun rq_get_first_locked :: "nat list \<Rightarrow> (nat \<times> nat list) option" where
  "rq_get_first_locked [] = None"
| "rq_get_first_locked (rn # ns) = Some (rn, ns)"

definition rq_add_node_locked :: "rq_context \<Rightarrow> nat \<Rightarrow> bool \<Rightarrow> rq_context" where
  "rq_add_node_locked rq rn prepend =
     (let need_wakeup = (rq_pending rq = []);
          rq1 = rq\<lparr>rq_pending := (if prepend then rn # rq_pending rq else rq_pending rq @ [rn])\<rparr> in
      if need_wakeup then rq1\<lparr>rq_wakeups := rq_wakeups rq1 + 1\<rparr> else rq1)"

definition rq_submit :: "rq_context \<Rightarrow> nat \<Rightarrow> nat \<Rightarrow> bool \<Rightarrow> rq_context \<times> int" where
  "rq_submit rq exec arg prepend =
     (case rq_get_first_locked (rq_frees rq) of
        None \<Rightarrow> (rq, - EBUSY)
      | Some (rn, frees) \<Rightarrow>
          (rq_add_node_locked (rq\<lparr>rq_frees := frees, rq_node := (rq_node rq)(rn := Direct exec arg)\<rparr>) rn prepend, 0))"

text \<open>The two critical sections of \<^verbatim>\<open>_rq_submit_with_copy\<close>; the node is filled between them.\<close>

definition submit_copy_take :: "rq_context \<Rightarrow> (rq_context \<times> nat) option" where
  "submit_copy_take rq =
     (case rq_get_first_locked (rq_frees rq) of
        None \<Rightarrow> None
      | Some (rn, frees) \<Rightarrow> Some (rq\<lparr>rq_frees := frees\<rparr>, rn))"

definition submit_copy_put :: "rq_context \<Rightarrow> nat \<Rightarrow> nat \<Rightarrow> u8 list \<Rightarrow> bool \<Rightarrow> rq_context" where
  "submit_copy_put rq rn exec data prepend =
     rq_add_node_locked (rq\<lparr>rq_node := (rq_node rq)(rn := Copied exec data)\<rparr>) rn prepend"

text \<open>The whole call; a failing allocation is a panic, which is \<^const>\<open>None\<close>.\<close>

definition rq_submit_with_copy :: "bool \<Rightarrow> rq_context \<Rightarrow> nat \<Rightarrow> u8 list \<Rightarrow> bool \<Rightarrow> (rq_context \<times> int) option" where
  "rq_submit_with_copy alloc_ok rq exec data prepend =
     (if \<not> alloc_ok then None
      else case submit_copy_take rq of
        None \<Rightarrow> Some (rq, - EBUSY)
      | Some (rq1, rn) \<Rightarrow> Some (submit_copy_put rq1 rn exec data prepend, 0))"

definition rq_reset :: "rq_context \<Rightarrow> rq_context" where
  "rq_reset rq = rq\<lparr>rq_frees := rq_frees rq @ rq_pending rq, rq_pending := []\<rparr>"

section \<open>The service thread and the other threads\<close>

text \<open>
  The service thread is at the head of the loop, in \<^verbatim>\<open>os_resched\<close>, or executing a node. \<open>rs_inflight\<close> are
  the nodes other threads took for \<^verbatim>\<open>_rq_submit_with_copy\<close> and have not queued yet; \<open>rs_done\<close> lists the executed calls
  and \<open>rs_queued\<close> the calls in the order in which they were queued.
\<close>

datatype server = Top | Sleeping | Executing nat

record rq_sys =
  rs_rq :: rq_context
  rs_server :: server
  rs_locked :: bool
  rs_inflight :: "nat list"
  rs_done :: "work list"
  rs_queued :: "work list"

definition rq_start :: "rq_context \<Rightarrow> rq_sys" where
  "rq_start rq = \<lparr>rs_rq = rq_static_init rq, rs_server = Top, rs_locked = True, rs_inflight = [], rs_done = [], rs_queued = []\<rparr>"

text \<open>
  The steps of \<^verbatim>\<open>_rq_schedule\<close>, and the critical sections of the other threads, which need the lock to be free. \<open>sleep\<close> is the
  path through \<^verbatim>\<open>os_resched\<close>, after which the loop goes on without taking the lock again.
\<close>

inductive rq_step :: "bool \<Rightarrow> bool \<Rightarrow> rq_sys \<Rightarrow> rq_sys \<Rightarrow> bool" for prepends resets where
  take: "\<lbrakk>rs_server s = Top; rq_get_first_locked (rq_pending (rs_rq s)) = Some (rn, ns)\<rbrakk> \<Longrightarrow>
    rq_step prepends resets s (s\<lparr>rs_rq := (rs_rq s)\<lparr>rq_pending := ns\<rparr>, rs_server := Executing rn, rs_locked := False\<rparr>)"
| sleep: "\<lbrakk>rs_server s = Top; rq_get_first_locked (rq_pending (rs_rq s)) = None\<rbrakk> \<Longrightarrow>
    rq_step prepends resets s (s\<lparr>rs_server := Sleeping, rs_locked := False\<rparr>)"
| wake: "\<lbrakk>rs_server s = Sleeping; rq_wakeups (rs_rq s) > 0\<rbrakk> \<Longrightarrow>
    rq_step prepends resets s (s\<lparr>rs_rq := (rs_rq s)\<lparr>rq_wakeups := rq_wakeups (rs_rq s) - 1\<rparr>, rs_server := Top\<rparr>)"
| finish: "rs_server s = Executing rn \<Longrightarrow>
    rq_step prepends resets s (s\<lparr>rs_rq := rq_put_locked (rs_rq s) rn, rs_server := Top, rs_locked := True,
                 rs_done := rs_done s @ [rq_node (rs_rq s) rn]\<rparr>)"
| submit: "\<lbrakk>\<not> rs_locked s; rq_submit (rs_rq s) exec arg prepend = (rq, 0); prepend \<longrightarrow> prepends\<rbrakk> \<Longrightarrow>
    rq_step prepends resets s (s\<lparr>rs_rq := rq, rs_queued := rs_queued s @ [Direct exec arg]\<rparr>)"
| copy_take: "\<lbrakk>\<not> rs_locked s; submit_copy_take (rs_rq s) = Some (rq, rn)\<rbrakk> \<Longrightarrow>
    rq_step prepends resets s (s\<lparr>rs_rq := rq, rs_inflight := rn # rs_inflight s\<rparr>)"
| copy_put: "\<lbrakk>\<not> rs_locked s; rn \<in> set (rs_inflight s); prepend \<longrightarrow> prepends\<rbrakk> \<Longrightarrow>
    rq_step prepends resets s (s\<lparr>rs_rq := submit_copy_put (rs_rq s) rn exec data prepend, rs_inflight := remove1 rn (rs_inflight s),
                 rs_queued := rs_queued s @ [Copied exec data]\<rparr>)"
| reset: "\<lbrakk>\<not> rs_locked s; resets\<rbrakk> \<Longrightarrow> rq_step prepends resets s (s\<lparr>rs_rq := rq_reset (rs_rq s)\<rparr>)"

inductive rq_reachable :: "bool \<Rightarrow> bool \<Rightarrow> rq_context \<Rightarrow> rq_sys \<Rightarrow> bool" for prepends resets rq where
  start: "rq_reachable prepends resets rq (rq_start rq)"
| step: "\<lbrakk>rq_reachable prepends resets rq s; rq_step prepends resets s t\<rbrakk> \<Longrightarrow> rq_reachable prepends resets rq t"

section \<open>Properties\<close>

fun executing :: "server \<Rightarrow> nat list" where
  "executing (Executing rn) = [rn]"
| "executing Top = []"
| "executing Sleeping = []"

definition rq_nodes :: "rq_sys \<Rightarrow> nat multiset" where
  "rq_nodes s = mset (rq_frees (rs_rq s)) + mset (rq_pending (rs_rq s)) + mset (executing (rs_server s)) + mset (rs_inflight s)"

lemma rq_add_node_simps [simp]:
  "mset (rq_pending (rq_add_node_locked rq rn prepend)) = add_mset rn (mset (rq_pending rq))"
  "rq_frees (rq_add_node_locked rq rn prepend) = rq_frees rq"
  "rq_node (rq_add_node_locked rq rn prepend) = rq_node rq"
  "rq_pending (rq_add_node_locked rq rn False) = rq_pending rq @ [rn]"
  by (auto simp: rq_add_node_locked_def Let_def)

lemma rq_get_first_Some [simp]: "rq_get_first_locked l = Some (rn, ns) \<longleftrightarrow> l = rn # ns"
  by (cases l) auto

lemma rq_submit_ok:
  "rq_submit rq exec arg prepend = (rq', 0) \<Longrightarrow> \<exists>rn frees. rq_frees rq = rn # frees \<and>
     rq' = rq_add_node_locked (rq\<lparr>rq_frees := frees, rq_node := (rq_node rq)(rn := Direct exec arg)\<rparr>) rn prepend"
  by (auto simp: rq_submit_def EBUSY_def split: option.splits)

lemma submit_copy_take_ok:
  "submit_copy_take rq = Some (rq', rn) \<Longrightarrow> \<exists>frees. rq_frees rq = rn # frees \<and> rq' = rq\<lparr>rq_frees := frees\<rparr>"
  by (auto simp: submit_copy_take_def split: option.splits)

lemma rq_step_nodes: "rq_step prepends resets s t \<Longrightarrow> rq_nodes t = rq_nodes s"
proof (induction rule: rq_step.induct)
  case (submit s exec arg prepend rq)
  then show ?case by (auto dest!: rq_submit_ok simp: rq_nodes_def)
next
  case (copy_take s rq rn)
  then show ?case by (auto dest!: submit_copy_take_ok simp: rq_nodes_def)
qed (auto simp: rq_nodes_def rq_put_locked_def submit_copy_put_def rq_reset_def)


text \<open>The calls still to be executed.\<close>

definition rq_backlog :: "rq_sys \<Rightarrow> work list" where
  "rq_backlog s = map (rq_node (rs_rq s)) (executing (rs_server s) @ rq_pending (rs_rq s))"

lemma rq_distinct:
  assumes "rq_reachable prepends resets rq s"
  shows "distinct (rq_frees (rs_rq s) @ rq_pending (rs_rq s) @ executing (rs_server s) @ rs_inflight s)"
proof -
  have "mset (rq_frees (rs_rq s) @ rq_pending (rs_rq s) @ executing (rs_server s) @ rs_inflight s) = mset [0..<rq_nq rq]"
    using assms
  proof (induction rule: rq_reachable.induct)
    case start
    show ?case by (simp add: rq_start_def rq_static_init_def)
  next
    case (step s t)
    then show ?case using rq_step_nodes [OF step(2)] by (simp add: rq_nodes_def add.assoc)
  qed
  then show ?thesis by (metis distinct_upt mset_eq_imp_distinct_iff)
qed

lemma map_upd_fresh: "rn \<notin> set ns \<Longrightarrow> map (f(rn := w)) ns = map f ns"
  by (induction ns) auto

lemma rq_step_fifo:
  assumes "rq_step False False s t" "rs_queued s = rs_done s @ rq_backlog s"
    and "distinct (rq_frees (rs_rq s) @ rq_pending (rs_rq s) @ executing (rs_server s) @ rs_inflight s)"
  shows "rs_queued t = rs_done t @ rq_backlog t"
  using assms
proof (induction rule: rq_step.induct)
  case (submit s exec arg prepend rq)
  then have "\<not> prepend" by simp
  with rq_submit_ok [OF submit.hyps(2)] obtain rn frees where r: "rq_frees (rs_rq s) = rn # frees"
      "rq = rq_add_node_locked ((rs_rq s)\<lparr>rq_frees := frees, rq_node := (rq_node (rs_rq s))(rn := Direct exec arg)\<rparr>) rn False"
    by auto
  then have "rn \<notin> set (executing (rs_server s) @ rq_pending (rs_rq s))" using submit.prems(2) by auto
  with r submit.prems(1) show ?case by (simp add: rq_backlog_def map_upd_fresh)
next
  case (copy_take s rq rn)
  then show ?case by (auto dest!: submit_copy_take_ok simp: rq_backlog_def)
next
  case (copy_put s rn prepend exec data)
  then have "rn \<notin> set (executing (rs_server s) @ rq_pending (rs_rq s))" by auto
  with copy_put show ?case by (simp add: rq_backlog_def submit_copy_put_def map_upd_fresh)
qed (auto simp: rq_backlog_def rq_put_locked_def)


text \<open>The service thread only sleeps while there is nothing to do or a wake-up is on its way.\<close>

definition rq_awake :: "rq_sys \<Rightarrow> bool" where
  "rq_awake s \<longleftrightarrow> (rs_server s = Sleeping \<longrightarrow> rq_pending (rs_rq s) = [] \<or> rq_wakeups (rs_rq s) > 0)"

lemma rq_add_node_wakeups [simp]:
  "rq_wakeups (rq_add_node_locked rq rn prepend) = (if rq_pending rq = [] then rq_wakeups rq + 1 else rq_wakeups rq)"
  by (simp add: rq_add_node_locked_def Let_def)

lemma rq_step_awake: "rq_step prepends resets s t \<Longrightarrow> rq_awake s \<Longrightarrow> rq_awake t"
proof (induction rule: rq_step.induct)
  case (sleep s)
  then show ?case by (cases "rq_pending (rs_rq s)") (auto simp: rq_awake_def)
next
  case (submit s exec arg prepend rq)
  then show ?case by (auto dest!: rq_submit_ok simp: rq_awake_def split: if_splits)
next
  case (copy_take s rq rn)
  then show ?case by (auto dest!: submit_copy_take_ok simp: rq_awake_def)
next
  case (copy_put s rn prepend exec data)
  then show ?case by (auto simp: rq_awake_def submit_copy_put_def split: if_splits)
qed (auto simp: rq_awake_def rq_put_locked_def rq_reset_def)


text \<open>What the loop does after a sleep: the service thread goes on without taking the lock again, so it reaches the head of the loop,
  with a node in the pending list, while other threads may enter their critical sections.
\<close>

theorem rq_pops_unlocked:
  assumes "0 < rq_nq rq"
  shows "\<exists>s. rq_reachable False False rq s \<and> rs_server s = Top \<and> \<not> rs_locked s \<and> rq_pending (rs_rq s) \<noteq> []"
proof -
  let ?s0 = "rq_start rq"
  let ?s1 = "?s0\<lparr>rs_server := Sleeping, rs_locked := False\<rparr>"
  have r1: "rq_reachable False False rq ?s1"
    by (rule rq_reachable.step [OF rq_reachable.start], rule rq_step.sleep) (simp_all add: rq_start_def rq_static_init_def)
  obtain rq' where rq': "rq_submit (rs_rq ?s1) 1 2 False = (rq', 0)" "rq_pending rq' = [0]" "rq_wakeups rq' = 1"
    using assms by (auto simp: rq_submit_def rq_start_def rq_static_init_def upt_conv_Cons rq_add_node_locked_def Let_def)
  let ?s2 = "?s1\<lparr>rs_rq := rq', rs_queued := rs_queued ?s1 @ [Direct 1 2]\<rparr>"
  have r2: "rq_reachable False False rq ?s2"
    by (rule rq_reachable.step [OF r1], rule rq_step.submit) (use rq' in auto)
  have "rq_reachable False False rq (?s2\<lparr>rs_rq := (rs_rq ?s2)\<lparr>rq_wakeups := rq_wakeups (rs_rq ?s2) - 1\<rparr>, rs_server := Top\<rparr>)"
    by (rule rq_reachable.step [OF r2], rule rq_step.wake) (use rq' in simp_all)
  with rq'(2) show ?thesis by fastforce
qed

definition demo_rq :: rq_context where
  "demo_rq = \<lparr>rq_frees = [], rq_pending = [], rq_node = \<lambda>n. Direct 0 0, rq_nq = 2, rq_wakeups = 0\<rparr>"

theorem rq_pops_unlocked_witness: "\<exists>s. rq_reachable False False demo_rq s \<and> rs_server s = Top \<and> \<not> rs_locked s \<and> rq_pending (rs_rq s) \<noteq> []"
  using rq_pops_unlocked [of demo_rq] by (simp add: demo_rq_def)

definition demo_rq_submitted :: rq_sys where
  "demo_rq_submitted = (rq_start demo_rq)\<lparr>rs_server := Sleeping, rs_locked := False,
     rs_rq := fst (rq_submit (rq_static_init demo_rq) 1 2 False), rs_queued := [Direct 1 2]\<rparr>"

lemma demo_rq_reachable: "rq_reachable False False demo_rq demo_rq_submitted"
proof -
  have "rq_reachable False False demo_rq ((rq_start demo_rq)\<lparr>rs_server := Sleeping, rs_locked := False\<rparr>)" (is "rq_reachable _ _ _ ?s")
    by (rule rq_reachable.step [OF rq_reachable.start], rule rq_step.sleep) (simp_all add: rq_start_def rq_static_init_def)
  then have "rq_reachable False False demo_rq (?s\<lparr>rs_rq := fst (rq_submit (rq_static_init demo_rq) 1 2 False), rs_queued := rs_queued ?s @ [Direct 1 2]\<rparr>)"
    by (rule rq_reachable.step, intro rq_step.submit)
       (auto simp: rq_start_def rq_submit_def rq_static_init_def demo_rq_def upt_conv_Cons)
  then show ?thesis by (simp add: demo_rq_submitted_def rq_start_def)
qed




end
