(* ===== verification/Clock.thy ===== *)
theory Clock
  imports Prelude "HOL-Library.Signed_Division"
begin

text \<open>
  \<^verbatim>\<open>basework/dev/clock_base.c\<close>: the conversion of seconds since 1970 to a calendar date, and the
  registered clock; \<^verbatim>\<open>basework/dev/clock_timer.c\<close>: the clock that counts seconds and its periodic
  callouts. \<^verbatim>\<open>vtime_t\<close> is a signed 32-bit \<^verbatim>\<open>long\<close>; its division truncates (\<open>sdiv\<close>, \<open>smod\<close>) and its overflow is
  \<^const>\<open>None\<close>.
\<close>

section \<open>Calendar time\<close>

record tod_time =
  tm_sec :: int
  tm_min :: int
  tm_hour :: int
  tm_mday :: int
  tm_mon :: int
  tm_year :: int
  tm_wday :: int
  tm_yday :: int

text \<open>The date fields; the unsigned values are non-negative for every day number.\<close>

definition time_civil_from_days :: "int \<Rightarrow> tod_time \<Rightarrow> tod_time" where
  "time_civil_from_days z0 tp =
     (let wday = (if z0 \<ge> - 4 then (z0 + 4) smod 7 else (z0 + 5) smod 7 + 6);
          z = z0 + 719468;
          era = (if z \<ge> 0 then z else z - 146096) sdiv 146097;
          doe = z - era * 146097;
          yoe = (doe - doe div 1460 + doe div 36524 - doe div 146096) div 365;
          y = yoe + era * 400;
          doy = doe - (365 * yoe + yoe div 4 - yoe div 100);
          mp = (5 * doy + 2) div 153;
          d = doy - (153 * mp + 2) div 5 + 1;
          m = mp + (if mp < 10 then 3 else - 9)
      in tp\<lparr>tm_wday := wday, tm_year := y + (if m \<le> 2 then 1 else 0) - 1900, tm_mon := m - 1, tm_mday := d,
            tm_yday := (if doy \<ge> 306 then doy - 306
                        else doy + 59 + (if (yoe mod 4 = 0 \<and> yoe mod 100 \<noteq> 0) \<or> yoe = 0 then 1 else 0))\<rparr>)"

definition vtime_ok :: "int \<Rightarrow> bool" where
  "vtime_ok x \<longleftrightarrow> - (2 ^ 31) \<le> x \<and> x < 2 ^ 31"

definition clock_get_tod_time :: "int option \<Rightarrow> tod_time option \<Rightarrow> (int \<times> tod_time option) option" where
  "clock_get_tod_time timep result =
     (case (timep, result) of
        (Some z, Some r) \<Rightarrow>
          if \<not> vtime_ok (if z \<ge> 0 then z else z - 86399) then None
          else
            let days = (if z \<ge> 0 then z else z - 86399) sdiv 86400;
                rem = z - days * 86400;
                r1 = time_civil_from_days days r;
                hour = rem div 60 div 60;
                rem1 = rem - hour * 60 * 60;
                minute = rem1 div 60
            in Some (0, Some (r1\<lparr>tm_hour := hour, tm_min := minute, tm_sec := rem1 - minute * 60\<rparr>))
      | _ \<Rightarrow> Some (- EINVAL, result))"

section \<open>The calendar\<close>

text \<open>The civil calendar, as the successor of a date and of a second.\<close>

definition leap_year :: "int \<Rightarrow> bool" where
  "leap_year y \<longleftrightarrow> (y mod 4 = 0 \<and> y mod 100 \<noteq> 0) \<or> y mod 400 = 0"

definition month_days :: "int \<Rightarrow> int \<Rightarrow> int" where
  "month_days y m = (if m = 1 then (if leap_year y then 29 else 28) else if m \<in> {3, 5, 8, 10} then 30 else 31)"

definition next_date :: "tod_time \<Rightarrow> tod_time" where
  "next_date t =
     (let t1 = t\<lparr>tm_wday := (tm_wday t + 1) mod 7\<rparr> in
      if tm_mday t < month_days (tm_year t + 1900) (tm_mon t) then t1\<lparr>tm_mday := tm_mday t + 1, tm_yday := tm_yday t + 1\<rparr>
      else if tm_mon t < 11 then t1\<lparr>tm_mday := 1, tm_mon := tm_mon t + 1, tm_yday := tm_yday t + 1\<rparr>
      else t1\<lparr>tm_mday := 1, tm_mon := 0, tm_year := tm_year t + 1, tm_yday := 0\<rparr>)"

definition next_second :: "tod_time \<Rightarrow> tod_time" where
  "next_second t =
     (if tm_sec t < 59 then t\<lparr>tm_sec := tm_sec t + 1\<rparr>
      else if tm_min t < 59 then t\<lparr>tm_sec := 0, tm_min := tm_min t + 1\<rparr>
      else if tm_hour t < 23 then t\<lparr>tm_sec := 0, tm_min := 0, tm_hour := tm_hour t + 1\<rparr>
      else next_date (t\<lparr>tm_sec := 0, tm_min := 0, tm_hour := 0\<rparr>))"

section \<open>Days, years and eras\<close>

text \<open>Years of an era start on the first of March; the leap day is the last day of its year.\<close>

definition year_len :: "int \<Rightarrow> int" where
  "year_len yoe = (if yoe mod 4 = 3 \<and> (yoe mod 100 \<noteq> 99 \<or> yoe = 399) then 366 else 365)"

definition year_start :: "int \<Rightarrow> int" where
  "year_start yoe = 365 * yoe + yoe div 4 - yoe div 100"

lemma year_of_doe:
  assumes "0 \<le> yoe" "yoe < 400" "0 \<le> doy" "doy < year_len yoe" and doe: "doe = year_start yoe + doy"
  shows "(doe - doe div 1460 + doe div 36524 - doe div 146096) div 365 = yoe" "0 \<le> doe" "doe < 146097"
proof -
  define a where "a = yoe div 100"
  define b where "b = yoe mod 100 div 4"
  define c where "c = yoe mod 4"
  define e where "e = 365 * c + doy"
  have rng: "0 \<le> a" "a \<le> 3" "0 \<le> b" "b \<le> 24" "0 \<le> c" "c \<le> 3" using assms by (auto simp: a_def b_def c_def)
  have "yoe mod 100 mod 4 = c" unfolding c_def by (simp add: mod_mod_cancel)
  then have y: "yoe = 100 * a + 4 * b + c"
    using div_mult_mod_eq [of yoe 100] div_mult_mod_eq [of "yoe mod 100" 4] unfolding a_def b_def by linarith
  have q: "yoe div 4 = 25 * a + b" using y rng by simp
  have doe': "doe = 36524 * a + 1461 * b + e" unfolding doe year_start_def q a_def [symmetric] e_def by (simp add: y)
  have m100: "yoe mod 100 = 4 * b + c" using div_mult_mod_eq [of yoe 100] y unfolding a_def by linarith
  have yl: "year_len yoe = (if c = 3 \<and> (4 * b + c \<noteq> 99 \<or> yoe = 399) then 366 else 365)"
    unfolding year_len_def c_def [symmetric] m100 ..
  have last: "doy \<le> 364 \<or> (doy = 365 \<and> c = 3 \<and> (b < 24 \<or> a = 3))"
  proof (cases "c = 3 \<and> (4 * b + c \<noteq> 99 \<or> yoe = 399)")
    case True
    then have "b < 24 \<or> a = 3" using rng by (auto simp: a_def)
    moreover have "doy < 366" "c = 3" using True yl assms(4) by auto
    ultimately show ?thesis by linarith
  next
    case False
    then have "doy < 365" using yl assms(4) by (simp only: if_False)
    then show ?thesis by linarith
  qed
  then have e: "0 \<le> e" "e \<le> 1460" "e = 1460 \<longrightarrow> doy = 365" using rng assms(3) by (auto simp: e_def)
  show "0 \<le> doe" "doe < 146097" using doe' e rng last by (auto simp: e_def)
  define t where "t = (24 * a + b + e) div 1460"
  have t: "t = (if 24 * a + b + e < 1460 then 0 else 1)" unfolding t_def using e rng by auto
  have "doe = (24 * a + b + e) + (25 * a + b) * 1460" using doe' by simp
  then have d1: "doe div 1460 = 25 * a + b + t" unfolding t_def by simp
  have d2: "doe div 36524 - doe div 146096 = a"
  proof (cases "b = 24 \<and> e = 1460")
    case True
    then have "a = 3" using last e by (auto simp: e_def)
    with True show ?thesis by (simp add: doe')
  next
    case False
    then have "1461 * b + e < 36524" using e rng by auto
    moreover have "doe = (1461 * b + e) + a * 36524" using doe' by simp
    ultimately have "doe div 36524 = a" "doe < 146096" "0 \<le> doe" using e rng by simp_all
    then show ?thesis by simp
  qed
  have "doe - doe div 1460 + doe div 36524 - doe div 146096 = 365 * (100 * a + 4 * b) + (e - t)"
    using d1 d2 doe' by simp
  moreover have "(e - t) div 365 = c"
    using t last rng assms(3) by (auto simp: e_def split: if_splits)
  ultimately show "(doe - doe div 1460 + doe div 36524 - doe div 146096) div 365 = yoe" using y by simp
qed

lemma div_Suc_int: "m = n - 1 \<Longrightarrow> 1 < n \<Longrightarrow> (y + 1) div n = y div n + (if y mod n = m then 1 else (0::int))"
proof -
  assume n: "1 < n" "m = n - 1"
  have y: "y = n * (y div n) + y mod n" "0 \<le> y mod n" "y mod n < n" using n by simp_all
  show ?thesis
  proof (cases "y mod n = m")
    case True
    then have "y + 1 = n * (y div n + 1) + 0" using y(1) n by (simp only: distrib_left)
    then show ?thesis using True n int_div_pos_eq [of "y + 1" n "y div n + 1" 0] by simp
  next
    case False
    then have "y mod n + 1 < n" using y n by linarith
    with y have "(y + 1) div n = y div n" by (intro int_div_pos_eq [of "y + 1" n "y div n" "y mod n + 1"]) linarith+
    then show ?thesis using False by simp
  qed
qed

lemma year_start_Suc: "0 \<le> y \<Longrightarrow> y < 399 \<Longrightarrow> year_start (y + 1) = year_start y + year_len y"
proof -
  assume y: "0 \<le> y" "y < 399"
  have "(y + 1) div 4 = y div 4 + (if y mod 4 = 3 then 1 else 0)"
    "(y + 1) div 100 = y div 100 + (if y mod 100 = 99 then 1 else 0)" by (rule div_Suc_int, simp, simp)+
  moreover have "y mod 100 mod 4 = y mod 4" by (simp add: mod_mod_cancel)
  then have "y mod 100 = 99 \<Longrightarrow> y mod 4 = 3" by auto
  moreover have "365 * (y + 1) + a' - b' = (365 * y + a - b) + (if p = 3 \<and> (q \<noteq> 99 \<or> y = 399) then 366 else 365)"
    if "a' = a + (if p = 3 then 1 else 0)" "b' = b + (if q = 99 then 1 else 0)" "q = 99 \<Longrightarrow> p = 3" for a a' b b' p q :: int
    using that y by auto
  ultimately show ?thesis unfolding year_start_def year_len_def by blast
qed

lemma doe_year_ex:
  "int n < 146097 \<Longrightarrow> \<exists>yoe doy. 0 \<le> yoe \<and> yoe < 400 \<and> 0 \<le> doy \<and> doy < year_len yoe \<and> int n = year_start yoe + doy"
proof (induction n)
  case 0
  then show ?case by (intro exI [of _ 0]) (simp add: year_start_def year_len_def)
next
  case (Suc n)
  then obtain yoe doy where y: "0 \<le> yoe" "yoe < 400" "0 \<le> doy" "doy < year_len yoe" "int n = year_start yoe + doy" by auto
  consider "doy + 1 < year_len yoe" | "doy + 1 = year_len yoe" "yoe < 399" | "doy + 1 = year_len yoe" "yoe = 399"
    using y by linarith
  then show ?case
  proof cases
    case 1
    then show ?thesis using y by (intro exI [of _ yoe] exI [of _ "doy + 1"]) simp
  next
    case 2
    then show ?thesis using y year_start_Suc [of yoe]
      by (intro exI [of _ "yoe + 1"] exI [of _ 0]) (simp add: year_len_def)
  next
    case 3
    then show ?thesis using y Suc.prems by (simp add: year_start_def year_len_def)
  qed
qed

lemma floor_sdiv: "m = n - 1 \<Longrightarrow> 0 < n \<Longrightarrow> (if z \<ge> 0 then z else z - m) sdiv n = z div (n::int)"
proof (cases "z \<ge> 0")
  case True
  assume "0 < n"
  with True show ?thesis by (cases "z = 0") (simp_all add: signed_divide_int_def)
next
  case False
  assume n: "0 < n" and m: "m = n - 1"
  have r: "0 \<le> z mod n" "z mod n < n" using n by simp_all
  have "n - 1 - z = n * (- (z div n)) + (n - 1 - z mod n)" using minus_div_mult_eq_mod [of z n] by (simp add: algebra_simps)
  then have "(n - 1 - z) div n = - (z div n)" by (rule int_div_pos_eq) (use r in linarith)+
  then have "- ((n - 1 - z) div n) = z div n" by simp
  with False n m show ?thesis by (simp add: signed_divide_int_def)
qed

lemma wday_mod: "(if z \<ge> - 4 then (z + 4) smod 7 else (z + 5) smod 7 + 6) = (z + 4) mod (7::int)"
proof (cases "z \<ge> - 4")
  case True
  then show ?thesis by (cases "z = - 4") (simp_all add: smod_int_alt_def)
next
  case False
  then have "(z + 5) smod 7 = - ((- (z + 5)) mod 7)"
    by (cases "z = - 5") (simp_all add: smod_int_alt_def)
  moreover have "6 - ((- (z + 5)) mod 7) = (z + 4) mod 7" by presburger
  ultimately show ?thesis using False by simp
qed

section \<open>The fields as functions of era, year and day\<close>

definition month_of :: "int \<Rightarrow> int" where
  "month_of doy = (5 * doy + 2) div 153"

definition mday_of :: "int \<Rightarrow> int" where
  "mday_of doy = doy - (153 * month_of doy + 2) div 5 + 1"

definition civil_date :: "int \<Rightarrow> int \<Rightarrow> int \<Rightarrow> tod_time \<Rightarrow> tod_time" where
  "civil_date z y doy tp =
     (let jan = doy \<ge> 306 in
      tp\<lparr>tm_wday := (z + 4) mod 7,
         tm_year := y + (if jan then 1 else 0) - 1900,
         tm_mon := month_of doy + (if jan then - 10 else 2),
         tm_mday := mday_of doy,
         tm_yday := (if jan then doy - 306 else doy + 59 + (if leap_year y then 1 else 0))\<rparr>)"

lemma month_table:
  "0 \<le> doy \<Longrightarrow> doy < 366 \<Longrightarrow> (month_of doy < 10 \<longleftrightarrow> doy < 306) \<and> 0 \<le> month_of doy \<and> month_of doy \<le> 11 \<and> 1 \<le> mday_of doy"
proof -
  have "\<forall>doy\<in>set [0..365]. (month_of doy < 10 \<longleftrightarrow> doy < 306) \<and> 0 \<le> month_of doy \<and> month_of doy \<le> 11 \<and> 1 \<le> mday_of doy"
    by code_simp
  then show "0 \<le> doy \<Longrightarrow> doy < 366 \<Longrightarrow> ?thesis" by simp
qed

lemma month_succ:
  "0 \<le> doy \<Longrightarrow> doy < 365 \<Longrightarrow>
   (if mday_of doy < (if month_of doy \<in> {1, 3, 6, 8} then 30 else 31)
    then month_of (doy + 1) = month_of doy \<and> mday_of (doy + 1) = mday_of doy + 1
    else month_of (doy + 1) = month_of doy + 1 \<and> mday_of (doy + 1) = 1) \<and> (month_of doy = 11 \<longrightarrow> mday_of doy \<le> 28) \<and>
   (month_of doy = 11 \<longleftrightarrow> doy \<ge> 337) \<and> (month_of doy = 9 \<and> 31 \<le> mday_of doy \<longleftrightarrow> doy = 305) \<and> (month_of doy = 11 \<longrightarrow> mday_of doy = doy - 336)"
proof -
  have "\<forall>doy\<in>set [0..364]. (if mday_of doy < (if month_of doy \<in> {1, 3, 6, 8} then 30 else 31)
    then month_of (doy + 1) = month_of doy \<and> mday_of (doy + 1) = mday_of doy + 1
    else month_of (doy + 1) = month_of doy + 1 \<and> mday_of (doy + 1) = 1) \<and> (month_of doy = 11 \<longrightarrow> mday_of doy \<le> 28) \<and>
   (month_of doy = 11 \<longleftrightarrow> doy \<ge> 337) \<and> (month_of doy = 9 \<and> 31 \<le> mday_of doy \<longleftrightarrow> doy = 305) \<and> (month_of doy = 11 \<longrightarrow> mday_of doy = doy - 336)"
    by code_simp
  then show "0 \<le> doy \<Longrightarrow> doy < 365 \<Longrightarrow> ?thesis" by simp
qed

lemma mod_Suc_int: "m = n - 1 \<Longrightarrow> 1 < n \<Longrightarrow> (y + 1) mod n = 0 \<longleftrightarrow> y mod n = (m::int)"
proof -
  assume n: "1 < n" "m = n - 1"
  have r: "0 \<le> y mod n" "y mod n < n" using n by simp_all
  have "(y + 1) mod n = (y mod n + 1) mod n" by (simp add: mod_add_left_eq)
  moreover have "(y mod n + 1) mod n = y mod n + 1" if "y mod n \<noteq> m" using r n that by (intro mod_pos_pos_trivial) linarith+
  moreover have "y mod n + 1 \<noteq> 0" using r by linarith
  ultimately show ?thesis using n by (cases "y mod n = m") simp_all
qed

lemma leap_year_of_era: "0 \<le> yoe \<Longrightarrow> yoe < 400 \<Longrightarrow> leap_year (yoe + era * 400) \<longleftrightarrow> (yoe mod 4 = 0 \<and> yoe mod 100 \<noteq> 0) \<or> yoe = 0"
proof -
  assume y: "0 \<le> yoe" "yoe < 400"
  have "(yoe + era * 400) mod 4 = yoe mod 4" "(yoe + era * 400) mod 100 = yoe mod 100" "(yoe + era * 400) mod 400 = yoe"
    using y mod_mult_self1 [of yoe "era * 100" 4] mod_mult_self1 [of yoe "era * 4" 100] mod_mult_self1 [of yoe era 400]
    by (simp_all add: mult.commute [of era])
  then show ?thesis by (simp only: leap_year_def) 
qed

lemma year_len_leap: "0 \<le> yoe \<Longrightarrow> yoe < 400 \<Longrightarrow> year_len yoe = (if leap_year (yoe + 1 + era * 400) then 366 else 365)"
proof -
  assume y: "0 \<le> yoe" "yoe < 400"
  have s: "(yoe + 1) mod 4 = 0 \<longleftrightarrow> yoe mod 4 = 3" "(yoe + 1) mod 100 = 0 \<longleftrightarrow> yoe mod 100 = 99" by (rule mod_Suc_int; simp)+
  show ?thesis
  proof (cases "yoe = 399")
    case True
    then have "leap_year (yoe + 1 + era * 400)" using leap_year_of_era [of 0 "era + 1"] by (simp add: algebra_simps)
    then show ?thesis using True by (simp add: year_len_def)
  next
    case False
    then show ?thesis using y s leap_year_of_era [of "yoe + 1" era] by (simp only: year_len_def) simp
  qed
qed

lemma civil_from_days_eq:
  assumes "0 \<le> yoe" "yoe < 400" "0 \<le> doy" "doy < year_len yoe" "z + 719468 = era * 146097 + (year_start yoe + doy)"
  shows "time_civil_from_days z tp = civil_date z (yoe + era * 400) doy tp"
proof -
  note y = year_of_doe [OF assms(1-4) refl]
  have d: "doy < 366" using assms(4) by (simp add: year_len_def split: if_splits)
  have "z + 719468 = 146097 * era + (year_start yoe + doy)" using assms(5) by simp
  then have e: "(z + 719468) div 146097 = era" by (rule int_div_pos_eq) (use y in simp_all)
  have fl: "(if 0 \<le> z + 719468 then z + 719468 else z + 719468 - 146096) sdiv 146097 = era"
    unfolding e [symmetric] by (rule floor_sdiv) simp_all
  have doe: "z + 719468 - era * 146097 = year_start yoe + doy" using assms(5) by simp
  have ys: "year_start yoe + doy - (365 * yoe + yoe div 4 - yoe div 100) = doy" by (simp add: year_start_def)
  note t = month_table [OF assms(3) d]
  show ?thesis
    unfolding time_civil_from_days_def Let_def fl doe y(1) ys wday_mod civil_date_def leap_year_of_era [OF assms(1,2)]
    using t by (simp add: month_of_def [symmetric] mday_of_def [symmetric])
qed


lemma wday_Suc: "(z + 1 + 4) mod 7 = ((z + 4) mod 7 + 1) mod (7::int)"
  unfolding mod_add_left_eq by (rule arg_cong [where f = "\<lambda>x. x mod 7"]) simp

lemma next_date_rec:
  "next_date (tp\<lparr>tm_wday := w, tm_year := y - 1900, tm_mon := m, tm_mday := d, tm_yday := q\<rparr>) =
     (if d < month_days y m then tp\<lparr>tm_wday := (w + 1) mod 7, tm_year := y - 1900, tm_mon := m, tm_mday := d + 1, tm_yday := q + 1\<rparr>
      else if m < 11 then tp\<lparr>tm_wday := (w + 1) mod 7, tm_year := y - 1900, tm_mon := m + 1, tm_mday := 1, tm_yday := q + 1\<rparr>
      else tp\<lparr>tm_wday := (w + 1) mod 7, tm_year := (y + 1) - 1900, tm_mon := 0, tm_mday := 1, tm_yday := 0\<rparr>)"
  by (simp add: next_date_def Let_def)

lemma month_days_mar:
  "0 \<le> m \<Longrightarrow> m < 10 \<Longrightarrow> month_days y (m + 2) = (if m \<in> {1, 3, 6, 8} then 30 else 31)"
  "month_days y 0 = 31" "month_days y 1 = (if leap_year y then 29 else 28)"
  by (auto simp: month_days_def)

lemma civil_date_succ:
  assumes "0 \<le> doy" "doy + 1 < (if leap_year (y + 1) then 366 else 365)"
  shows "civil_date (z + 1) y (doy + 1) tp = next_date (civil_date z y doy tp)"
proof -
  have d: "doy < 365" using assms(2) by (simp split: if_splits)
  have l: "doy < 364 \<or> leap_year (y + 1)" using assms(2) by (simp split: if_splits)
  note s = month_succ [OF assms(1) d]
  have t: "(month_of doy < 10 \<longleftrightarrow> doy < 306)" "0 \<le> month_of doy" "month_of doy \<le> 11"
    using month_table [of doy] assms(1) d by auto
  note defs = civil_date_def Let_def wday_Suc next_date_rec
  consider (feb) "month_of doy = 11" | (dec) "doy = 305" | (jan) "month_of doy = 10" | (mar) "month_of doy < 10" "doy < 305"
    using t by linarith
  then show ?thesis
  proof cases
    case feb
    then have f: "doy \<ge> 337" "mday_of doy = doy - 336" "month_of (doy + 1) = 11" "mday_of (doy + 1) = mday_of doy + 1"
      using s by auto
    have "mday_of doy < month_days (y + 1) 1" using f(1,2) l d by (auto simp: month_days_mar)
    then show ?thesis using f feb unfolding defs by simp
  next
    case dec
    then show ?thesis unfolding defs by (simp add: month_of_def mday_of_def month_days_mar month_days_def)
  next
    case jan
    then have "doy \<ge> 306" using t by linarith
    with jan s show ?thesis unfolding defs by (simp add: month_days_mar split: if_splits)
  next
    case mar
    then have n: "month_of doy = 9 \<longrightarrow> mday_of doy < 31" "\<not> 306 \<le> doy" "\<not> 306 \<le> doy + 1" using s by auto
    show ?thesis
    proof (cases "mday_of doy < month_days y (month_of doy + 2)")
      case True
      then show ?thesis using s t mar n unfolding defs by (simp add: month_days_mar)
    next
      case False
      then have "month_of (doy + 1) = month_of doy + 1 \<and> mday_of (doy + 1) = 1" using s t mar by (simp add: month_days_mar)
      moreover have "month_of doy \<noteq> 9" using n False by (auto simp: month_days_def)
      then have "month_of doy + 2 < 11" using mar by linarith
      ultimately show ?thesis using False mar n unfolding defs by simp
    qed
  qed
qed

lemma civil_date_year:
  assumes "doy + 1 = (if leap_year (y + 1) then 366 else 365)"
  shows "civil_date (z + 1) (y + 1) 0 tp = next_date (civil_date z y doy tp)"
proof -
  have "mday_of doy = month_days (y + 1) 1" "month_of doy = 11" "doy \<ge> 306" "month_of 0 = 0" "mday_of 0 = 1"
    "doy - 306 = 58 + (if leap_year (y + 1) then 1 else 0)"
    using assms by (cases "leap_year (y + 1)"; simp add: month_days_mar month_of_def mday_of_def)+
  then show ?thesis unfolding civil_date_def Let_def wday_Suc next_date_rec by simp
qed

lemma civil_from_days_next: "time_civil_from_days (z + 1) tp = next_date (time_civil_from_days z tp)"
proof -
  define era where "era = (z + 719468) div 146097"
  have "0 \<le> (z + 719468) mod 146097" "(z + 719468) mod 146097 < 146097" by simp_all
  then obtain yoe doy where y: "0 \<le> yoe" "yoe < 400" "0 \<le> doy" "doy < year_len yoe"
    and m: "(z + 719468) mod 146097 = year_start yoe + doy"
    using doe_year_ex [of "nat ((z + 719468) mod 146097)"] by auto
  have z: "z + 719468 = era * 146097 + (year_start yoe + doy)"
    using m div_mult_mod_eq [of "z + 719468" 146097] by (simp add: era_def)
  have yl: "year_len yoe = (if leap_year (yoe + era * 400 + 1) then 366 else 365)"
    using year_len_leap [OF y(1,2), of era] by (simp add: algebra_simps)
  note c = civil_from_days_eq [OF y z]
  consider "doy + 1 < year_len yoe" | "doy + 1 = year_len yoe" "yoe < 399" | "doy + 1 = year_len yoe" "yoe = 399"
    using y by linarith
  then show ?thesis
  proof cases
    case 1
    then have "time_civil_from_days (z + 1) tp = civil_date (z + 1) (yoe + era * 400) (doy + 1) tp"
      using y z by (intro civil_from_days_eq) linarith+
    then show ?thesis unfolding c using civil_date_succ [of doy "yoe + era * 400"] 1 y(3) yl by simp
  next
    case 2
    then have "time_civil_from_days (z + 1) tp = civil_date (z + 1) ((yoe + 1) + era * 400) 0 tp"
      using y z year_start_Suc [of yoe] by (intro civil_from_days_eq) (simp_all add: year_len_def)
    moreover have "(yoe + 1) + era * 400 = yoe + era * 400 + 1" by simp
    ultimately show ?thesis unfolding c using civil_date_year [of doy "yoe + era * 400"] 2(1) yl by (simp only:)
  next
    case 3
    then have "z + 1 + 719468 = (era + 1) * 146097 + (year_start 0 + 0)"
      using z by (simp add: year_start_def year_len_def)
    then have "time_civil_from_days (z + 1) tp = civil_date (z + 1) (0 + (era + 1) * 400) 0 tp"
      by (intro civil_from_days_eq) (simp_all add: year_len_def)
    moreover have "0 + (era + 1) * 400 = yoe + era * 400 + 1" using 3(2) by simp
    ultimately show ?thesis unfolding c using civil_date_year [of doy "yoe + era * 400"] 3(1) yl by (simp only:)
  qed
qed


section \<open>Seconds\<close>

definition tod_of :: "int \<Rightarrow> tod_time \<Rightarrow> tod_time" where
  "tod_of z r = (time_civil_from_days (z div 86400) r)
     \<lparr>tm_hour := z mod 86400 div 3600, tm_min := z mod 3600 div 60, tm_sec := z mod 60\<rparr>"

lemma clock_get_tod_time_eq:
  "vtime_ok z \<Longrightarrow> vtime_ok (z - 86399) \<or> 0 \<le> z \<Longrightarrow> clock_get_tod_time (Some z) (Some r) = Some (0, Some (tod_of z r))"
proof -
  assume z: "vtime_ok z" "vtime_ok (z - 86399) \<or> 0 \<le> z"
  define q where "q = z div 86400"
  define h where "h = z mod 86400 div 3600"
  have fl: "(if z \<ge> 0 then z else z - 86399) sdiv 86400 = q" unfolding q_def by (rule floor_sdiv) simp_all
  have rm: "z - q * 86400 = z mod 86400" by (simp add: q_def minus_div_mult_eq_mod)
  have h: "z mod 86400 div 60 div 60 = h" unfolding h_def by (simp add: div_mult2_eq [symmetric])
  have "z mod 86400 mod 3600 = z mod 3600" "z mod 3600 mod 60 = z mod 60" by (simp_all add: mod_mod_cancel)
  then have m: "z mod 86400 - h * 60 * 60 = z mod 3600" and sc: "z mod 3600 - z mod 3600 div 60 * 60 = z mod 60"
    using minus_div_mult_eq_mod [of "z mod 86400" 3600] minus_div_mult_eq_mod [of "z mod 3600" 60] unfolding h_def by auto
  have ok: "vtime_ok (if z \<ge> 0 then z else z - 86399)" using z by auto
  show ?thesis
    unfolding clock_get_tod_time_def tod_of_def prod.case option.case Let_def fl rm h m sc q_def [symmetric] h_def [symmetric]
    using ok by simp
qed

lemma next_date_hms:
  "next_date (t\<lparr>tm_sec := s, tm_min := m, tm_hour := h\<rparr>) = (next_date t)\<lparr>tm_hour := h, tm_min := m, tm_sec := s\<rparr>"
  by (cases t) (simp add: next_date_def Let_def)

lemma tod_of_hms:
  assumes "0 \<le> h" "h < 24" "0 \<le> m" "m < 60" "0 \<le> s" "s < 60" "z = 86400 * d + (3600 * h + 60 * m + s)"
  shows "tod_of z r = (time_civil_from_days d r)\<lparr>tm_hour := h, tm_min := m, tm_sec := s\<rparr>"
proof -
  have 1: "z div 86400 = d" "z mod 86400 = 3600 * h + 60 * m + s" using assms by (auto intro: int_div_pos_eq int_mod_pos_eq)
  have 2: "z mod 3600 = 60 * m + s" by (rule int_mod_pos_eq [of _ _ "24 * d + h"]) (use assms in auto)
  have 3: "z mod 60 = s" by (rule int_mod_pos_eq [of _ _ "1440 * d + 60 * h + m"]) (use assms in auto)
  have "(3600 * h + 60 * m + s) div 3600 = h" by (rule int_div_pos_eq [of _ _ _ "60 * m + s"]) (use assms in auto)
  moreover have "(60 * m + s) div 60 = m" by (rule int_div_pos_eq [of _ _ _ s]) (use assms in auto)
  ultimately show ?thesis unfolding tod_of_def 1 2 3 by simp
qed

lemma hms_ex: "\<exists>d h m s. 0 \<le> h \<and> h < 24 \<and> 0 \<le> m \<and> m < 60 \<and> 0 \<le> s \<and> s < 60 \<and> z = 86400 * d + (3600 * h + 60 * m + (s::int))"
proof -
  define r where "r = z mod 86400"
  have r: "0 \<le> r" "r < 86400" by (simp_all add: r_def)
  define k where "k = r mod 3600"
  have k: "0 \<le> k" "k < 3600" by (simp_all add: k_def)
  have "z = 86400 * (z div 86400) + (3600 * (r div 3600) + 60 * (k div 60) + k mod 60)"
    using mult_div_mod_eq [of 86400 z] mult_div_mod_eq [of 3600 r] mult_div_mod_eq [of 60 k] unfolding r_def [symmetric] k_def [symmetric] by linarith
  moreover have "0 \<le> r div 3600" "r div 3600 < 24" "0 \<le> k div 60" "k div 60 < 60" "0 \<le> k mod 60" "k mod 60 < 60" using r k by auto
  ultimately show ?thesis by blast
qed

lemma tod_of_next: "tod_of (z + 1) r = next_second (tod_of z r)"
proof -
  obtain d h m s where a: "0 \<le> h" "h < 24" "0 \<le> m" "m < 60" "0 \<le> s" "s < 60" "z = 86400 * d + (3600 * h + 60 * m + s)"
    using hms_ex by blast
  consider "s < 59" | "s = 59" "m < 59" | "s = 59" "m = 59" "h < 23" | "s = 59" "m = 59" "h = 23" using a by linarith
  then show ?thesis
  proof cases
    case 1
    then have "tod_of (z + 1) r = (time_civil_from_days d r)\<lparr>tm_hour := h, tm_min := m, tm_sec := s + 1\<rparr>"
      using a by (intro tod_of_hms) auto
    then show ?thesis using 1 tod_of_hms [OF a] by (simp add: next_second_def)
  next
    case 2
    then have "tod_of (z + 1) r = (time_civil_from_days d r)\<lparr>tm_hour := h, tm_min := m + 1, tm_sec := 0\<rparr>"
      using a by (intro tod_of_hms) auto
    then show ?thesis using 2 tod_of_hms [OF a] by (simp add: next_second_def)
  next
    case 3
    then have "tod_of (z + 1) r = (time_civil_from_days d r)\<lparr>tm_hour := h + 1, tm_min := 0, tm_sec := 0\<rparr>"
      using a by (intro tod_of_hms) auto
    then show ?thesis using 3 tod_of_hms [OF a] by (simp add: next_second_def)
  next
    case 4
    then have "tod_of (z + 1) r = (time_civil_from_days (d + 1) r)\<lparr>tm_hour := 0, tm_min := 0, tm_sec := 0\<rparr>"
      using a by (intro tod_of_hms) auto
    then show ?thesis using 4 tod_of_hms [OF a] by (simp add: next_second_def civil_from_days_next next_date_hms)
  qed
qed

lemma tod_of_iterate: "tod_of (z + int n) r = (next_second ^^ n) (tod_of z r)"
proof (induction n)
  case 0
  then show ?case by simp
next
  case (Suc n)
  then show ?case using tod_of_next [of "z + int n" r] by (simp add: algebra_simps)
qed

definition epoch :: tod_time where
  "epoch = \<lparr>tm_sec = 0, tm_min = 0, tm_hour = 0, tm_mday = 1, tm_mon = 0, tm_year = 70, tm_wday = 4, tm_yday = 0\<rparr>"

lemma tod_of_epoch: "tod_of 0 r = epoch"
  using civil_from_days_eq [of 369 306 0 4 r]
  by (cases r) (simp add: tod_of_def epoch_def civil_date_def year_start_def year_len_def month_of_def mday_of_def)



end
