(* ===== verification/ListHead.thy ===== *)
theory ListHead
  imports Prelude
begin

text \<open>
  \<^verbatim>\<open>basework/container/list.h\<close>, the circular doubly linked lists. The store \<open>lheap\<close> holds the two link fields of
  every \<^verbatim>\<open>struct list_head\<close>, addressed by a number; 0 is \<^verbatim>\<open>NULL\<close> (also the poison of a deleted entry), and reading or
  writing a field through it is \<^const>\<open>None\<close>. Every routine is the source's sequence of field accesses. \<open>dlist h l xs\<close>
  says that the ring with head \<open>l\<close> holds the entries \<open>xs\<close>; the lemmas give each routine as an operation on \<open>xs\<close> and say
  which links it leaves alone.
\<close>

section \<open>The store\<close>

record lheap =
  nxt :: "nat \<Rightarrow> nat"
  prv :: "nat \<Rightarrow> nat"

definition rd_next :: "lheap \<Rightarrow> nat \<Rightarrow> nat option" where
  "rd_next h p = (if p = 0 then None else Some (nxt h p))"

definition rd_prev :: "lheap \<Rightarrow> nat \<Rightarrow> nat option" where
  "rd_prev h p = (if p = 0 then None else Some (prv h p))"

definition wr_next :: "nat \<Rightarrow> nat \<Rightarrow> lheap \<Rightarrow> lheap option" where
  "wr_next p v h = (if p = 0 then None else Some (h\<lparr>nxt := (nxt h)(p := v)\<rparr>))"

definition wr_prev :: "nat \<Rightarrow> nat \<Rightarrow> lheap \<Rightarrow> lheap option" where
  "wr_prev p v h = (if p = 0 then None else Some (h\<lparr>prv := (prv h)(p := v)\<rparr>))"

section \<open>The routines\<close>

definition INIT_LIST_HEAD :: "nat \<Rightarrow> lheap \<Rightarrow> lheap option" where
  "INIT_LIST_HEAD l h = do { h \<leftarrow> wr_next l l h; wr_prev l l h }"

definition list_add_between :: "nat \<Rightarrow> nat \<Rightarrow> nat \<Rightarrow> lheap \<Rightarrow> lheap option" where
  "list_add_between newn prev next h =
     do { h \<leftarrow> wr_prev next newn h; h \<leftarrow> wr_next newn next h; h \<leftarrow> wr_prev newn prev h; wr_next prev newn h }"

definition list_add :: "nat \<Rightarrow> nat \<Rightarrow> lheap \<Rightarrow> lheap option" where
  "list_add newn head h = do { n \<leftarrow> rd_next h head; list_add_between newn head n h }"

definition list_add_tail :: "nat \<Rightarrow> nat \<Rightarrow> lheap \<Rightarrow> lheap option" where
  "list_add_tail newn head h = do { p \<leftarrow> rd_prev h head; list_add_between newn p head h }"

definition list_del_between :: "nat \<Rightarrow> nat \<Rightarrow> lheap \<Rightarrow> lheap option" where
  "list_del_between prev next h = do { h \<leftarrow> wr_prev next prev h; wr_next prev next h }"

definition list_del_entry :: "nat \<Rightarrow> lheap \<Rightarrow> lheap option" where
  "list_del_entry entry h = do { p \<leftarrow> rd_prev h entry; n \<leftarrow> rd_next h entry; list_del_between p n h }"

definition list_del :: "nat \<Rightarrow> lheap \<Rightarrow> lheap option" where
  "list_del entry h = do { h \<leftarrow> list_del_entry entry h; h \<leftarrow> wr_next entry 0 h; wr_prev entry 0 h }"

definition list_replace :: "nat \<Rightarrow> nat \<Rightarrow> lheap \<Rightarrow> lheap option" where
  "list_replace old newn h =
     do { n \<leftarrow> rd_next h old; h \<leftarrow> wr_next newn n h;
          n \<leftarrow> rd_next h newn; h \<leftarrow> wr_prev n newn h;
          p \<leftarrow> rd_prev h old; h \<leftarrow> wr_prev newn p h;
          p \<leftarrow> rd_prev h newn; wr_next p newn h }"

definition list_replace_init :: "nat \<Rightarrow> nat \<Rightarrow> lheap \<Rightarrow> lheap option" where
  "list_replace_init old newn h = do { h \<leftarrow> list_replace old newn h; INIT_LIST_HEAD old h }"

definition list_del_init :: "nat \<Rightarrow> lheap \<Rightarrow> lheap option" where
  "list_del_init entry h = do { h \<leftarrow> list_del_entry entry h; INIT_LIST_HEAD entry h }"

definition list_move :: "nat \<Rightarrow> nat \<Rightarrow> lheap \<Rightarrow> lheap option" where
  "list_move l head h = do { h \<leftarrow> list_del_entry l h; list_add l head h }"

definition list_move_tail :: "nat \<Rightarrow> nat \<Rightarrow> lheap \<Rightarrow> lheap option" where
  "list_move_tail l head h = do { h \<leftarrow> list_del_entry l h; list_add_tail l head h }"

definition list_is_last :: "nat \<Rightarrow> nat \<Rightarrow> lheap \<Rightarrow> bool option" where
  "list_is_last l head h = do { n \<leftarrow> rd_next h l; Some (n = head) }"

definition list_empty :: "nat \<Rightarrow> lheap \<Rightarrow> bool option" where
  "list_empty head h = do { n \<leftarrow> rd_next h head; Some (n = head) }"

definition list_empty_careful :: "nat \<Rightarrow> lheap \<Rightarrow> bool option" where
  "list_empty_careful head h =
     do { n \<leftarrow> rd_next h head; if n = head then do { p \<leftarrow> rd_prev h head; Some (n = p) } else Some False }"

definition list_rotate_left :: "nat \<Rightarrow> lheap \<Rightarrow> lheap option" where
  "list_rotate_left head h =
     do { e \<leftarrow> list_empty head h;
          if \<not> e then do { first \<leftarrow> rd_next h head; list_move_tail first head h } else Some h }"

definition list_is_singular :: "nat \<Rightarrow> lheap \<Rightarrow> bool option" where
  "list_is_singular head h =
     do { e \<leftarrow> list_empty head h;
          if e then Some False else do { n \<leftarrow> rd_next h head; p \<leftarrow> rd_prev h head; Some (n = p) } }"

definition list_cut_position_links :: "nat \<Rightarrow> nat \<Rightarrow> nat \<Rightarrow> lheap \<Rightarrow> lheap option" where
  "list_cut_position_links l head entry h =
     do { new_first \<leftarrow> rd_next h entry;
          n \<leftarrow> rd_next h head; h \<leftarrow> wr_next l n h;
          n \<leftarrow> rd_next h l; h \<leftarrow> wr_prev n l h;
          h \<leftarrow> wr_prev l entry h;
          h \<leftarrow> wr_next entry l h;
          h \<leftarrow> wr_next head new_first h;
          wr_prev new_first head h }"

definition list_cut_position :: "nat \<Rightarrow> nat \<Rightarrow> nat \<Rightarrow> lheap \<Rightarrow> lheap option" where
  "list_cut_position l head entry h =
     do { e \<leftarrow> list_empty head h;
          if e then Some h else do {
          s \<leftarrow> list_is_singular head h;
          n \<leftarrow> rd_next h head;
          if s \<and> n \<noteq> entry \<and> head \<noteq> entry then Some h
          else if entry = head then INIT_LIST_HEAD l h
          else list_cut_position_links l head entry h } }"

definition list_cut_before :: "nat \<Rightarrow> nat \<Rightarrow> nat \<Rightarrow> lheap \<Rightarrow> lheap option" where
  "list_cut_before l head entry h =
     do { n \<leftarrow> rd_next h head;
          if n = entry then INIT_LIST_HEAD l h
          else do {
            n \<leftarrow> rd_next h head; h \<leftarrow> wr_next l n h;
            n \<leftarrow> rd_next h l; h \<leftarrow> wr_prev n l h;
            p \<leftarrow> rd_prev h entry; h \<leftarrow> wr_prev l p h;
            p \<leftarrow> rd_prev h l; h \<leftarrow> wr_next p l h;
            h \<leftarrow> wr_next head entry h;
            wr_prev entry head h } }"

definition list_splice_links :: "nat \<Rightarrow> nat \<Rightarrow> nat \<Rightarrow> lheap \<Rightarrow> lheap option" where
  "list_splice_links l prev next h =
     do { first \<leftarrow> rd_next h l; last \<leftarrow> rd_prev h l;
          h \<leftarrow> wr_prev first prev h; h \<leftarrow> wr_next prev first h;
          h \<leftarrow> wr_next last next h; wr_prev next last h }"

definition list_splice :: "nat \<Rightarrow> nat \<Rightarrow> lheap \<Rightarrow> lheap option" where
  "list_splice l head h =
     do { e \<leftarrow> list_empty l h;
          if \<not> e then do { n \<leftarrow> rd_next h head; list_splice_links l head n h } else Some h }"

definition list_splice_tail :: "nat \<Rightarrow> nat \<Rightarrow> lheap \<Rightarrow> lheap option" where
  "list_splice_tail l head h =
     do { e \<leftarrow> list_empty l h;
          if \<not> e then do { p \<leftarrow> rd_prev h head; list_splice_links l p head h } else Some h }"

definition list_splice_init :: "nat \<Rightarrow> nat \<Rightarrow> lheap \<Rightarrow> lheap option" where
  "list_splice_init l head h =
     do { e \<leftarrow> list_empty l h;
          if \<not> e then do { n \<leftarrow> rd_next h head; h \<leftarrow> list_splice_links l head n h; INIT_LIST_HEAD l h } else Some h }"

definition list_splice_tail_init :: "nat \<Rightarrow> nat \<Rightarrow> lheap \<Rightarrow> lheap option" where
  "list_splice_tail_init l head h =
     do { e \<leftarrow> list_empty l h;
          if \<not> e then do { p \<leftarrow> rd_prev h head; h \<leftarrow> list_splice_links l p head h; INIT_LIST_HEAD l h } else Some h }"

text \<open>The visits of \<^verbatim>\<open>list_for_each\<close> and \<^verbatim>\<open>list_for_each_prev\<close>, in order; the fuel bounds the steps, since a broken ring
  has no end.\<close>

fun list_for_each :: "nat \<Rightarrow> nat \<Rightarrow> nat \<Rightarrow> lheap \<Rightarrow> nat list option" where
  "list_for_each 0 pos head h = None"
| "list_for_each (Suc fuel) pos head h =
     (if pos = head then Some []
      else do { n \<leftarrow> rd_next h pos; ps \<leftarrow> list_for_each fuel n head h; Some (pos # ps) })"

fun list_for_each_prev :: "nat \<Rightarrow> nat \<Rightarrow> nat \<Rightarrow> lheap \<Rightarrow> nat list option" where
  "list_for_each_prev 0 pos head h = None"
| "list_for_each_prev (Suc fuel) pos head h =
     (if pos = head then Some []
      else do { n \<leftarrow> rd_prev h pos; ps \<leftarrow> list_for_each_prev fuel n head h; Some (pos # ps) })"

section \<open>Rings\<close>

text \<open>Consecutive nodes point at each other.\<close>

fun path :: "lheap \<Rightarrow> nat list \<Rightarrow> bool" where
  "path h (a # b # r) \<longleftrightarrow> nxt h a = b \<and> prv h b = a \<and> path h (b # r)"
| "path h _ \<longleftrightarrow> True"

definition dlist :: "lheap \<Rightarrow> nat \<Rightarrow> nat list \<Rightarrow> bool" where
  "dlist h l xs \<longleftrightarrow> distinct (l # xs) \<and> 0 \<notin> set (l # xs) \<and> path h (l # xs @ [l])"

text \<open>Two stores that agree on the links of the nodes outside a set.\<close>

definition agree_off :: "nat set \<Rightarrow> lheap \<Rightarrow> lheap \<Rightarrow> bool" where
  "agree_off S h h' \<longleftrightarrow> (\<forall>p. p \<notin> S \<longrightarrow> nxt h' p = nxt h p \<and> prv h' p = prv h p)"

lemmas list_ops = rd_next_def rd_prev_def wr_next_def wr_prev_def

lemma path_join:
  "as \<noteq> [] \<Longrightarrow> bs \<noteq> [] \<Longrightarrow>
   path h (as @ bs) \<longleftrightarrow> path h as \<and> path h bs \<and> nxt h (last as) = hd bs \<and> prv h (hd bs) = last as"
proof (induction as)
  case (Cons a as)
  then show ?case by (cases as; cases bs) auto
qed simp

lemma path_insert:
  assumes "as \<noteq> []" "bs \<noteq> []"
  shows "path h (as @ n # bs) \<longleftrightarrow> path h as \<and> nxt h (last as) = n \<and> prv h n = last as \<and>
    nxt h n = hd bs \<and> prv h (hd bs) = n \<and> path h bs"
  using assms path_join [of as "n # bs" h] path_join [of "[n]" bs h] by auto

lemma path_cong:
  "(\<And>a. a \<in> set (butlast zs) \<Longrightarrow> nxt h' a = nxt h a) \<Longrightarrow> (\<And>b. b \<in> set (tl zs) \<Longrightarrow> prv h' b = prv h b) \<Longrightarrow>
   path h' zs = path h zs"
proof (induction h zs rule: path.induct)
  case (1 h a b r)
  then have "path h' (b # r) = path h (b # r)" by (auto split: if_splits)
  then show ?case using 1(2) [of a] 1(3) [of b] by simp
qed simp_all

lemma path_nxt_upd [simp]: "p \<notin> set (butlast zs) \<Longrightarrow> path (h\<lparr>nxt := (nxt h)(p := v)\<rparr>) zs = path h zs"
  by (rule path_cong) auto

lemma path_prv_upd [simp]: "p \<notin> set (tl zs) \<Longrightarrow> path (h\<lparr>prv := (prv h)(p := v)\<rparr>) zs = path h zs"
  by (rule path_cong) auto

lemma dlist_frame:
  assumes "dlist h l xs" "agree_off S h h'" "S \<inter> set (l # xs) = {}"
  shows "dlist h' l xs"
proof -
  have "path h' (l # xs @ [l]) = path h (l # xs @ [l])"
    using assms(2,3) unfolding agree_off_def by (intro path_cong) (auto simp: butlast_append split: if_splits)
  then show ?thesis using assms(1) unfolding dlist_def by simp
qed

lemma agree_off_mono: "agree_off S h h' \<Longrightarrow> S \<subseteq> T \<Longrightarrow> agree_off T h h'"
  by (auto simp: agree_off_def)

lemma agree_off_trans: "agree_off S h h' \<Longrightarrow> agree_off T h' h'' \<Longrightarrow> agree_off (S \<union> T) h h''"
  by (auto simp: agree_off_def)

lemma agree_off_refl [simp]: "agree_off S h h"
  by (simp add: agree_off_def)

lemma INIT_LIST_HEAD_ok:
  "l \<noteq> 0 \<Longrightarrow> \<exists>h'. INIT_LIST_HEAD l h = Some h' \<and> dlist h' l [] \<and> agree_off {l} h h'"
  by (auto simp: INIT_LIST_HEAD_def list_ops dlist_def agree_off_def)

text \<open>A ring cut in two: the two halves are paths and their ends are linked.\<close>

lemma dlist_cut:
  "dlist h l (xs @ ys) \<longleftrightarrow> distinct (l # xs @ ys) \<and> 0 \<notin> set (l # xs @ ys) \<and> path h (l # xs) \<and> path h (ys @ [l]) \<and>
     nxt h (last (l # xs)) = hd (ys @ [l]) \<and> prv h (hd (ys @ [l])) = last (l # xs)"
  using path_join [of "l # xs" "ys @ [l]" h] by (auto simp: dlist_def)

lemma cut_ends:
  assumes "distinct (l # xs @ ys)"
  shows "last (l # xs) \<notin> set (butlast (l # xs))" "hd (ys @ [l]) \<notin> set (tl (ys @ [l]))"
    "last (l # xs) \<notin> set ys" "hd (ys @ [l]) \<notin> set xs" "set (butlast (ys @ [l])) = set ys" "set (tl (l # xs)) = set xs"
    "last (l # xs) \<in> set (l # xs)" "hd (ys @ [l]) \<in> set (l # ys)" "set (tl (ys @ [l])) \<subseteq> set (l # ys)" "set (butlast (l # xs)) \<subseteq> set (l # xs)"
  using assms by (cases xs rule: rev_cases; cases ys; auto)+

lemma dlist_nonzero: "dlist h l xs \<Longrightarrow> p \<in> set (l # xs) \<Longrightarrow> p \<noteq> 0"
  unfolding dlist_def by metis

lemma dlist_empty_iff: "dlist h l xs \<Longrightarrow> list_empty l h = Some (xs = [])"
  by (cases xs) (auto simp: list_empty_def list_ops dlist_def)

lemma list_add_between_ok:
  assumes "dlist h l (xs @ ys)" "n \<notin> set (l # xs @ ys)" "n \<noteq> 0"
  shows "\<exists>h'. list_add_between n (last (l # xs)) (hd (ys @ [l])) h = Some h' \<and> dlist h' l (xs @ n # ys) \<and>
    agree_off {n, last (l # xs), hd (ys @ [l])} h h'"
proof -
  define p where "p = last (l # xs)"
  define q where "q = hd (ys @ [l])"
  note c = assms(1) [unfolded dlist_cut]
  note e = cut_ends [OF conjunct1 [OF c], folded p_def q_def]
  have nz: "p \<noteq> 0" "q \<noteq> 0" using c e(7,8) by auto
  have d: "distinct (l # xs @ n # ys)" "0 \<notin> set (l # xs @ n # ys)" using c assms(2,3) by auto
  let ?h = "h\<lparr>prv := (prv h)(q := n, n := p), nxt := (nxt h)(n := q, p := n)\<rparr>"
  have s: "list_add_between n p q h = Some ?h" using nz assms(3) by (simp add: list_add_between_def list_ops)
  have "path ?h (l # xs)" by (rule path_cong [THEN iffD2, OF _ _ conjunct1 [OF conjunct2 [OF conjunct2 [OF c]]]]) (use e assms(2) in auto)
  moreover have "path ?h (ys @ [l])"
    by (rule path_cong [THEN iffD2, of _ _ h]) (use c e assms(2) in auto)
  moreover have "n \<noteq> p" "n \<noteq> q" using assms(2) e(7,8) by auto
  ultimately have "path ?h ((l # xs) @ n # (ys @ [l]))" by (subst path_insert) (simp_all add: p_def q_def del: last.simps)
  then have "dlist ?h l (xs @ n # ys)" using d unfolding dlist_def by simp
  then show ?thesis using s unfolding p_def q_def by (auto simp: agree_off_def)
qed

lemma dlist_head_links: "dlist h l xs \<Longrightarrow> nxt h l = hd (xs @ [l]) \<and> prv h l = last (l # xs) \<and> l \<noteq> 0"
  using dlist_cut [of h l "[]" xs] dlist_cut [of h l xs "[]"] by auto

lemma list_add_ok:
  assumes "dlist h l xs" "n \<notin> set (l # xs)" "n \<noteq> 0"
  shows "\<exists>h'. list_add n l h = Some h' \<and> dlist h' l (n # xs) \<and> agree_off (set (n # l # xs)) h h'"
proof -
  obtain h' where "list_add_between n l (hd (xs @ [l])) h = Some h'" "dlist h' l (n # xs)" "agree_off {n, l, hd (xs @ [l])} h h'"
    using list_add_between_ok [of h l "[]" xs n] assms by auto
  moreover have "hd (xs @ [l]) \<in> set (l # xs)" by (cases xs) auto
  ultimately show ?thesis using dlist_head_links [OF assms(1)]
    by (auto simp: list_add_def rd_next_def elim!: agree_off_mono)
qed

lemma list_add_tail_ok:
  assumes "dlist h l xs" "n \<notin> set (l # xs)" "n \<noteq> 0"
  shows "\<exists>h'. list_add_tail n l h = Some h' \<and> dlist h' l (xs @ [n]) \<and> agree_off (set (n # l # xs)) h h'"
proof -
  obtain h' where "list_add_between n (last (l # xs)) l h = Some h'" "dlist h' l (xs @ [n])" "agree_off {n, last (l # xs), l} h h'"
    using list_add_between_ok [of h l xs "[]" n] assms by auto
  moreover have "last (l # xs) \<in> set (l # xs)" by (rule last_in_set) simp
  ultimately show ?thesis using dlist_head_links [OF assms(1)]
    by (auto simp: list_add_tail_def rd_prev_def elim!: agree_off_mono simp del: last.simps)
qed

text \<open>An entry and its neighbours.\<close>

lemma dlist_entry:
  "dlist h l (xs @ e # ys) \<longleftrightarrow> distinct (l # xs @ e # ys) \<and> 0 \<notin> set (l # xs @ e # ys) \<and>
     path h (l # xs) \<and> nxt h (last (l # xs)) = e \<and> prv h e = last (l # xs) \<and>
     nxt h e = hd (ys @ [l]) \<and> prv h (hd (ys @ [l])) = e \<and> path h (ys @ [l])"
  using path_insert [of "l # xs" "ys @ [l]" h e] by (simp add: dlist_def)

lemma list_del_entry_ok:
  assumes "dlist h l (xs @ e # ys)"
  shows "\<exists>h'. list_del_entry e h = Some h' \<and> dlist h' l (xs @ ys) \<and> agree_off (set (l # xs @ ys)) h h'"
proof -
  define p where "p = last (l # xs)"
  define q where "q = hd (ys @ [l])"
  note c = assms [unfolded dlist_entry, folded p_def q_def]
  have d: "distinct (l # xs @ ys)" using c by auto
  note e = cut_ends [OF d, folded p_def q_def]
  have nz: "p \<noteq> 0" "q \<noteq> 0" using c e(7,8) by auto
  let ?h = "h\<lparr>prv := (prv h)(q := p), nxt := (nxt h)(p := q)\<rparr>"
  have s: "list_del_entry e h = Some ?h" using nz c by (auto simp: list_del_entry_def list_del_between_def list_ops)
  have "path ?h (l # xs)" "path ?h (ys @ [l])"
    by (rule path_cong [THEN iffD2, of _ _ h]; use c e in auto)+
  then have "dlist ?h l (xs @ ys)" using c d unfolding dlist_cut p_def [symmetric] q_def [symmetric] by simp
  moreover have "agree_off (set (l # xs @ ys)) h ?h" using e(7,8) by (auto simp: agree_off_def)
  ultimately show ?thesis using s by blast
qed

lemma list_del_ok:
  assumes "dlist h l (xs @ e # ys)"
  shows "\<exists>h'. list_del e h = Some h' \<and> dlist h' l (xs @ ys) \<and> agree_off (set (l # xs @ e # ys)) h h' \<and> nxt h' e = 0 \<and> prv h' e = 0"
proof -
  obtain h1 where 1: "list_del_entry e h = Some h1" "dlist h1 l (xs @ ys)" "agree_off (set (l # xs @ ys)) h h1"
    using list_del_entry_ok [OF assms] by auto
  have e: "e \<noteq> 0" "e \<notin> set (l # xs @ ys)" using assms by (auto simp: dlist_def)
  let ?h = "h1\<lparr>nxt := (nxt h1)(e := 0), prv := (prv h1)(e := 0)\<rparr>"
  have "list_del e h = Some ?h" using 1(1) e by (simp add: list_del_def list_ops)
  moreover have a: "agree_off {e} h1 ?h" by (auto simp: agree_off_def)
  then have "dlist ?h l (xs @ ys)" using dlist_frame [OF 1(2) a] e by auto
  moreover have "agree_off (set (l # xs @ e # ys)) h ?h" using agree_off_trans [OF 1(3) a] by (rule agree_off_mono) auto
  ultimately show ?thesis by auto
qed

lemma list_del_init_ok:
  assumes "dlist h l (xs @ e # ys)"
  shows "\<exists>h'. list_del_init e h = Some h' \<and> dlist h' l (xs @ ys) \<and> dlist h' e [] \<and> agree_off (set (l # xs @ e # ys)) h h'"
proof -
  obtain h1 where 1: "list_del_entry e h = Some h1" "dlist h1 l (xs @ ys)" "agree_off (set (l # xs @ ys)) h h1"
    using list_del_entry_ok [OF assms] by auto
  have e: "e \<noteq> 0" "e \<notin> set (l # xs @ ys)" using assms by (auto simp: dlist_def)
  then obtain h2 where 2: "INIT_LIST_HEAD e h1 = Some h2" "dlist h2 e []" "agree_off {e} h1 h2" using INIT_LIST_HEAD_ok by blast
  have "dlist h2 l (xs @ ys)" using dlist_frame [OF 1(2) 2(3)] e by auto
  moreover have "agree_off (set (l # xs @ e # ys)) h h2" using agree_off_trans [OF 1(3) 2(3)] by (rule agree_off_mono) auto
  ultimately show ?thesis using 1 2 by (auto simp: list_del_init_def)
qed

text \<open>Deleting a deleted entry dereferences the null pointer.\<close>

lemma list_del_twice: "list_del e h = Some h' \<Longrightarrow> list_del e h' = None"
  by (auto simp: list_del_def list_ops list_del_entry_def list_del_between_def split: if_splits bind_splits)

lemma list_move_ok:
  assumes "dlist h l (xs @ e # ys)"
  shows "\<exists>h'. list_move e l h = Some h' \<and> dlist h' l (e # xs @ ys) \<and> agree_off (set (l # xs @ e # ys)) h h'"
proof -
  obtain h1 where 1: "list_del_entry e h = Some h1" "dlist h1 l (xs @ ys)" "agree_off (set (l # xs @ ys)) h h1"
    using list_del_entry_ok [OF assms] by auto
  have e: "e \<noteq> 0" "e \<notin> set (l # xs @ ys)" using assms by (auto simp: dlist_def)
  obtain h2 where 2: "list_add e l h1 = Some h2" "dlist h2 l (e # xs @ ys)" "agree_off (set (e # l # xs @ ys)) h1 h2"
    using list_add_ok [OF 1(2) e(2,1)] by auto
  have "agree_off (set (l # xs @ e # ys)) h h2" using agree_off_trans [OF 1(3) 2(3)] by (rule agree_off_mono) auto
  then show ?thesis using 1 2 by (auto simp: list_move_def)
qed

lemma list_move_tail_ok:
  assumes "dlist h l (xs @ e # ys)"
  shows "\<exists>h'. list_move_tail e l h = Some h' \<and> dlist h' l (xs @ ys @ [e]) \<and> agree_off (set (l # xs @ e # ys)) h h'"
proof -
  obtain h1 where 1: "list_del_entry e h = Some h1" "dlist h1 l (xs @ ys)" "agree_off (set (l # xs @ ys)) h h1"
    using list_del_entry_ok [OF assms] by auto
  have e: "e \<noteq> 0" "e \<notin> set (l # xs @ ys)" using assms by (auto simp: dlist_def)
  obtain h2 where 2: "list_add_tail e l h1 = Some h2" "dlist h2 l (xs @ ys @ [e])" "agree_off (set (e # l # xs @ ys)) h1 h2"
    using list_add_tail_ok [OF 1(2) e(2,1)] by auto
  have "agree_off (set (l # xs @ e # ys)) h h2" using agree_off_trans [OF 1(3) 2(3)] by (rule agree_off_mono) auto
  then show ?thesis using 1 2 by (auto simp: list_move_tail_def)
qed

lemma list_rotate_left_ok:
  assumes "dlist h l xs"
  shows "\<exists>h'. list_rotate_left l h = Some h' \<and> dlist h' l (rotate1 xs) \<and> agree_off (set (l # xs)) h h'"
proof (cases xs)
  case Nil
  then show ?thesis using assms dlist_empty_iff [OF assms] by (auto simp: list_rotate_left_def)
next
  case (Cons x zs)
  then have "nxt h l = x" "l \<noteq> 0" using dlist_head_links [OF assms] by auto
  then show ?thesis using assms list_move_tail_ok [of h l "[]" x zs] dlist_empty_iff [OF assms] Cons
    by (auto simp: list_rotate_left_def rd_next_def)
qed

section \<open>Joining and cutting rings\<close>

lemma dlist_path: "dlist h l zs \<Longrightarrow> zs \<noteq> [] \<Longrightarrow> path h zs \<and> nxt h l = hd zs \<and> prv h (hd zs) = l \<and> nxt h (last zs) = l \<and> prv h l = last zs"
proof -
  assume "dlist h l zs" "zs \<noteq> []"
  then have "path h ([l] @ zs @ [l])" by (simp add: dlist_def)
  then show ?thesis using path_join [of "[l]" "zs @ [l]" h] path_join [of zs "[l]" h] \<open>zs \<noteq> []\<close> by simp
qed

lemma list_splice_links_ok:
  assumes r: "dlist h k (xs @ ys)" and z: "dlist h l zs" "zs \<noteq> []" and dj: "set (l # zs) \<inter> set (k # xs @ ys) = {}"
  shows "\<exists>h'. list_splice_links l (last (k # xs)) (hd (ys @ [k])) h = Some h' \<and> dlist h' k (xs @ zs @ ys) \<and>
     agree_off (set (k # xs @ zs @ ys)) h h'"
proof -
  define p where "p = last (k # xs)"
  define q where "q = hd (ys @ [k])"
  define f where "f = hd zs"
  define g where "g = last zs"
  note c = r [unfolded dlist_cut, folded p_def q_def]
  have d: "distinct (k # xs @ ys)" using c by auto
  note e = cut_ends [OF d, folded p_def q_def]
  note t = dlist_path [OF z, folded f_def g_def]
  have fg: "f \<in> set zs" "g \<in> set zs" using z(2) by (simp_all add: f_def g_def)
  have dz: "distinct zs" "l \<noteq> 0" "0 \<notin> set zs" using z(1) by (auto simp: dlist_def)
  have nz: "p \<noteq> 0" "q \<noteq> 0" "f \<noteq> 0" "g \<noteq> 0" using c e(7,8) dz fg by auto
  have ne: "p \<notin> set zs" "q \<notin> set zs" "f \<notin> set (k # xs @ ys)" "g \<notin> set (k # xs @ ys)" "p \<noteq> g" "q \<noteq> f"
    using e(7,8) fg dj by auto
  have fg2: "f \<notin> set (tl zs)" using dz(1) z(2) unfolding f_def by (cases zs) auto
  have fg3: "g \<notin> set (butlast zs)" using dz(1) z(2) unfolding g_def by (cases zs rule: rev_cases) auto
  let ?h = "h\<lparr>prv := (prv h)(f := p, q := g), nxt := (nxt h)(p := f, g := q)\<rparr>"
  have s: "list_splice_links l p q h = Some ?h" using nz dz t by (simp add: list_splice_links_def list_ops)
  have "path ?h (k # xs)" "path ?h (ys @ [k])" by (rule path_cong [THEN iffD2, of _ _ h]; use c e ne in auto)+
  moreover have qp: "q \<notin> set (tl zs)" "p \<notin> set (butlast zs)" using ne by (auto dest: in_set_butlastD list.set_sel(2) [OF z(2)])
  have "path ?h zs"
    by (rule path_cong [THEN iffD2, of _ _ h]) (use t fg2 fg3 qp in auto)
  ultimately have "path ?h ((k # xs) @ zs @ (ys @ [k]))"
    using z(2) ne by (simp add: path_join p_def [symmetric] q_def [symmetric] f_def [symmetric] g_def [symmetric] del: last.simps append_Cons)
  moreover have "distinct (k # xs @ zs @ ys)" "0 \<notin> set (k # xs @ zs @ ys)" using c dz dj by auto
  ultimately have "dlist ?h k (xs @ zs @ ys)" unfolding dlist_def by simp
  moreover have "agree_off (set (k # xs @ zs @ ys)) h ?h" using e(7,8) fg by (auto simp: agree_off_def)
  ultimately show ?thesis using s unfolding p_def q_def by blast
qed


lemma list_splice_ok:
  assumes r: "dlist h k ys" and z: "dlist h l zs" and dj: "set (l # zs) \<inter> set (k # ys) = {}"
  shows "\<exists>h'. list_splice l k h = Some h' \<and> dlist h' k (zs @ ys) \<and> agree_off (set (k # zs @ ys)) h h'"
proof (cases "zs = []")
  case False
  then show ?thesis
    using list_splice_links_ok [of h k "[]" ys l zs] assms dlist_empty_iff [OF z] dlist_head_links [OF r]
    by (simp add: list_splice_def rd_next_def)
qed (use dlist_empty_iff [OF z] r in \<open>simp add: list_splice_def\<close>)

lemma list_splice_tail_ok:
  assumes r: "dlist h k ys" and z: "dlist h l zs" and dj: "set (l # zs) \<inter> set (k # ys) = {}"
  shows "\<exists>h'. list_splice_tail l k h = Some h' \<and> dlist h' k (ys @ zs) \<and> agree_off (set (k # ys @ zs)) h h'"
proof (cases "zs = []")
  case False
  then show ?thesis
    using list_splice_links_ok [of h k ys "[]" l zs] assms dlist_empty_iff [OF z] dlist_head_links [OF r]
    by (simp add: list_splice_tail_def rd_prev_def del: last.simps)
qed (use dlist_empty_iff [OF z] r in \<open>simp add: list_splice_tail_def\<close>)

lemma splice_then_init:
  assumes "dlist h1 k us" "agree_off (set (k # us)) h h1" "l \<notin> set (k # us)" "l \<noteq> 0"
  shows "\<exists>h'. INIT_LIST_HEAD l h1 = Some h' \<and> dlist h' k us \<and> dlist h' l [] \<and> agree_off (set (l # k # us)) h h'"
proof -
  obtain h2 where 2: "INIT_LIST_HEAD l h1 = Some h2" "dlist h2 l []" "agree_off {l} h1 h2"
    using INIT_LIST_HEAD_ok [OF assms(4)] by blast
  have "dlist h2 k us" using dlist_frame [OF assms(1) 2(3)] assms(3) by auto
  moreover have "agree_off (set (l # k # us)) h h2" using agree_off_trans [OF assms(2) 2(3)] by (rule agree_off_mono) auto
  ultimately show ?thesis using 2 by blast
qed

lemma list_splice_init_ok:
  assumes r: "dlist h k ys" and z: "dlist h l zs" and dj: "set (l # zs) \<inter> set (k # ys) = {}"
  shows "\<exists>h'. list_splice_init l k h = Some h' \<and> dlist h' k (zs @ ys) \<and> dlist h' l [] \<and> agree_off (set (l # k # zs @ ys)) h h'"
proof (cases "zs = []")
  case False
  obtain h1 where 1: "list_splice_links l k (hd (ys @ [k])) h = Some h1" "dlist h1 k (zs @ ys)" "agree_off (set (k # zs @ ys)) h h1"
    using list_splice_links_ok [of h k "[]" ys l zs] assms False by auto
  have "l \<notin> set (k # zs @ ys)" "l \<noteq> 0" using dj z by (auto simp: dlist_def)
  then show ?thesis
    using splice_then_init [OF 1(2,3)] 1 False dlist_empty_iff [OF z] dlist_head_links [OF r]
    by (auto simp: list_splice_init_def rd_next_def)
qed (use dlist_empty_iff [OF z] r z in \<open>simp add: list_splice_init_def\<close>)

lemma list_splice_tail_init_ok:
  assumes r: "dlist h k ys" and z: "dlist h l zs" and dj: "set (l # zs) \<inter> set (k # ys) = {}"
  shows "\<exists>h'. list_splice_tail_init l k h = Some h' \<and> dlist h' k (ys @ zs) \<and> dlist h' l [] \<and> agree_off (set (l # k # ys @ zs)) h h'"
proof (cases "zs = []")
  case False
  obtain h1 where 1: "list_splice_links l (last (k # ys)) k h = Some h1" "dlist h1 k (ys @ zs)" "agree_off (set (k # ys @ zs)) h h1"
    using list_splice_links_ok [of h k ys "[]" l zs] assms False by auto
  have "l \<notin> set (k # ys @ zs)" "l \<noteq> 0" using dj z by (auto simp: dlist_def)
  then show ?thesis
    using splice_then_init [OF 1(2,3)] 1 False dlist_empty_iff [OF z] dlist_head_links [OF r]
    by (auto simp: list_splice_tail_init_def rd_prev_def simp del: last.simps)
qed (use dlist_empty_iff [OF z] r z in \<open>simp add: list_splice_tail_init_def\<close>)

lemma list_cut_links_ok:
  assumes r: "dlist h k (xs @ e # ys)" and l: "l \<notin> set (k # xs @ e # ys)" "l \<noteq> 0"
  shows "\<exists>h'. list_cut_position_links l k e h = Some h' \<and> dlist h' l (xs @ [e]) \<and> dlist h' k ys \<and>
     agree_off (set (l # k # xs @ e # ys)) h h'"
proof -
  define f where "f = hd (xs @ [e])"
  define q where "q = hd (ys @ [k])"
  have r2: "dlist h k ((xs @ [e]) @ ys)" using r by simp
  note c = r2 [unfolded dlist_cut, folded q_def]
  have d: "distinct (k # (xs @ [e]) @ ys)" using c by auto
  note b = cut_ends [OF d, folded q_def]
  have nk: "nxt h k = f" "k \<noteq> 0" using dlist_head_links [OF r] by (cases xs; simp add: f_def)+
  have f: "f \<in> set (xs @ [e])" unfolding f_def by (cases xs) auto
  have nz: "f \<noteq> 0" "q \<noteq> 0" "e \<noteq> 0" using c b(8) f by auto
  have ne: "l \<noteq> k" "l \<noteq> f" "l \<noteq> q" "l \<noteq> e" "f \<noteq> q" "k \<noteq> f" "e \<noteq> k" using l f b(8) d by auto
  have nx: "nxt h e = q" using c by simp
  let ?h = "h\<lparr>prv := (prv h)(f := l, l := e, q := k), nxt := (nxt h)(l := f, e := l, k := q)\<rparr>"
  have s: "list_cut_position_links l k e h = Some ?h"
    using nz nk ne nx l by (auto simp: list_cut_position_links_def list_ops fun_upd_twist)
  have pe: "path h (xs @ [e])" using c path_join [of "[k]" "xs @ [e]" h] by simp
  have "path ?h (xs @ [e])" by (rule path_cong [THEN iffD2, OF _ _ pe]) (use l d b f in \<open>cases xs; auto simp: f_def\<close>)+
  moreover have "hd (xs @ [e, l]) = f" by (cases xs) (simp_all add: f_def)
  ultimately have "dlist ?h l (xs @ [e])"
    unfolding dlist_def using path_join [of "[l]" "(xs @ [e]) @ [l]" ?h] path_join [of "xs @ [e]" "[l]" ?h] c l ne
    by (simp add: f_def [symmetric])
  moreover have "path ?h (ys @ [k])" by (rule path_cong [THEN iffD2, of _ _ h]) (use c b l d f in auto)
  then have "dlist ?h k ([] @ ys)" unfolding dlist_cut using c ne by (auto simp: q_def [symmetric])
  moreover have "agree_off (set (l # k # xs @ e # ys)) h ?h" using f b(8) by (auto simp: agree_off_def)
  ultimately show ?thesis using s by auto
qed

lemma list_is_singular_iff: "dlist h l xs \<Longrightarrow> list_is_singular l h = Some (length xs = 1)"
proof -
  assume d: "dlist h l xs"
  note l = dlist_head_links [OF d]
  consider "xs = []" | x where "xs = [x]" | x y zs where "xs = x # zs @ [y]" by (cases xs; cases "tl xs" rule: rev_cases) auto
  then show ?thesis
  proof cases
    case 3
    then have "hd xs \<noteq> last xs" using d by (simp add: dlist_def)
    then show ?thesis using l dlist_empty_iff [OF d] 3 by (simp add: list_is_singular_def list_ops)
  qed (use l dlist_empty_iff [OF d] in \<open>simp_all add: list_is_singular_def list_ops\<close>)
qed

lemma list_cut_position_ok:
  assumes r: "dlist h k (xs @ e # ys)" and l: "l \<notin> set (k # xs @ e # ys)" "l \<noteq> 0"
  shows "\<exists>h'. list_cut_position l k e h = Some h' \<and> dlist h' l (xs @ [e]) \<and> dlist h' k ys \<and> agree_off (set (l # k # xs @ e # ys)) h h'"
proof -
  have e: "e \<noteq> k" using r by (auto simp: dlist_def)
  have "length (xs @ e # ys) = 1 \<Longrightarrow> nxt h k = e" using dlist_head_links [OF r] by simp
  then have "list_cut_position l k e h = list_cut_position_links l k e h"
    using e dlist_empty_iff [OF r] list_is_singular_iff [OF r] dlist_head_links [OF r] by (auto simp: list_cut_position_def rd_next_def)
  then show ?thesis using list_cut_links_ok [OF assms] by simp
qed

lemma list_cut_position_head:
  assumes "dlist h k xs" "l \<notin> set (k # xs)" "l \<noteq> 0" "xs \<noteq> []"
  shows "\<exists>h'. list_cut_position l k k h = Some h' \<and> dlist h' l [] \<and> dlist h' k xs"
proof -
  obtain h' where 1: "INIT_LIST_HEAD l h = Some h'" "dlist h' l []" "agree_off {l} h h'" using INIT_LIST_HEAD_ok [OF assms(3)] by blast
  then have "dlist h' k xs" using dlist_frame [OF assms(1) 1(3)] assms(2) by auto
  then show ?thesis using 1 assms(4) dlist_empty_iff [OF assms(1)] list_is_singular_iff [OF assms(1)] dlist_head_links [OF assms(1)]
    by (auto simp: list_cut_position_def rd_next_def)
qed

lemma list_cut_before_ok:
  assumes r: "dlist h k (xs @ ys)" and l: "l \<notin> set (k # xs @ ys)" "l \<noteq> 0"
  shows "\<exists>h'. list_cut_before l k (hd (ys @ [k])) h = Some h' \<and> dlist h' l xs \<and> dlist h' k ys"
proof (cases xs rule: rev_cases)
  case Nil
  obtain h' where 1: "INIT_LIST_HEAD l h = Some h'" "dlist h' l []" "agree_off {l} h h'" using INIT_LIST_HEAD_ok [OF l(2)] by blast
  then have "dlist h' k ys" using dlist_frame [OF r 1(3)] l Nil by auto
  then show ?thesis using 1 Nil dlist_head_links [OF r] by (auto simp: list_cut_before_def rd_next_def)
next
  case (snoc zs e)
  define q where "q = hd (ys @ [k])"
  have r2: "dlist h k (zs @ e # ys)" using r snoc by simp
  have d: "distinct (k # zs @ e # ys)" using r2 by (simp add: dlist_def)
  have q: "q \<in> set (k # ys)" "prv h q = e" "nxt h e = q" using r2 [unfolded dlist_entry] unfolding q_def by (cases ys; simp)+
  have f: "nxt h k = hd (zs @ [e])" "hd (zs @ [e]) \<in> set (zs @ [e])" "k \<noteq> 0"
    using dlist_head_links [OF r2] by (cases zs; simp)+
  define f where "f = hd (zs @ [e])"
  have "0 \<notin> set (k # zs @ e # ys)" using r2 by (simp add: dlist_def)
  then have nz: "q \<noteq> 0" "f \<noteq> 0" "e \<noteq> 0" using q(1) f(2) unfolding f_def by (auto intro!: gr0I)
  have ne: "q \<noteq> f" "l \<noteq> q" "l \<noteq> f" "l \<noteq> e" "l \<noteq> k" "f \<noteq> k" "e \<noteq> k" using d q(1) f(2) l snoc unfolding f_def by auto
  have "list_cut_before l k q h = list_cut_position_links l k e h"
    using nz ne l q f(1,3) by (simp add: list_cut_before_def list_cut_position_links_def list_ops f_def fun_upd_twist)
  then show ?thesis using list_cut_links_ok [of h k zs e ys l] r2 l snoc unfolding q_def by auto
qed

lemma list_replace_ok:
  assumes r: "dlist h l (xs @ old # ys)" and n: "n \<notin> set (l # xs @ old # ys)" "n \<noteq> 0"
  shows "\<exists>h'. list_replace old n h = Some h' \<and> dlist h' l (xs @ n # ys) \<and> agree_off (set (n # l # xs @ ys)) h h'"
proof -
  define p where "p = last (l # xs)"
  define q where "q = hd (ys @ [l])"
  note c = r [unfolded dlist_entry, folded p_def q_def]
  have d: "distinct (l # xs @ ys)" using c by auto
  note e = cut_ends [OF d, folded p_def q_def]
  have nz: "p \<noteq> 0" "q \<noteq> 0" "old \<noteq> 0" using c e(7,8) by auto
  have ne: "old \<noteq> q" "n \<noteq> old" "n \<noteq> p" "n \<noteq> q" "old \<noteq> p" using c n e(7,8) by auto
  let ?h = "h\<lparr>nxt := (nxt h)(n := q, p := n), prv := (prv h)(q := n, n := p)\<rparr>"
  have s: "list_replace old n h = Some ?h" using nz ne n c by (auto simp: list_replace_def list_ops)
  have "path ?h (l # xs)" "path ?h (ys @ [l])" by (rule path_cong [THEN iffD2, of _ _ h]; use c e n in auto)+
  then have "dlist ?h l (xs @ n # ys)" unfolding dlist_entry p_def [symmetric] q_def [symmetric] using c n ne by simp
  moreover have "agree_off (set (n # l # xs @ ys)) h ?h" using e(7,8) by (auto simp: agree_off_def)
  ultimately show ?thesis using s by blast
qed

section \<open>Traversal\<close>

lemma list_for_each_path:
  "path h (xs @ [l]) \<Longrightarrow> l \<notin> set xs \<Longrightarrow> 0 \<notin> set xs \<Longrightarrow> length xs < fuel \<Longrightarrow> list_for_each fuel (hd (xs @ [l])) l h = Some xs"
proof (induction xs arbitrary: fuel)
  case Nil
  then show ?case by (cases fuel) auto
next
  case (Cons x xs)
  then obtain f where "fuel = Suc f" by (cases fuel) auto
  moreover have "nxt h x = hd (xs @ [l])" "path h (xs @ [l])" using Cons.prems(1) by (cases xs; simp)+
  ultimately show ?case using Cons.prems Cons.IH [of f] by (simp add: rd_next_def)
qed

lemma list_for_each_prev_path:
  "path h (l # xs) \<Longrightarrow> l \<notin> set xs \<Longrightarrow> 0 \<notin> set xs \<Longrightarrow> length xs < fuel \<Longrightarrow> list_for_each_prev fuel (last (l # xs)) l h = Some (rev xs)"
proof (induction xs arbitrary: fuel rule: rev_induct)
  case Nil
  then show ?case by (cases fuel) auto
next
  case (snoc x xs)
  then obtain f where "fuel = Suc f" by (cases fuel) auto
  moreover have "prv h x = last (l # xs)" "path h (l # xs)" using snoc.prems(1) path_join [of "l # xs" "[x]" h] by simp_all
  ultimately show ?case using snoc.prems snoc.IH [of f] by (simp add: rd_prev_def del: last.simps) simp
qed

lemma list_for_each_ok: "dlist h l xs \<Longrightarrow> length xs < fuel \<Longrightarrow> list_for_each fuel (nxt h l) l h = Some xs"
  using list_for_each_path [of h xs l fuel] dlist_head_links [of h l xs] dlist_cut [of h l "[]" xs] by auto

lemma list_for_each_prev_ok: "dlist h l xs \<Longrightarrow> length xs < fuel \<Longrightarrow> list_for_each_prev fuel (prv h l) l h = Some (rev xs)"
  using list_for_each_prev_path [of h l xs fuel] dlist_head_links [of h l xs] dlist_cut [of h l xs "[]"] by auto

lemma dlist_unique: "dlist h l xs \<Longrightarrow> dlist h l ys \<Longrightarrow> xs = ys"
  using list_for_each_ok [of h l xs "Suc (length xs + length ys)"] list_for_each_ok [of h l ys "Suc (length xs + length ys)"] by simp

section \<open>The interface of the lists\<close>

text \<open>What a client relies on: operations on a store in which \<open>rep h l xs\<close> is the ring of \<open>l\<close>; each touches only nodes
  of the rings it names (\<open>keeps\<close>).\<close>

locale ring_store =
  fixes rep :: "'h \<Rightarrow> nat \<Rightarrow> nat list \<Rightarrow> bool"
    and keeps :: "nat set \<Rightarrow> 'h \<Rightarrow> 'h \<Rightarrow> bool"
    and init :: "nat \<Rightarrow> 'h \<Rightarrow> 'h option"
    and push_back :: "nat \<Rightarrow> nat \<Rightarrow> 'h \<Rightarrow> 'h option"
    and remove :: "nat \<Rightarrow> 'h \<Rightarrow> 'h option"
    and splice :: "nat \<Rightarrow> nat \<Rightarrow> 'h \<Rightarrow> 'h option"
    and splice_init :: "nat \<Rightarrow> nat \<Rightarrow> 'h \<Rightarrow> 'h option"
  assumes keep: "rep h l xs \<Longrightarrow> keeps S h h' \<Longrightarrow> S \<inter> set (l # xs) = {} \<Longrightarrow> rep h' l xs"
    and keeps_mono: "keeps S h h' \<Longrightarrow> S \<subseteq> T \<Longrightarrow> keeps T h h'"
    and keeps_trans: "keeps S h h' \<Longrightarrow> keeps T h' h'' \<Longrightarrow> keeps (S \<union> T) h h''"
    and rep_wf: "rep h l xs \<Longrightarrow> distinct (l # xs) \<and> 0 \<notin> set (l # xs)"
    and init_law: "l \<noteq> 0 \<Longrightarrow> \<exists>h'. init l h = Some h' \<and> rep h' l [] \<and> keeps {l} h h'"
    and push_law: "rep h l xs \<Longrightarrow> n \<notin> set (l # xs) \<Longrightarrow> n \<noteq> 0 \<Longrightarrow>
      \<exists>h'. push_back n l h = Some h' \<and> rep h' l (xs @ [n]) \<and> keeps (set (n # l # xs)) h h'"
    and remove_law: "rep h l (xs @ e # ys) \<Longrightarrow> \<exists>h'. remove e h = Some h' \<and> rep h' l (xs @ ys) \<and> keeps (set (l # xs @ e # ys)) h h'"
    and splice_law: "rep h k ys \<Longrightarrow> rep h l zs \<Longrightarrow> set (l # zs) \<inter> set (k # ys) = {} \<Longrightarrow>
      \<exists>h'. splice l k h = Some h' \<and> rep h' k (zs @ ys) \<and> keeps (set (k # zs @ ys)) h h'"
    and splice_init_law: "rep h k ys \<Longrightarrow> rep h l zs \<Longrightarrow> set (l # zs) \<inter> set (k # ys) = {} \<Longrightarrow>
      \<exists>h'. splice_init l k h = Some h' \<and> rep h' k (zs @ ys) \<and> rep h' l [] \<and> keeps (set (l # k # zs @ ys)) h h'"
begin

text \<open>A fresh local head takes all the entries of a list, and gives them back in front of what arrived meanwhile.\<close>

lemma detach:
  assumes "rep h l xs" "t \<noteq> 0" "t \<notin> set (l # xs)"
  shows "\<exists>h'. (init t h \<bind> splice_init l t) = Some h' \<and> rep h' t xs \<and> rep h' l [] \<and> keeps (set (t # l # xs)) h h'"
proof -
  obtain h1 where 1: "init t h = Some h1" "rep h1 t []" "keeps {t} h h1" using init_law [OF assms(2)] by blast
  have "rep h1 l xs" using keep [OF assms(1) 1(3)] assms(3) by auto
  moreover have "set (l # xs) \<inter> set [t] = {}" using assms(3) by auto
  ultimately obtain h2 where 2: "splice_init l t h1 = Some h2" "rep h2 t (xs @ [])" "rep h2 l []" "keeps (set (l # t # xs @ [])) h1 h2"
    using splice_init_law [OF 1(2), of l xs] by auto
  have "keeps (set (t # l # xs)) h h2" using keeps_trans [OF 1(3) 2(4)] by (rule keeps_mono) auto
  with 1 2 show ?thesis by auto
qed

lemma attach:
  assumes "rep h t xs" "rep h l ys" "set (t # xs) \<inter> set (l # ys) = {}"
  shows "\<exists>h'. splice t l h = Some h' \<and> rep h' l (xs @ ys)"
  using splice_law [OF assms(2,1,3)] by blast

lemma remove_keeps_other:
  assumes "rep h l (xs @ e # ys)" "rep h k zs" "set (l # xs @ e # ys) \<inter> set (k # zs) = {}"
  shows "\<exists>h'. remove e h = Some h' \<and> rep h' l (xs @ ys) \<and> rep h' k zs"
  using remove_law [OF assms(1)] keep [OF assms(2)] assms(3) by blast

lemma push_keeps_other:
  assumes "rep h l xs" "n \<notin> set (l # xs)" "n \<noteq> 0" "rep h k zs" "set (n # l # xs) \<inter> set (k # zs) = {}"
  shows "\<exists>h'. push_back n l h = Some h' \<and> rep h' l (xs @ [n]) \<and> rep h' k zs"
  using push_law [OF assms(1-3)] keep [OF assms(4)] assms(5) by blast

end

interpretation rs: ring_store dlist agree_off INIT_LIST_HEAD list_add_tail list_del list_splice list_splice_init
proof
  show "\<And>h l xs S h'. dlist h l xs \<Longrightarrow> agree_off S h h' \<Longrightarrow> S \<inter> set (l # xs) = {} \<Longrightarrow> dlist h' l xs" by (rule dlist_frame)
  show "\<And>S h h' T. agree_off S h h' \<Longrightarrow> S \<subseteq> T \<Longrightarrow> agree_off T h h'" by (rule agree_off_mono)
  show "\<And>S h h' T h''. agree_off S h h' \<Longrightarrow> agree_off T h' h'' \<Longrightarrow> agree_off (S \<union> T) h h''" by (rule agree_off_trans)
  show "\<And>h l xs. dlist h l xs \<Longrightarrow> distinct (l # xs) \<and> 0 \<notin> set (l # xs)" unfolding dlist_def by blast
qed (erule INIT_LIST_HEAD_ok list_add_tail_ok list_splice_ok list_splice_init_ok; assumption | use list_del_ok in blast)+

section \<open>Sequences of operations\<close>

datatype ring_op = Add nat | Add_tail nat | Del nat | Move nat | Move_tail nat | Replace nat nat | Rotate

fun ring_exec :: "nat \<Rightarrow> ring_op \<Rightarrow> lheap \<Rightarrow> lheap option" where
  "ring_exec l (Add n) h = list_add n l h"
| "ring_exec l (Add_tail n) h = list_add_tail n l h"
| "ring_exec l (Del e) h = list_del e h"
| "ring_exec l (Move e) h = list_move e l h"
| "ring_exec l (Move_tail e) h = list_move_tail e l h"
| "ring_exec l (Replace e n) h = list_replace e n h"
| "ring_exec l Rotate h = list_rotate_left l h"

text \<open>The same operations on the sequence of entries, defined where the code's callers may use them.\<close>

fun ring_spec :: "nat \<Rightarrow> ring_op \<Rightarrow> nat list \<Rightarrow> nat list option" where
  "ring_spec l (Add n) xs = (if n \<noteq> 0 \<and> n \<notin> set (l # xs) then Some (n # xs) else None)"
| "ring_spec l (Add_tail n) xs = (if n \<noteq> 0 \<and> n \<notin> set (l # xs) then Some (xs @ [n]) else None)"
| "ring_spec l (Del e) xs = (if e \<in> set xs then Some (remove1 e xs) else None)"
| "ring_spec l (Move e) xs = (if e \<in> set xs then Some (e # remove1 e xs) else None)"
| "ring_spec l (Move_tail e) xs = (if e \<in> set xs then Some (remove1 e xs @ [e]) else None)"
| "ring_spec l (Replace e n) xs =
     (if e \<in> set xs \<and> n \<noteq> 0 \<and> n \<notin> set (l # xs) then Some (map (\<lambda>x. if x = e then n else x) xs) else None)"
| "ring_spec l Rotate xs = Some (rotate1 xs)"

fun ring_nodes :: "ring_op \<Rightarrow> nat set" where
  "ring_nodes (Add n) = {n}"
| "ring_nodes (Add_tail n) = {n}"
| "ring_nodes (Replace e n) = {n}"
| "ring_nodes _ = {}"

fun ring_execs :: "nat \<Rightarrow> ring_op list \<Rightarrow> lheap \<Rightarrow> lheap option" where
  "ring_execs l [] h = Some h"
| "ring_execs l (c # cs) h = ring_exec l c h \<bind> ring_execs l cs"

fun ring_specs :: "nat \<Rightarrow> ring_op list \<Rightarrow> nat list \<Rightarrow> nat list option" where
  "ring_specs l [] xs = Some xs"
| "ring_specs l (c # cs) xs = ring_spec l c xs \<bind> ring_specs l cs"

lemma ring_op_step:
  assumes "dlist h l xs" "ring_spec l c xs = Some ys"
  shows "\<exists>h'. ring_exec l c h = Some h' \<and> dlist h' l ys \<and> agree_off (set (l # xs) \<union> ring_nodes c) h h' \<and> set ys \<subseteq> set xs \<union> ring_nodes c"
proof -
  have d: "distinct (l # xs)" using assms(1) by (simp add: dlist_def)
  have split: "\<exists>as bs. xs = as @ e # bs \<and> e \<notin> set as \<and> e \<notin> set bs \<and> remove1 e xs = as @ bs" if "e \<in> set xs" for e
  proof -
    obtain as bs where "xs = as @ e # bs" using split_list [of e xs] \<open>e \<in> set xs\<close> by blast
    then show ?thesis using d by (intro exI [of _ as] exI [of _ bs]) (auto simp: remove1_append)
  qed
  show ?thesis
  proof (cases c)
    case (Add n)
    then show ?thesis using assms list_add_ok [of h l xs n] by (auto split: if_splits intro: agree_off_mono)
  next
    case (Add_tail n)
    then show ?thesis using assms list_add_tail_ok [of h l xs n] by (auto split: if_splits intro: agree_off_mono)
  next
    case (Del e)
    then obtain as bs where "xs = as @ e # bs" "ys = as @ bs" using assms(2) split [of e] by (auto split: if_splits)
    then show ?thesis using assms(1) list_del_ok [of h l as e bs] Del by auto
  next
    case (Move e)
    then obtain as bs where "xs = as @ e # bs" "ys = e # as @ bs" using assms(2) split [of e] by (auto split: if_splits)
    then show ?thesis using assms(1) list_move_ok [of h l as e bs] Move by auto
  next
    case (Move_tail e)
    then obtain as bs where "xs = as @ e # bs" "ys = as @ bs @ [e]" using assms(2) split [of e] by (auto split: if_splits)
    then show ?thesis using assms(1) list_move_tail_ok [of h l as e bs] Move_tail by auto
  next
    case (Replace e n)
    then have n: "n \<notin> set (l # xs)" "n \<noteq> 0" "e \<in> set xs" using assms(2) by (auto split: if_splits)
    then obtain as bs where s: "xs = as @ e # bs" "e \<notin> set as" "e \<notin> set bs" using split [of e] by auto
    then have "ys = as @ n # bs" using assms(2) Replace by (auto split: if_splits intro!: map_idI)
    then show ?thesis using assms(1) list_replace_ok [of h l as e bs n] n s Replace by (auto intro: agree_off_mono)
  next
    case Rotate
    then show ?thesis using assms list_rotate_left_ok [of h l xs] by auto
  qed
qed

lemma ring_run:
  assumes "dlist h l xs" "ring_specs l cs xs = Some ys"
  shows "\<exists>h'. ring_execs l cs h = Some h' \<and> dlist h' l ys \<and> agree_off (set (l # xs) \<union> \<Union> (set (map ring_nodes cs))) h h'"
  using assms
proof (induction cs arbitrary: h xs)
  case Nil
  then show ?case by simp
next
  case (Cons c cs)
  then obtain zs where z: "ring_spec l c xs = Some zs" "ring_specs l cs zs = Some ys" by (auto split: bind_splits)
  then obtain h1 where 1: "ring_exec l c h = Some h1" "dlist h1 l zs" "agree_off (set (l # xs) \<union> ring_nodes c) h h1" "set zs \<subseteq> set xs \<union> ring_nodes c"
    using ring_op_step [OF Cons.prems(1) z(1)] by auto
  obtain h2 where 2: "ring_execs l cs h1 = Some h2" "dlist h2 l ys" "agree_off (set (l # zs) \<union> \<Union> (set (map ring_nodes cs))) h1 h2"
    using Cons.IH [OF 1(2) z(2)] by blast
  have "agree_off (set (l # xs) \<union> \<Union> (set (map ring_nodes (c # cs)))) h h2"
    using agree_off_trans [OF 1(3) 2(3)] 1(4) by (elim agree_off_mono) auto
  with 1 2 show ?case by auto
qed

text \<open>C17. The circular lists implement sequences. Any sequence of additions, deletions, moves, replacements and rotations
  that is valid on the sequence of entries runs without a null dereference; afterwards the forward traversal visits exactly
  the abstract sequence, the backward traversal its reverse, and every ring of other nodes is as it was.\<close>

theorem list_ops_refine_sequence:
  assumes "dlist h l xs" "ring_specs l cs xs = Some ys"
  shows "\<exists>h'. ring_execs l cs h = Some h' \<and>
           list_for_each (Suc (length ys)) (nxt h' l) l h' = Some ys \<and>
           list_for_each_prev (Suc (length ys)) (prv h' l) l h' = Some (rev ys) \<and>
           list_empty l h' = Some (ys = []) \<and>
           (\<forall>k zs. dlist h k zs \<and> set (k # zs) \<inter> (set (l # xs) \<union> \<Union> (set (map ring_nodes cs))) = {} \<longrightarrow> dlist h' k zs)"
proof -
  obtain h' where h: "ring_execs l cs h = Some h'" "dlist h' l ys" "agree_off (set (l # xs) \<union> \<Union> (set (map ring_nodes cs))) h h'"
    using ring_run [OF assms] by blast
  then show ?thesis
    using list_for_each_ok [OF h(2)] list_for_each_prev_ok [OF h(2)] dlist_empty_iff [OF h(2)] dlist_frame [OF _ h(3)]
    by (metis inf_commute lessI)
qed

definition demo_ring :: lheap where
  "demo_ring = \<lparr>nxt = (\<lambda>_. 0)(9 := 9), prv = (\<lambda>_. 0)(9 := 9)\<rparr>"

theorem list_ops_refine_sequence_witness:
  "\<exists>h'. ring_execs 9 [Add 1, Add_tail 2, Add 3, Move_tail 1, Replace 2 4, Del 3, Rotate] demo_ring = Some h' \<and>
     list_for_each 3 (nxt h' 9) 9 h' = Some [1, 4] \<and> list_for_each_prev 3 (prv h' 9) 9 h' = Some [4, 1]"
proof -
  have d: "dlist demo_ring 9 []" by (simp add: dlist_def demo_ring_def)
  have "ring_specs 9 [Add 1, Add_tail 2, Add 3, Move_tail 1, Replace 2 4, Del 3, Rotate] [] = Some [1, 4]" by simp
  moreover have "Suc (length [1, 4 :: nat]) = 3" "rev [1, 4] = [4, 1 :: nat]" by simp_all
  ultimately show ?thesis using list_ops_refine_sequence [OF d] by metis
qed

end
