(* ===== verification/ClockTimer.thy ===== *)
theory ClockTimer
  imports Clock ListHead
begin

text \<open>
  The registered clock of \<^verbatim>\<open>basework/dev/clock_base.c\<close> and \<^verbatim>\<open>basework/dev/clock_timer.c\<close>: a counter of seconds driven by
  a repeating timer, and the callouts it runs. The callouts are linked into a ring of \<^verbatim>\<open>container/list.h\<close>; the model keeps
  the ring in the store of \<open>ListHead\<close>, so that what a running callout may do to it is visible. The callouts themselves and
  the timer service are parameters. \<^verbatim>\<open>os_critical_lock\<close> is empty in this configuration: handlers run one at a time.
\<close>

section \<open>The registered clock\<close>

record utime =
  tv_sec :: int
  tv_nsec :: int

record 'w clock_ops =
  get_time_op :: "('w \<Rightarrow> (int \<times> utime) option) option"
  set_time_op :: "(utime \<Rightarrow> 'w \<Rightarrow> int \<times> 'w) option"
  stop_op :: "('w \<Rightarrow> 'w) option"

text \<open>A failing assertion is \<^const>\<open>None\<close>.\<close>

definition clock_get_time :: "'w clock_ops option \<Rightarrow> 'w \<Rightarrow> (int \<times> utime) option" where
  "clock_get_time ctimer w = do { timer \<leftarrow> ctimer; get \<leftarrow> get_time_op timer; get w }"

text \<open>The inline functions of \<^verbatim>\<open>clock.h\<close>.\<close>

definition get_time :: "'w clock_ops option \<Rightarrow> 'w \<Rightarrow> int option" where
  "get_time ctimer w = do { (_, tv) \<leftarrow> clock_get_time ctimer w; Some (tv_sec tv) }"

definition get_tod_time :: "'w clock_ops option \<Rightarrow> tod_time option \<Rightarrow> 'w \<Rightarrow> (int \<times> tod_time option) option" where
  "get_tod_time ctimer tod w = do { tv \<leftarrow> get_time ctimer w; clock_get_tod_time (Some tv) tod }"

definition clock_register ::
  "'w clock_ops option \<Rightarrow> 'w clock_ops option \<Rightarrow> 'w \<Rightarrow> int \<times> 'w clock_ops option \<times> 'w" where
  "clock_register timer ctimer w =
     (case timer of
        None \<Rightarrow> (- EINVAL, ctimer, w)
      | Some t \<Rightarrow>
          if get_time_op t = None then (- EINVAL, ctimer, w)
          else (0, Some t, (case ctimer of Some c \<Rightarrow> (case stop_op c of Some f \<Rightarrow> f w | None \<Rightarrow> w) | None \<Rightarrow> w)))"

section \<open>State\<close>

record 'u clk =
  heap :: lheap
  co_callout :: "nat \<Rightarrow> nat"
  co_i_expires :: "nat \<Rightarrow> u32"
  co_expires :: "nat \<Rightarrow> u32"
  clock_counter :: int
  armed :: "int list"
  user :: 'u

text \<open>The address of the static list head; the head on the stack of the timeout handler is an argument.\<close>

definition callout_list :: nat where
  "callout_list = 1"

definition CLOCK_PERIOD :: int where
  "CLOCK_PERIOD = 1000"

section \<open>The callout ring\<close>

definition list_merge :: "nat \<Rightarrow> nat \<Rightarrow> lheap \<Rightarrow> (bool \<times> lheap) option" where
  "list_merge l head h =
     do { e \<leftarrow> list_empty l h;
          if \<not> e then do { n \<leftarrow> rd_next h head; h \<leftarrow> list_splice_links l head n h; h \<leftarrow> INIT_LIST_HEAD l h; Some (True, h) }
          else Some (False, h) }"

text \<open>The walk of \<^verbatim>\<open>clock_callout_find\<close> from the cursor \<open>p\<close> with successor \<open>n\<close>.\<close>

fun callout_find_walk :: "nat \<Rightarrow> nat \<Rightarrow> bool \<Rightarrow> nat \<Rightarrow> nat \<Rightarrow> lheap \<Rightarrow> (bool \<times> lheap) option" where
  "callout_find_walk 0 cc del p n h = None"
| "callout_find_walk (Suc fuel) cc del p n h =
     (if p = callout_list then Some (False, h)
      else if cc = p then (if del then do { h \<leftarrow> list_del p h; Some (True, h) } else Some (True, h))
      else do { n' \<leftarrow> rd_next h n; callout_find_walk fuel cc del n n' h })"

definition clock_callout_find :: "nat \<Rightarrow> nat \<Rightarrow> bool \<Rightarrow> lheap \<Rightarrow> (bool \<times> lheap) option" where
  "clock_callout_find fuel cc del h =
     do { p \<leftarrow> rd_next h callout_list; n \<leftarrow> rd_next h p; callout_find_walk fuel cc del p n h }"

definition clock_callout_add :: "nat \<Rightarrow> nat \<Rightarrow> nat \<Rightarrow> u32 \<Rightarrow> 'u clk \<Rightarrow> (int \<times> 'u clk) option" where
  "clock_callout_add fuel cc callout seconds s =
     (if cc = 0 \<or> callout = 0 then Some (- EINVAL, s)
      else if seconds = 0 then Some (- EINVAL, s)
      else do {
        (found, h) \<leftarrow> clock_callout_find fuel cc False (heap s);
        if found then Some (- EEXIST, s\<lparr>heap := h\<rparr>)
        else do {
          let s = s\<lparr>heap := h, co_callout := (co_callout s)(cc := callout), co_i_expires := (co_i_expires s)(cc := seconds),
                    co_expires := (co_expires s)(cc := of_int (clock_counter s) + seconds)\<rparr>;
          h \<leftarrow> list_add_tail cc callout_list (heap s);
          Some (0, s\<lparr>heap := h\<rparr>) } })"

definition clock_callout_del :: "nat \<Rightarrow> nat \<Rightarrow> 'u clk \<Rightarrow> (int \<times> 'u clk) option" where
  "clock_callout_del fuel cc s =
     (if cc = 0 then Some (- EINVAL, s)
      else do {
        (found, h) \<leftarrow> clock_callout_find fuel cc True (heap s);
        Some (if found then 0 else - EFAULT, s\<lparr>heap := h\<rparr>) })"

section \<open>The timeout handler\<close>

text \<open>One visit of the loop: a due callout runs and is given its next expiry.\<close>

definition callout_visit :: "(nat \<Rightarrow> 'u clk \<Rightarrow> 'u clk option) \<Rightarrow> int \<Rightarrow> nat \<Rightarrow> 'u clk \<Rightarrow> 'u clk option" where
  "callout_visit run tick p s =
     (if co_expires s p \<le> of_int tick
      then do { s \<leftarrow> run (co_callout s p) s;
                Some (s\<lparr>co_expires := (co_expires s)(p := of_int tick + co_i_expires s p)\<rparr>) }
      else Some s)"

fun callout_walk :: "nat \<Rightarrow> (nat \<Rightarrow> 'u clk \<Rightarrow> 'u clk option) \<Rightarrow> int \<Rightarrow> nat \<Rightarrow> nat \<Rightarrow> nat \<Rightarrow> 'u clk \<Rightarrow> 'u clk option" where
  "callout_walk 0 run tick p n head s = None"
| "callout_walk (Suc fuel) run tick p n head s =
     (if p = head then Some s
      else do { s \<leftarrow> callout_visit run tick p s;
                n' \<leftarrow> rd_next (heap s) n;
                callout_walk fuel run tick n n' head s })"

definition clock_timeout_cb :: "nat \<Rightarrow> nat \<Rightarrow> (nat \<Rightarrow> 'u clk \<Rightarrow> 'u clk option) \<Rightarrow> 'u clk \<Rightarrow> 'u clk option" where
  "clock_timeout_cb fuel head run s =
     do { h \<leftarrow> INIT_LIST_HEAD head (heap s);
          let tick = clock_counter s + 1;
          if \<not> vtime_ok tick then None else do {
          let s = s\<lparr>heap := h, clock_counter := tick\<rparr>;
          (merged, h) \<leftarrow> list_merge callout_list head (heap s);
          let s = s\<lparr>heap := h\<rparr>;
          p \<leftarrow> rd_next (heap s) head; n \<leftarrow> rd_next (heap s) p;
          s \<leftarrow> callout_walk fuel run tick p n head s;
          s \<leftarrow> (if merged then do { h \<leftarrow> list_splice head callout_list (heap s); Some (s\<lparr>heap := h\<rparr>) } else Some s);
          Some (s\<lparr>armed := armed s @ [CLOCK_PERIOD]\<rparr>) } }"

section \<open>The clock operations\<close>

text \<open>\<^verbatim>\<open>clock_timer_get_time\<close> reads the volatile counter twice until both reads agree; \<open>reads i\<close> is the value the \<open>i\<close>-th
  read sees. Between two handlers all reads see the counter.\<close>

fun clock_timer_get_time :: "nat \<Rightarrow> (nat \<Rightarrow> int) \<Rightarrow> nat \<Rightarrow> (int \<times> utime) option" where
  "clock_timer_get_time 0 reads i = None"
| "clock_timer_get_time (Suc fuel) reads i =
     (if reads i \<noteq> reads (i + 1) then clock_timer_get_time fuel reads (i + 2) else Some (0, \<lparr>tv_sec = reads i, tv_nsec = 0\<rparr>))"

definition clock_timer_set_time :: "utime \<Rightarrow> 'u clk \<Rightarrow> int \<times> 'u clk" where
  "clock_timer_set_time tv s = (0, s\<lparr>clock_counter := tv_sec tv\<rparr>)"

definition clock_timer_ops :: "('u clk) clock_ops" where
  "clock_timer_ops = \<lparr>get_time_op = Some (\<lambda>s. clock_timer_get_time 1 (\<lambda>_. clock_counter s) 0), set_time_op = Some clock_timer_set_time, stop_op = None\<rparr>"

definition clock_timer_init ::
  "int \<Rightarrow> ('u clk) clock_ops option \<Rightarrow> 'u clk \<Rightarrow> int \<times> ('u clk) clock_ops option \<times> 'u clk \<times> bool" where
  "clock_timer_init create_err ctimer s =
     (if create_err \<noteq> 0 then (create_err, ctimer, s, False)
      else case clock_register (Some clock_timer_ops) ctimer s of
             (err, ctimer, s) \<Rightarrow> if err \<noteq> 0 then (err, ctimer, s, False) else (0, ctimer, s\<lparr>armed := armed s @ [CLOCK_PERIOD]\<rparr>, True))"

section \<open>Looking a callout up\<close>

lemma dlist_suffix:
  assumes "dlist h l (ys @ z # zs)"
  shows "z \<noteq> l" "nxt h z = hd (zs @ [l])" "hd (zs @ [l]) \<noteq> 0" "z \<noteq> 0" "z \<notin> set zs"
  using assms [unfolded dlist_entry] by (cases zs; auto)+

lemma callout_find_walk_eq:
  assumes "dlist h callout_list (ys @ zs)" "length zs < fuel"
  shows "callout_find_walk fuel cc del (hd (zs @ [callout_list])) (nxt h (hd (zs @ [callout_list]))) h =
    (if cc \<in> set zs then (if del then map_option (Pair True) (list_del cc h) else Some (True, h)) else Some (False, h))"
  using assms
proof (induction zs arbitrary: ys fuel)
  case Nil
  then show ?case by (cases fuel) auto
next
  case (Cons z zs)
  then obtain f where f: "fuel = Suc f" by (cases fuel) auto
  have s: "dlist h callout_list ((ys @ [z]) @ zs)" using Cons.prems(1) by simp
  note n = dlist_suffix [OF Cons.prems(1)]
  show ?case using Cons.IH [OF s, of f] Cons.prems(2) f n
    by (cases "cc = z"; cases del) (auto simp: rd_next_def map_option_case split: option.splits bind_splits)
qed

lemma clock_callout_find_eq:
  assumes "dlist h callout_list xs" "length xs < fuel"
  shows "clock_callout_find fuel cc del h =
    (if cc \<in> set xs then (if del then map_option (Pair True) (list_del cc h) else Some (True, h)) else Some (False, h))"
proof -
  have "hd (xs @ [callout_list]) \<noteq> 0" using dlist_nonzero [OF assms(1), of "hd (xs @ [callout_list])"] by (cases xs) auto
  then show ?thesis
    using callout_find_walk_eq [of h "[]" xs fuel cc del] assms dlist_head_links [OF assms(1)]
    by (simp add: clock_callout_find_def rd_next_def)
qed

section \<open>Registration\<close>

lemma clock_callout_add_ok:
  assumes "dlist (heap s) callout_list xs" "length xs < fuel" "cc \<notin> set (0 # callout_list # xs)" "callout \<noteq> 0" "seconds \<noteq> 0"
  shows "\<exists>h'. clock_callout_add fuel cc callout seconds s =
      Some (0, s\<lparr>co_callout := (co_callout s)(cc := callout), co_i_expires := (co_i_expires s)(cc := seconds),
                 co_expires := (co_expires s)(cc := of_int (clock_counter s) + seconds), heap := h'\<rparr>) \<and>
      dlist h' callout_list (xs @ [cc]) \<and> agree_off (set (cc # callout_list # xs)) (heap s) h'"
proof -
  obtain h' where "list_add_tail cc callout_list (heap s) = Some h'" "dlist h' callout_list (xs @ [cc])"
    "agree_off (set (cc # callout_list # xs)) (heap s) h'"
    using rs.push_law [OF assms(1), of cc] assms(3) by auto
  then show ?thesis using assms clock_callout_find_eq [OF assms(1,2), of cc False]
    by (auto simp: clock_callout_add_def Let_def)
qed

lemma clock_callout_add_errors:
  assumes "dlist (heap s) callout_list xs" "length xs < fuel"
  shows "cc = 0 \<or> callout = 0 \<or> seconds = 0 \<Longrightarrow> clock_callout_add fuel cc callout seconds s = Some (- EINVAL, s)"
    "cc \<in> set xs \<Longrightarrow> callout \<noteq> 0 \<Longrightarrow> seconds \<noteq> 0 \<Longrightarrow> clock_callout_add fuel cc callout seconds s = Some (- EEXIST, s)"
  using clock_callout_find_eq [OF assms, of cc False] dlist_nonzero [OF assms(1), of cc]
  by (auto simp: clock_callout_add_def)

lemma clock_callout_del_ok:
  assumes "dlist (heap s) callout_list xs" "length xs < fuel" "cc \<in> set xs"
  shows "\<exists>h'. clock_callout_del fuel cc s = Some (0, s\<lparr>heap := h'\<rparr>) \<and> dlist h' callout_list (remove1 cc xs) \<and>
    agree_off (set (callout_list # xs)) (heap s) h'"
proof -
  obtain as bs where x: "xs = as @ cc # bs" using assms(3) by (meson split_list)
  then have r: "remove1 cc xs = as @ bs" using rs.rep_wf [OF assms(1)] by (auto simp: remove1_append)
  obtain h' where "list_del cc (heap s) = Some h'" "dlist h' callout_list (as @ bs)" "agree_off (set (callout_list # xs)) (heap s) h'"
    using rs.remove_law [of "heap s" callout_list as cc bs] assms(1) x by auto
  then show ?thesis using r assms clock_callout_find_eq [OF assms(1,2), of cc True] dlist_nonzero [OF assms(1), of cc]
    by (auto simp: clock_callout_del_def)
qed

lemma clock_callout_del_errors:
  assumes "dlist (heap s) callout_list xs" "length xs < fuel"
  shows "clock_callout_del fuel 0 s = Some (- EINVAL, s)"
    "cc \<noteq> 0 \<Longrightarrow> cc \<notin> set xs \<Longrightarrow> clock_callout_del fuel cc s = Some (- EFAULT, s)"
  using clock_callout_find_eq [OF assms, of cc True] by (auto simp: clock_callout_del_def)


section \<open>Running the callouts\<close>

text \<open>What a tick has to do: visit the callouts in the order of the ring.\<close>

fun run_due :: "(nat \<Rightarrow> 'u clk \<Rightarrow> 'u clk option) \<Rightarrow> int \<Rightarrow> nat list \<Rightarrow> 'u clk \<Rightarrow> 'u clk option" where
  "run_due run tick [] s = Some s"
| "run_due run tick (p # ps) s = callout_visit run tick p s \<bind> run_due run tick ps"

text \<open>Callouts that return and leave the ring on the handler's stack alone; they may add callouts to the empty static ring
  and take them out again.\<close>

definition rings :: "nat \<Rightarrow> nat list \<Rightarrow> 'u clk \<Rightarrow> nat list \<Rightarrow> bool" where
  "rings head xs s ys \<longleftrightarrow> dlist (heap s) head xs \<and> dlist (heap s) callout_list ys \<and> set (head # xs) \<inter> set (callout_list # ys) = {}"

definition callout_safe :: "(nat \<Rightarrow> 'u clk \<Rightarrow> 'u clk option) \<Rightarrow> nat \<Rightarrow> nat list \<Rightarrow> bool" where
  "callout_safe run head xs \<longleftrightarrow>
     (\<forall>f s ys. rings head xs s ys \<longrightarrow> (\<exists>s' ys'. run f s = Some s' \<and> rings head xs s' ys'))"

lemma callout_visit_rings:
  assumes "callout_safe run head xs" "rings head xs s ys"
  shows "\<exists>s' ys'. callout_visit run tick p s = Some s' \<and> rings head xs s' ys'"
proof -
  obtain s' ys' where "run (co_callout s p) s = Some s'" "rings head xs s' ys'"
    using assms unfolding callout_safe_def by blast
  then show ?thesis using assms(2) by (auto simp: callout_visit_def rings_def)
qed

lemma callout_walk_eq:
  assumes "callout_safe run head (us @ zs)" "rings head (us @ zs) s ys" "length zs < fuel"
  shows "\<exists>s' ys'. callout_walk fuel run tick (hd (zs @ [head])) (nxt (heap s) (hd (zs @ [head]))) head s = Some s' \<and>
     run_due run tick zs s = Some s' \<and> rings head (us @ zs) s' ys'"
  using assms
proof (induction zs arbitrary: us s ys fuel)
  case Nil
  then show ?case by (cases fuel) auto
next
  case (Cons z zs)
  then obtain f where f: "fuel = Suc f" by (cases fuel) auto
  obtain s1 ys1 where v: "callout_visit run tick z s = Some s1" "rings head (us @ z # zs) s1 ys1"
    using callout_visit_rings [OF Cons.prems(1,2)] by blast
  have d: "dlist (heap s) head (us @ z # zs)" "dlist (heap s1) head (us @ z # zs)" using Cons.prems(2) v(2) by (auto simp: rings_def)
  note n = dlist_suffix [OF d(1)]
  obtain s' ys' where "callout_walk f run tick (hd (zs @ [head])) (nxt (heap s1) (hd (zs @ [head]))) head s1 = Some s'"
    "run_due run tick zs s1 = Some s'" "rings head (us @ z # zs) s' ys'"
    using Cons.IH [of "us @ [z]" s1 ys1 f] Cons.prems v(2) f by auto
  then show ?case using v n f by (auto simp: rd_next_def)
qed

lemma list_merge_eq:
  "list_merge l head h = do { e \<leftarrow> list_empty l h; h \<leftarrow> list_splice_init l head h; Some (\<not> e, h) }"
  by (auto simp: list_merge_def list_splice_init_def split: bind_splits option.splits)

lemma clock_timeout_eq:
  assumes r: "dlist (heap s) callout_list xs" "head \<notin> set (0 # callout_list # xs)" and safe: "callout_safe run head xs"
    and tick: "vtime_ok (clock_counter s + 1)" "length xs < fuel"
  shows "\<exists>h1 s2 ys h3. rings head xs (s\<lparr>heap := h1\<rparr>) [] \<and>
     run_due run (clock_counter s + 1) xs (s\<lparr>clock_counter := clock_counter s + 1, heap := h1\<rparr>) = Some s2 \<and> rings head xs s2 ys \<and>
     clock_timeout_cb fuel head run s = Some (s2\<lparr>heap := h3, armed := armed s2 @ [CLOCK_PERIOD]\<rparr>) \<and> dlist h3 callout_list (xs @ ys)"
proof -
  let ?t = "clock_counter s + 1"
  obtain h0 h1 where h1: "INIT_LIST_HEAD head (heap s) = Some h0" "list_splice_init callout_list head h0 = Some h1" "dlist h1 head xs" "dlist h1 callout_list []"
    and e: "list_empty callout_list h0 = Some (xs = [])"
  proof -
    obtain h0 where 0: "INIT_LIST_HEAD head (heap s) = Some h0" "agree_off {head} (heap s) h0" using rs.init_law [of head "heap s"] r(2) by auto
    have "dlist h0 callout_list xs" using rs.keep [OF r(1) 0(2)] r(2) by auto
    then show ?thesis using that [OF 0(1)] rs.detach [OF r(1), of head] r(2) 0(1) dlist_empty_iff [of h0 callout_list xs] by auto
  qed
  have r1: "rings head xs (s\<lparr>heap := h1\<rparr>) []" using h1 r(2) rs.rep_wf [OF r(1)] by (auto simp: rings_def)
  have hz: "head \<noteq> 0" "nxt h1 head = hd (xs @ [head])" "hd (xs @ [head]) \<noteq> 0"
    using dlist_head_links [OF h1(3)] dlist_nonzero [OF h1(3), of "hd (xs @ [head])"] by (cases xs; auto)+
  obtain s2 ys where w: "callout_walk fuel run ?t (hd (xs @ [head])) (nxt h1 (hd (xs @ [head]))) head (s\<lparr>clock_counter := ?t, heap := h1\<rparr>) = Some s2"
    "run_due run ?t xs (s\<lparr>clock_counter := ?t, heap := h1\<rparr>) = Some s2" "rings head xs s2 ys"
    using callout_walk_eq [of run head "[]" xs "s\<lparr>clock_counter := ?t, heap := h1\<rparr>" "[]" fuel ?t] safe r1 tick(2) by (auto simp: rings_def)
  obtain h3 where h3: "list_splice head callout_list (heap s2) = Some h3" "dlist h3 callout_list (xs @ ys)"
    using rs.attach [of "heap s2" head xs callout_list ys] w(3) by (auto simp: rings_def)
  have "\<exists>h3. clock_timeout_cb fuel head run s = Some (s2\<lparr>heap := h3, armed := armed s2 @ [CLOCK_PERIOD]\<rparr>) \<and> dlist h3 callout_list (xs @ ys)"
  proof (cases "xs = []")
    case True
    then have "s2 = s\<lparr>clock_counter := ?t, heap := h1\<rparr>" using w(2) by simp
    then show ?thesis using True h1 e hz w(1,3) tick(1)
      by (intro exI [of _ "heap s2"]) (simp add: clock_timeout_cb_def list_merge_eq Let_def rd_next_def rings_def)
  next
    case False
    then show ?thesis using h1 e hz w h3 tick(1)
      by (intro exI [of _ h3]) (simp add: clock_timeout_cb_def list_merge_eq Let_def rd_next_def)
  qed
  then show ?thesis using r1 w(2,3) by blast
qed


text \<open>Callouts that only change the state of the program, and a program that logs which callout ran.\<close>

definition log_run :: "nat \<Rightarrow> nat list clk \<Rightarrow> nat list clk option" where
  "log_run f s = Some (s\<lparr>user := user s @ [f]\<rparr>)"

lemma callout_safe_log: "callout_safe log_run head xs"
  by (auto simp: callout_safe_def log_run_def rings_def)

definition demo_clk :: "nat list clk" where
  "demo_clk = \<lparr>heap = \<lparr>nxt = (\<lambda>_. 0)(1 := 2, 2 := 3, 3 := 1), prv = (\<lambda>_. 0)(1 := 3, 2 := 1, 3 := 2)\<rparr>,
     co_callout = (\<lambda>_. 0)(2 := 20, 3 := 30), co_i_expires = (\<lambda>_. 1)(2 := 5), co_expires = (\<lambda>_. 8)(2 := 12),
     clock_counter = 7, armed = [], user = []\<rparr>"

lemma demo_clk_ring: "dlist (heap demo_clk) callout_list [2, 3]"
  by (simp add: demo_clk_def callout_list_def dlist_def)


section \<open>Periods\<close>

lemma run_due_log:
  assumes "distinct xs"
  shows "run_due log_run tick xs s =
    Some (s\<lparr>user := user s @ map (co_callout s) (filter (\<lambda>p. co_expires s p \<le> of_int tick) xs),
            co_expires := (\<lambda>p. if p \<in> set xs \<and> co_expires s p \<le> of_int tick then of_int tick + co_i_expires s p else co_expires s p)\<rparr>)"
  using assms
proof (induction xs arbitrary: s)
  case Nil
  then show ?case by simp
next
  case (Cons x xs)
  define t :: u32 where "t = of_int tick"
  define E where "E = (co_expires s)(x := t + co_i_expires s x)"
  have f: "filter (\<lambda>p. E p \<le> t) xs = filter (\<lambda>p. co_expires s p \<le> t) xs"
    using Cons.prems by (intro filter_cong) (auto simp: E_def)
  have g: "co_expires s x \<le> t \<Longrightarrow> (\<lambda>p. if p \<in> set xs \<and> E p \<le> t then t + co_i_expires s p else E p) =
      (\<lambda>p. if p \<in> set (x # xs) \<and> co_expires s p \<le> t then t + co_i_expires s p else co_expires s p)"
    using Cons.prems by (auto simp: E_def fun_eq_iff)
  have g2: "\<not> co_expires s x \<le> t \<Longrightarrow> (\<lambda>p. if p \<in> set xs \<and> co_expires s p \<le> t then t + co_i_expires s p else co_expires s p) =
      (\<lambda>p. if p \<in> set (x # xs) \<and> co_expires s p \<le> t then t + co_i_expires s p else co_expires s p)"
    by (auto simp: fun_eq_iff)
  have IH: "distinct xs" using Cons.prems by simp
  show ?case
  proof (cases "co_expires s x \<le> t")
    case True
    then have "run_due log_run tick (x # xs) s = run_due log_run tick xs (s\<lparr>user := user s @ [co_callout s x], co_expires := E\<rparr>)"
      by (simp add: callout_visit_def log_run_def t_def E_def)
    then show ?thesis using True Cons.IH [OF IH] f g [OF True] unfolding t_def [symmetric] by (simp cong: if_cong)
  next
    case False
    then have "run_due log_run tick (x # xs) s = run_due log_run tick xs s" by (simp add: callout_visit_def t_def)
    then show ?thesis using False Cons.IH [OF IH] g2 [OF False] unfolding t_def [symmetric] by simp
  qed
qed

fun clock_ticks :: "nat \<Rightarrow> nat \<Rightarrow> nat \<Rightarrow> (nat \<Rightarrow> 'u clk \<Rightarrow> 'u clk option) \<Rightarrow> 'u clk \<Rightarrow> 'u clk option" where
  "clock_ticks 0 fuel head run s = Some s"
| "clock_ticks (Suc n) fuel head run s = clock_ticks n fuel head run s \<bind> clock_timeout_cb fuel head run"

lemma clock_tick_log:
  assumes "dlist (heap s) callout_list xs" "head \<notin> set (0 # callout_list # xs)" "vtime_ok (clock_counter s + 1)" "length xs < fuel"
  shows "\<exists>s'. clock_timeout_cb fuel head log_run s = Some s' \<and> dlist (heap s') callout_list xs \<and>
     clock_counter s' = clock_counter s + 1 \<and> co_callout s' = co_callout s \<and> co_i_expires s' = co_i_expires s \<and>
     user s' = user s @ map (co_callout s) (filter (\<lambda>p. co_expires s p \<le> of_int (clock_counter s + 1)) xs) \<and>
     (\<forall>p\<in>set xs. co_expires s' p = (if co_expires s p \<le> of_int (clock_counter s + 1) then of_int (clock_counter s + 1) + co_i_expires s p else co_expires s p))"
proof -
  obtain h1 s2 ys h3 where t: "rings head xs (s\<lparr>heap := h1\<rparr>) []" "rings head xs s2 ys"
    "run_due log_run (clock_counter s + 1) xs (s\<lparr>clock_counter := clock_counter s + 1, heap := h1\<rparr>) = Some s2"
    "clock_timeout_cb fuel head log_run s = Some (s2\<lparr>heap := h3, armed := armed s2 @ [CLOCK_PERIOD]\<rparr>)" "dlist h3 callout_list (xs @ ys)"
    using clock_timeout_eq [OF assms(1,2) callout_safe_log assms(3,4)] by blast
  have d: "distinct xs" using rs.rep_wf [OF assms(1)] by simp
  let ?s = "s\<lparr>clock_counter := clock_counter s + 1, heap := h1\<rparr>"
  have s2: "s2 = ?s\<lparr>user := user ?s @ map (co_callout ?s) (filter (\<lambda>p. co_expires ?s p \<le> of_int (clock_counter s + 1)) xs),
      co_expires := (\<lambda>p. if p \<in> set xs \<and> co_expires ?s p \<le> of_int (clock_counter s + 1) then of_int (clock_counter s + 1) + co_i_expires ?s p else co_expires ?s p)\<rparr>"
    using t(3) unfolding run_due_log [OF d] by (simp only: option.inject)
  have "dlist h1 callout_list ys" "dlist h1 callout_list []" using t(1,2) s2 by (auto simp: rings_def)
  then have "ys = []" using dlist_unique by blast
  then show ?thesis using t(4,5) s2 by simp
qed

lemma of_int_le_u32: "0 \<le> a \<Longrightarrow> a < 2 ^ 31 \<Longrightarrow> 0 \<le> b \<Longrightarrow> b < 2 ^ 31 \<Longrightarrow> (of_int a :: u32) \<le> of_int b \<longleftrightarrow> a \<le> b"
  by (simp add: word_le_def uint_word_of_int take_bit_int_eq_self)

lemma callout_due:
  assumes "0 < D" "0 \<le> c" "c + int k + 1 < 2 ^ 31" "c + int k + int D < 2 ^ 31"
  shows "of_int (c + int (D * (k div D + 1))) \<le> (of_int (c + int k + 1) :: u32) \<longleftrightarrow> Suc k mod D = 0"
proof -
  have k: "k = D * (k div D) + k mod D" "k mod D < D" using assms(1) by simp_all
  have "D * (k div D + 1) \<le> k + D" using k(1) by simp
  then have "c + int (D * (k div D + 1)) < 2 ^ 31" using assms by linarith
  then have "of_int (c + int (D * (k div D + 1))) \<le> (of_int (c + int k + 1) :: u32) \<longleftrightarrow> c + int (D * (k div D + 1)) \<le> c + int k + 1"
    using assms by (intro of_int_le_u32) linarith+
  moreover have "\<dots> \<longleftrightarrow> D * (k div D + 1) \<le> Suc k" by linarith
  moreover have "\<dots> \<longleftrightarrow> D \<le> Suc (k mod D)" using k(1) unfolding distrib_left mult_1_right by linarith
  ultimately show ?thesis using k(2) by (auto simp: mod_Suc)
qed

text \<open>The state \<open>k\<close> ticks after the callout \<open>cc\<close> with function \<open>f\<close> and period \<open>d\<close> was added to the callouts \<open>xs\<close> at the time
  \<open>c\<close>; \<open>m\<close> is the number of earlier runs of \<open>f\<close>.\<close>

definition periodic :: "nat list \<Rightarrow> nat \<Rightarrow> nat \<Rightarrow> u32 \<Rightarrow> int \<Rightarrow> nat \<Rightarrow> nat \<Rightarrow> nat list clk \<Rightarrow> bool" where
  "periodic xs cc f d c m k s \<longleftrightarrow> dlist (heap s) callout_list (xs @ [cc]) \<and> co_callout s cc = f \<and> (\<forall>p\<in>set xs. co_callout s p \<noteq> f) \<and>
     co_i_expires s cc = d \<and> co_expires s cc = of_int (c + int (unat d * (k div unat d + 1))) \<and> clock_counter s = c + int k \<and>
     count_list (user s) f = m + k div unat d"

lemma periodic_tick:
  assumes p: "periodic xs cc f d c m k s" and h: "head \<notin> set (0 # callout_list # cc # xs)" "length xs + 1 < fuel"
    and d: "d \<noteq> 0" and t: "0 \<le> c" "c + int k + 1 + int (unat d) < 2 ^ 31"
  shows "\<exists>s'. clock_timeout_cb fuel head log_run s = Some s' \<and> periodic xs cc f d c m (Suc k) s'"
proof -
  note i = p [unfolded periodic_def]
  have D: "0 < unat d" "of_int (int (unat d)) = d" using d by (simp_all add: unat_gt_0)
  have "vtime_ok (clock_counter s + 1)" using i t D(1) unfolding vtime_ok_def by linarith
  then obtain s' where j: "clock_timeout_cb fuel head log_run s = Some s'" "dlist (heap s') callout_list (xs @ [cc])"
    "clock_counter s' = clock_counter s + 1" "co_callout s' = co_callout s" "co_i_expires s' = co_i_expires s"
    "user s' = user s @ map (co_callout s) (filter (\<lambda>p. co_expires s p \<le> of_int (clock_counter s + 1)) (xs @ [cc]))"
    "co_expires s' cc = (if co_expires s cc \<le> of_int (clock_counter s + 1) then of_int (clock_counter s + 1) + co_i_expires s cc else co_expires s cc)"
    using clock_tick_log [of s "xs @ [cc]" head fuel] i h by auto
  have e: "co_expires s cc = of_int (c + int (unat d * (k div unat d + 1)))" "clock_counter s = c + int k" using i by blast+
  have dc: "co_expires s cc \<le> of_int (clock_counter s + 1) \<longleftrightarrow> Suc k mod unat d = 0"
    unfolding e using t(2) D(1) by (intro callout_due [OF D(1) t(1)]) linarith+
  have z: "count_list (map (co_callout s) (filter P xs)) f = 0" for P using i by (intro count_notin) auto
  have "user s' = user s @ map (co_callout s) (filter (\<lambda>p. co_expires s p \<le> of_int (clock_counter s + 1)) xs) @ (if Suc k mod unat d = 0 then [f] else [])"
    unfolding j(6) filter_append map_append using dc i by simp
  then have "count_list (user s') f = count_list (user s) f + (if Suc k mod unat d = 0 then 1 else 0)" using z by simp
  moreover have dv: "Suc k div unat d = k div unat d + (if Suc k mod unat d = 0 then 1 else 0)" by (simp add: div_Suc)
  moreover have "co_expires s' cc = of_int (c + int (unat d * (Suc k div unat d + 1)))"
  proof (cases "Suc k mod unat d = 0")
    case True
    then have e: "unat d * (Suc k div unat d + 1) = Suc k + unat d" by (auto simp: algebra_simps)
    show ?thesis unfolding e using True dc j(7) i D(2) by simp
  next
    case False
    then show ?thesis using dc j(7) i dv by simp
  qed
  ultimately show ?thesis unfolding periodic_def using i j by simp
qed

text \<open>C21. Callouts are periodic. A callout registered with the period \<open>d\<close> is run at the ticks \<open>d\<close>, \<open>2 d\<close>, \<open>3 d\<close>, ...:
  after \<open>n\<close> ticks it has run \<open>n div d\<close> times, whatever other callouts are registered, and the clock has advanced
  \<open>n\<close> seconds.\<close>

theorem clock_callout_period:
  assumes ring: "dlist (heap s) callout_list xs" "cc \<notin> set (0 # callout_list # xs)" "head \<notin> set (0 # callout_list # cc # xs)"
    and fn: "f \<noteq> 0" "\<forall>p\<in>set xs. co_callout s p \<noteq> f" and d: "d \<noteq> 0"
    and time: "0 \<le> clock_counter s" "clock_counter s + int n + int (unat d) < 2 ^ 31" and fuel: "length xs + 1 < fuel"
  shows "\<exists>s1 s2. clock_callout_add fuel cc f d s = Some (0, s1) \<and> clock_ticks n fuel head log_run s1 = Some s2 \<and>
     count_list (user s2) f = count_list (user s) f + n div unat d \<and> clock_counter s2 = clock_counter s + int n"
proof -
  obtain s1 where a: "clock_callout_add fuel cc f d s = Some (0, s1)" and s1: "dlist (heap s1) callout_list (xs @ [cc])"
    "co_callout s1 = (co_callout s)(cc := f)" "co_i_expires s1 cc = d" "co_expires s1 cc = of_int (clock_counter s) + d"
    "clock_counter s1 = clock_counter s" "user s1 = user s"
    using clock_callout_add_ok [OF ring(1) _ ring(2) fn(1) d, of fuel] fuel by force
  have "\<exists>s2. clock_ticks k fuel head log_run s1 = Some s2 \<and> periodic xs cc f d (clock_counter s) (count_list (user s) f) k s2" if "k \<le> n" for k
    using that
  proof (induction k)
    case 0
    then show ?case using s1 fn(2) ring(2) by (auto simp: periodic_def)
  next
    case (Suc k)
    then show ?case using periodic_tick [OF _ ring(3) fuel d time(1)] time(2) by fastforce
  qed
  then show ?thesis using a unfolding periodic_def by blast
qed

theorem clock_callout_period_witness:
  "\<exists>s1 s2. clock_callout_add 9 5 50 3 demo_clk = Some (0, s1) \<and> clock_ticks 7 9 8 log_run s1 = Some s2 \<and>
     count_list (user s2) 50 = 2 \<and> clock_counter s2 = 14"
proof -
  have u: "unat (3 :: u32) = 3" by simp
  have "7 div (3::nat) = 2" by simp
  then show ?thesis
    using clock_callout_period [OF demo_clk_ring, of 5 8 50 3 7 9]
    unfolding u by (simp add: callout_list_def) (simp add: demo_clk_def numeral_2_eq_2)
qed

text \<open>The clock keeps calendar time: registered by \<^verbatim>\<open>clock_timer_init\<close> with the counter at zero, after \<open>n\<close> ticks it
  tells the civil time \<open>n\<close> seconds after midnight of 1 January 1970, whatever callouts run.\<close>

theorem clock_ticks_calendar:
  assumes ring: "dlist (heap s) callout_list xs" "head \<notin> set (0 # callout_list # xs)" "length xs < fuel"
    and t: "clock_counter s = 0" "n < 2 ^ 31" and i: "clock_timer_init 0 None s = (err, ctimer, s0, ok)"
  shows "\<exists>s2. clock_ticks n fuel head log_run s0 = Some s2 \<and>
     get_tod_time ctimer (Some r) s2 = Some (0, Some ((next_second ^^ n) epoch))"
proof -
  have c: "ctimer = Some clock_timer_ops" "s0 = s\<lparr>armed := armed s @ [CLOCK_PERIOD]\<rparr>"
    using i by (auto simp: clock_timer_init_def clock_register_def clock_timer_ops_def)
  have "\<exists>s2. clock_ticks k fuel head log_run s0 = Some s2 \<and> dlist (heap s2) callout_list xs \<and> clock_counter s2 = int k" if "k < 2 ^ 31" for k
    using that
  proof (induction k)
    case 0
    then show ?case using ring t c by simp
  next
    case (Suc k)
    then obtain s2 where s2: "clock_ticks k fuel head log_run s0 = Some s2" "dlist (heap s2) callout_list xs" "clock_counter s2 = int k" by auto
    have "vtime_ok (clock_counter s2 + 1)" using s2 Suc.prems by (simp add: vtime_ok_def)
    then show ?case using clock_tick_log [OF s2(2) ring(2) _ ring(3)] s2 by auto
  qed
  then obtain s2 where s2: "clock_ticks n fuel head log_run s0 = Some s2" "clock_counter s2 = int n" using t(2) by blast
  have "clock_get_tod_time (Some (int n)) (Some r) = Some (0, Some (tod_of (int n) r))"
    using t(2) by (intro clock_get_tod_time_eq) (auto simp: vtime_ok_def)
  moreover have "tod_of (int n) r = (next_second ^^ n) epoch" using tod_of_iterate [of 0 n r] tod_of_epoch by simp
  ultimately show ?thesis using s2 c
    by (auto simp: get_tod_time_def get_time_def clock_get_time_def clock_timer_ops_def)
qed


theorem clock_ticks_calendar_witness:
  "\<exists>s2. clock_ticks 86400 3 9 log_run (demo_clk\<lparr>clock_counter := 0, armed := [CLOCK_PERIOD]\<rparr>) = Some s2 \<and>
     get_tod_time (Some clock_timer_ops) (Some epoch) s2 = Some (0, Some ((next_second ^^ 86400) epoch))"
proof -
  have i: "clock_timer_init 0 None (demo_clk\<lparr>clock_counter := 0\<rparr>) =
      (0, Some clock_timer_ops, demo_clk\<lparr>clock_counter := 0, armed := [CLOCK_PERIOD]\<rparr>, True)"
    by (simp add: clock_timer_init_def clock_register_def clock_timer_ops_def demo_clk_def)
  have r: "dlist (heap (demo_clk\<lparr>clock_counter := 0\<rparr>)) callout_list [2, 3]" using demo_clk_ring by simp
  show ?thesis by (rule clock_ticks_calendar [OF r _ _ _ _ i]) (simp_all add: callout_list_def)
qed

text \<open>A callout that registers itself again while it runs.\<close>

definition readd_run :: "nat \<Rightarrow> unit clk \<Rightarrow> unit clk option" where
  "readd_run f s = map_option snd (clock_callout_add 2 2 f 1 s)"

definition one_callout :: "unit clk" where
  "one_callout = \<lparr>heap = \<lparr>nxt = (\<lambda>_. 0)(1 := 2, 2 := 1), prv = (\<lambda>_. 0)(1 := 2, 2 := 1)\<rparr>,
     co_callout = (\<lambda>_. 20), co_i_expires = (\<lambda>_. 1), co_expires = (\<lambda>_. 1), clock_counter = 0, armed = [], user = ()\<rparr>"

lemma callout_find_loops:
  "nxt h 2 = 2 \<Longrightarrow> callout_find_walk fuel 7 False 2 2 h = None"
  by (induction fuel) (auto simp: callout_list_def rd_next_def)


end
