(* ===== verification/FreeList.thy ===== *)
theory FreeList
  imports Prelude
begin

text \<open>
  Free lists: the allocators of \<^verbatim>\<open>os/osapi_obj.c\<close>, \<^verbatim>\<open>debug/mb_trace.c\<close> and \<^verbatim>\<open>ui/resource/rc_actions_impl.c\<close> link their unused
  objects through the first word of each. \<open>chain m p xs\<close> says that the list starting at \<open>p\<close> in the memory \<open>m\<close> holds the
  objects \<open>xs\<close>; the locale \<open>object_pool\<close> is the contract of such an allocator, and what its users rely on is proved there.
\<close>

section \<open>Chains\<close>

type_synonym cells = "nat \<Rightarrow> nat"

fun chain :: "cells \<Rightarrow> nat \<Rightarrow> nat list \<Rightarrow> bool" where
  "chain m p [] \<longleftrightarrow> p = 0"
| "chain m p (x # xs) \<longleftrightarrow> p = x \<and> x \<noteq> 0 \<and> chain m (m x) xs"

lemma chain_cong: "(\<And>x. x \<in> set xs \<Longrightarrow> m' x = m x) \<Longrightarrow> chain m' p xs = chain m p xs"
  by (induction xs arbitrary: p) auto

lemma chain_upd [simp]: "a \<notin> set xs \<Longrightarrow> chain (m(a := v)) p xs = chain m p xs"
  by (rule chain_cong) auto

lemma chain_unique: "chain m p xs \<Longrightarrow> chain m p ys \<Longrightarrow> xs = ys"
proof (induction xs arbitrary: p ys)
  case Nil
  then show ?case by (cases ys) auto
next
  case (Cons x xs)
  then show ?case by (cases ys) auto
qed

text \<open>Linking \<open>n\<close> objects of a given size at consecutive addresses, as the pools do at start.\<close>

fun link_objects :: "nat \<Rightarrow> nat \<Rightarrow> nat \<Rightarrow> nat \<Rightarrow> cells \<Rightarrow> nat \<times> cells" where
  "link_objects 0 p sz head m = (head, m)"
| "link_objects (Suc n) p sz head m = link_objects n (p + sz) sz p (m(p := head))"

definition slots :: "nat \<Rightarrow> nat \<Rightarrow> nat \<Rightarrow> nat list" where
  "slots p sz n = map (\<lambda>i. p + i * sz) [0..<n]"

lemma slots_Suc: "slots p sz (Suc n) = p # slots (p + sz) sz n"
  by (simp add: slots_def upt_conv_Cons map_Suc_upt [symmetric] add.assoc del: upt_Suc)

lemma link_objects_chain:
  assumes "0 < sz" "0 < p" "chain m head xs" "\<forall>x\<in>set xs. x < p" "link_objects n p sz head m = (h', m')"
  shows "chain m' h' (rev (slots p sz n) @ xs) \<and> (\<forall>a. a < p \<longrightarrow> m' a = m a)"
  using assms
proof (induction n arbitrary: p head m xs)
  case 0
  then show ?case by (simp add: slots_def)
next
  case (Suc n)
  have "chain (m(p := head)) p (p # xs)" using Suc.prems by auto
  then have "chain m' h' (rev (slots (p + sz) sz n) @ p # xs) \<and> (\<forall>a. a < p + sz \<longrightarrow> m' a = (m(p := head)) a)"
    using Suc.IH [of "p + sz" "m(p := head)" p "p # xs"] Suc.prems by fastforce
  then show ?case using Suc.prems(1) by (auto simp: slots_Suc)
qed

lemma slots_distinct: "0 < sz \<Longrightarrow> distinct (slots p sz n)"
  by (auto simp: slots_def distinct_map inj_on_def)

text \<open>Objects of a pool do not overlap.\<close>

lemma slots_apart:
  "x \<in> set (slots p sz n) \<Longrightarrow> y \<in> set (slots p sz n) \<Longrightarrow> x < y \<Longrightarrow> x + sz \<le> y"
proof -
  assume "x \<in> set (slots p sz n)" "y \<in> set (slots p sz n)" "x < y"
  then obtain i j where ij: "x = p + i * sz" "y = p + j * sz" "i * sz < j * sz" by (auto simp: slots_def)
  then have "i < j" by (simp add: mult_less_cancel2)
  then have "Suc i * sz \<le> j * sz" by (intro mult_le_mono1) simp
  then show ?thesis using ij by simp
qed

lemma slots_inside: "x \<in> set (slots p sz n) \<Longrightarrow> p \<le> x \<and> x + sz \<le> p + n * sz"
proof -
  assume "x \<in> set (slots p sz n)"
  then obtain i where i: "x = p + i * sz" "i < n" unfolding slots_def by force
  then have "Suc i * sz \<le> n * sz" by (intro mult_le_mono1) simp
  then show ?thesis using i by simp
qed

section \<open>The contract of an allocator\<close>

locale object_pool =
  fixes valid :: "nat \<Rightarrow> bool"
    and holds :: "'s \<Rightarrow> nat list \<Rightarrow> bool"
    and alloc :: "'s \<Rightarrow> (nat \<times> 's) option"
    and free :: "nat \<Rightarrow> 's \<Rightarrow> 's option"
  assumes valid_nonzero: "valid p \<Longrightarrow> p \<noteq> 0"
    and holds_wf: "holds s xs \<Longrightarrow> x \<in> set xs \<Longrightarrow> valid x"
    and alloc_empty: "holds s [] \<Longrightarrow> alloc s = Some (0, s)"
    and alloc_take: "holds s (x # xs) \<Longrightarrow> \<exists>s'. alloc s = Some (x, s') \<and> holds s' xs"
    and free_put: "holds s xs \<Longrightarrow> valid p \<Longrightarrow> p \<notin> set xs \<Longrightarrow> \<exists>s'. free p s = Some s' \<and> holds s' (p # xs)"
begin

text \<open>A pool of objects \<open>all\<close> with the objects \<open>used\<close> handed out.\<close>

definition pool_inv :: "nat list \<Rightarrow> nat list \<Rightarrow> 's \<Rightarrow> bool" where
  "pool_inv all used s \<longleftrightarrow> (\<forall>x\<in>set all. valid x) \<and> (\<exists>xs. holds s xs \<and> distinct (used @ xs) \<and> set (used @ xs) = set all)"

lemma pool_alloc:
  assumes "pool_inv all used s"
  shows "\<exists>p s'. alloc s = Some (p, s') \<and>
     (if set used = set all then p = 0 \<and> s' = s else p \<in> set all - set used \<and> p \<noteq> 0 \<and> pool_inv all (p # used) s')"
proof -
  obtain xs where xs: "holds s xs" "distinct (used @ xs)" "set (used @ xs) = set all" using assms unfolding pool_inv_def by blast
  show ?thesis
  proof (cases xs)
    case Nil
    then show ?thesis using alloc_empty xs by auto
  next
    case (Cons x ys)
    then obtain s' where s': "alloc s = Some (x, s')" "holds s' ys" using alloc_take xs by blast
    moreover have "set used \<noteq> set all" "x \<in> set all - set used" "x \<noteq> 0"
      using xs Cons holds_wf [OF xs(1), of x] valid_nonzero by auto
    moreover have "pool_inv all (x # used) s'" unfolding pool_inv_def using assms [unfolded pool_inv_def] s'(2) xs Cons by (intro conjI exI [of _ ys]) auto
    ultimately show ?thesis by auto
  qed
qed

lemma pool_free:
  assumes "pool_inv all used s" "p \<in> set used"
  shows "\<exists>s'. free p s = Some s' \<and> pool_inv all (remove1 p used) s'"
proof -
  obtain xs where xs: "holds s xs" "distinct (used @ xs)" "set (used @ xs) = set all" using assms unfolding pool_inv_def by blast
  then have "p \<notin> set xs" "valid p" using assms [unfolded pool_inv_def] by auto
  then obtain s' where s': "free p s = Some s'" "holds s' (p # xs)" using free_put xs by blast
  have "pool_inv all (remove1 p used) s'"
    unfolding pool_inv_def using assms [unfolded pool_inv_def] s'(2) xs by (intro conjI exI [of _ "p # xs"]) (auto simp: set_remove1_eq)
  then show ?thesis using s' by blast
qed

end

section \<open>Traces of a client\<close>

text \<open>A client that allocates objects and frees objects it holds.\<close>

datatype pool_cmd = Alloc | Free nat

fun pool_trace :: "('s \<Rightarrow> (nat \<times> 's) option) \<Rightarrow> (nat \<Rightarrow> 's \<Rightarrow> 's option) \<Rightarrow> pool_cmd list \<Rightarrow> nat list \<Rightarrow> 's \<Rightarrow> (nat list \<times> 's) option" where
  "pool_trace alloc free [] used s = Some (used, s)"
| "pool_trace alloc free (Alloc # cs) used s =
     do { (p, s) \<leftarrow> alloc s; pool_trace alloc free cs (if p = 0 then used else p # used) s }"
| "pool_trace alloc free (Free p # cs) used s = do { s \<leftarrow> free p s; pool_trace alloc free cs (remove1 p used) s }"

fun pool_valid :: "('s \<Rightarrow> (nat \<times> 's) option) \<Rightarrow> (nat \<Rightarrow> 's \<Rightarrow> 's option) \<Rightarrow> pool_cmd list \<Rightarrow> nat list \<Rightarrow> 's \<Rightarrow> bool" where
  "pool_valid alloc free [] used s = True"
| "pool_valid alloc free (Alloc # cs) used s =
     (case alloc s of Some (p, s) \<Rightarrow> pool_valid alloc free cs (if p = 0 then used else p # used) s | None \<Rightarrow> True)"
| "pool_valid alloc free (Free p # cs) used s =
     (p \<in> set used \<and> (case free p s of Some s \<Rightarrow> pool_valid alloc free cs (remove1 p used) s | None \<Rightarrow> True))"

context object_pool
begin

lemma pool_trace_inv:
  assumes "pool_inv all used s" "pool_valid alloc free cs used s"
  shows "\<exists>used' s'. pool_trace alloc free cs used s = Some (used', s') \<and> pool_inv all used' s'"
  using assms
proof (induction cs arbitrary: used s)
  case Nil
  then show ?case by simp
next
  case (Cons c cs)
  show ?case
  proof (cases c)
    case Alloc
    obtain p s' where a: "alloc s = Some (p, s')"
      "if set used = set all then p = 0 \<and> s' = s else p \<in> set all - set used \<and> p \<noteq> 0 \<and> pool_inv all (p # used) s'"
      using pool_alloc [OF Cons.prems(1)] by blast
    then have "pool_inv all (if p = 0 then used else p # used) s'" using Cons.prems(1) by (auto split: if_splits)
    then show ?thesis using Cons.IH [of "if p = 0 then used else p # used" s'] Cons.prems(2) a(1) Alloc by simp
  next
    case (Free p)
    then have p: "p \<in> set used" using Cons.prems(2) by auto
    obtain s' where "free p s = Some s'" "pool_inv all (remove1 p used) s'" using pool_free [OF Cons.prems(1) p] by blast
    then show ?thesis using Cons.IH [of "remove1 p used" s'] Cons.prems(2) Free by simp
  qed
qed

lemma pool_inv_used: "pool_inv all used s \<Longrightarrow> distinct used \<and> set used \<subseteq> set all"
  unfolding pool_inv_def by auto

end

end
