(* ===== verification/ObjPool.thy ===== *)
theory ObjPool
  imports FreeList
begin

text \<open>
  \<^verbatim>\<open>basework/os/osapi_obj.c\<close>, the pools of equal objects for files and timers. Addresses are numbers below \<open>2 ^ 32\<close>;
  \<open>mem\<close> is the word stored at an address.
\<close>

section \<open>The pools\<close>

datatype obj_type = OBJ_FILE_CLASS | OBJ_TIMER_CLASS

record objs =
  os_object_table :: "obj_type \<Rightarrow> nat"
  mem :: cells

definition OBJ_DEFAULT_VAL :: nat where
  "OBJ_DEFAULT_VAL = 2 ^ 32 - 1"

definition os_obj_ready :: "obj_type \<Rightarrow> objs \<Rightarrow> bool" where
  "os_obj_ready type s \<longleftrightarrow> os_object_table s type \<noteq> OBJ_DEFAULT_VAL"

text \<open>Reading through the initial value of the table is an invalid access.\<close>

definition os_obj_allocate :: "obj_type \<Rightarrow> objs \<Rightarrow> (nat \<times> objs) option" where
  "os_obj_allocate type s =
     (let p = os_object_table s type in
      if p \<noteq> 0 then
        if p = OBJ_DEFAULT_VAL then None
        else Some (p, s\<lparr>os_object_table := (os_object_table s)(type := mem s p)\<rparr>)
      else Some (p, s))"

definition os_obj_free :: "obj_type \<Rightarrow> nat \<Rightarrow> objs \<Rightarrow> objs option" where
  "os_obj_free type p s =
     (if p = 0 then None
      else Some (s\<lparr>mem := (mem s)(p := os_object_table s type), os_object_table := (os_object_table s)(type := p)\<rparr>))"

definition roundup_size :: "nat \<Rightarrow> nat \<Rightarrow> nat" where
  "roundup_size x y = wrap32 (wrap32 (x + (y - 1)) div y * y)"

definition os_obj_initialize :: "obj_type \<Rightarrow> nat \<Rightarrow> nat \<Rightarrow> nat \<Rightarrow> objs \<Rightarrow> int \<times> objs" where
  "os_obj_initialize type buffer sz isize s =
     (let fixed_isize = roundup_size isize 4 in
      if os_object_table s type \<noteq> 0 \<and> os_obj_ready type s then (- EBUSY, s)
      else if buffer = 0 then (- EINVAL, s)
      else if fixed_isize = 0 \<or> sz < fixed_isize then (- EINVAL, s)
      else if os_obj_ready type s then (0, s)
      else let (head, m) = link_objects (sz div fixed_isize) buffer fixed_isize 0 (mem s)
           in (0, s\<lparr>mem := m, os_object_table := (os_object_table s)(type := head)\<rparr>))"

section \<open>The pools meet the contract of an allocator\<close>

definition obj_valid :: "nat \<Rightarrow> bool" where
  "obj_valid p \<longleftrightarrow> p \<noteq> 0 \<and> p \<noteq> OBJ_DEFAULT_VAL"

definition obj_holds :: "obj_type \<Rightarrow> objs \<Rightarrow> nat list \<Rightarrow> bool" where
  "obj_holds type s xs \<longleftrightarrow> chain (mem s) (os_object_table s type) xs \<and> (\<forall>x\<in>set xs. obj_valid x)"

lemma obj_take:
  assumes "obj_holds type s (x # xs)"
  shows "os_obj_allocate type s = Some (x, s\<lparr>os_object_table := (os_object_table s)(type := mem s x)\<rparr>)"
    "obj_holds type (s\<lparr>os_object_table := (os_object_table s)(type := mem s x)\<rparr>) xs"
  using assms by (auto simp: obj_holds_def os_obj_allocate_def obj_valid_def)

interpretation fp: object_pool obj_valid "obj_holds type" "os_obj_allocate type" "os_obj_free type" for type
proof
  show "\<And>s. obj_holds type s [] \<Longrightarrow> os_obj_allocate type s = Some (0, s)" by (simp add: obj_holds_def os_obj_allocate_def)
  show "\<And>s x xs. obj_holds type s (x # xs) \<Longrightarrow> \<exists>s'. os_obj_allocate type s = Some (x, s') \<and> obj_holds type s' xs"
    using obj_take by blast
qed (auto simp: obj_holds_def os_obj_free_def obj_valid_def)

lemma os_obj_initialize_holds:
  assumes "\<not> os_obj_ready type s" "roundup_size isize 4 = fs" "0 < buffer" "0 < fs" "fs \<le> sz" "buffer + sz < 2 ^ 32"
  shows "\<exists>s'. os_obj_initialize type buffer sz isize s = (0, s') \<and> obj_holds type s' (rev (slots buffer fs (sz div fs))) \<and>
     (\<forall>t. t \<noteq> type \<longrightarrow> os_object_table s' t = os_object_table s t)"
proof -
  obtain hd m where l: "link_objects (sz div fs) buffer fs 0 (mem s) = (hd, m)" by fastforce
  have c: "chain m hd (rev (slots buffer fs (sz div fs)))"
    using link_objects_chain [OF assms(4,3), of "mem s" 0 "[]"] l by auto
  have v: "obj_valid x" if "x \<in> set (slots buffer fs (sz div fs))" for x
  proof -
    have "x + fs \<le> buffer + sz div fs * fs" "buffer \<le> x" using slots_inside [OF that] by simp_all
    moreover have "sz div fs * fs \<le> sz" by simp
    ultimately show ?thesis using assms unfolding obj_valid_def OBJ_DEFAULT_VAL_def by linarith
  qed
  have "os_obj_initialize type buffer sz isize s = (0, s\<lparr>mem := m, os_object_table := (os_object_table s)(type := hd)\<rparr>)"
    using assms l by (auto simp: os_obj_initialize_def Let_def)
  then show ?thesis using c v by (auto simp: obj_holds_def)
qed

lemma roundup_size_ge: "0 < isize \<Longrightarrow> isize + 3 < 2 ^ 32 \<Longrightarrow> isize \<le> roundup_size isize 4 \<and> 0 < roundup_size isize 4"
proof -
  assume i: "0 < isize" "isize + 3 < 2 ^ 32"
  have "(isize + 3) div 4 * 4 = isize + 3 - (isize + 3) mod 4" by (simp add: minus_mod_eq_div_mult [symmetric])
  moreover have "(isize + 3) mod 4 \<le> 3" by presburger
  ultimately have d: "isize \<le> (isize + 3) div 4 * 4" "(isize + 3) div 4 * 4 \<le> isize + 3" by linarith+
  then have "roundup_size isize 4 = (isize + 3) div 4 * 4" using i by (simp add: roundup_size_def wrap32_def)
  with d i show ?thesis by simp
qed

text \<open>C22. Objects of a pool. After a successful initialisation of a class that has not been used, any client that allocates
  and frees what it holds is served without an invalid access; the objects it holds are distinct, lie inside the buffer and
  do not overlap; and an allocation fails only when all objects are in use.\<close>

theorem os_obj_no_overlap:
  assumes "\<not> os_obj_ready type s" "0 < buffer" "0 < isize" "isize + 3 < 2 ^ 32" "roundup_size isize 4 \<le> sz" "buffer + sz < 2 ^ 32"
    and "os_obj_initialize type buffer sz isize s = (err, s1)" "pool_valid (os_obj_allocate type) (os_obj_free type) cs [] s1"
  shows "err = 0 \<and> (\<exists>used s2. pool_trace (os_obj_allocate type) (os_obj_free type) cs [] s1 = Some (used, s2) \<and>
     distinct used \<and> (\<forall>p\<in>set used. buffer \<le> p \<and> p + isize \<le> buffer + sz) \<and>
     (\<forall>p\<in>set used. \<forall>q\<in>set used. p < q \<longrightarrow> p + isize \<le> q) \<and>
     (\<exists>p s3. os_obj_allocate type s2 = Some (p, s3) \<and> (p = 0 \<longleftrightarrow> length used = sz div roundup_size isize 4)))"
proof -
  define fs where "fs = roundup_size isize 4"
  define all where "all = slots buffer fs (sz div fs)"
  have fs: "isize \<le> fs" "0 < fs" using roundup_size_ge [OF assms(3,4)] by (simp_all add: fs_def)
  have i: "err = 0" "obj_holds type s1 (rev all)"
    using os_obj_initialize_holds [OF assms(1) fs_def [symmetric] assms(2) fs(2) _ assms(6)] assms(5,7) unfolding fs_def [symmetric] all_def by auto
  have "fp.pool_inv type all [] s1" unfolding fp.pool_inv_def
    using i(2) slots_distinct [OF fs(2)] unfolding all_def by (auto simp: obj_holds_def intro!: exI [of _ "rev (slots buffer fs (sz div fs))"])
  then obtain used s2 where t: "pool_trace (os_obj_allocate type) (os_obj_free type) cs [] s1 = Some (used, s2)" "fp.pool_inv type all used s2"
    using fp.pool_trace_inv assms(8) by blast
  note u = fp.pool_inv_used [OF t(2)]
  have in': "\<forall>p\<in>set used. buffer \<le> p \<and> p + isize \<le> buffer + sz"
  proof
    fix p
    assume "p \<in> set used"
    then have "buffer \<le> p \<and> p + fs \<le> buffer + sz div fs * fs" using u slots_inside unfolding all_def by blast
    moreover have "sz div fs * fs \<le> sz" by simp
    ultimately show "buffer \<le> p \<and> p + isize \<le> buffer + sz" using fs(1) by linarith
  qed
  have ap: "\<forall>p\<in>set used. \<forall>q\<in>set used. p < q \<longrightarrow> p + isize \<le> q"
    using u slots_apart [of _ buffer fs "sz div fs"] fs(1) unfolding all_def by (meson add_left_mono le_trans subsetD)
  have la: "length all = sz div fs" "distinct all" using slots_distinct [OF fs(2)] by (simp_all add: all_def slots_def)
  have "set used = set all \<longleftrightarrow> length used = sz div fs"
    using u la by (metis card_subset_eq distinct_card List.finite_set)
  then show ?thesis using i(1) t u in' ap fp.pool_alloc [OF t(2)] unfolding fs_def [symmetric] by (auto split: if_splits)
qed


definition fresh_objs :: objs where
  "fresh_objs = \<lparr>os_object_table = (\<lambda>_. OBJ_DEFAULT_VAL), mem = (\<lambda>_. 0)\<rparr>"

theorem os_obj_no_overlap_witness:
  "\<exists>used s2. pool_trace (os_obj_allocate OBJ_TIMER_CLASS) (os_obj_free OBJ_TIMER_CLASS) [Alloc, Alloc, Free 1008, Alloc]
       [] (snd (os_obj_initialize OBJ_TIMER_CLASS 1000 26 6 fresh_objs)) = Some (used, s2) \<and>
     distinct used \<and> (\<forall>p\<in>set used. 1000 \<le> p \<and> p + 6 \<le> 1026)"
proof -
  let ?s1 = "snd (os_obj_initialize OBJ_TIMER_CLASS 1000 26 6 fresh_objs)"
  have r: "roundup_size 6 4 = 8" by (simp add: roundup_size_def wrap32_def)
  have l: "link_objects 3 1000 8 0 (\<lambda>_. 0) = (1016, (\<lambda>_. 0)(1000 := 0, 1008 := 1000, 1016 := 1008))" by (simp add: numeral_3_eq_3)
  have i: "os_obj_initialize OBJ_TIMER_CLASS 1000 26 6 fresh_objs = (0, ?s1)"
    and s1: "?s1 = \<lparr>os_object_table = (\<lambda>_. OBJ_DEFAULT_VAL)(OBJ_TIMER_CLASS := 1016), mem = (\<lambda>_. 0)(1000 := 0, 1008 := 1000, 1016 := 1008)\<rparr>"
    using l by (simp_all add: os_obj_initialize_def fresh_objs_def os_obj_ready_def r)
  have v: "pool_valid (os_obj_allocate OBJ_TIMER_CLASS) (os_obj_free OBJ_TIMER_CLASS) [Alloc, Alloc, Free 1008, Alloc] [] ?s1"
    unfolding s1 by (simp add: os_obj_allocate_def os_obj_free_def OBJ_DEFAULT_VAL_def)
  have n: "\<not> os_obj_ready OBJ_TIMER_CLASS fresh_objs" by (simp add: fresh_objs_def os_obj_ready_def)
  have b: "0 < (1000::nat)" "0 < (6::nat)" "6 + 3 < (2 ^ 32 :: nat)" "roundup_size 6 4 \<le> 26" "1000 + 26 < (2 ^ 32 :: nat)"
    by (simp_all add: r)
  have "(1026::nat) = 1000 + 26" by simp
  then show ?thesis using os_obj_no_overlap [OF n b i v] by metis
qed

text \<open>A pool whose objects are all in use can be initialised again: the call reports success, but the buffer it was given is
  not used and the next allocation still fails. A pool with free objects answers \<^verbatim>\<open>EBUSY\<close>.\<close>

lemma os_obj_initialize_exhausted:
  assumes "obj_holds type s xs" "buffer \<noteq> 0" "roundup_size isize 4 \<noteq> 0" "roundup_size isize 4 \<le> sz"
  shows "os_obj_initialize type buffer sz isize s = (if xs = [] then 0 else - EBUSY, s)"
    "xs = [] \<Longrightarrow> os_obj_allocate type (snd (os_obj_initialize type buffer sz isize s)) = Some (0, s)"
proof -
  have r: "os_obj_ready type s" "os_object_table s type = 0 \<longleftrightarrow> xs = []"
    using assms(1) by (cases xs; auto simp: obj_holds_def os_obj_ready_def obj_valid_def OBJ_DEFAULT_VAL_def)+
  show i: "os_obj_initialize type buffer sz isize s = (if xs = [] then 0 else - EBUSY, s)"
    using r assms by (simp add: os_obj_initialize_def Let_def)
  show "xs = [] \<Longrightarrow> os_obj_allocate type (snd (os_obj_initialize type buffer sz isize s)) = Some (0, s)"
    using i r by (simp add: os_obj_allocate_def)
qed

end
