(* ===== verification/Vfs.thy ===== *)
theory Vfs
  imports ObjPool
begin

text \<open>
  \<^verbatim>\<open>basework/os/osapi_fs.c\<close>, the file interface: one registered file system, whose files are objects of the file pool with the
  address of the file system's operations in their first word; and \<^verbatim>\<open>basework/os/zephyr/os_fs_impl.c\<close>, its implementation on
  the Zephyr file system, whose functions are parameters. A failed assertion is \<^const>\<open>None\<close>.
\<close>

section \<open>The interface\<close>

text \<open>The operations of a file system on its own state \<open>'w\<close>, and the memory it provides for file objects.\<close>

record vfs_stat =
  st_size :: nat
  st_blksize :: nat
  st_blocks :: nat

record 'w file_class =
  fc_open :: "(nat \<Rightarrow> string \<Rightarrow> u32 \<Rightarrow> 'w \<Rightarrow> int \<times> 'w) option"
  fc_close :: "(nat \<Rightarrow> 'w \<Rightarrow> int \<times> 'w) option"
  fc_ioctl :: "(nat \<Rightarrow> int \<Rightarrow> 'w \<Rightarrow> int \<times> 'w) option"
  fc_read :: "(nat \<Rightarrow> nat \<Rightarrow> 'w \<Rightarrow> (int \<times> u8 list) \<times> 'w) option"
  fc_write :: "(nat \<Rightarrow> u8 list \<Rightarrow> 'w \<Rightarrow> int \<times> 'w) option"
  fc_flush :: "(nat \<Rightarrow> 'w \<Rightarrow> int \<times> 'w) option"
  fc_lseek :: "(nat \<Rightarrow> int \<Rightarrow> int \<Rightarrow> 'w \<Rightarrow> int \<times> 'w) option"
  fc_getdents :: "(nat \<Rightarrow> nat \<Rightarrow> 'w \<Rightarrow> int \<times> 'w) option"
  fc_truncate :: "(nat \<Rightarrow> int \<Rightarrow> 'w \<Rightarrow> int \<times> 'w) option"
  fc_mkdir :: "(string \<Rightarrow> 'w \<Rightarrow> int \<times> 'w) option"
  fc_unlink :: "(string \<Rightarrow> 'w \<Rightarrow> int \<times> 'w) option"
  fc_stat :: "(string \<Rightarrow> vfs_stat \<Rightarrow> 'w \<Rightarrow> (int \<times> vfs_stat) \<times> 'w) option"
  fc_rename :: "(string \<Rightarrow> string \<Rightarrow> 'w \<Rightarrow> int \<times> 'w) option"
  robj_start :: nat
  robj_size :: nat

record 'w vfs =
  vfs_class :: nat
  vobjs :: objs
  world :: 'w

definition CONFIG_OS_MAX_FILES :: nat where
  "CONFIG_OS_MAX_FILES = 10"

text \<open>\<open>cls a\<close> is the file system structure at the address \<open>a\<close>.\<close>

definition f_class :: "(nat \<Rightarrow> 'w file_class option) \<Rightarrow> nat \<Rightarrow> 'w vfs \<Rightarrow> 'w file_class option" where
  "f_class cls fd s = (if fd = 0 then None else cls (mem (vobjs s) fd))"

definition vfs_open :: "(nat \<Rightarrow> 'w file_class option) \<Rightarrow> bool \<Rightarrow> string option \<Rightarrow> u32 \<Rightarrow> 'w vfs \<Rightarrow> (int \<times> nat option \<times> 'w vfs) option" where
  "vfs_open cls fd path flags s =
     (case path of
        None \<Rightarrow> Some (- EINVAL, None, s)
      | Some pth \<Rightarrow>
          if \<not> fd then Some (- EINVAL, None, s)
          else if vfs_class s = 0 then Some (- EINVAL, None, s)
          else do {
            f \<leftarrow> cls (vfs_class s);
            let (err, ob) = (if \<not> os_obj_ready OBJ_FILE_CLASS (vobjs s)
                             then os_obj_initialize OBJ_FILE_CLASS (robj_start f) (robj_size f) (robj_size f div CONFIG_OS_MAX_FILES) (vobjs s)
                             else (0, vobjs s));
            let s = s\<lparr>vobjs := ob\<rparr>;
            if err \<noteq> 0 then Some (err, None, s) else do {
              (fp, ob) \<leftarrow> os_obj_allocate OBJ_FILE_CLASS (vobjs s);
              if fp = 0 then None else do {
                let s = s\<lparr>vobjs := ob\<lparr>mem := (mem ob)(fp := vfs_class s)\<rparr>\<rparr>;
                c \<leftarrow> f_class cls fp s;
                opn \<leftarrow> fc_open c;
                let (err, w) = opn fp pth flags (world s);
                let s = s\<lparr>world := w\<rparr>;
                if err \<noteq> 0 then do { ob \<leftarrow> os_obj_free OBJ_FILE_CLASS fp (vobjs s); Some (err, None, s\<lparr>vobjs := ob\<rparr>) }
                else Some (0, Some fp, s) } } })"

definition vfs_close :: "(nat \<Rightarrow> 'w file_class option) \<Rightarrow> nat \<Rightarrow> 'w vfs \<Rightarrow> (int \<times> 'w vfs) option" where
  "vfs_close cls fd s =
     do { c \<leftarrow> f_class cls fd s; cl \<leftarrow> fc_close c;
          let (err, w) = cl fd (world s);
          let s = s\<lparr>world := w\<rparr>;
          if err \<noteq> 0 then Some (err, s)
          else do { ob \<leftarrow> os_obj_free OBJ_FILE_CLASS fd (vobjs s); Some (0, s\<lparr>vobjs := ob\<rparr>) } }"

definition with_world :: "'a \<times> 'w \<Rightarrow> 'w vfs \<Rightarrow> 'a \<times> 'w vfs" where
  "with_world r s = (fst r, s\<lparr>world := snd r\<rparr>)"

definition vfs_ioctl :: "(nat \<Rightarrow> 'w file_class option) \<Rightarrow> nat \<Rightarrow> int \<Rightarrow> 'w vfs \<Rightarrow> (int \<times> 'w vfs) option" where
  "vfs_ioctl cls fd cmd s = do { c \<leftarrow> f_class cls fd s; f \<leftarrow> fc_ioctl c; Some (with_world (f fd cmd (world s)) s) }"

text \<open>A read into a buffer (none when the pointer is null) of \<open>len\<close> bytes delivers the bytes the file system wrote.\<close>

definition vfs_read :: "(nat \<Rightarrow> 'w file_class option) \<Rightarrow> nat \<Rightarrow> bool \<Rightarrow> nat \<Rightarrow> 'w vfs \<Rightarrow> ((int \<times> u8 list) \<times> 'w vfs) option" where
  "vfs_read cls fd buf len s =
     do { c \<leftarrow> f_class cls fd s; f \<leftarrow> fc_read c;
          if \<not> buf then Some ((- EINVAL, []), s)
          else if len = 0 then Some ((0, []), s)
          else Some (with_world (f fd len (world s)) s) }"

definition vfs_write :: "(nat \<Rightarrow> 'w file_class option) \<Rightarrow> nat \<Rightarrow> u8 list option \<Rightarrow> 'w vfs \<Rightarrow> (int \<times> 'w vfs) option" where
  "vfs_write cls fd buf s =
     (if fd = 0 then None
      else case buf of
        None \<Rightarrow> Some (- EINVAL, s)
      | Some b \<Rightarrow>
          if length b = 0 then Some (0, s)
          else do { c \<leftarrow> f_class cls fd s; f \<leftarrow> fc_write c; Some (with_world (f fd b (world s)) s) })"

definition vfs_flush :: "(nat \<Rightarrow> 'w file_class option) \<Rightarrow> nat \<Rightarrow> 'w vfs \<Rightarrow> (int \<times> 'w vfs) option" where
  "vfs_flush cls fd s = do { c \<leftarrow> f_class cls fd s; f \<leftarrow> fc_flush c; Some (with_world (f fd (world s)) s) }"

definition vfs_lseek :: "(nat \<Rightarrow> 'w file_class option) \<Rightarrow> nat \<Rightarrow> int \<Rightarrow> int \<Rightarrow> 'w vfs \<Rightarrow> (int \<times> 'w vfs) option" where
  "vfs_lseek cls fd ofs whence s = do { c \<leftarrow> f_class cls fd s; f \<leftarrow> fc_lseek c; Some (with_world (f fd ofs whence (world s)) s) }"

definition vfs_getdents :: "(nat \<Rightarrow> 'w file_class option) \<Rightarrow> nat \<Rightarrow> bool \<Rightarrow> nat \<Rightarrow> 'w vfs \<Rightarrow> (int \<times> 'w vfs) option" where
  "vfs_getdents cls fd dirp nbytes s =
     (if fd = 0 then None
      else if \<not> dirp then Some (- EINVAL, s)
      else do { c \<leftarrow> f_class cls fd s; f \<leftarrow> fc_getdents c; Some (with_world (f fd nbytes (world s)) s) })"

definition vfs_ftruncate :: "(nat \<Rightarrow> 'w file_class option) \<Rightarrow> nat \<Rightarrow> int \<Rightarrow> 'w vfs \<Rightarrow> (int \<times> 'w vfs) option" where
  "vfs_ftruncate cls fd len s = do { c \<leftarrow> f_class cls fd s; f \<leftarrow> fc_truncate c; Some (with_world (f fd len (world s)) s) }"

definition vfs_rename :: "(nat \<Rightarrow> 'w file_class option) \<Rightarrow> string option \<Rightarrow> string option \<Rightarrow> 'w vfs \<Rightarrow> (int \<times> 'w vfs) option" where
  "vfs_rename cls oldpath newpath s =
     (case (oldpath, newpath) of
        (Some a, Some b) \<Rightarrow>
          if vfs_class s = 0 then None
          else do { c \<leftarrow> cls (vfs_class s); f \<leftarrow> fc_rename c; Some (with_world (f a b (world s)) s) }
      | _ \<Rightarrow> Some (- EINVAL, s))"

definition vfs_unlink :: "(nat \<Rightarrow> 'w file_class option) \<Rightarrow> string option \<Rightarrow> 'w vfs \<Rightarrow> (int \<times> 'w vfs) option" where
  "vfs_unlink cls path s =
     (case path of
        None \<Rightarrow> Some (- EINVAL, s)
      | Some a \<Rightarrow>
          if vfs_class s = 0 then None
          else do { c \<leftarrow> cls (vfs_class s); f \<leftarrow> fc_unlink c; Some (with_world (f a (world s)) s) })"

definition vfs_stat_op :: "(nat \<Rightarrow> 'w file_class option) \<Rightarrow> string option \<Rightarrow> vfs_stat \<Rightarrow> 'w vfs \<Rightarrow> ((int \<times> vfs_stat) \<times> 'w vfs) option" where
  "vfs_stat_op cls path buf s =
     (case path of
        None \<Rightarrow> Some ((- EINVAL, buf), s)
      | Some a \<Rightarrow>
          if vfs_class s = 0 then None
          else do { c \<leftarrow> cls (vfs_class s); f \<leftarrow> fc_stat c; Some (with_world (f a buf (world s)) s) })"

definition vfs_register :: "nat \<Rightarrow> 'w vfs \<Rightarrow> int \<times> 'w vfs" where
  "vfs_register fs s =
     (if fs = 0 then (- EINVAL, s)
      else if vfs_class s \<noteq> 0 then (- EBUSY, s)
      else (0, s\<lparr>vfs_class := fs\<rparr>))"

section \<open>Zephyr\<close>

text \<open>The functions and open flags of the Zephyr file system; a file is named by the object it is embedded in.\<close>

datatype zflag = FS_O_READ | FS_O_WRITE | FS_O_RDWR | FS_O_APPEND | FS_O_CREATE

record 'z zephyr_fs =
  fs_file_t_init :: "nat \<Rightarrow> 'z \<Rightarrow> 'z"
  fs_open :: "nat \<Rightarrow> string \<Rightarrow> zflag set \<Rightarrow> 'z \<Rightarrow> int \<times> 'z"
  fs_close :: "nat \<Rightarrow> 'z \<Rightarrow> int \<times> 'z"
  fs_read :: "nat \<Rightarrow> nat \<Rightarrow> 'z \<Rightarrow> (int \<times> u8 list) \<times> 'z"
  fs_write :: "nat \<Rightarrow> u8 list \<Rightarrow> 'z \<Rightarrow> int \<times> 'z"
  fs_sync :: "nat \<Rightarrow> 'z \<Rightarrow> int \<times> 'z"
  fs_seek :: "nat \<Rightarrow> int \<Rightarrow> int \<Rightarrow> 'z \<Rightarrow> int \<times> 'z"
  fs_truncate :: "nat \<Rightarrow> int \<Rightarrow> 'z \<Rightarrow> int \<times> 'z"
  fs_rename :: "string \<Rightarrow> string \<Rightarrow> 'z \<Rightarrow> int \<times> 'z"
  fs_unlink :: "string \<Rightarrow> 'z \<Rightarrow> int \<times> 'z"
  fs_mkdir :: "string \<Rightarrow> 'z \<Rightarrow> int \<times> 'z"
  fs_stat :: "string \<Rightarrow> 'z \<Rightarrow> (int \<times> nat) \<times> 'z"

definition VFS_O_RDONLY :: u32 where "VFS_O_RDONLY = 0"
definition VFS_O_WRONLY :: u32 where "VFS_O_WRONLY = 1"
definition VFS_O_RDWR :: u32 where "VFS_O_RDWR = 2"
definition VFS_O_MASK :: u32 where "VFS_O_MASK = 3"
definition VFS_O_CREAT :: u32 where "VFS_O_CREAT = 0x200"
definition VFS_O_APPEND :: u32 where "VFS_O_APPEND = 8"

definition zephyr_fs_open :: "'z zephyr_fs \<Rightarrow> nat \<Rightarrow> string \<Rightarrow> u32 \<Rightarrow> 'z \<Rightarrow> int \<times> 'z" where
  "zephyr_fs_open z fp path flags w =
     (let orw = flags AND VFS_O_MASK;
          ff = (if orw = VFS_O_RDONLY then Some {FS_O_READ}
                else if orw = VFS_O_WRONLY then Some {FS_O_WRITE}
                else if orw = VFS_O_RDWR then Some {FS_O_RDWR} else None)
      in case ff of
           None \<Rightarrow> (- EINVAL, w)
         | Some ff \<Rightarrow>
             let ff = (if orw AND VFS_O_APPEND \<noteq> 0 then insert FS_O_APPEND ff else ff);
                 ff = (if orw AND VFS_O_CREAT \<noteq> 0 then insert FS_O_CREATE ff else ff)
             in fs_open z fp path ff (fs_file_t_init z fp w))"

definition ENOSYS :: int where
  "ENOSYS = 38"

definition zephyr_fs_ioctl :: "nat \<Rightarrow> int \<Rightarrow> 'z \<Rightarrow> int \<times> 'z" where
  "zephyr_fs_ioctl fd cmd w = (- ENOSYS, w)"

definition zephyr_fs_stat :: "'z zephyr_fs \<Rightarrow> string \<Rightarrow> vfs_stat \<Rightarrow> 'z \<Rightarrow> (int \<times> vfs_stat) \<times> 'z" where
  "zephyr_fs_stat z path buf w =
     (case fs_stat z path w of ((err, sz), w) \<Rightarrow>
        if err = 0 then ((err, \<lparr>st_size = sz, st_blksize = 0, st_blocks = 0\<rparr>), w) else ((err, buf), w))"

text \<open>The structure of operations; \<open>os_files\<close> is the array of ten objects of \<open>k\<close> bytes. There is no \<^verbatim>\<open>getdents\<close>.\<close>

definition zephyr_file_class :: "nat \<Rightarrow> nat \<Rightarrow> 'z zephyr_fs \<Rightarrow> 'z file_class" where
  "zephyr_file_class os_files k z =
     \<lparr>fc_open = Some (zephyr_fs_open z), fc_close = Some (fs_close z), fc_ioctl = Some zephyr_fs_ioctl, fc_read = Some (fs_read z),
      fc_write = Some (fs_write z), fc_flush = Some (fs_sync z), fc_lseek = Some (fs_seek z), fc_getdents = None,
      fc_truncate = Some (fs_truncate z), fc_mkdir = Some (fs_mkdir z), fc_unlink = Some (fs_unlink z),
      fc_stat = Some (zephyr_fs_stat z), fc_rename = Some (fs_rename z), robj_start = os_files, robj_size = CONFIG_OS_MAX_FILES * k\<rparr>"

section \<open>Files in use\<close>

lemma pool_inv_write:
  assumes "fp.pool_inv type all used ob" "p \<in> set used"
  shows "fp.pool_inv type all used (ob\<lparr>mem := (mem ob)(p := v)\<rparr>)"
proof -
  obtain xs where "obj_holds type ob xs" "distinct (used @ xs)" "set (used @ xs) = set all" "\<forall>x\<in>set all. obj_valid x"
    using assms(1) unfolding fp.pool_inv_def by blast
  moreover then have "p \<notin> set xs" using assms(2) by auto
  ultimately show ?thesis unfolding fp.pool_inv_def by (auto simp: obj_holds_def intro!: exI [of _ xs])
qed

text \<open>The pool of files \<open>all\<close>, the open files \<open>hs\<close>, and the file system \<open>f\<close> at the address \<open>a\<close>.\<close>

definition vfs_inv :: "(nat \<Rightarrow> 'w file_class option) \<Rightarrow> nat \<Rightarrow> 'w file_class \<Rightarrow> nat list \<Rightarrow> nat list \<Rightarrow> 'w vfs \<Rightarrow> bool" where
  "vfs_inv cls a f all hs s \<longleftrightarrow> vfs_class s = a \<and> a \<noteq> 0 \<and> cls a = Some f \<and> fc_open f \<noteq> None \<and> fc_close f \<noteq> None \<and>
     os_obj_ready OBJ_FILE_CLASS (vobjs s) \<and> fp.pool_inv OBJ_FILE_CLASS all hs (vobjs s) \<and> (\<forall>h\<in>set hs. mem (vobjs s) h = a)"

lemma pool_inv_ready: "fp.pool_inv type all used ob \<Longrightarrow> os_obj_ready type ob"
  unfolding fp.pool_inv_def obj_holds_def os_obj_ready_def
  by (elim conjE exE) (rename_tac xs; case_tac xs; auto simp: obj_valid_def OBJ_DEFAULT_VAL_def)

lemma alloc_mem: "os_obj_allocate type ob = Some (p, ob') \<Longrightarrow> mem ob' = mem ob"
  by (auto simp: os_obj_allocate_def Let_def split: if_splits)

lemma vfs_open_ok:
  assumes inv: "vfs_inv cls a f all hs s" and room: "set hs \<noteq> set all"
  shows "\<exists>err fd s'. vfs_open cls True (Some path) flags s = Some (err, fd, s') \<and>
     (case fd of Some h \<Rightarrow> err = 0 \<and> h \<in> set all - set hs \<and> vfs_inv cls a f all (h # hs) s' | None \<Rightarrow> err \<noteq> 0 \<and> vfs_inv cls a f all hs s')"
proof -
  note i = inv [unfolded vfs_inv_def]
  obtain opn where opn: "fc_open f = Some opn" using i by auto
  obtain h ob where h: "os_obj_allocate OBJ_FILE_CLASS (vobjs s) = Some (h, ob)" "h \<in> set all - set hs" "h \<noteq> 0"
    "fp.pool_inv OBJ_FILE_CLASS all (h # hs) ob"
    using fp.pool_alloc [of OBJ_FILE_CLASS all hs "vobjs s"] i room by auto
  define ob1 where "ob1 = ob\<lparr>mem := (mem ob)(h := a)\<rparr>"
  have p1: "fp.pool_inv OBJ_FILE_CLASS all (h # hs) ob1" unfolding ob1_def by (rule pool_inv_write [OF h(4)]) simp
  obtain ob2 where ob2: "os_obj_free OBJ_FILE_CLASS h ob1 = Some ob2" "fp.pool_inv OBJ_FILE_CLASS all hs ob2"
    using fp.pool_free [OF p1, of h] by auto
  have m: "\<forall>g\<in>set hs. mem ob1 g = a" "mem ob1 h = a" using i alloc_mem [OF h(1)] by (auto simp: ob1_def)
  have m2: "\<forall>g\<in>set hs. mem ob2 g = a" using ob2(1) m(1) h(2) by (auto simp: os_obj_free_def split: if_splits)
  obtain err w where o: "opn h path flags (world s) = (err, w)" by fastforce
  have "vfs_open cls True (Some path) flags s =
      (if err \<noteq> 0 then Some (err, None, s\<lparr>vobjs := ob2, world := w\<rparr>) else Some (0, Some h, s\<lparr>vobjs := ob1, world := w\<rparr>))"
    using i h opn o ob2(1) by (simp add: vfs_open_def Let_def f_class_def ob1_def)
  moreover have "vfs_inv cls a f all hs (s\<lparr>vobjs := ob2, world := w\<rparr>)"
    using i ob2(2) m2 pool_inv_ready [OF ob2(2)] by (simp add: vfs_inv_def)
  moreover have "vfs_inv cls a f all (h # hs) (s\<lparr>vobjs := ob1, world := w\<rparr>)"
    using i p1 m pool_inv_ready [OF p1] by (simp add: vfs_inv_def)
  ultimately show ?thesis using h(2) by (cases "err = 0") auto
qed

lemma vfs_close_ok:
  assumes inv: "vfs_inv cls a f all hs s" and h: "h \<in> set hs"
  shows "\<exists>err s'. vfs_close cls h s = Some (err, s') \<and> vfs_inv cls a f all (if err = 0 then remove1 h hs else hs) s'"
proof -
  note i = inv [unfolded vfs_inv_def]
  obtain cl where cl: "fc_close f = Some cl" using i by auto
  have h0: "h \<noteq> 0" using i h fp.pool_inv_used fp.valid_nonzero unfolding fp.pool_inv_def by (metis Un_iff set_append)
  obtain ob where ob: "os_obj_free OBJ_FILE_CLASS h (vobjs s) = Some ob" "fp.pool_inv OBJ_FILE_CLASS all (remove1 h hs) ob"
    using fp.pool_free [of OBJ_FILE_CLASS all hs "vobjs s" h] i h by auto
  have "distinct hs" using i fp.pool_inv_used by blast
  then have m: "\<forall>g\<in>set (remove1 h hs). mem ob g = a" using i ob(1) by (auto simp: os_obj_free_def split: if_splits)
  obtain err w where c: "cl h (world s) = (err, w)" by fastforce
  have "vfs_close cls h s = (if err \<noteq> 0 then Some (err, s\<lparr>world := w\<rparr>) else Some (0, s\<lparr>world := w, vobjs := ob\<rparr>))"
    using i h h0 cl c ob(1) by (simp add: vfs_close_def f_class_def)
  then show ?thesis using i m ob(2) pool_inv_ready [OF ob(2)] by (cases "err = 0") (auto simp: vfs_inv_def)
qed

text \<open>A program that opens and closes files; \<open>hs\<close> are the files it has open.\<close>

datatype vfs_cmd = Open string u32 | Close nat

fun vfs_run :: "(nat \<Rightarrow> 'w file_class option) \<Rightarrow> vfs_cmd list \<Rightarrow> nat list \<Rightarrow> 'w vfs \<Rightarrow> (nat list \<times> 'w vfs) option" where
  "vfs_run cls [] hs s = Some (hs, s)"
| "vfs_run cls (Open path flags # cs) hs s =
     do { (err, fd, s) \<leftarrow> vfs_open cls True (Some path) flags s;
          vfs_run cls cs (case fd of Some h \<Rightarrow> h # hs | None \<Rightarrow> hs) s }"
| "vfs_run cls (Close h # cs) hs s =
     do { (err, s) \<leftarrow> vfs_close cls h s; vfs_run cls cs (if err = 0 then remove1 h hs else hs) s }"

text \<open>It opens a file only while fewer than the maximum are open, and closes only files it has open.\<close>

fun vfs_disciplined :: "(nat \<Rightarrow> 'w file_class option) \<Rightarrow> vfs_cmd list \<Rightarrow> nat list \<Rightarrow> 'w vfs \<Rightarrow> bool" where
  "vfs_disciplined cls [] hs s = True"
| "vfs_disciplined cls (Open path flags # cs) hs s =
     (length hs < CONFIG_OS_MAX_FILES \<and>
      (case vfs_open cls True (Some path) flags s of
         Some (err, fd, s) \<Rightarrow> vfs_disciplined cls cs (case fd of Some h \<Rightarrow> h # hs | None \<Rightarrow> hs) s | None \<Rightarrow> True))"
| "vfs_disciplined cls (Close h # cs) hs s =
     (h \<in> set hs \<and> (case vfs_close cls h s of Some (err, s) \<Rightarrow> vfs_disciplined cls cs (if err = 0 then remove1 h hs else hs) s | None \<Rightarrow> True))"

lemma vfs_run_inv:
  assumes "vfs_inv cls a f all hs s" "vfs_disciplined cls cs hs s" "distinct all" "length all = CONFIG_OS_MAX_FILES"
  shows "\<exists>hs' s'. vfs_run cls cs hs s = Some (hs', s') \<and> vfs_inv cls a f all hs' s'"
  using assms(1,2)
proof (induction cs arbitrary: hs s)
  case Nil
  then show ?case by simp
next
  case (Cons c cs)
  show ?case
  proof (cases c)
    case (Open path flags)
    have "distinct hs" using Cons.prems(1) fp.pool_inv_used unfolding vfs_inv_def by blast
    then have "set hs \<noteq> set all" using Cons.prems(2) Open assms(3,4) by (auto dest: arg_cong [where f = card] simp: distinct_card)
    then obtain err fd s' where "vfs_open cls True (Some path) flags s = Some (err, fd, s')"
      "vfs_inv cls a f all (case fd of Some h \<Rightarrow> h # hs | None \<Rightarrow> hs) s'"
    proof -
      obtain err fd s' where o: "vfs_open cls True (Some path) flags s = Some (err, fd, s')"
        "case fd of Some h \<Rightarrow> err = 0 \<and> h \<in> set all - set hs \<and> vfs_inv cls a f all (h # hs) s' | None \<Rightarrow> err \<noteq> 0 \<and> vfs_inv cls a f all hs s'"
        using vfs_open_ok [OF Cons.prems(1)] \<open>set hs \<noteq> set all\<close> by blast
      then show ?thesis using that [OF o(1)] by (cases fd) auto
    qed
    then show ?thesis using Cons.IH Cons.prems(2) Open by simp
  next
    case (Close h)
    then obtain err s' where "vfs_close cls h s = Some (err, s')" "vfs_inv cls a f all (if err = 0 then remove1 h hs else hs) s'"
      using vfs_close_ok [OF Cons.prems(1), of h] Cons.prems(2) by auto
    then show ?thesis using Cons.IH Cons.prems(2) Close by simp
  qed
qed

text \<open>The first open sets the pool up.\<close>

lemma vfs_open_first:
  assumes "\<not> os_obj_ready OBJ_FILE_CLASS (vobjs s)" "cls (vfs_class s) = Some f" "vfs_class s \<noteq> 0"
    "os_obj_initialize OBJ_FILE_CLASS (robj_start f) (robj_size f) (robj_size f div CONFIG_OS_MAX_FILES) (vobjs s) = (0, ob)"
    "os_obj_ready OBJ_FILE_CLASS ob"
  shows "vfs_open cls True (Some path) flags s = vfs_open cls True (Some path) flags (s\<lparr>vobjs := ob\<rparr>)"
  using assms by (simp add: vfs_open_def)

lemma vfs_run_first:
  assumes "\<not> os_obj_ready OBJ_FILE_CLASS (vobjs s)" "cls (vfs_class s) = Some f" "vfs_class s \<noteq> 0"
    "os_obj_initialize OBJ_FILE_CLASS (robj_start f) (robj_size f) (robj_size f div CONFIG_OS_MAX_FILES) (vobjs s) = (0, ob)"
    "os_obj_ready OBJ_FILE_CLASS ob" "cs \<noteq> []" "vfs_disciplined cls cs [] s"
  shows "vfs_run cls cs [] s = vfs_run cls cs [] (s\<lparr>vobjs := ob\<rparr>)" "vfs_disciplined cls cs [] (s\<lparr>vobjs := ob\<rparr>)"
proof -
  obtain path flags cs' where "cs = Open path flags # cs'" using assms(6,7) by (cases cs; cases "hd cs") auto
  then show "vfs_run cls cs [] s = vfs_run cls cs [] (s\<lparr>vobjs := ob\<rparr>)" "vfs_disciplined cls cs [] (s\<lparr>vobjs := ob\<rparr>)"
    using assms(7) vfs_open_first [where cls = cls and s = s and f = f and ob = ob, OF assms(1-5)] by simp_all
qed

text \<open>C23. Files in use. After registration of a file system that provides memory for the maximal number of files, any
  sequence of opens, while fewer than the maximum are open, and closes of open files returns without a failed assertion
  or invalid access, whatever errors the file system reports; the handles of open files are distinct objects inside that
  memory, do not overlap, and each leads to the operations of the file system.\<close>

theorem vfs_handles_distinct:
  assumes reg: "a \<noteq> 0" "vfs_class s0 = 0" "vfs_register a s0 = (err, s)" "\<not> os_obj_ready OBJ_FILE_CLASS (vobjs s0)"
    and f: "cls a = Some f" "fc_open f \<noteq> None" "fc_close f \<noteq> None" "robj_size f = CONFIG_OS_MAX_FILES * k" "k mod 4 = 0"
      "0 < k" "0 < robj_start f" "robj_start f + robj_size f < 2 ^ 32"
    and cs: "vfs_disciplined cls cs [] s"
  shows "err = 0 \<and> (\<exists>hs s'. vfs_run cls cs [] s = Some (hs, s') \<and> distinct hs \<and>
     (\<forall>h\<in>set hs. f_class cls h s' = Some f \<and> robj_start f \<le> h \<and> h + k \<le> robj_start f + robj_size f) \<and>
     (\<forall>g\<in>set hs. \<forall>h\<in>set hs. g < h \<longrightarrow> g + k \<le> h))"
proof (cases "cs = []")
  case True
  then show ?thesis using reg by (simp add: vfs_register_def)
next
  case False
  define all where "all = slots (robj_start f) k CONFIG_OS_MAX_FILES"
  have s: "err = 0" "s = s0\<lparr>vfs_class := a\<rparr>" using reg by (simp_all add: vfs_register_def)
  have k: "roundup_size k 4 = k"
  proof -
    obtain m where m: "k = 4 * m" using f(5) by auto
    moreover have "(4 * m + 3) div 4 = m" by presburger
    ultimately show ?thesis using f(4,8) by (simp add: roundup_size_def wrap32_def CONFIG_OS_MAX_FILES_def)
  qed
  have dv: "robj_size f div CONFIG_OS_MAX_FILES = k" "robj_size f div k = CONFIG_OS_MAX_FILES" "k \<le> robj_size f"
    using f(4,6) by (simp_all add: CONFIG_OS_MAX_FILES_def)
  have nr: "\<not> os_obj_ready OBJ_FILE_CLASS (vobjs s)" using reg(4) s by simp
  obtain ob where i: "os_obj_initialize OBJ_FILE_CLASS (robj_start f) (robj_size f) k (vobjs s) = (0, ob)" "obj_holds OBJ_FILE_CLASS ob (rev all)"
    using os_obj_initialize_holds [OF nr k f(7,6) dv(3) f(8)] unfolding dv(2) all_def by blast
  have all: "distinct all" "length all = CONFIG_OS_MAX_FILES" using slots_distinct [OF f(6)] by (simp_all add: all_def slots_def)
  have pool: "fp.pool_inv OBJ_FILE_CLASS all [] ob" unfolding fp.pool_inv_def
    using i(2) all(1) by (auto simp: obj_holds_def intro!: exI [of _ "rev all"])
  note rdy = pool_inv_ready [OF pool]
  have inv: "vfs_inv cls a f all [] (s\<lparr>vobjs := ob\<rparr>)" using pool rdy reg f s by (simp add: vfs_inv_def)
  have c: "cls (vfs_class s) = Some f" "vfs_class s \<noteq> 0" using f(1) reg(1) s by simp_all
  note first = vfs_run_first [where cls = cls and s = s and f = f and ob = ob, OF nr c i(1) [folded dv(1)] rdy False cs]
  obtain hs s' where r: "vfs_run cls cs [] s = Some (hs, s')" "vfs_inv cls a f all hs s'"
    using vfs_run_inv [OF inv first(2) all] first(1) by auto
  have hs: "distinct hs" "set hs \<subseteq> set all" "\<forall>h\<in>set hs. h \<noteq> 0 \<and> mem (vobjs s') h = a"
    using r(2) fp.pool_inv_used fp.valid_nonzero unfolding vfs_inv_def fp.pool_inv_def by (blast, blast, metis Un_iff set_append)
  have "\<forall>h\<in>set hs. f_class cls h s' = Some f" using hs(3) f(1) by (simp add: f_class_def)
  moreover have "\<forall>h\<in>set hs. robj_start f \<le> h \<and> h + k \<le> robj_start f + robj_size f"
    using hs(2) slots_inside [of _ "robj_start f" k CONFIG_OS_MAX_FILES] unfolding f(4) all_def by blast
  moreover have "\<forall>g\<in>set hs. \<forall>h\<in>set hs. g < h \<longrightarrow> g + k \<le> h" using hs(2) slots_apart unfolding all_def by blast
  ultimately show ?thesis using s(1) r(1) hs(1) by blast
qed

definition demo_zfs :: "nat zephyr_fs" where
  "demo_zfs = \<lparr>fs_file_t_init = (\<lambda>_ w. w), fs_open = (\<lambda>_ _ _ w. (if w = 2 then - EIO else 0, w + 1)), fs_close = (\<lambda>_ w. (0, w)),
     fs_read = (\<lambda>_ _ w. ((0, []), w)), fs_write = (\<lambda>_ b w. (int (length b), w)), fs_sync = (\<lambda>_ w. (0, w)),
     fs_seek = (\<lambda>_ _ _ w. (0, w)), fs_truncate = (\<lambda>_ _ w. (0, w)), fs_rename = (\<lambda>_ _ w. (0, w)),
     fs_unlink = (\<lambda>_ w. (0, w)), fs_mkdir = (\<lambda>_ w. (0, w)), fs_stat = (\<lambda>_ w. ((0, 0), w))\<rparr>"

theorem vfs_handles_distinct_witness:
  "\<exists>hs s'. vfs_run [500 \<mapsto> zephyr_file_class 1000 8 demo_zfs] [Open ''a'' 0, Open ''b'' 1, Open ''c'' 2] []
       \<lparr>vfs_class = 500, vobjs = fresh_objs, world = 0\<rparr> = Some (hs, s') \<and> distinct hs \<and> (\<forall>h\<in>set hs. 1000 \<le> h \<and> h + 8 \<le> 1080)"
proof -
  let ?c = "[500 \<mapsto> zephyr_file_class 1000 8 demo_zfs] :: nat \<Rightarrow> nat file_class option"
  let ?s = "\<lparr>vfs_class = 500, vobjs = fresh_objs, world = 0\<rparr> :: nat vfs"
  let ?f = "zephyr_file_class 1000 8 demo_zfs"
  have r: "vfs_register 500 (?s\<lparr>vfs_class := 0\<rparr>) = (0, ?s)" by (simp add: vfs_register_def)
  have n: "\<not> os_obj_ready OBJ_FILE_CLASS (vobjs (?s\<lparr>vfs_class := 0\<rparr>))" by (simp add: fresh_objs_def os_obj_ready_def)
  have d: "vfs_disciplined ?c [Open ''a'' 0, Open ''b'' 1, Open ''c'' 2] [] ?s"
    by (auto simp: CONFIG_OS_MAX_FILES_def split: option.splits)
  have f: "?c 500 = Some ?f" "fc_open ?f \<noteq> None" "fc_close ?f \<noteq> None" "robj_size ?f = CONFIG_OS_MAX_FILES * 8" "robj_start ?f = 1000"
    by (simp_all add: zephyr_file_class_def)
  have b: "robj_start ?f + robj_size ?f < 2 ^ 32" "0 < robj_start ?f" "(1080::nat) = 1000 + CONFIG_OS_MAX_FILES * 8"
    by (simp_all add: f CONFIG_OS_MAX_FILES_def)
  have c: "(500::nat) \<noteq> 0" "vfs_class (?s\<lparr>vfs_class := 0\<rparr>) = 0" "8 mod 4 = (0::nat)" "0 < (8::nat)" by simp_all
  show ?thesis using vfs_handles_distinct [OF c(1,2) r n f(1-4) c(3,4) b(2,1) d] unfolding f b(3) by blast
qed

text \<open>On Zephyr the flags to create and to append are lost: the mode bits are masked out of the flags before they are
  tested, so the file system is never asked to create a file or to append to one.\<close>

theorem zephyr_open_drops_flags:
  "\<exists>ff \<in> {{FS_O_READ}, {FS_O_WRITE}, {FS_O_RDWR}}.
     zephyr_fs_open z fp path flags w = (if flags AND VFS_O_MASK = 3 then (- EINVAL, w) else fs_open z fp path ff (fs_file_t_init z fp w))"
proof -
  have m: "(flags AND 3) AND 8 = 0" "(flags AND 3) AND 0x200 = (0 :: u32)" by (simp_all add: and.assoc)
  have "unat (flags AND mask 2) < 4" by (simp add: unat_and_mask)
  moreover have "(mask 2 :: u32) = 3" by (simp add: mask_eq_exp_minus_1)
  ultimately have "unat (flags AND 3) < 4" by simp
  then have "unat (flags AND 3) \<in> {0, 1, 2, 3}" by auto
  then have "flags AND 3 \<in> {0, 1, 2, 3}" by (auto simp: word_unat_eq_iff)
  then show ?thesis using m
    by (auto simp: zephyr_fs_open_def VFS_O_MASK_def VFS_O_RDONLY_def VFS_O_WRONLY_def VFS_O_RDWR_def VFS_O_APPEND_def VFS_O_CREAT_def)
qed

end
