(* ===== verification/Tracer.thy ===== *)
theory Tracer
  imports FreeList
begin

text \<open>
  The hash lists of \<^verbatim>\<open>basework/container/list.h\<close>, the hash table of \<^verbatim>\<open>basework/hashtbl.h\<close> and \<^verbatim>\<open>basework/hash.h\<close>, and the memory
  tracer of \<^verbatim>\<open>basework/debug/mb_trace.c\<close>, which records for every allocated address its size and a symbol. A node of the
  tracer is an address; the first word of an unused node links the free list, the same word of a used node links its hash
  list. A pointer to a pointer (\<^verbatim>\<open>pprev\<close>) is a \<open>slot\<close>: the head of a bucket or the link field of a node.
\<close>

section \<open>State\<close>

datatype slot = First nat | Next nat

record tracer =
  hfirst :: "nat \<Rightarrow> nat"
  hnext :: cells
  pprev :: "nat \<Rightarrow> slot option"
  nd_ptr :: "nat \<Rightarrow> u32"
  nd_size :: "nat \<Rightarrow> nat"
  nd_sym :: "nat \<Rightarrow> nat"
  freelist :: nat
  tr_size :: nat

fun rd_slot :: "tracer \<Rightarrow> slot \<Rightarrow> nat" where
  "rd_slot m (First b) = hfirst m b"
| "rd_slot m (Next n) = hnext m n"

fun wr_slot :: "slot \<Rightarrow> nat \<Rightarrow> tracer \<Rightarrow> tracer" where
  "wr_slot (First b) v m = m\<lparr>hfirst := (hfirst m)(b := v)\<rparr>"
| "wr_slot (Next n) v m = m\<lparr>hnext := (hnext m)(n := v)\<rparr>"

section \<open>Hash lists\<close>

definition hlist_unhashed :: "nat \<Rightarrow> tracer \<Rightarrow> bool" where
  "hlist_unhashed n m \<longleftrightarrow> pprev m n = None"

definition INIT_HLIST_NODE :: "nat \<Rightarrow> tracer \<Rightarrow> tracer" where
  "INIT_HLIST_NODE n m = m\<lparr>hnext := (hnext m)(n := 0), pprev := (pprev m)(n := None)\<rparr>"

text \<open>A null \<^verbatim>\<open>pprev\<close> is dereferenced when the node is in no list.\<close>

definition hlist_del_links :: "nat \<Rightarrow> tracer \<Rightarrow> tracer option" where
  "hlist_del_links n m =
     do { let next = hnext m n;
          pp \<leftarrow> pprev m n;
          let m = wr_slot pp next m;
          Some (if next \<noteq> 0 then m\<lparr>pprev := (pprev m)(next := Some pp)\<rparr> else m) }"

definition hlist_del_init :: "nat \<Rightarrow> tracer \<Rightarrow> tracer option" where
  "hlist_del_init n m =
     (if \<not> hlist_unhashed n m then do { m \<leftarrow> hlist_del_links n m; Some (INIT_HLIST_NODE n m) } else Some m)"

definition hlist_add_head :: "nat \<Rightarrow> nat \<Rightarrow> tracer \<Rightarrow> tracer" where
  "hlist_add_head n b m =
     (let first = hfirst m b;
          m = m\<lparr>hnext := (hnext m)(n := first)\<rparr>;
          m = (if first \<noteq> 0 then m\<lparr>pprev := (pprev m)(first := Some (Next n))\<rparr> else m);
          m = m\<lparr>hfirst := (hfirst m)(b := n)\<rparr>
      in m\<lparr>pprev := (pprev m)(n := Some (First b))\<rparr>)"

section \<open>The hash table\<close>

definition GOLDEN_RATIO_32 :: u32 where
  "GOLDEN_RATIO_32 = 0x61C88647"

definition hash_32_generic :: "u32 \<Rightarrow> nat \<Rightarrow> u32" where
  "hash_32_generic val bits = drop_bit (32 - bits) (val * GOLDEN_RATIO_32)"

text \<open>The table of the tracer has \<open>2 ^ 8\<close> buckets; its keys are addresses, of 32 bits.\<close>

definition HASH_BITS :: nat where
  "HASH_BITS = 8"

definition hash_min :: "u32 \<Rightarrow> nat" where
  "hash_min key = unat (hash_32_generic key HASH_BITS)"

definition hash_init :: "tracer \<Rightarrow> tracer" where
  "hash_init m = m\<lparr>hfirst := (\<lambda>b. if b < 2 ^ HASH_BITS then 0 else hfirst m b)\<rparr>"

definition hash_add :: "nat \<Rightarrow> u32 \<Rightarrow> tracer \<Rightarrow> tracer" where
  "hash_add node key m = hlist_add_head node (hash_min key) m"

definition hash_del :: "nat \<Rightarrow> tracer \<Rightarrow> tracer option" where
  "hash_del node m = hlist_del_init node m"

section \<open>The tracer\<close>

definition mb_node_alloc :: "tracer \<Rightarrow> nat \<times> tracer" where
  "mb_node_alloc t =
     (let newnode = freelist t in
      if newnode \<noteq> 0 then (newnode, t\<lparr>freelist := hnext t newnode\<rparr>) else (newnode, t))"

definition mb_node_free :: "nat \<Rightarrow> tracer \<Rightarrow> tracer option" where
  "mb_node_free node t =
     (if node = 0 then None else Some (t\<lparr>hnext := (hnext t)(node := freelist t), freelist := node\<rparr>))"

definition mb_tracer_add :: "u32 \<Rightarrow> nat \<Rightarrow> nat \<Rightarrow> tracer \<Rightarrow> int \<times> tracer" where
  "mb_tracer_add ptr sz symb t =
     (let (newn, t) = mb_node_alloc t in
      if newn \<noteq> 0 then
        (0, hash_add newn ptr (t\<lparr>nd_ptr := (nd_ptr t)(newn := ptr), nd_size := (nd_size t)(newn := sz), nd_sym := (nd_sym t)(newn := symb)\<rparr>))
      else (- ENOMEM, t))"

text \<open>The walk along a hash list; the fuel bounds its steps.\<close>

fun mb_find_del :: "nat \<Rightarrow> u32 \<Rightarrow> nat \<Rightarrow> tracer \<Rightarrow> (int \<times> tracer) option" where
  "mb_find_del 0 ptr pos t = None"
| "mb_find_del (Suc fuel) ptr pos t =
     (if pos = 0 then Some (- ENODATA, t)
      else if nd_ptr t pos = ptr then do { t \<leftarrow> hash_del pos t; t \<leftarrow> mb_node_free pos t; Some (0, t) }
      else mb_find_del fuel ptr (hnext t pos) t)"

definition mb_tracer_del :: "nat \<Rightarrow> u32 \<Rightarrow> tracer \<Rightarrow> (int \<times> tracer) option" where
  "mb_tracer_del fuel ptr t = mb_find_del fuel ptr (hfirst t (hash_min ptr)) t"

text \<open>The visits of \<^verbatim>\<open>hash_for_each\<close>: the nodes the visitor sees, and the node at which it stopped (0 at the end of a list).\<close>

fun visit_bucket :: "nat \<Rightarrow> (nat \<Rightarrow> bool) \<Rightarrow> nat \<Rightarrow> tracer \<Rightarrow> (nat list \<times> nat) option" where
  "visit_bucket 0 visitor pos t = None"
| "visit_bucket (Suc fuel) visitor pos t =
     (if pos = 0 then Some ([], 0)
      else if \<not> visitor pos then Some ([pos], pos)
      else do { (ns, obj) \<leftarrow> visit_bucket fuel visitor (hnext t pos) t; Some (pos # ns, obj) })"

fun visit_buckets :: "nat \<Rightarrow> (nat \<Rightarrow> bool) \<Rightarrow> nat list \<Rightarrow> tracer \<Rightarrow> nat list option" where
  "visit_buckets fuel visitor [] t = Some []"
| "visit_buckets fuel visitor (b # bs) t =
     do { (ns, obj) \<leftarrow> visit_bucket fuel visitor (hfirst t b) t;
          if obj = 0 then do { ms \<leftarrow> visit_buckets fuel visitor bs t; Some (ns @ ms) } else Some ns }"

definition mb_tracer_visit :: "nat \<Rightarrow> (nat \<Rightarrow> bool) option \<Rightarrow> tracer option \<Rightarrow> nat list option" where
  "mb_tracer_visit fuel visitor tracer =
     (case (tracer, visitor) of
        (Some t, Some v) \<Rightarrow> visit_buckets fuel v [0..<2 ^ HASH_BITS] t
      | _ \<Rightarrow> Some [])"

text \<open>Sizes of \<^verbatim>\<open>struct mb_tracer\<close> and \<^verbatim>\<open>struct mb_node\<close>. The allocator is a parameter: the address of a block of the size it is
  asked for, 0 on failure. Linking a node outside the block is an invalid access.\<close>

definition MB_TRACER_SIZE :: nat where
  "MB_TRACER_SIZE = 1040"

definition MB_NODE_SIZE :: nat where
  "MB_NODE_SIZE = 20"

definition mb_tracer_create :: "nat \<Rightarrow> (nat \<Rightarrow> nat) option \<Rightarrow> bool \<Rightarrow> (int \<times> tracer option) option" where
  "mb_tracer_create maxitems alloc mfree =
     (case alloc of
        None \<Rightarrow> Some (- EINVAL, None)
      | Some al \<Rightarrow>
          if maxitems = 0 \<or> \<not> mfree then Some (- EINVAL, None)
          else
            let alloc_size = wrap32 (MB_TRACER_SIZE + wrap32 (MB_NODE_SIZE * maxitems)); a = al alloc_size in
            if a = 0 then Some (- ENOMEM, None)
            else if MB_TRACER_SIZE + MB_NODE_SIZE * maxitems > alloc_size then None
            else
              let (fl, m) = link_objects maxitems (a + MB_TRACER_SIZE) MB_NODE_SIZE 0 (\<lambda>_. 0) in
              Some (0, Some (hash_init \<lparr>hfirst = (\<lambda>_. 0), hnext = m, pprev = (\<lambda>_. None), nd_ptr = (\<lambda>_. 0), nd_size = (\<lambda>_. 0),
                nd_sym = (\<lambda>_. 0), freelist = fl, tr_size = maxitems\<rparr>)))"

section \<open>Lists in the store\<close>

fun hpath :: "tracer \<Rightarrow> slot \<Rightarrow> nat list \<Rightarrow> bool" where
  "hpath m sl [] \<longleftrightarrow> rd_slot m sl = 0"
| "hpath m sl (x # xs) \<longleftrightarrow> rd_slot m sl = x \<and> x \<noteq> 0 \<and> pprev m x = Some sl \<and> hpath m (Next x) xs"

lemma hpath_cong:
  "rd_slot m' sl = rd_slot m sl \<Longrightarrow> (\<And>x. x \<in> set xs \<Longrightarrow> hnext m' x = hnext m x \<and> pprev m' x = pprev m x) \<Longrightarrow> hpath m' sl xs = hpath m sl xs"
  by (induction xs arbitrary: sl) auto

lemma hpath_nonzero: "hpath m sl xs \<Longrightarrow> 0 \<notin> set xs"
  by (induction xs arbitrary: sl) auto

text \<open>What a deletion leaves alone, for a node between \<open>as\<close> and \<open>bs\<close> in the list of the slot \<open>sl\<close>.\<close>

definition del_frame :: "slot \<Rightarrow> nat list \<Rightarrow> nat list \<Rightarrow> tracer \<Rightarrow> tracer \<Rightarrow> bool" where
  "del_frame sl as bs m m' \<longleftrightarrow> (\<forall>x. x \<notin> set as \<and> Next x \<noteq> sl \<longrightarrow> hnext m' x = hnext m x) \<and> (\<forall>c. First c \<noteq> sl \<longrightarrow> hfirst m' c = hfirst m c) \<and>
     (\<forall>x. x \<notin> set bs \<longrightarrow> pprev m' x = pprev m x) \<and> nd_ptr m' = nd_ptr m \<and> nd_size m' = nd_size m \<and> nd_sym m' = nd_sym m \<and>
     freelist m' = freelist m \<and> tr_size m' = tr_size m"

lemma hlist_del_links_path:
  assumes "hpath m sl (as @ n # bs)" "distinct (as @ n # bs)" "\<forall>x\<in>set (as @ n # bs). sl \<noteq> Next x"
  shows "\<exists>m'. hlist_del_links n m = Some m' \<and> hpath m' sl (as @ bs) \<and> del_frame sl as bs m m'"
  using assms
proof (induction as arbitrary: sl)
  case Nil
  then have n: "rd_slot m sl = n" "pprev m n = Some sl" "hpath m (Next n) bs" by auto
  let ?m = "wr_slot sl (hnext m n) m"
  show ?case
  proof (cases bs)
    case Nil
    then show ?thesis using n by (cases sl) (auto simp: hlist_del_links_def del_frame_def)
  next
    case (Cons b cs)
    then have b: "hnext m n = b" "b \<noteq> 0" "hpath m (Next b) cs" using n by auto
    let ?m = "(wr_slot sl b m)\<lparr>pprev := (pprev (wr_slot sl b m))(b := Some sl)\<rparr>"
    have "hpath ?m (Next b) cs = hpath m (Next b) cs"
      using Nil.prems Cons by (cases sl; intro hpath_cong) auto
    moreover have "hlist_del_links n m = Some ?m" using n b by (simp add: hlist_del_links_def Let_def)
    moreover have "rd_slot ?m sl = b" "pprev ?m b = Some sl" by (cases sl; simp)+
    moreover have "del_frame sl [] bs m ?m" using Cons by (cases sl) (auto simp: del_frame_def)
    ultimately show ?thesis using b Cons by auto
  qed
next
  case (Cons a as)
  have "hpath m (Next a) (as @ n # bs)" "distinct (as @ n # bs)" "\<forall>x\<in>set (as @ n # bs). Next a \<noteq> Next x" using Cons.prems by auto
  then obtain m' where m': "hlist_del_links n m = Some m'" "hpath m' (Next a) (as @ bs)" "del_frame (Next a) as bs m m'"
    using Cons.IH by blast
  have "rd_slot m' sl = rd_slot m sl" "pprev m' a = pprev m a"
    using m'(3) Cons.prems by (cases sl; auto simp: del_frame_def)+
  moreover have "del_frame sl (a # as) bs m m'" using m'(3) by (auto simp: del_frame_def)
  ultimately show ?case using m' Cons.prems(1) by auto
qed

lemma hlist_add_head_path:
  assumes "hpath m (First b) xs" "n \<notin> set xs" "n \<noteq> 0"
  shows "hpath (hlist_add_head n b m) (First b) (n # xs)"
proof (cases xs)
  case Nil
  then show ?thesis using assms by (simp add: hlist_add_head_def Let_def)
next
  case (Cons x ys)
  let ?m = "hlist_add_head n b m"
  have x: "hfirst m b = x" "x \<noteq> 0" "hpath m (Next x) ys" using assms(1) Cons by auto
  have f: "hnext ?m = (hnext m)(n := x)" "pprev ?m = (pprev m)(x := Some (Next n), n := Some (First b))" "hfirst ?m = (hfirst m)(b := n)"
    using x by (simp_all add: hlist_add_head_def Let_def)
  have "x \<notin> set ys"
  proof
    assume "x \<in> set ys"
    then obtain us vs where "ys = us @ x # vs" by (meson split_list)
    moreover have "hpath m sl (us @ x # vs) \<Longrightarrow> \<exists>k. pprev m x = Some k \<and> k \<in> insert sl (Next ` set us)" for sl
      by (induction us arbitrary: sl) auto
    ultimately show False using x(3) assms(1) Cons by fastforce
  qed
  then have "hpath ?m (Next x) ys = hpath m (Next x) ys" using f assms Cons by (intro hpath_cong) auto
  then show ?thesis using f x assms Cons by auto
qed

section \<open>The contract of the node pool\<close>

definition mb_holds :: "tracer \<Rightarrow> nat list \<Rightarrow> bool" where
  "mb_holds t xs \<longleftrightarrow> chain (hnext t) (freelist t) xs"

lemma chain_nonzero: "chain m p xs \<Longrightarrow> x \<in> set xs \<Longrightarrow> x \<noteq> 0"
  by (induction xs arbitrary: p) auto

interpretation mbp: object_pool "\<lambda>p. p \<noteq> 0" mb_holds "\<lambda>t. Some (mb_node_alloc t)" mb_node_free
  by unfold_locales (auto simp: mb_holds_def mb_node_alloc_def mb_node_free_def Let_def dest: chain_nonzero)

section \<open>The tracer as a stack of records for every address\<close>

lemma hash_min_less: "hash_min p < 2 ^ HASH_BITS"
proof -
  have "unat (drop_bit 24 x) = unat x div 2 ^ 24" for x :: u32 by (simp add: unat_drop_bit_eq) (simp add: drop_bit_nat_def)
  moreover have "unat x div 2 ^ 24 < 2 ^ 8" for x :: u32 using unsigned_less [of x] by (intro less_mult_imp_div_less) simp
  ultimately show ?thesis by (simp add: hash_min_def hash_32_generic_def HASH_BITS_def)
qed

definition buckets :: "nat set" where
  "buckets = {..<2 ^ HASH_BITS}"

lemma hash_min_bucket [simp]: "hash_min p \<in> buckets"
  using hash_min_less by (simp add: buckets_def)

lemma finite_buckets [simp]: "finite buckets"
  by (simp add: buckets_def)

text \<open>The lists of the buckets \<open>B\<close> and the free nodes \<open>F\<close>.\<close>

definition tinv :: "tracer \<Rightarrow> (nat \<Rightarrow> nat list) \<Rightarrow> nat list \<Rightarrow> bool" where
  "tinv t B F \<longleftrightarrow> mb_holds t F \<and> distinct F \<and>
     (\<forall>b\<in>buckets. hpath t (First b) (B b) \<and> distinct (B b) \<and> set (B b) \<inter> set F = {} \<and> (\<forall>n\<in>set (B b). hash_min (nd_ptr t n) = b)) \<and>
     (\<Sum>b\<in>buckets. length (B b)) + length F = tr_size t"

definition records :: "tracer \<Rightarrow> nat list \<Rightarrow> u32 \<Rightarrow> (nat \<times> nat) list" where
  "records t ns p = map (\<lambda>n. (nd_size t n, nd_sym t n)) (filter (\<lambda>n. nd_ptr t n = p) ns)"

definition refines :: "tracer \<Rightarrow> (u32 \<Rightarrow> (nat \<times> nat) list) \<times> nat \<Rightarrow> bool" where
  "refines t a \<longleftrightarrow> (\<exists>B F. tinv t B F \<and> fst a = (\<lambda>p. records t (B (hash_min p)) p) \<and> snd a = length F)"

lemma tinv_disjoint: "tinv t B F \<Longrightarrow> b \<in> buckets \<Longrightarrow> c \<in> buckets \<Longrightarrow> b \<noteq> c \<Longrightarrow> set (B b) \<inter> set (B c) = {}"
  unfolding tinv_def by (metis disjoint_iff)

lemma sum_bucket_upd:
  "b \<in> buckets \<Longrightarrow> (\<Sum>c\<in>buckets. length ((B(b := xs)) c)) + length (B b) = (\<Sum>c\<in>buckets. length (B c)) + length xs"
  using sum.remove [of buckets b "\<lambda>c. length (B c)"] sum.remove [of buckets b "\<lambda>c. length ((B(b := xs)) c)"] by simp

lemma mb_tracer_add_full:
  assumes "tinv t B []"
  shows "mb_tracer_add ptr sz symb t = (- ENOMEM, t)"
  using assms mbp.alloc_empty [of t] by (simp add: tinv_def mb_tracer_add_def)

lemma mb_tracer_add_ok:
  assumes inv: "tinv t B (n # F)"
  shows "\<exists>t'. mb_tracer_add ptr sz symb t = (0, t') \<and> tinv t' (B(hash_min ptr := n # B (hash_min ptr))) F \<and>
     nd_ptr t' = (nd_ptr t)(n := ptr) \<and> nd_size t' = (nd_size t)(n := sz) \<and> nd_sym t' = (nd_sym t)(n := symb)"
proof -
  define b where "b = hash_min ptr"
  have bb: "b \<in> buckets" by (simp add: b_def)
  note i = inv [unfolded tinv_def]
  obtain t1 where t1: "mb_node_alloc t = (n, t1)" "mb_holds t1 F" using mbp.alloc_take i by blast
  have n: "n \<noteq> 0" "n \<notin> set F" using i chain_nonzero by (auto simp: mb_holds_def)
  have nb: "n \<notin> set (B c)" if "c \<in> buckets" for c using i that by auto
  define t2 where "t2 = t1\<lparr>nd_ptr := (nd_ptr t1)(n := ptr), nd_size := (nd_size t1)(n := sz), nd_sym := (nd_sym t1)(n := symb)\<rparr>"
  have f1: "hnext t1 = hnext t" "hfirst t1 = hfirst t" "pprev t1 = pprev t" "nd_ptr t1 = nd_ptr t" "nd_size t1 = nd_size t" "nd_sym t1 = nd_sym t"
    "tr_size t1 = tr_size t" using t1(1) by (auto simp: mb_node_alloc_def Let_def split: if_splits)
  let ?t = "hlist_add_head n b t2"
  have f3: "nd_ptr ?t = (nd_ptr t)(n := ptr)" "nd_size ?t = (nd_size t)(n := sz)" "nd_sym ?t = (nd_sym t)(n := symb)"
    "freelist ?t = freelist t1" "tr_size ?t = tr_size t" "\<And>x. x \<noteq> n \<Longrightarrow> hnext ?t x = hnext t x" "\<And>c. c \<noteq> b \<Longrightarrow> hfirst ?t c = hfirst t c"
    "\<And>x. x \<noteq> n \<Longrightarrow> x \<noteq> hfirst t b \<Longrightarrow> pprev ?t x = pprev t x"
    by (auto simp: hlist_add_head_def Let_def t2_def f1)
  have "hpath t2 (First c) xs = hpath t (First c) xs" for c xs by (intro hpath_cong) (simp_all add: t2_def f1)
  then have hb: "hpath ?t (First b) (n # B b)" using hlist_add_head_path [of t2 b "B b" n] i bb nb [OF bb] n by auto
  have ho: "hpath ?t (First c) (B c)" if "c \<in> buckets" "c \<noteq> b" for c
  proof -
    have "x \<noteq> hfirst t b" if "x \<in> set (B c)" for x
      using tinv_disjoint [OF inv bb \<open>c \<in> buckets\<close>] \<open>c \<noteq> b\<close> that i bb hpath_nonzero [of t "First c" "B c"] \<open>c \<in> buckets\<close> by (cases "B b") auto
    then have "hpath ?t (First c) (B c) = hpath t (First c) (B c)" using nb [OF that(1)] that(2) f3(6,7,8) by (intro hpath_cong) (auto, metis+)
    then show ?thesis using i that by auto
  qed
  have "hnext ?t x = hnext t1 x" if "x \<in> set F" for x using that n(2) f3(6) f1(1) by metis
  then have hf: "mb_holds ?t F" using t1(2) chain_cong [of F "hnext ?t" "hnext t1"] f3(4) unfolding mb_holds_def by simp
  have "tinv ?t (B(b := n # B b)) F"
    unfolding tinv_def using i hf hb ho bb nb n f3(1,5) sum_bucket_upd [OF bb, of B "n # B b"] by (auto simp: b_def)
  moreover have "mb_tracer_add ptr sz symb t = (0, ?t)" using t1 n by (simp add: mb_tracer_add_def hash_add_def b_def t2_def)
  ultimately show ?thesis using f3(1-3) unfolding b_def by blast
qed


lemma mb_find_del_miss:
  assumes "hpath t sl (as @ bs)" "\<forall>x\<in>set as. nd_ptr t x \<noteq> ptr" "length as < fuel"
  shows "\<exists>f sl'. hpath t sl' bs \<and> mb_find_del fuel ptr (rd_slot t sl) t = mb_find_del f ptr (rd_slot t sl') t \<and> fuel = f + length as"
  using assms
proof (induction as arbitrary: sl fuel)
  case Nil
  then show ?case by auto
next
  case (Cons a as)
  then obtain g where g: "fuel = Suc g" by (cases fuel) auto
  then obtain f sl' where "hpath t sl' bs" "mb_find_del g ptr (rd_slot t (Next a)) t = mb_find_del f ptr (rd_slot t sl') t" "g = f + length as"
    using Cons.IH [of "Next a" g] Cons.prems by auto
  then show ?case using Cons.prems g by (intro exI [of _ f] exI [of _ sl']) auto
qed

lemma hash_del_ok:
  assumes inv: "tinv t B F" and b: "b \<in> buckets" "B b = as @ n # bs"
  shows "\<exists>t1 t2. hash_del n t = Some t1 \<and> mb_node_free n t1 = Some t2 \<and> tinv t2 (B(b := as @ bs)) (n # F) \<and>
     nd_ptr t2 = nd_ptr t \<and> nd_size t2 = nd_size t \<and> nd_sym t2 = nd_sym t"
proof -
  note i = inv [unfolded tinv_def]
  have p: "hpath t (First b) (as @ n # bs)" "distinct (as @ n # bs)" "set (as @ n # bs) \<inter> set F = {}"
    using i b(1) unfolding b(2) [symmetric] by blast+
  obtain m where m: "hlist_del_links n t = Some m" "hpath m (First b) (as @ bs)" "del_frame (First b) as bs t m"
    using hlist_del_links_path [OF p(1,2)] by auto
  note fr = m(3) [unfolded del_frame_def]
  have n0: "n \<noteq> 0" using hpath_nonzero [OF p(1)] by auto
  have u: "\<not> hlist_unhashed n t"
  proof -
    have "hpath t sl (as @ n # bs) \<Longrightarrow> pprev t n \<noteq> None" for sl by (induction as arbitrary: sl) auto
    then show ?thesis using p(1) by (simp add: hlist_unhashed_def)
  qed
  define t1 where "t1 = INIT_HLIST_NODE n m"
  define t2 where "t2 = t1\<lparr>hnext := (hnext t1)(n := freelist t1), freelist := n\<rparr>"
  have s: "hash_del n t = Some t1" "mb_node_free n t1 = Some t2"
    using u m(1) n0 by (simp_all add: hash_del_def hlist_del_init_def t1_def t2_def mb_node_free_def)
  have f: "hfirst t2 = hfirst m" "\<And>x. x \<noteq> n \<Longrightarrow> hnext t2 x = hnext m x \<and> pprev t2 x = pprev m x" "hnext t2 n = freelist t" "freelist t2 = n"
    "nd_ptr t2 = nd_ptr t" "nd_size t2 = nd_size t" "nd_sym t2 = nd_sym t" "tr_size t2 = tr_size t"
    using fr by (simp_all add: t2_def t1_def INIT_HLIST_NODE_def)
  have hb: "hpath t2 (First b) (as @ bs)"
    using m(2) hpath_cong [of t2 "First b" m "as @ bs"] f(1,2) p(2) by (metis (no_types, lifting) distinct_append disjoint_iff distinct.simps(2) list.set_intros(1) rd_slot.simps(1) set_append UnE)
  have nc: "n \<notin> set (B c)" "set (B c) \<inter> set (as @ bs) = {}" if "c \<in> buckets" "c \<noteq> b" for c
    using tinv_disjoint [OF inv b(1) that(1)] that(2) b(2) by auto
  have ho: "hpath t2 (First c) (B c)" if c: "c \<in> buckets" "c \<noteq> b" for c
  proof -
    have "hnext t2 x = hnext t x \<and> pprev t2 x = pprev t x" if "x \<in> set (B c)" for x
      using that nc [OF c] f(2) [of x] fr by (auto simp: disjoint_iff)
    then have "hpath t2 (First c) (B c) = hpath t (First c) (B c)" using f(1) fr c(2) by (intro hpath_cong) auto
    then show ?thesis using i c(1) by auto
  qed
  have nF: "n \<notin> set F" "set (as @ bs) \<inter> set F = {}" using p(3) by auto
  have "hnext t2 x = hnext t x" if "x \<in> set F" for x
  proof -
    have "x \<noteq> n" "x \<notin> set as" using that nF by auto
    then show ?thesis using f(2) [of x] fr by auto
  qed
  then have "chain (hnext t2) (freelist t) F" using i chain_cong [of F "hnext t2" "hnext t"] by (simp add: mb_holds_def)
  then have hf: "mb_holds t2 (n # F)" using n0 f(3,4) by (simp add: mb_holds_def)
  have "set (B c) \<inter> set (n # F) = {}" if "c \<in> buckets" "c \<noteq> b" for c using i nc [OF that] that by auto
  moreover have "(\<Sum>c\<in>buckets. length ((B(b := as @ bs)) c)) + length (n # F) = tr_size t2"
    using sum_bucket_upd [OF b(1), of B "as @ bs"] b(2) i f(8) by simp
  ultimately have "tinv t2 (B(b := as @ bs)) (n # F)"
    unfolding tinv_def using hf hb ho nF p(2) i b f(5) by auto
  then show ?thesis using s f(5-7) by blast
qed


lemma mb_tracer_del_ok:
  assumes inv: "tinv t B F" and b: "B (hash_min ptr) = as @ n # bs" "\<forall>x\<in>set as. nd_ptr t x \<noteq> ptr" "nd_ptr t n = ptr" "tr_size t < fuel"
  shows "\<exists>t'. mb_tracer_del fuel ptr t = Some (0, t') \<and> tinv t' (B(hash_min ptr := as @ bs)) (n # F) \<and>
     nd_ptr t' = nd_ptr t \<and> nd_size t' = nd_size t \<and> nd_sym t' = nd_sym t"
proof -
  have h: "hpath t (First (hash_min ptr)) (as @ n # bs)" using inv hash_min_bucket [of ptr] unfolding tinv_def b(1) [symmetric] by blast
  have "length (B (hash_min ptr)) \<le> tr_size t"
    using inv member_le_sum [of "hash_min ptr" buckets "\<lambda>b. length (B b)"] by (simp add: tinv_def)
  then have "length as + 1 < fuel" using b(1,4) by simp
  then obtain f sl where f: "hpath t sl (n # bs)" "mb_tracer_del fuel ptr t = mb_find_del (Suc f) ptr (rd_slot t sl) t"
    using mb_find_del_miss [OF h b(2), of fuel] unfolding mb_tracer_del_def by (metis add.commute add_less_cancel_left less_natE plus_1_eq_Suc rd_slot.simps(1) add_Suc_right add_lessD1)
  obtain t1 t2 where "hash_del n t = Some t1" "mb_node_free n t1 = Some t2" "tinv t2 (B(hash_min ptr := as @ bs)) (n # F)"
     "nd_ptr t2 = nd_ptr t" "nd_size t2 = nd_size t" "nd_sym t2 = nd_sym t"
    using hash_del_ok [OF inv hash_min_bucket b(1)] by blast
  then show ?thesis using f b(3) by auto
qed

lemma mb_tracer_del_none:
  assumes inv: "tinv t B F" and b: "\<forall>x\<in>set (B (hash_min ptr)). nd_ptr t x \<noteq> ptr" "tr_size t < fuel"
  shows "mb_tracer_del fuel ptr t = Some (- ENODATA, t)"
proof -
  have h: "hpath t (First (hash_min ptr)) (B (hash_min ptr) @ [])" using inv hash_min_bucket [of ptr] unfolding tinv_def append_Nil2 by blast
  have l: "length (B (hash_min ptr)) < fuel"
    using inv member_le_sum [of "hash_min ptr" buckets "\<lambda>b. length (B b)"] b(2) by (simp add: tinv_def)
  then obtain f sl where "hpath t sl []" "mb_tracer_del fuel ptr t = mb_find_del f ptr (rd_slot t sl) t" "fuel = f + length (B (hash_min ptr))"
    using mb_find_del_miss [OF h b(1) l] unfolding mb_tracer_del_def by auto
  then show ?thesis using l by (cases f) auto
qed

section \<open>Refinement\<close>

datatype tracer_cmd = Add u32 nat nat | Del u32

fun tracer_step :: "nat \<Rightarrow> tracer_cmd \<Rightarrow> tracer \<Rightarrow> (int \<times> tracer) option" where
  "tracer_step fuel (Add ptr sz symb) t = Some (mb_tracer_add ptr sz symb t)"
| "tracer_step fuel (Del ptr) t = mb_tracer_del fuel ptr t"

fun tracer_spec :: "tracer_cmd \<Rightarrow> (u32 \<Rightarrow> (nat \<times> nat) list) \<times> nat \<Rightarrow> int \<times> (u32 \<Rightarrow> (nat \<times> nat) list) \<times> nat" where
  "tracer_spec (Add ptr sz symb) (S, k) = (if k = 0 then (- ENOMEM, S, k) else (0, S(ptr := (sz, symb) # S ptr), k - 1))"
| "tracer_spec (Del ptr) (S, k) = (if S ptr = [] then (- ENODATA, S, k) else (0, S(ptr := tl (S ptr)), k + 1))"

lemma records_cong:
  assumes "\<And>n. n \<in> set ns \<Longrightarrow> nd_ptr t' n = nd_ptr t n \<and> nd_size t' n = nd_size t n \<and> nd_sym t' n = nd_sym t n"
  shows "records t' ns p = records t ns p"
proof -
  have "filter (\<lambda>n. nd_ptr t' n = p) ns = filter (\<lambda>n. nd_ptr t n = p) ns" using assms by (intro filter_cong) auto
  then show ?thesis unfolding records_def using assms by simp
qed

lemma records_upd:
  assumes "tinv t B F" "tinv t' B' F'" "\<And>c. c \<noteq> hash_min ptr \<Longrightarrow> B' c = B c"
    "\<And>c n. c \<in> buckets \<Longrightarrow> n \<in> set (B c) \<Longrightarrow> nd_ptr t' n = nd_ptr t n \<and> nd_size t' n = nd_size t n \<and> nd_sym t' n = nd_sym t n"
    "\<And>q. q \<noteq> ptr \<Longrightarrow> records t' (B' (hash_min ptr)) q = records t' (B (hash_min ptr)) q" "records t' (B' (hash_min ptr)) ptr = xs"
  shows "(\<lambda>p. records t' (B' (hash_min p)) p) = (\<lambda>p. records t (B (hash_min p)) p)(ptr := xs)"
proof
  fix p
  have "records t' (B (hash_min p)) p = records t (B (hash_min p)) p"
    using assms(4) [of "hash_min p"] by (intro records_cong) simp
  then show "records t' (B' (hash_min p)) p = ((\<lambda>p. records t (B (hash_min p)) p)(ptr := xs)) p"
    using assms(3,5,6) by (cases "p = ptr"; cases "hash_min p = hash_min ptr") auto
qed

lemma tracer_step_refines:
  assumes "refines t a" "tr_size t < fuel"
  shows "\<exists>r t'. tracer_step fuel c t = Some (r, t') \<and> fst (tracer_spec c a) = r \<and> refines t' (snd (tracer_spec c a)) \<and> tr_size t' = tr_size t"
proof -
  obtain B F where i: "tinv t B F" "fst a = (\<lambda>p. records t (B (hash_min p)) p)" "snd a = length F" using assms(1) unfolding refines_def by blast
  obtain S k where a: "a = (S, k)" by fastforce
  have sz: "tr_size t' = tr_size t" if "tinv t' B' F'" "(\<Sum>b\<in>buckets. length (B' b)) + length F' = (\<Sum>b\<in>buckets. length (B b)) + length F" for t' B' F'
    using i(1) that unfolding tinv_def by linarith
  show ?thesis
  proof (cases c)
    case (Add ptr s y)
    show ?thesis
    proof (cases F)
      case Nil
      then show ?thesis using Add mb_tracer_add_full i assms(1) a by auto
    next
      case (Cons n F')
      let ?B = "B(hash_min ptr := n # B (hash_min ptr))"
      obtain t' where t': "mb_tracer_add ptr s y t = (0, t')" "tinv t' ?B F'"
        "nd_ptr t' = (nd_ptr t)(n := ptr)" "nd_size t' = (nd_size t)(n := s)" "nd_sym t' = (nd_sym t)(n := y)"
        using mb_tracer_add_ok i(1) Cons by blast
      have n: "n \<notin> set (B c)" if "c \<in> buckets" for c using i(1) Cons that by (auto simp: tinv_def)
      have r: "records t' (B (hash_min ptr)) ptr = records t (B (hash_min ptr)) ptr"
        using n [of "hash_min ptr"] t'(3-5) by (intro records_cong) auto
      have "(\<lambda>p. records t' (?B (hash_min p)) p) = (\<lambda>p. records t (B (hash_min p)) p)(ptr := (s, y) # records t (B (hash_min ptr)) ptr)"
        by (rule records_upd [OF i(1) t'(2)]) (use n t'(3-5) r in \<open>auto simp: records_def\<close>)
      then have "refines t' (S(ptr := (s, y) # S ptr), k - 1)" unfolding refines_def using i(2,3) t'(2) a Cons
        by (intro exI [of _ ?B] exI [of _ F']) simp
      moreover have "tr_size t' = tr_size t" using sz [OF t'(2)] sum_bucket_upd [OF hash_min_bucket, of B ptr "n # B (hash_min ptr)"] Cons by simp
      ultimately show ?thesis using Add t'(1) i(3) a Cons by auto
    qed
  next
    case (Del ptr)
    show ?thesis
    proof (cases "\<exists>x\<in>set (B (hash_min ptr)). nd_ptr t x = ptr")
      case False
      then have "S ptr = []" using i(2) a by (auto simp: records_def filter_empty_conv)
      then show ?thesis using Del mb_tracer_del_none [OF i(1) _ assms(2)] False assms(1) a by auto
    next
      case True
      then obtain as n bs where s: "B (hash_min ptr) = as @ n # bs" "\<forall>x\<in>set as. nd_ptr t x \<noteq> ptr" "nd_ptr t n = ptr"
        using split_list_first_prop [of "B (hash_min ptr)" "\<lambda>x. nd_ptr t x = ptr"] by blast
      let ?B = "B(hash_min ptr := as @ bs)"
      obtain t' where t': "mb_tracer_del fuel ptr t = Some (0, t')" "tinv t' ?B (n # F)"
        "nd_ptr t' = nd_ptr t" "nd_size t' = nd_size t" "nd_sym t' = nd_sym t"
        using mb_tracer_del_ok [OF i(1) s assms(2)] by blast
      have S: "S ptr = (nd_size t n, nd_sym t n) # records t bs ptr" using i(2) a s by (simp add: records_def filter_False)
      have "(\<lambda>p. records t' (?B (hash_min p)) p) = (\<lambda>p. records t (B (hash_min p)) p)(ptr := records t bs ptr)"
        by (rule records_upd [OF i(1) t'(2)]) (use s t'(3-5) in \<open>auto simp: records_def filter_False\<close>)
      then have "refines t' (S(ptr := tl (S ptr)), k + 1)" unfolding refines_def using i(2,3) t'(2) a S
        by (intro exI [of _ ?B] exI [of _ "n # F"]) simp
      moreover have "tr_size t' = tr_size t" using sz [OF t'(2)] sum_bucket_upd [OF hash_min_bucket, of B ptr "as @ bs"] s(1) by simp
      ultimately show ?thesis using Del t'(1) a S by auto
    qed
  qed
qed

lemma mb_tracer_create_refines:
  assumes "maxitems \<noteq> 0" "MB_TRACER_SIZE + MB_NODE_SIZE * maxitems < 2 ^ 32" "al (MB_TRACER_SIZE + MB_NODE_SIZE * maxitems) \<noteq> 0"
  shows "\<exists>t. mb_tracer_create maxitems (Some al) True = Some (0, Some t) \<and> refines t (\<lambda>_. [], maxitems) \<and> tr_size t = maxitems"
proof -
  define a where "a = al (MB_TRACER_SIZE + MB_NODE_SIZE * maxitems)"
  define F where "F = rev (slots (a + MB_TRACER_SIZE) MB_NODE_SIZE maxitems)"
  obtain fl m where l: "link_objects maxitems (a + MB_TRACER_SIZE) MB_NODE_SIZE 0 (\<lambda>_. 0) = (fl, m)" by fastforce
  have "chain m fl F"
    using link_objects_chain [of MB_NODE_SIZE "a + MB_TRACER_SIZE" "\<lambda>_. 0" 0 "[]"] l unfolding F_def MB_NODE_SIZE_def MB_TRACER_SIZE_def by auto
  moreover have "distinct F" "length F = maxitems" using slots_distinct [of MB_NODE_SIZE] by (simp_all add: F_def slots_def MB_NODE_SIZE_def)
  moreover define t where "t = hash_init \<lparr>hfirst = (\<lambda>_. 0), hnext = m, pprev = (\<lambda>_. None), nd_ptr = (\<lambda>_. 0), nd_size = (\<lambda>_. 0),
                nd_sym = (\<lambda>_. 0), freelist = fl, tr_size = maxitems\<rparr>"
  ultimately have "tinv t (\<lambda>_. []) F" by (simp add: tinv_def mb_holds_def hash_init_def)
  then have "refines t (\<lambda>_. [], maxitems)"
    unfolding refines_def using \<open>length F = maxitems\<close> by (intro exI [of _ "\<lambda>_. []"] exI [of _ F]) (simp add: records_def)
  moreover have "mb_tracer_create maxitems (Some al) True = Some (0, Some t)"
    using assms l by (simp add: mb_tracer_create_def Let_def wrap32_def t_def a_def)
  ultimately show ?thesis by (simp add: t_def hash_init_def)
qed

lemma visit_bucket_all: "hpath t sl xs \<Longrightarrow> length xs < fuel \<Longrightarrow> visit_bucket fuel (\<lambda>_. True) (rd_slot t sl) t = Some (xs, 0)"
proof (induction xs arbitrary: sl fuel)
  case Nil
  then show ?case by (cases fuel) auto
next
  case (Cons x xs)
  then obtain f where "fuel = Suc f" by (cases fuel) auto
  then show ?case using Cons.prems Cons.IH [of "Next x" f] by auto
qed

lemma visit_buckets_all:
  assumes "tinv t B F" "set bs \<subseteq> buckets" "tr_size t < fuel"
  shows "visit_buckets fuel (\<lambda>_. True) bs t = Some (concat (map B bs))"
  using assms(2)
proof (induction bs)
  case (Cons b bs)
  have "length (B b) \<le> tr_size t"
    using assms(1) member_le_sum [of b buckets "\<lambda>b. length (B b)"] Cons.prems by (simp add: tinv_def)
  moreover have "hpath t (First b) (B b)" using assms(1) Cons.prems by (auto simp: tinv_def)
  ultimately have "visit_bucket fuel (\<lambda>_. True) (hfirst t b) t = Some (B b, 0)" using visit_bucket_all [of t "First b" "B b" fuel] assms(3) by simp
  then show ?case using Cons by simp
qed simp

lemma records_concat:
  assumes "tinv t B F" "distinct bs" "set bs \<subseteq> buckets"
  shows "records t (concat (map B bs)) p = (if hash_min p \<in> set bs then records t (B (hash_min p)) p else [])"
  using assms(2,3)
proof (induction bs)
  case (Cons b bs)
  have "records t (B b) p = []" if "b \<noteq> hash_min p" using assms(1) that Cons.prems by (auto simp: tinv_def records_def filter_empty_conv)
  moreover have "records t (xs @ ys) p = records t xs p @ records t ys p" for xs ys by (simp add: records_def)
  ultimately show ?case using Cons by auto
qed (simp add: records_def)

lemma concat_distinct:
  assumes "tinv t B F" "distinct bs" "set bs \<subseteq> buckets"
  shows "distinct (concat (map B bs))"
  using assms(2,3)
proof (induction bs)
  case (Cons b bs)
  then have "set (B b) \<inter> set (B c) = {}" if "c \<in> set bs" for c using tinv_disjoint [OF assms(1), of b c] that by auto
  then show ?case using Cons assms(1) by (auto simp: tinv_def)
qed simp

fun tracer_run :: "nat \<Rightarrow> tracer_cmd list \<Rightarrow> tracer \<Rightarrow> (int list \<times> tracer) option" where
  "tracer_run fuel [] t = Some ([], t)"
| "tracer_run fuel (c # cs) t = do { (r, t) \<leftarrow> tracer_step fuel c t; (rs, t) \<leftarrow> tracer_run fuel cs t; Some (r # rs, t) }"

fun tracer_specs :: "tracer_cmd list \<Rightarrow> (u32 \<Rightarrow> (nat \<times> nat) list) \<times> nat \<Rightarrow> int list \<times> (u32 \<Rightarrow> (nat \<times> nat) list) \<times> nat" where
  "tracer_specs [] a = ([], a)"
| "tracer_specs (c # cs) a = (let (r, a) = tracer_spec c a; (rs, a) = tracer_specs cs a in (r # rs, a))"

lemma tracer_run_refines:
  assumes "refines t a" "tr_size t < fuel"
  shows "\<exists>t'. tracer_run fuel cs t = Some (fst (tracer_specs cs a), t') \<and> refines t' (snd (tracer_specs cs a)) \<and> tr_size t' = tr_size t"
  using assms
proof (induction cs arbitrary: t a)
  case (Cons c cs)
  obtain r t1 where 1: "tracer_step fuel c t = Some (r, t1)" "fst (tracer_spec c a) = r" "refines t1 (snd (tracer_spec c a))" "tr_size t1 = tr_size t"
    using tracer_step_refines [OF Cons.prems] by blast
  obtain t' where "tracer_run fuel cs t1 = Some (fst (tracer_specs cs (snd (tracer_spec c a))), t')"
    "refines t' (snd (tracer_specs cs (snd (tracer_spec c a))))" "tr_size t' = tr_size t1"
    using Cons.IH [OF 1(3)] 1(4) Cons.prems(2) by auto
  then show ?case using 1 by (cases "tracer_spec c a"; cases "tracer_specs cs (snd (tracer_spec c a))") auto
qed simp

text \<open>C18. The tracer is a stack of records for every address. A tracer created for \<open>maxitems\<close> records answers any sequence of
  additions and deletions as the abstract tracer does: an addition fails only when \<open>maxitems\<close> records are held, a deletion
  removes the latest record of its address and fails only when there is none; no walk leaves its list; and a full visit
  sees every held record exactly once, those of one address latest first.\<close>

theorem mb_tracer_refines_stacks:
  assumes "maxitems \<noteq> 0" "MB_TRACER_SIZE + MB_NODE_SIZE * maxitems < 2 ^ 32" "al (MB_TRACER_SIZE + MB_NODE_SIZE * maxitems) \<noteq> 0"
    "maxitems < fuel" "tracer_specs cs (\<lambda>_. [], maxitems) = (rs, S, k)"
  shows "\<exists>t t' ns. mb_tracer_create maxitems (Some al) True = Some (0, Some t) \<and> tracer_run fuel cs t = Some (rs, t') \<and>
     mb_tracer_visit fuel (Some (\<lambda>_. True)) (Some t') = Some ns \<and> distinct ns \<and> length ns + k = maxitems \<and> (\<forall>p. records t' ns p = S p)"
proof -
  obtain t where t: "mb_tracer_create maxitems (Some al) True = Some (0, Some t)" "refines t (\<lambda>_. [], maxitems)" "tr_size t = maxitems"
    using mb_tracer_create_refines [of maxitems al, OF assms(1-3)] by blast
  obtain t' where t': "tracer_run fuel cs t = Some (rs, t')" "refines t' (S, k)" "tr_size t' = maxitems"
    using tracer_run_refines [OF t(2), of fuel cs] t(3) assms(4,5) by auto
  obtain B F where i: "tinv t' B F" "S = (\<lambda>p. records t' (B (hash_min p)) p)" "k = length F" using t'(2) by (auto simp: refines_def)
  let ?bs = "[0..<2 ^ HASH_BITS]"
  have bs: "distinct ?bs" "set ?bs = buckets" by (auto simp: buckets_def)
  then have v: "mb_tracer_visit fuel (Some (\<lambda>_. True)) (Some t') = Some (concat (map B ?bs))"
    using visit_buckets_all [OF i(1), of ?bs fuel] t'(3) assms(4) by (simp add: mb_tracer_visit_def)
  have "length (concat (map B ?bs)) = (\<Sum>b\<in>buckets. length (B b))"
    unfolding bs(2) [symmetric] by (simp add: length_concat sum_list_distinct_conv_sum_set [OF bs(1)] comp_def)
  then have "length (concat (map B ?bs)) + k = maxitems" using i t'(3) by (simp add: tinv_def)
  moreover have "records t' (concat (map B ?bs)) p = S p" for p using records_concat [OF i(1) bs(1)] bs(2) i(2) by auto
  ultimately show ?thesis using t(1) t'(1) v concat_distinct [OF i(1) bs(1)] bs(2) by blast
qed

theorem mb_tracer_refines_stacks_witness:
  "\<exists>t t'. mb_tracer_create 2 (Some (\<lambda>_. 4096)) True = Some (0, Some t) \<and>
     tracer_run 3 [Add 16 8 1, Add 16 24 2, Add 32 8 3, Del 16, Del 32] t = Some ([0, 0, - ENOMEM, 0, - ENODATA], t')"
proof -
  have s: "tracer_specs [Add 16 8 1, Add 16 24 2, Add 32 8 3, Del 16, Del 32] (\<lambda>_. [], 2) =
      ([0, 0, - ENOMEM, 0, - ENODATA], (\<lambda>_. [])(16 := [(8, 1)]), 1)"
    by (simp add: fun_eq_iff)
  then show ?thesis using mb_tracer_refines_stacks [of 2 "\<lambda>_. 4096" 3, OF _ _ _ _ s]
    by (simp add: MB_TRACER_SIZE_def MB_NODE_SIZE_def del: tracer_run.simps) blast
qed

end
