(* ===== verification/Printf.thy ===== *)
theory Printf
  imports Disklog Bitops
begin

text \<open>
  \<^verbatim>\<open>basework/lib/iovprintf.c\<close>, the formatted output, and \<^verbatim>\<open>basework/lib/printer.c\<close>, which sends it to the disk log or to a
  circular queue. A format is the list of its characters without the terminator; reading behind the terminator is
  \<^const>\<open>None\<close>, as are signed overflow and an argument of the wrong type. The characters handed to \<^verbatim>\<open>put_char\<close> are the result;
  their number is the return value.
\<close>

section \<open>Arguments and directives\<close>

text \<open>Arguments: 32-bit values (\<^verbatim>\<open>int\<close>, \<^verbatim>\<open>long\<close> and pointers have this size), 64-bit values, strings and byte arrays.\<close>

datatype arg = Word u32 | Wide u64 | Str "string option" | Data "u8 list"

record conv =
  padc :: char
  width :: int
  ladjust :: bool
  sharpflag :: bool
  sign :: bool
  dot :: bool
  dwidth :: int
  upper :: bool
  lflag :: bool
  cflag :: bool
  hflag :: bool
  jflag :: bool

definition conv_init :: conv where
  "conv_init = \<lparr>padc = CHR '' '', width = 0, ladjust = False, sharpflag = False, sign = False, dot = False, dwidth = 0,
     upper = False, lflag = False, cflag = False, hflag = False, jflag = False\<rparr>"

definition int_ok :: "int \<Rightarrow> bool" where
  "int_ok x \<longleftrightarrow> - (2 ^ 31) \<le> x \<and> x < 2 ^ 31"

definition hex2ascii_data :: "bool \<Rightarrow> nat \<Rightarrow> char" where
  "hex2ascii_data up i = (if up then ''0123456789ABCDEF'' else ''0123456789abcdef'') ! i"

definition MAXNBUF :: nat where
  "MAXNBUF = 32"

text \<open>The characters \<^verbatim>\<open>ksprintn\<close> writes behind the terminator at the start of its buffer, least significant digit first.\<close>

function ksprintn_digits :: "nat \<Rightarrow> nat \<Rightarrow> bool \<Rightarrow> string" where
  "ksprintn_digits num base up =
     hex2ascii_data up (num mod base) # (if num div base = 0 \<or> base < 2 then [] else ksprintn_digits (num div base) base up)"
  by auto
termination
  by (relation "measure (\<lambda>(num, _). num)") (auto simp: div_less_dividend intro!: div_less_dividend gr0I)

definition ksprintn :: "nat \<Rightarrow> nat \<Rightarrow> bool \<Rightarrow> string option" where
  "ksprintn num base up = (let ds = ksprintn_digits num base up in if length ds < MAXNBUF then Some ds else None)"

definition rep :: "int \<Rightarrow> char \<Rightarrow> string" where
  "rep n c = replicate (nat n) c"

definition imax :: "int \<Rightarrow> int \<Rightarrow> int" where
  "imax a b = (if a > b then a else b)"

section \<open>One conversion\<close>

text \<open>From the label \<^verbatim>\<open>number\<close> on: \<open>num\<close> is the 64-bit value.\<close>

definition print_number :: "conv \<Rightarrow> nat \<Rightarrow> u64 \<Rightarrow> string option" where
  "print_number c base num =
     (let ng = sign c \<and> sint num < 0;
          num = (if ng then - num else num) in
      if ng \<and> sint num < 0 then None
      else do {
        ds \<leftarrow> ksprintn (unat num) base (upper c);
        let n = int (length ds);
        let tmp = (if sharpflag c \<and> num \<noteq> 0 then (if base = 8 then 1 else if base = 16 then 2 else 0) else 0) + (if ng then 1 else 0);
        let dw = (if \<not> ladjust c \<and> padc c = CHR ''0'' then width c - tmp else dwidth c);
        let used = tmp + imax dw n;
        let w = width c - used;
        let dw = dw - n;
        if \<not> int_ok used \<or> \<not> int_ok w \<or> \<not> int_ok (w - 1) \<or> \<not> int_ok dw \<or> \<not> int_ok (dw - 1) then None
        else Some ((if \<not> ladjust c then rep w CHR '' '' else '''') @
                   (if ng then ''-'' else '''') @
                   (if sharpflag c \<and> num \<noteq> 0 then (if base = 8 then ''0'' else if base = 16 then ''0x'' else '''') else '''') @
                   rep dw CHR ''0'' @ rev ds @
                   (if ladjust c then rep w CHR '' '' else '''')) })"

text \<open>The labels \<^verbatim>\<open>handle_nosign\<close> and \<^verbatim>\<open>handle_sign\<close>: the next argument as a 64-bit value. \<^verbatim>\<open>tflag\<close> and \<^verbatim>\<open>zflag\<close> are \<^verbatim>\<open>lflag\<close> on
  this target, and plain \<^verbatim>\<open>char\<close> is unsigned.\<close>

fun take_nosign :: "conv \<Rightarrow> arg list \<Rightarrow> (u64 \<times> arg list) option" where
  "take_nosign c (Wide x # ap) = (if jflag c then Some (x, ap) else None)"
| "take_nosign c (Word x # ap) =
     (if jflag c then None
      else if lflag c then Some (ucast x, ap)
      else if hflag c then Some (ucast (ucast x :: u16), ap)
      else if cflag c then Some (ucast (ucast x :: u8), ap)
      else Some (ucast x, ap))"
| "take_nosign c _ = None"

fun take_sign :: "conv \<Rightarrow> arg list \<Rightarrow> (u64 \<times> arg list) option" where
  "take_sign c (Wide x # ap) = (if jflag c then Some (x, ap) else None)"
| "take_sign c (Word x # ap) =
     (if jflag c then None
      else if lflag c then Some (scast x, ap)
      else if hflag c then Some (scast (ucast x :: u16), ap)
      else if cflag c then Some (ucast (ucast x :: u8), ap)
      else Some (scast x, ap))"
| "take_sign c _ = None"

fun take_word :: "arg list \<Rightarrow> (u32 \<times> arg list) option" where
  "take_word (Word x # ap) = Some (x, ap)"
| "take_word _ = None"

fun take_str :: "arg list \<Rightarrow> (string option \<times> arg list) option" where
  "take_str (Str x # ap) = Some (x, ap)"
| "take_str _ = None"

fun take_data :: "arg list \<Rightarrow> (u8 list \<times> arg list) option" where
  "take_data (Data x # ap) = Some (x, ap)"
| "take_data _ = None"

text \<open>Text with padding, for \<^verbatim>\<open>%c\<close> and \<^verbatim>\<open>%s\<close>.\<close>

definition print_padded :: "conv \<Rightarrow> string \<Rightarrow> string option" where
  "print_padded c s =
     (let w = width c - int (length s) in
      if \<not> int_ok w then None
      else Some ((if \<not> ladjust c then rep w (padc c) else '''') @ s @ (if ladjust c then rep w (padc c) else '''')))"

text \<open>The bytes of \<^verbatim>\<open>%D\<close> in hexadecimal, separated by a string.\<close>

definition hex_byte :: "u8 \<Rightarrow> string" where
  "hex_byte b = [hex2ascii_data False (unat (drop_bit 4 b)), hex2ascii_data False (unat (b AND 0x0f))]"

fun print_data :: "nat \<Rightarrow> u8 list \<Rightarrow> string \<Rightarrow> string option" where
  "print_data 0 up p = Some []"
| "print_data (Suc w) [] p = None"
| "print_data (Suc w) (b # up) p =
     map_option (\<lambda>r. hex_byte b @ (if w \<noteq> 0 then p else []) @ r) (print_data w up p)"

definition digit_val :: "char \<Rightarrow> int" where
  "digit_val ch = of_char ch - 48"

definition is_digit :: "char \<Rightarrow> bool" where
  "is_digit ch \<longleftrightarrow> 48 \<le> (of_char ch :: nat) \<and> (of_char ch :: nat) \<le> 57"

fun parse_digits :: "int \<Rightarrow> char \<Rightarrow> string \<Rightarrow> (int \<times> string) option" where
  "parse_digits n ch fmt =
     (if \<not> int_ok (n * 10 + of_char ch) then None
      else let n = n * 10 + digit_val ch in
           case fmt of
             c # r \<Rightarrow> if is_digit c then parse_digits n c r else Some (n, fmt)
           | [] \<Rightarrow> Some (n, fmt))"

declare parse_digits.simps [simp del] ksprintn_digits.simps [simp del]

section \<open>The switch\<close>

text \<open>One pass of the switch: it goes back to the switch with new flags, or it leaves it having printed something.\<close>

datatype action = Reswitch conv string "arg list" string | Break string string "arg list" bool

definition conv_number :: "conv \<Rightarrow> nat \<Rightarrow> (u64 \<times> arg list) option \<Rightarrow> string \<Rightarrow> action option" where
  "conv_number c base a r = do { (num, ap) \<leftarrow> a; out \<leftarrow> print_number c base num; Some (Break out r ap False) }"

definition conv_step :: "conv \<Rightarrow> char \<Rightarrow> string \<Rightarrow> arg list \<Rightarrow> string \<Rightarrow> action option" where
  "conv_step c ch r ap percent =
     (let again = (\<lambda>c. Some (Reswitch c r ap (percent @ [ch]))) in
      if ch = CHR ''.'' then again (c\<lparr>dot := True\<rparr>)
      else if ch = CHR ''#'' then again (c\<lparr>sharpflag := True\<rparr>)
      else if ch = CHR ''+'' then again (c\<lparr>sign := True\<rparr>)
      else if ch = CHR ''-'' then again (c\<lparr>ladjust := True\<rparr>)
      else if ch = CHR ''%'' then Some (Break [ch] r ap False)
      else if ch = CHR ''*'' then
        do { (x, ap) \<leftarrow> take_word ap;
             if \<not> dot c then
               (if sint x < 0 then
                  (if \<not> int_ok (- sint x) then None
                   else Some (Reswitch (c\<lparr>ladjust := \<not> ladjust c, width := - sint x\<rparr>) r ap (percent @ [ch])))
                else Some (Reswitch (c\<lparr>width := sint x\<rparr>) r ap (percent @ [ch])))
             else Some (Reswitch (c\<lparr>dwidth := sint x\<rparr>) r ap (percent @ [ch])) }
      else if ch = CHR ''0'' \<and> \<not> dot c then again (c\<lparr>padc := CHR ''0''\<rparr>)
      else if is_digit ch then
        do { (n, r') \<leftarrow> parse_digits 0 ch r;
             Some (Reswitch (if dot c then c\<lparr>dwidth := n\<rparr> else c\<lparr>width := n\<rparr>) r' ap (percent @ [ch] @ take (length r - length r') r)) }
      else if ch = CHR ''c'' then
        do { (x, ap) \<leftarrow> take_word ap; out \<leftarrow> print_padded c [char_of (unat x mod 256)]; Some (Break out r ap False) }
      else if ch = CHR ''D'' then
        do { (up, ap) \<leftarrow> take_data ap; (p, ap) \<leftarrow> take_str ap; p \<leftarrow> p;
             let w = (if width c = 0 then 16 else width c);
             out \<leftarrow> print_data (nat w) up p;
             Some (Break out r ap False) }
      else if ch = CHR ''d'' \<or> ch = CHR ''i'' then conv_number (c\<lparr>sign := True\<rparr>) 10 (take_sign c ap) r
      else if ch = CHR ''h'' then again (if hflag c then c\<lparr>hflag := False, cflag := True\<rparr> else c\<lparr>hflag := True\<rparr>)
      else if ch = CHR ''j'' then again (c\<lparr>jflag := True\<rparr>)
      else if ch = CHR ''l'' then again (if lflag c then c\<lparr>jflag := True\<rparr> else c\<lparr>lflag := True\<rparr>)
      else if ch = CHR ''o'' then conv_number (c\<lparr>sign := False\<rparr>) 8 (take_nosign c ap) r
      else if ch = CHR ''p'' then
        conv_number (c\<lparr>sharpflag := (width c = 0), sign := False\<rparr>) 16 (do { (x, ap) \<leftarrow> take_word ap; Some (ucast x, ap) }) r
      else if ch = CHR ''s'' then
        do { (p, ap) \<leftarrow> take_str ap;
             let s = (case p of None \<Rightarrow> ''(null)'' | Some s \<Rightarrow> s);
             out \<leftarrow> print_padded c (if \<not> dot c then s else take (nat (dwidth c)) s);
             Some (Break out r ap False) }
      else if ch = CHR ''t'' then again (c\<lparr>lflag := True\<rparr>)
      else if ch = CHR ''u'' then conv_number (c\<lparr>sign := False\<rparr>) 10 (take_nosign c ap) r
      else if ch = CHR ''X'' then conv_number (c\<lparr>upper := True, sign := False\<rparr>) 16 (take_nosign c ap) r
      else if ch = CHR ''x'' then conv_number (c\<lparr>sign := False\<rparr>) 16 (take_nosign c ap) r
      else if ch = CHR ''y'' then conv_number (c\<lparr>sign := True\<rparr>) 16 (take_sign c ap) r
      else if ch = CHR ''z'' then again (c\<lparr>lflag := True\<rparr>)
      else Some (Break (percent @ [ch]) r ap True))"

lemma parse_digits_le: "parse_digits n ch fmt = Some (m, r) \<Longrightarrow> length r \<le> length fmt"
proof (induction fmt arbitrary: n ch)
  case Nil
  then show ?case by (auto simp: parse_digits.simps [of n ch] Let_def split: if_splits)
next
  case (Cons c fmt)
  then show ?case using Cons.IH by (auto simp: parse_digits.simps [of n ch] Let_def split: if_splits dest!: Cons.IH)
qed

lemma conv_step_shorter:
  "conv_step c ch r ap pc = Some (Reswitch c' r' ap' pc') \<Longrightarrow> length r' \<le> length r"
  "conv_step c ch r ap pc = Some (Break out r' ap' st) \<Longrightarrow> r' = r"
  by (auto simp: conv_step_def conv_number_def Let_def split: if_splits bind_splits option.splits prod.splits dest: parse_digits_le)

section \<open>The loop\<close>

text \<open>The text of the format up to the next directive, and the directives. A format that ends inside a directive is read
  behind its terminator.\<close>

function vprintf_text :: "bool \<Rightarrow> string \<Rightarrow> arg list \<Rightarrow> string option"
  and vprintf_conv :: "conv \<Rightarrow> string \<Rightarrow> arg list \<Rightarrow> string \<Rightarrow> string option" where
  "vprintf_text stop [] ap = Some []"
| "vprintf_text stop (ch # r) ap =
     (if ch \<noteq> CHR ''%'' \<or> stop then map_option (Cons ch) (vprintf_text stop r ap)
      else vprintf_conv conv_init r ap [ch])"
| "vprintf_conv c [] ap percent = None"
| "vprintf_conv c (ch # r) ap percent =
     (case conv_step c ch r ap percent of
        None \<Rightarrow> None
      | Some (Reswitch c' r' ap' percent') \<Rightarrow> vprintf_conv c' r' ap' percent'
      | Some (Break out r' ap' stop) \<Rightarrow> map_option (append out) (vprintf_text stop r' ap'))"
  by pat_completeness auto
termination
  by (relation "measure (\<lambda>x. case x of Inl (_, f, _) \<Rightarrow> length f | Inr (_, f, _, _) \<Rightarrow> length f)")
     (auto dest: conv_step_shorter)

text \<open>The function with its output routine; a null format prints a fixed text.\<close>

definition IO_Vprintf :: "(char \<Rightarrow> 's \<Rightarrow> 's option) \<Rightarrow> string option \<Rightarrow> arg list \<Rightarrow> 's \<Rightarrow> (int \<times> 's) option" where
  "IO_Vprintf put_char fmt ap s =
     do { out \<leftarrow> vprintf_text False (case fmt of None \<Rightarrow> ''(fmt null)'' @ [CHR 0x0A] | Some f \<Rightarrow> f) ap;
          if \<not> int_ok (int (length out)) then None else do {
          s \<leftarrow> fold (\<lambda>c r. r \<bind> put_char c) out (Some s);
          Some (int (length out), s) } }"

section \<open>Numbers\<close>

text \<open>The value of a numeral, most significant digit first.\<close>

definition hexv :: "char \<Rightarrow> nat" where
  "hexv ch = (let v = of_char ch in if v < 58 then v - 48 else if v < 71 then v - 55 else v - 87)"

fun text_val :: "nat \<Rightarrow> nat \<Rightarrow> string \<Rightarrow> nat" where
  "text_val base acc [] = acc"
| "text_val base acc (c # cs) = text_val base (acc * base + hexv c) cs"

lemma text_val_append: "text_val base acc (xs @ ys) = text_val base (text_val base acc xs) ys"
  by (induction xs arbitrary: acc) auto

lemma hexv_hex2ascii: "k < 16 \<Longrightarrow> hexv (hex2ascii_data up k) = k"
proof -
  have "\<forall>k\<in>set [0..<16]. hexv (hex2ascii_data True k) = k \<and> hexv (hex2ascii_data False k) = k" by code_simp
  then show "k < 16 \<Longrightarrow> ?thesis" by (cases up) auto
qed

lemma hex2ascii_zero: "k < 16 \<Longrightarrow> hex2ascii_data up k = CHR ''0'' \<longleftrightarrow> k = 0"
proof -
  have "\<forall>k\<in>set [0..<16]. (hex2ascii_data True k = CHR ''0'' \<longleftrightarrow> k = 0) \<and> (hex2ascii_data False k = CHR ''0'' \<longleftrightarrow> k = 0)" by code_simp
  then show "k < 16 \<Longrightarrow> ?thesis" by (cases up) auto
qed

lemma ksprintn_digits_val:
  assumes "2 \<le> base" "base \<le> 16"
  shows "text_val base 0 (rev (ksprintn_digits num base up)) = num \<and> ksprintn_digits num base up \<noteq> [] \<and>
    (\<forall>ch\<in>set (ksprintn_digits num base up). hexv ch < base) \<and>
    (num = 0 \<longrightarrow> ksprintn_digits num base up = ''0'') \<and> (num \<noteq> 0 \<longrightarrow> last (ksprintn_digits num base up) \<noteq> CHR ''0'') \<and>
    base ^ (length (ksprintn_digits num base up) - 1) \<le> max 1 num"
proof (induction num rule: less_induct)
  case (less num)
  let ?q = "num div base" and ?r = "num mod base"
  have r: "?r < base" "?r < 16" using assms by (auto intro: less_le_trans [OF mod_less_divisor])
  show ?case
  proof (cases "?q = 0")
    case True
    then have n: "num < base" using assms by (simp add: div_eq_0_iff)
    then have "ksprintn_digits num base up = [hex2ascii_data up num]" using True by (simp add: ksprintn_digits.simps [of num])
    moreover have "hex2ascii_data up 0 = CHR ''0''" using hex2ascii_zero [of 0] by simp
    ultimately show ?thesis using hexv_hex2ascii [of num up] hex2ascii_zero [of num up] n assms by (auto simp: le_max_iff_disj)
  next
    case False
    then have lt: "?q < num" using assms by (metis div_0 div_less_dividend gr0I less_le_trans one_less_numeral_iff order_less_le semiring_norm(76))
    define ds where "ds = ksprintn_digits ?q base up"
    note IH = less.IH [OF lt, folded ds_def]
    have e: "ksprintn_digits num base up = hex2ascii_data up ?r # ds" using False assms by (simp add: ksprintn_digits.simps [of num] ds_def)
    have v: "?q * base + ?r = num" by simp
    have "base ^ length ds = base * base ^ (length ds - 1)" using IH by (cases ds) auto
    also have "\<dots> \<le> base * ?q" using IH False by (simp add: max_def split: if_splits)
    also have "\<dots> \<le> num" by simp
    finally have "base ^ length ds \<le> num" .
    moreover have "last (hex2ascii_data up ?r # ds) = last ds" using IH by simp
    moreover have "num \<noteq> 0" "0 < num" using lt by simp_all
    ultimately show ?thesis unfolding e using IH False v r hexv_hex2ascii [OF r(2)] by (simp add: text_val_append)
  qed
qed

lemma ksprintn_ok:
  assumes "8 \<le> base" "base \<le> 16" "num < 2 ^ 64"
  shows "ksprintn num base up = Some (ksprintn_digits num base up)" "length (ksprintn_digits num base up) < 32"
proof -
  let ?n = "length (ksprintn_digits num base up) - 1"
  have "base ^ ?n \<le> max 1 num" using ksprintn_digits_val [of base num up] assms by simp
  then have "8 ^ ?n \<le> max 1 num" using assms(1) power_mono [of 8 base ?n] by simp
  moreover have "(8::nat) ^ ?n = 2 ^ (3 * ?n)" by (simp add: power_mult)
  ultimately have "(2::nat) ^ (3 * ?n) < 2 ^ 64" using assms(3) by (simp add: max_def split: if_splits)
  then have "3 * ?n < 64" by (rule power_less_imp_less_exp [rotated]) simp
  then show l: "length (ksprintn_digits num base up) < 32" by linarith
  then show "ksprintn num base up = Some (ksprintn_digits num base up)" by (simp add: ksprintn_def MAXNBUF_def Let_def)
qed

lemma text_val_zeros: "text_val base 0 (replicate k CHR ''0'' @ ds) = text_val base 0 ds"
  by (induction k) (auto simp: hexv_def)

section \<open>A number in its field\<close>

definition num_text :: "nat \<Rightarrow> nat \<Rightarrow> bool \<Rightarrow> string" where
  "num_text base v up = rev (ksprintn_digits v base up)"

definition num_prefix :: "conv \<Rightarrow> nat \<Rightarrow> bool \<Rightarrow> string" where
  "num_prefix c base nz = (if sharpflag c \<and> nz then (if base = 8 then ''0'' else if base = 16 then ''0x'' else '''') else '''')"

lemma num_text_ok:
  assumes "2 \<le> base" "base \<le> 16"
  shows "text_val base 0 (num_text base v up) = v" "num_text base v up \<noteq> []" "\<forall>ch\<in>set (num_text base v up). hexv ch < base"
    "hd (num_text base v up) = CHR ''0'' \<Longrightarrow> num_text base v up = ''0''"
  using ksprintn_digits_val [OF assms, of v up] by (cases "v = 0"; simp add: num_text_def hd_rev)+

lemma sint_neg64:
  fixes num :: u64
  assumes "sint num < 0" "sint num \<noteq> - (2 ^ 63)"
  shows "sint (- num) = - sint num"
proof -
  have "- (2 ^ 63) \<le> - sint num" "- sint num < 2 ^ 63" using assms sint_ge [of num] by auto
  then show ?thesis unfolding sint_word_minus by (simp add: signed_take_bit_int_eq_self)
qed

lemma uint_of_sint: "0 \<le> sint (w :: 'a :: len word) \<Longrightarrow> uint w = sint w"
  using sint_less [of w] unfolding uint_sint
  by (intro take_bit_int_eq_self) (auto intro: less_le_trans)

lemma magnitude:
  assumes "v = (if sign c then sint num else uint num)" "v \<noteq> - (2 ^ 63)"
  defines "n \<equiv> (if sign c \<and> sint num < 0 then - num else (num :: u64))"
  shows "unat n = nat \<bar>v\<bar>" "(sign c \<and> sint num < 0) = (v < 0)" "\<not> (v < 0 \<and> sint n < 0)" "n = 0 \<longleftrightarrow> v = 0"
proof -
  show ng: "(sign c \<and> sint num < 0) = (v < 0)" using assms(1) by auto
  have neg: "sint (- num) = - v" if "v < 0" using that assms(1,2) sint_neg64 [of num] by (auto split: if_splits)
  show u: "unat n = nat \<bar>v\<bar>"
  proof (cases "v < 0")
    case True
    then have "uint (- num) = - v" using neg uint_of_sint [of "- num"] by simp
    moreover have "n = - num" unfolding n_def ng using True by simp
    ultimately show ?thesis using True by (simp add: unat_eq_nat_uint)
  next
    case False
    then have "uint num = v" using assms(1) uint_of_sint [of num] by (auto split: if_splits)
    moreover have "n = num" unfolding n_def ng using False by simp
    ultimately show ?thesis using False by (simp add: unat_eq_nat_uint)
  qed
  show "\<not> (v < 0 \<and> sint n < 0)" using neg ng by (auto simp: n_def)
  have "n = 0 \<longleftrightarrow> unat n = 0" by (simp add: unat_eq_0)
  then show "n = 0 \<longleftrightarrow> v = 0" unfolding u by auto
qed

lemma print_number_ok:
  assumes "8 \<le> base" "base \<le> 16" "0 \<le> width c" "width c < 2 ^ 31" "\<bar>dwidth c\<bar> < 2 ^ 30"
    and v: "v = (if sign c then sint num else uint num)" "v \<noteq> - (2 ^ 63)"
  shows "print_number c base num =
    (let ds = num_text base (nat \<bar>v\<bar>) (upper c); sg = (if v < 0 then ''-'' else '''');
         pre = num_prefix c base (v \<noteq> 0);
         dw = (if \<not> ladjust c \<and> padc c = CHR ''0'' then nat (width c) - length (sg @ pre) else nat (dwidth c));
         body = sg @ pre @ replicate (dw - length ds) CHR ''0'' @ ds;
         pad = replicate (nat (width c) - length body) CHR '' '' in
     Some (if ladjust c then body @ pad else pad @ body))"
proof -
  define ng where "ng = (sign c \<and> sint num < 0)"
  define n where "n = (if ng then - num else num)"
  note m = magnitude [OF v, folded ng_def, folded n_def]
  define ds where "ds = ksprintn_digits (nat \<bar>v\<bar>) base (upper c)"
  have lim: "nat \<bar>v\<bar> < 2 ^ 64" using unsigned_less [of n] unfolding m(1) [symmetric] by simp
  note k = ksprintn_ok [OF assms(1,2) lim, of "upper c", folded ds_def]
  have p: "num_prefix c base (v \<noteq> 0) = (if sharpflag c \<and> n \<noteq> 0 then (if base = 8 then ''0'' else if base = 16 then ''0x'' else '''') else '''')"
    using m(4) by (simp add: num_prefix_def)
  define pre where "pre = num_prefix c base (v \<noteq> 0)"
  have tmp: "(if sharpflag c \<and> n \<noteq> 0 then (if base = 8 then 1 else if base = 16 then 2 else 0) else 0) = int (length pre)" "length pre \<le> 2"
    unfolding pre_def p by auto
  define t where "t = int (length pre) + (if v < 0 then 1 else 0)"
  define dw where "dw = (if \<not> ladjust c \<and> padc c = CHR ''0'' then width c - t else dwidth c)"
  define used where "used = t + imax dw (int (length ds))"
  have t: "0 \<le> t" "t \<le> 3" using tmp(2) by (auto simp: t_def)
  have ok: "int_ok used" "int_ok (width c - used)" "int_ok (width c - used - 1)" "int_ok (dw - int (length ds))" "int_ok (dw - int (length ds) - 1)"
    using assms(3-5) t k(2) by (auto simp: int_ok_def used_def dw_def imax_def)
  have e: "print_number c base num = Some ((if \<not> ladjust c then rep (width c - used) CHR '' '' else '''') @ (if v < 0 then ''-'' else '''') @
      pre @ rep (dw - int (length ds)) CHR ''0'' @ rev ds @ (if ladjust c then rep (width c - used) CHR '' '' else ''''))"
    unfolding print_number_def Let_def
    unfolding ng_def [symmetric]
    unfolding n_def [symmetric] m(1)
    unfolding k(1) bind.simps m(2) tmp(1)
    unfolding t_def [symmetric] p [symmetric]
    unfolding dw_def [symmetric] pre_def [symmetric]
    unfolding used_def [symmetric]
    using m(3) ok by simp
  have w: "nat (width c - used) = nat (width c) - (length (if v < 0 then ''-'' else '''') + (length pre + (nat dw - length ds + length ds)))"
    using assms(3) t by (auto simp: used_def imax_def t_def)
  have d: "nat dw = (if \<not> ladjust c \<and> padc c = CHR ''0'' then nat (width c) - length ((if v < 0 then ''-'' else '''') @ pre) else nat (dwidth c))"
    by (auto simp: dw_def t_def)
  show ?thesis unfolding e Let_def pre_def [symmetric] num_text_def ds_def [symmetric] d [symmetric] rep_def w
    by (auto simp: nat_diff_distrib')
qed

section \<open>The printed text\<close>

lemma vprintf_plain:
  "CHR ''%'' \<notin> set pre \<Longrightarrow> vprintf_text False (pre @ r) ap = map_option (append pre) (vprintf_text False r ap)"
  by (induction pre; cases "vprintf_text False r ap") auto

text \<open>A text printed as \<^verbatim>\<open>%\<close> directives of itself: doubling every percent sign prints the text.\<close>

fun escape :: "string \<Rightarrow> string" where
  "escape [] = []"
| "escape (c # cs) = (if c = CHR ''%'' then ''%%'' else [c]) @ escape cs"

lemma vprintf_escape: "vprintf_text False (escape s) ap = Some s"
  by (induction s) (auto simp: conv_step_def Let_def)

text \<open>An unknown directive is printed as it stands, and so is the rest of the format.\<close>

lemma vprintf_stopped: "vprintf_text True s ap = Some s"
  by (induction s) auto

lemma vprintf_star_d:
  assumes "CHR ''%'' \<notin> set pre" "sint (w :: u32) \<noteq> - (2 ^ 31)"
  shows "vprintf_text False (pre @ ''%*d'' @ post) (Word w # Word x # ap) =
    map_option (append (pre @ the (print_number (conv_init\<lparr>sign := True, ladjust := (sint w < 0), width := \<bar>sint w\<bar>\<rparr>) 10 (scast x))))
      (do { _ \<leftarrow> print_number (conv_init\<lparr>sign := True, ladjust := (sint w < 0), width := \<bar>sint w\<bar>\<rparr>) 10 (scast x); vprintf_text False post ap })"
proof -
  have b: "int_ok (- sint w)" if "sint w < 0" using that assms(2) sint_ge [of w] by (auto simp: int_ok_def)
  show ?thesis unfolding vprintf_plain [OF assms(1)]
    by (cases "sint w < 0"; cases "vprintf_text False post ap"; cases "print_number (conv_init\<lparr>sign := True, ladjust := (sint w < 0), width := \<bar>sint w\<bar>\<rparr>) 10 (scast x)")
       (simp_all add: conv_step_def conv_number_def conv_init_def Let_def b is_digit_def)
qed

text \<open>
  C25. A directive \<^verbatim>\<open>%*d\<close> anywhere in a format prints the shortest decimal numeral of its argument, which reads back as
  the argument, with a minus sign in front of it when the argument is negative, in a field of the width given: to
  the right of the field, or to the left when the width is negative. The text in front is printed as it stands
  and the rest of the format is printed with the remaining arguments.
\<close>

theorem printf_decimal_field:
  assumes "CHR ''%'' \<notin> set pre" "sint (w :: u32) \<noteq> - (2 ^ 31)"
  shows "let ds = num_text 10 (nat \<bar>sint x\<bar>) False; body = (if sint x < 0 then ''-'' else '''') @ ds;
      pad = replicate (nat \<bar>sint w\<bar> - length body) CHR '' '' in
    text_val 10 0 ds = nat \<bar>sint x\<bar> \<and> (\<forall>ch\<in>set ds. hexv ch < 10) \<and> (hd ds = CHR ''0'' \<longrightarrow> ds = ''0'') \<and>
    vprintf_text False (pre @ ''%*d'' @ post) (Word w # Word x # ap) =
      map_option (append (pre @ (if sint w < 0 then body @ pad else pad @ body))) (vprintf_text False post ap)"
proof -
  let ?c = "conv_init\<lparr>sign := True, ladjust := (sint w < 0), width := \<bar>sint w\<bar>\<rparr>"
  have v: "sint x = (if sign ?c then sint (scast x :: u64) else uint (scast x :: u64))" by (simp add: sint_up_scast is_up)
  have n: "sint x \<noteq> - (2 ^ 63)" using sint_ge [of x] by auto
  have r: "\<bar>sint w\<bar> < 2 ^ 31" using sint_ge [of w] sint_lt [of w] assms(2) by auto
  note p = print_number_ok [of 10 ?c "sint x" "scast x", OF _ _ _ _ _ v n]
  show ?thesis using p r num_text_ok [of 10 "nat \<bar>sint x\<bar>" False]
    unfolding vprintf_star_d [OF assms] by (simp add: conv_init_def num_prefix_def Let_def)
qed

text \<open>A format that ends inside a directive is read behind its end.\<close>

lemma printf_trailing_percent: "CHR ''%'' \<notin> set pre \<Longrightarrow> vprintf_text False (pre @ ''%'') ap = None"
  by (simp add: vprintf_plain)


theorem printf_decimal_field_witness:
  "vprintf_text False ''x=%*d;'' [Word 6, Word (- 42)] = Some ''x=   -42;''"
proof -
  have "num_text 10 42 False = ''42''" by (simp add: num_text_def ksprintn_digits.simps hex2ascii_data_def)
  moreover have "sint (- 42 :: u32) = - 42" "sint (6 :: u32) = 6" by simp_all
  ultimately show ?thesis using printf_decimal_field [of "''x=''" 6 "- 42" "'';''" "[]"]
    by (simp add: Let_def numeral_eq_Suc)
qed

section \<open>Printers\<close>

text \<open>The disk log printer: a buffer of 128 bytes on the stack, handed to the log when it is full.\<close>

record 's disklog_context =
  dc_buffer :: "u8 list"
  dc_ptr :: nat
  dc_log :: disk_log
  dc_st :: 's

definition byte_of :: "char \<Rightarrow> u8" where
  "byte_of c = word_of_nat (of_char c)"

definition disklog_put_char :: "'st writer \<Rightarrow> char \<Rightarrow> 'st disklog_context \<Rightarrow> 'st disklog_context option" where
  "disklog_put_char wr c dc =
     (if dc_ptr dc \<ge> length (dc_buffer dc) then None
      else
        let buf = (dc_buffer dc)[dc_ptr dc := byte_of c]; dc = dc\<lparr>dc_buffer := buf, dc_ptr := dc_ptr dc + 1\<rparr> in
        if dc_ptr dc = length buf then
          do { (st, l, _) \<leftarrow> disklog_input wr (Some buf) (dc_ptr dc) (dc_log dc) (dc_st dc);
               Some (dc\<lparr>dc_ptr := 0, dc_log := l, dc_st := st\<rparr>) }
        else Some dc)"

text \<open>\<open>buf\<close> is what the buffer holds before it is written.\<close>

definition disklog_format ::
    "'st writer \<Rightarrow> u8 list \<Rightarrow> string option \<Rightarrow> arg list \<Rightarrow> disk_log \<Rightarrow> 'st \<Rightarrow> (int \<times> disk_log \<times> 'st) option" where
  "disklog_format wr buf fmt ap l st =
     do { (len, dc) \<leftarrow> IO_Vprintf (disklog_put_char wr) fmt ap \<lparr>dc_buffer = buf, dc_ptr = 0, dc_log = l, dc_st = st\<rparr>;
          if dc_ptr dc > 0
          then do { (st, l, _) \<leftarrow> disklog_input wr (Some (dc_buffer dc)) (dc_ptr dc) (dc_log dc) (dc_st dc); Some (len, l, st) }
          else Some (len, dc_log dc, dc_st dc) }"

text \<open>The circular queue printer. The buffer is a null pointer until something stores one; a character written to it
  or behind its end is \<^const>\<open>None\<close>.\<close>

record queue_context =
  b_buf :: "u8 list option"
  cb_head :: nat
  cb_tail :: nat
  qc_size :: nat

definition cqueue_put_char :: "char \<Rightarrow> queue_context \<Rightarrow> queue_context option" where
  "cqueue_put_char c qc =
     (case b_buf qc of
        None \<Rightarrow> None
      | Some buf \<Rightarrow>
          if cb_head qc \<ge> length buf then None
          else
            let qc = qc\<lparr>b_buf := Some (buf[cb_head qc := byte_of c]),
                        cb_head := unat (word_of_nat (cb_head qc + 1) AND (word_of_nat (qc_size qc) - 1 :: u32))\<rparr> in
            Some (if cb_head qc = cb_tail qc then qc\<lparr>cb_tail := cb_tail qc + 1\<rparr> else qc))"

definition cqueue_format :: "string option \<Rightarrow> arg list \<Rightarrow> queue_context \<Rightarrow> (int \<times> queue_context) option" where
  "cqueue_format fmt ap qc = IO_Vprintf cqueue_put_char fmt ap qc"

definition queue_format_init :: "u8 list \<Rightarrow> u32 \<Rightarrow> queue_context \<Rightarrow> queue_context option" where
  "queue_format_init buffer sz qc =
     (if \<not> powerof2 sz then None else Some (qc\<lparr>cb_head := 0, cb_tail := 0, qc_size := unat sz\<rparr>))"

section \<open>Logging a text\<close>

text \<open>The last \<open>sz\<close> bytes of a sequence.\<close>

definition newest :: "nat \<Rightarrow> u8 list \<Rightarrow> u8 list" where
  "newest sz xs = drop (length xs - sz) xs"

lemma newest_newest: "newest sz (newest sz xs @ ys) = newest sz (xs @ ys)"
  by (cases "length xs \<le> sz") (auto simp: newest_def add.commute)

lemma newest_short: "length xs \<le> sz \<Longrightarrow> newest sz xs = xs"
  by (simp add: newest_def)

definition pending :: "'st disklog_context \<Rightarrow> u8 list" where
  "pending dc = take (dc_ptr dc) (dc_buffer dc)"

text \<open>The state of the printer stands for the log followed by the bytes still in the buffer.\<close>

definition log_state ::
    "('st \<Rightarrow> u8 list \<Rightarrow> bool) \<Rightarrow> nat \<Rightarrow> nat \<Rightarrow> nat \<Rightarrow> 'st disklog_context \<Rightarrow> u8 list \<Rightarrow> bool" where
  "log_state repr plen s sz dc xs \<longleftrightarrow>
     (\<exists>c. repr (dc_st dc) c \<and> log_inv plen (dc_log dc) \<and> dl_start (dc_log dc) = s \<and> dl_size (dc_log dc) = sz \<and>
        length (dc_buffer dc) = 128 \<and> dc_ptr dc < 128 \<and>
        newest sz (log_bytes (dc_log dc) c @ pending dc) = newest sz xs)"

context byte_array
begin

lemma log_append:
  assumes "repr st c" "log_inv plen l" "0 < n" "n \<le> length buf" "dl_size l + 128 < 2 ^ 32" "n \<le> 128"
  shows "\<exists>st' l' c'. disklog_input wr (Some buf) n l st = Some (st', l', 0) \<and> repr st' c' \<and> log_inv plen l' \<and>
    dl_start l' = dl_start l \<and> dl_size l' = dl_size l \<and> log_bytes l' c' = newest (dl_size l) (log_bytes l c @ take n buf)"
proof -
  have "dl_d_size l + n < 2 ^ 32" using assms(2,5,6) by (auto simp: log_inv_def)
  from disklog_input_ok [OF assms(1-4) this] show ?thesis using assms(4) by (auto simp: newest_def min_def)
qed

lemma put_char_state:
  assumes "log_state repr plen s sz dc xs" "sz + 128 < 2 ^ 32"
  shows "\<exists>dc'. disklog_put_char wr ch dc = Some dc' \<and> log_state repr plen s sz dc' (xs @ [byte_of ch])"
proof -
  obtain c where c: "repr (dc_st dc) c" "log_inv plen (dc_log dc)" "dl_start (dc_log dc) = s" "dl_size (dc_log dc) = sz"
    "length (dc_buffer dc) = 128" "dc_ptr dc < 128" "newest sz (log_bytes (dc_log dc) c @ pending dc) = newest sz xs"
    using assms(1) by (auto simp: log_state_def)
  let ?buf = "(dc_buffer dc)[dc_ptr dc := byte_of ch]"
  have t: "take (Suc (dc_ptr dc)) ?buf = pending dc @ [byte_of ch]"
    using c(5,6) by (simp add: take_Suc_conv_app_nth pending_def)
  have n: "newest sz (log_bytes (dc_log dc) c @ pending dc @ [byte_of ch]) = newest sz (xs @ [byte_of ch])"
    using newest_newest [of sz "log_bytes (dc_log dc) c @ pending dc" "[byte_of ch]"] newest_newest [of sz xs "[byte_of ch]"] c(7) by simp
  show ?thesis
  proof (cases "Suc (dc_ptr dc) = 128")
    case True
    have f: "take 128 ?buf = pending dc @ [byte_of ch]" using t True by simp
    obtain st' l' c' where "disklog_input wr (Some ?buf) 128 (dc_log dc) (dc_st dc) = Some (st', l', 0)"
        "repr st' c'" "log_inv plen l'" "dl_start l' = s" "dl_size l' = sz"
        "log_bytes l' c' = newest sz (log_bytes (dc_log dc) c @ pending dc @ [byte_of ch])"
      using log_append [OF c(1,2), of 128 ?buf] c(3-5) assms(2) unfolding f by auto
    then show ?thesis using c(5,6) True n newest_newest [of sz _ "[]"]
      by (auto simp: disklog_put_char_def log_state_def Let_def pending_def intro!: exI [of _ c'])
  next
    case False
    then show ?thesis using c t n by (auto simp: disklog_put_char_def log_state_def Let_def pending_def)
  qed
qed

lemma put_text_state:
  assumes "log_state repr plen s sz dc xs" "sz + 128 < 2 ^ 32"
  shows "\<exists>dc'. fold (\<lambda>c r. r \<bind> disklog_put_char wr c) out (Some dc) = Some dc' \<and> log_state repr plen s sz dc' (xs @ map byte_of out)"
  using assms(1)
proof (induction out arbitrary: dc xs)
  case (Cons ch out)
  from put_char_state [OF Cons.prems assms(2), of ch] obtain dc1 where
    "disklog_put_char wr ch dc = Some dc1" "log_state repr plen s sz dc1 (xs @ [byte_of ch])" by auto
  then show ?case using Cons.IH [of dc1 "xs @ [byte_of ch]"] by simp
qed auto

lemma disklog_format_ok:
  assumes "repr st c" "log_inv plen l" "dl_size l + 128 < 2 ^ 32" "length buf = 128"
    and out: "vprintf_text False fmt ap = Some out" "length out < 2 ^ 31"
  shows "\<exists>st' l' c'. disklog_format wr buf (Some fmt) ap l st = Some (int (length out), l', st') \<and> repr st' c' \<and>
    log_inv plen l' \<and> dl_start l' = dl_start l \<and> dl_size l' = dl_size l \<and>
    log_bytes l' c' = newest (dl_size l) (log_bytes l c @ map byte_of out)"
proof -
  let ?d0 = "\<lparr>dc_buffer = buf, dc_ptr = 0, dc_log = l, dc_st = st\<rparr>"
  have "log_state repr plen (dl_start l) (dl_size l) ?d0 (log_bytes l c)"
    using assms(1,2,4) by (auto simp: log_state_def pending_def)
  from put_text_state [OF this assms(3), of out] obtain dc where
    dc: "fold (\<lambda>c r. r \<bind> disklog_put_char wr c) out (Some ?d0) = Some dc"
      "log_state repr plen (dl_start l) (dl_size l) dc (log_bytes l c @ map byte_of out)" by auto
  have v: "IO_Vprintf (disklog_put_char wr) (Some fmt) ap ?d0 = Some (int (length out), dc)"
    using out dc(1) by (simp add: IO_Vprintf_def int_ok_def)
  obtain c1 where c1: "repr (dc_st dc) c1" "log_inv plen (dc_log dc)" "dl_start (dc_log dc) = dl_start l" "dl_size (dc_log dc) = dl_size l"
    "length (dc_buffer dc) = 128" "dc_ptr dc < 128"
    "newest (dl_size l) (log_bytes (dc_log dc) c1 @ pending dc) = newest (dl_size l) (log_bytes l c @ map byte_of out)"
    using dc(2) by (auto simp: log_state_def)
  show ?thesis
  proof (cases "dc_ptr dc = 0")
    case True
    have "dl_d_size (dc_log dc) \<le> dl_size l" using c1(2,4) by (auto simp: log_inv_def)
    then have "log_bytes (dc_log dc) c1 = newest (dl_size l) (log_bytes l c @ map byte_of out)"
      using c1(7) True by (simp add: pending_def newest_short)
    then show ?thesis using v c1 True by (auto simp: disklog_format_def)
  next
    case False
    then show ?thesis using log_append [OF c1(1,2), of "dc_ptr dc" "dc_buffer dc"] v c1(3-7) assms(3)
      by (auto simp: disklog_format_def pending_def)
  qed
qed

end

text \<open>
  C24. A text printed through the disk log printer ends up in the log: for a format that prints \<open>out\<close>, the log holds the
  newest bytes of what it held followed by \<open>out\<close>, whatever the number of times the buffer fills up; the result is
  the number of characters.
\<close>

theorem printer_logs_text:
  assumes "part_sim devs cont ok ps i st c" "log_inv (part_len ps i) l" "dl_size l + 128 < 2 ^ 32" "length buf = 128"
    "vprintf_text False fmt ap = Some out" "length out < 2 ^ 31"
  shows "\<exists>st' l' c'. disklog_format (lgpt_write ps (Top i)) buf (Some fmt) ap l st = Some (int (length out), l', st') \<and>
    part_sim devs cont ok ps i st' c' \<and> log_inv (part_len ps i) l' \<and> dl_start l' = dl_start l \<and> dl_size l' = dl_size l \<and>
    log_bytes l' c' = newest (dl_size l) (log_bytes l c @ map byte_of out)"
  using assms by (rule lg.disklog_format_ok)

theorem printer_logs_text_witness:
  "\<exists>st' l' c'. disklog_format (lgpt_write demo_parts (Top 0)) (replicate 128 0) (Some ''a%%b'') [] demo_log vflash_boot =
      Some (3, l', st') \<and> log_bytes l' c' = replicate 7 0 @ [97, 37, 98]"
proof -
  have v: "vprintf_text False ''a%%b'' [] = Some ''a%b''" using vprintf_escape [of "''a%b''" "[]"] by simp
  have b: "map byte_of ''a%b'' = [97, 37, 98]" by (simp add: byte_of_def)
  show ?thesis using printer_logs_text [OF demo_part_sim(1) demo_log_ok(2), of "replicate 128 0", OF _ _ v]
    unfolding demo_log_bytes b by (auto simp: demo_log_def newest_def)
qed

text \<open>The queue printer is never given its buffer: the first character goes through the null pointer.\<close>

lemma queue_printer_null_buffer:
  assumes "b_buf qc = None" "queue_format_init buffer sz qc = Some qc'" "vprintf_text False fmt ap = Some out" "out \<noteq> []"
  shows "cqueue_format (Some fmt) ap qc' = None"
proof -
  have n: "fold (\<lambda>c r. r \<bind> cqueue_put_char c) cs None = None" for cs by (induction cs) auto
  have "b_buf qc' = None" using assms(1,2) by (auto simp: queue_format_init_def split: if_splits)
  then have "fold (\<lambda>c r. r \<bind> cqueue_put_char c) out (Some qc') = None"
    using assms(4) by (cases out) (auto simp: cqueue_put_char_def n)
  then show ?thesis using assms(3) by (simp add: cqueue_format_def IO_Vprintf_def)
qed

text \<open>With a buffer, the tail runs past the end: after eight characters a queue of four has the tail 4, so that
  \<^verbatim>\<open>CIRC_CNT\<close> counts no character at all.\<close>

lemma queue_printer_tail_escapes:
  "map_option (\<lambda>(n, qc). (cb_head qc, cb_tail qc)) (cqueue_format (Some ''abcdefgh'') [] \<lparr>b_buf = Some (replicate 4 0), cb_head = 0, cb_tail = 0, qc_size = 4\<rparr>) =
     Some (0, 4)"
  by code_simp

end
