(* ===== verification/Motor.thy ===== *)
theory Motor
  imports Prelude
begin

text \<open>
  \<^verbatim>\<open>basework/drive/motor/motor.c\<close>, the vibration motor. The static variables are the record \<open>motor\<close>; each function returns
  them with the calls it makes, in order: of the pin driver \<^verbatim>\<open>gpio_if.h\<close> and of the timer, always
  \<^verbatim>\<open>motor_vibration_timer\<close>. Every function returns \<^verbatim>\<open>ERR_SUCCESS\<close>.
\<close>

section \<open>State and operations\<close>

datatype pin = MOTOR_POWER_EN | MOTOR_GPIO_EN

datatype motor_effect =
    Gpio_config pin
  | Gpio_set pin bool
  | Timer_create
  | Timer_add int
  | Timer_del

record motor =
  m_mode :: int
  m_times :: u8
  m_ss_flag :: bool

definition MOTOR_VIBRATION_MODE_DEFAULT :: int where "MOTOR_VIBRATION_MODE_DEFAULT = 100"

definition motor_boot :: motor where
  "motor_boot = \<lparr>m_mode = MOTOR_VIBRATION_MODE_DEFAULT, m_times = 0, m_ss_flag = False\<rparr>"

definition motor_vibration_mode_set :: "int \<Rightarrow> motor \<Rightarrow> motor" where
  "motor_vibration_mode_set mode m = m\<lparr>m_mode := mode\<rparr>"

definition motor_vibration_mode_get :: "motor \<Rightarrow> int" where
  "motor_vibration_mode_get m = m_mode m"

definition motor_vibration_start :: "u8 \<Rightarrow> motor \<Rightarrow> motor \<times> motor_effect list" where
  "motor_vibration_start nt m =
     (m\<lparr>m_ss_flag := True, m_times := nt\<rparr>,
      [Gpio_set MOTOR_POWER_EN True, Gpio_set MOTOR_GPIO_EN True, Timer_add (m_mode m)])"

definition motor_vibration_stop :: "motor \<Rightarrow> motor \<times> motor_effect list" where
  "motor_vibration_stop m =
     (m\<lparr>m_times := 0\<rparr>, [Timer_del, Gpio_set MOTOR_POWER_EN False, Gpio_set MOTOR_GPIO_EN False])"

definition motor_vibration_timer_handler :: "motor \<Rightarrow> motor \<times> motor_effect list" where
  "motor_vibration_timer_handler m =
     (let (m', es) =
        (if m_ss_flag m then
           let m' = m\<lparr>m_times := m_times m - 1\<rparr> in
           (m', [Gpio_set MOTOR_GPIO_EN False] @
                (if m_times m' > 0 then [Timer_add (m_mode m')] else [Gpio_set MOTOR_POWER_EN False]))
         else (m, [Gpio_set MOTOR_GPIO_EN True, Timer_add (m_mode m)])) in
      (m'\<lparr>m_ss_flag := \<not> m_ss_flag m'\<rparr>, es))"

definition motor_init :: "motor \<Rightarrow> motor \<times> motor_effect list" where
  "motor_init m =
     (m, [Gpio_config MOTOR_POWER_EN, Gpio_set MOTOR_POWER_EN False, Gpio_config MOTOR_GPIO_EN, Gpio_set MOTOR_GPIO_EN False,
          Timer_create])"

section \<open>Runs\<close>

text \<open>Whether the effects of a call leave the timer running, and the runs of the handler until it is not.\<close>

fun armed :: "bool \<Rightarrow> motor_effect list \<Rightarrow> bool" where
  "armed a [] = a"
| "armed a (Timer_add _ # es) = armed True es"
| "armed a (Timer_del # es) = armed False es"
| "armed a (_ # es) = armed a es"

fun motor_run :: "nat \<Rightarrow> motor \<times> motor_effect list \<Rightarrow> (motor \<times> motor_effect list) option" where
  "motor_run n (m, es) =
     (if \<not> armed False es then Some (m, es)
      else case n of
             0 \<Rightarrow> None
           | Suc n \<Rightarrow> map_option (apsnd (append es)) (motor_run n (motor_vibration_timer_handler m)))"

declare motor_run.simps [simp del]

text \<open>The pulses of a run: the motor is on for one period and off for one period, and without power at the end.\<close>

definition pulses :: "int \<Rightarrow> nat \<Rightarrow> motor_effect list" where
  "pulses mode k =
     concat (replicate k [Gpio_set MOTOR_GPIO_EN True, Timer_add mode, Gpio_set MOTOR_GPIO_EN False, Timer_add mode]) @
     [Gpio_set MOTOR_GPIO_EN True, Timer_add mode, Gpio_set MOTOR_GPIO_EN False, Gpio_set MOTOR_POWER_EN False]"

lemma neg_one255: "unat (- 1 :: u8) = 255" "(- 1 :: u8) = 255"
  by code_simp+

lemma motor_run_pulses:
  assumes "m_ss_flag m" "unat (m_times m - 1) = k" "2 * k < n"
  shows "motor_run n (m, [Gpio_set MOTOR_GPIO_EN True, Timer_add (m_mode m)]) =
    Some (m\<lparr>m_times := 0, m_ss_flag := False\<rparr>, pulses (m_mode m) k)"
  using assms
proof (induction k arbitrary: m n)
  case 0
  then have "m_times m = 1" by (simp add: unat_eq_0)
  with 0 show ?case by (cases n)
      (simp_all add: motor_run.simps motor_vibration_timer_handler_def pulses_def)
next
  case (Suc k)
  let ?on = "[Gpio_set MOTOR_GPIO_EN True, Timer_add (m_mode m)]" and ?off = "[Gpio_set MOTOR_GPIO_EN False, Timer_add (m_mode m)]"
  let ?m1 = "m\<lparr>m_times := m_times m - 1, m_ss_flag := False\<rparr>" and ?m2 = "m\<lparr>m_times := m_times m - 1, m_ss_flag := True\<rparr>"
  from Suc.prems(3) obtain n' where n: "n = Suc (Suc n')" "2 * k < n'" by (cases n; cases "n - 1") auto
  have gt: "m_times m - 1 > 0" using Suc.prems(2) by (metis Zero_neq_Suc unat_0 word_gt_0)
  have h1: "motor_vibration_timer_handler m = (?m1, ?off)" using Suc.prems(1) gt by (simp add: motor_vibration_timer_handler_def)
  have h2: "motor_vibration_timer_handler ?m1 = (?m2, ?on)" by (simp add: motor_vibration_timer_handler_def)
  have "unat (m_times m - 1 - 1) = k" using Suc.prems(2) unat_minus_one [of "m_times m - 1"] gt by (cases "m_times m = 1") auto
  then have IH: "motor_run n' (?m2, ?on) = Some (m\<lparr>m_times := 0, m_ss_flag := False\<rparr>, pulses (m_mode m) k)"
    using Suc.IH [of ?m2 n'] n(2) by simp
  have "motor_run (Suc n') (?m1, ?off) = map_option (apsnd (append ?off)) (motor_run n' (?m2, ?on))"
    by (subst motor_run.simps) (simp add: h2)
  moreover have "motor_run n (m, ?on) = map_option (apsnd (append ?on)) (motor_run (Suc n') (?m1, ?off))"
    unfolding n(1) by (subst motor_run.simps) (simp add: h1)
  ultimately show ?case by (simp add: IH pulses_def)
qed

text \<open>A vibration request for \<open>nt\<close> pulses switches the power on, drives the motor on and off once per pulse, each for
  a period of the mode set, and ends with both pins off and no timer running. The counter of eight bits wraps at
  zero: a request for no pulse gives 256.
\<close>

theorem motor_pulses:
  assumes "512 \<le> n"
  shows "motor_run n (motor_vibration_start nt m) =
    Some (m\<lparr>m_times := 0, m_ss_flag := False\<rparr>,
      Gpio_set MOTOR_POWER_EN True # pulses (m_mode m) ((if nt = 0 then 256 else unat nt) - 1))"
proof -
  let ?m = "m\<lparr>m_ss_flag := True, m_times := nt\<rparr>" and ?on = "[Gpio_set MOTOR_GPIO_EN True, Timer_add (m_mode m)]"
  let ?k = "(if nt = 0 then 256 else unat nt) - 1"
  have k: "unat (nt - 1) = ?k" using unat_minus_one [of nt] neg_one255(1) by auto
  have "2 * ?k < n" using assms unsigned_less [of nt, where 'a = nat] by auto
  then have r: "motor_run n (?m, ?on) = Some (m\<lparr>m_times := 0, m_ss_flag := False\<rparr>, pulses (m_mode m) ?k)"
    using motor_run_pulses [of ?m ?k n] k by simp
  have "motor_run n (?m, Gpio_set MOTOR_POWER_EN True # ?on) = map_option (apsnd (Cons (Gpio_set MOTOR_POWER_EN True))) (motor_run n (?m, ?on))"
    using assms by (cases n) (simp_all add: motor_run.simps [of "Suc _"] option.map_comp comp_def apsnd_def map_prod_def split_def)
  then show ?thesis by (simp add: motor_vibration_start_def r)
qed

theorem motor_pulses_witness:
  "motor_run 512 (motor_vibration_start 2 motor_boot) =
     Some (motor_boot, [Gpio_set MOTOR_POWER_EN True, Gpio_set MOTOR_GPIO_EN True, Timer_add 100, Gpio_set MOTOR_GPIO_EN False,
       Timer_add 100, Gpio_set MOTOR_GPIO_EN True, Timer_add 100, Gpio_set MOTOR_GPIO_EN False, Gpio_set MOTOR_POWER_EN False])"
  using motor_pulses [of 512 2 motor_boot] by (simp add: pulses_def motor_boot_def MOTOR_VIBRATION_MODE_DEFAULT_def)

text \<open>A handler that was already due when \<^verbatim>\<open>motor_vibration_stop\<close> ran starts the motor again, for 255 more pulses.\<close>

lemma motor_stop_race:
  assumes "m_ss_flag m" "motor_vibration_stop m = (m', es)"
  shows "motor_vibration_timer_handler m' =
    (m\<lparr>m_times := 255, m_ss_flag := False\<rparr>, [Gpio_set MOTOR_GPIO_EN False, Timer_add (m_mode m)])"
proof -
  have "m' = m\<lparr>m_times := 0\<rparr>" using assms(2) by (simp add: motor_vibration_stop_def)
  then show ?thesis using assms(1) by (simp add: motor_vibration_timer_handler_def neg_one255(2) Let_def)
qed

end
