(* ===== verification/Bdbuf.thy ===== *)
theory Bdbuf
  imports Avl
begin

text \<open>
  \<^verbatim>\<open>basework/lib/block/bdbuf.c\<close>, the block device buffer cache around the tree of \<open>Avl\<close>: buffer descriptors with their states,
  groups, chains and waiters. A descriptor is its index in \<^verbatim>\<open>bdbuf_cache.bds\<close>, a device a number that is not 0
  (\<^verbatim>\<open>BDBUF_INVALID_DEV\<close>), and a chain the list of its descriptors. Each function here is one critical section or a
  part of one, from taking the cache lock to releasing it or to a wait on a condition variable, which releases it.
  \<^verbatim>\<open>rtems_bdbuf_fatal\<close>, which asserts, and the extraction of a descriptor that is on no chain are \<^const>\<open>None\<close>.
\<close>

section \<open>State\<close>

datatype bdstate = FREE | EMPTY | CACHED | ACCESS_CACHED | ACCESS_MODIFIED | ACCESS_EMPTY | ACCESS_PURGED
  | MODIFIED | SYNC | TRANSFER | TRANSFER_PURGED

record rtems_bdbuf_buffer =
  b_dd :: nat
  b_block :: nat
  b_state :: bdstate
  b_waiters :: int
  b_hold :: nat
  b_data :: "u8 list"

datatype chain = Lru | Modified | Sync

text \<open>The three condition variables with their counters.\<close>

datatype waitq = Access_q | Transfer_q | Buffer_q

text \<open>The read-ahead data of a device and its statistics, unsigned 32-bit numbers.\<close>

record rtems_blkdev_read_ahead =
  ra_trigger :: nat
  ra_next :: nat
  ra_nr_blocks :: nat

record rtems_blkdev_stats =
  read_hits :: nat
  read_misses :: nat
  read_ahead_transfers :: nat
  read_ahead_peeks :: nat
  read_blocks :: nat
  read_errors :: nat
  write_transfers :: nat
  write_blocks :: nat
  write_errors :: nat

record rtems_bdbuf_cache =
  bds :: "nat \<Rightarrow> rtems_bdbuf_buffer"
  max_bds_per_group :: nat
  group_count :: nat
  bds_per_group :: "nat \<Rightarrow> nat"
  g_users :: "nat \<Rightarrow> int"
  tree :: avl_tree
  chains :: "chain \<Rightarrow> nat list"
  waitcount :: "waitq \<Rightarrow> int"
  sync_active :: bool
  sync_device :: nat
  swapout_sync :: nat
  free_workers :: nat
  read_ahead :: "nat \<Rightarrow> rtems_blkdev_read_ahead"
  read_ahead_chain :: "nat list"
  read_ahead_sem :: nat
  stats :: "nat \<Rightarrow> rtems_blkdev_stats"

text \<open>A device, as far as the cache looks at it, and the configuration.\<close>

record rtems_disk_device =
  dd_start :: nat
  dd_size :: nat
  dd_media_block_size :: nat
  dd_block_size :: nat
  dd_block_count :: nat
  dd_media_blocks_per_block :: nat
  dd_shift :: int
  dd_bds_per_group :: nat
  dd_multisector_cont :: bool

record rtems_bdbuf_config =
  cf_size :: nat
  cf_buffer_min :: nat
  cf_buffer_max :: nat
  cf_max_write_blocks :: nat
  cf_swap_block_hold :: nat
  cf_swapout_workers :: nat
  cf_max_read_ahead_blocks :: nat

abbreviation st :: "rtems_bdbuf_cache \<Rightarrow> nat \<Rightarrow> bdstate" where
  "st c i \<equiv> b_state (bds c i)"

abbreviation wt :: "rtems_bdbuf_cache \<Rightarrow> nat \<Rightarrow> int" where
  "wt c i \<equiv> b_waiters (bds c i)"

text \<open>The group of a descriptor, set once by the initialisation.\<close>

definition grp :: "rtems_bdbuf_cache \<Rightarrow> nat \<Rightarrow> nat" where
  "grp c i = i div max_bds_per_group c"

definition bd_node :: "rtems_bdbuf_cache \<Rightarrow> nat \<Rightarrow> avl_node" where
  "bd_node c i = \<lparr>nd_dd = b_dd (bds c i), nd_block = b_block (bds c i), nd_buf = i\<rparr>"

section \<open>Elementary operations\<close>

definition rtems_bdbuf_set_state :: "nat \<Rightarrow> bdstate \<Rightarrow> rtems_bdbuf_cache \<Rightarrow> rtems_bdbuf_cache" where
  "rtems_bdbuf_set_state i s c = c\<lparr>bds := (bds c)(i := (bds c i)\<lparr>b_state := s\<rparr>)\<rparr>"

definition rtems_bdbuf_group_obtain :: "nat \<Rightarrow> rtems_bdbuf_cache \<Rightarrow> rtems_bdbuf_cache" where
  "rtems_bdbuf_group_obtain i c = c\<lparr>g_users := (g_users c)(grp c i := g_users c (grp c i) + 1)\<rparr>"

definition rtems_bdbuf_group_release :: "nat \<Rightarrow> rtems_bdbuf_cache \<Rightarrow> rtems_bdbuf_cache" where
  "rtems_bdbuf_group_release i c = c\<lparr>g_users := (g_users c)(grp c i := g_users c (grp c i) - 1)\<rparr>"

text \<open>\<^verbatim>\<open>rtems_bdbuf_wait\<close> up to the wait, and from the wake-up on.\<close>

definition rtems_bdbuf_wait :: "nat \<Rightarrow> waitq \<Rightarrow> rtems_bdbuf_cache \<Rightarrow> rtems_bdbuf_cache" where
  "rtems_bdbuf_wait i q c =
     (let c = rtems_bdbuf_group_obtain i c;
          c = c\<lparr>bds := (bds c)(i := (bds c i)\<lparr>b_waiters := wt c i + 1\<rparr>)\<rparr>
      in c\<lparr>waitcount := (waitcount c)(q := waitcount c q + 1)\<rparr>)"

definition rtems_bdbuf_woken :: "nat \<Rightarrow> waitq \<Rightarrow> rtems_bdbuf_cache \<Rightarrow> rtems_bdbuf_cache" where
  "rtems_bdbuf_woken i q c =
     (let c = c\<lparr>waitcount := (waitcount c)(q := waitcount c q - 1)\<rparr>;
          c = c\<lparr>bds := (bds c)(i := (bds c i)\<lparr>b_waiters := wt c i - 1\<rparr>)\<rparr>
      in rtems_bdbuf_group_release i c)"

definition rtems_bdbuf_anonymous_wait :: "waitq \<Rightarrow> rtems_bdbuf_cache \<Rightarrow> rtems_bdbuf_cache" where
  "rtems_bdbuf_anonymous_wait q c = c\<lparr>waitcount := (waitcount c)(q := waitcount c q + 1)\<rparr>"

definition anonymous_woken :: "waitq \<Rightarrow> rtems_bdbuf_cache \<Rightarrow> rtems_bdbuf_cache" where
  "anonymous_woken q c = c\<lparr>waitcount := (waitcount c)(q := waitcount c q - 1)\<rparr>"

definition rtems_bdbuf_wake_swapper :: "rtems_bdbuf_cache \<Rightarrow> rtems_bdbuf_cache" where
  "rtems_bdbuf_wake_swapper c = c\<lparr>swapout_sync := Suc (swapout_sync c)\<rparr>"

definition rtems_bdbuf_has_buffer_waiters :: "rtems_bdbuf_cache \<Rightarrow> bool" where
  "rtems_bdbuf_has_buffer_waiters c \<longleftrightarrow> waitcount c Buffer_q \<noteq> 0"

text \<open>A descriptor is extracted from the chain it is on.\<close>

definition chain_extract :: "nat \<Rightarrow> rtems_bdbuf_cache \<Rightarrow> rtems_bdbuf_cache option" where
  "chain_extract i c =
     (case filter (\<lambda>q. i \<in> set (chains c q)) [Lru, Modified, Sync] of
        [] \<Rightarrow> None
      | q # _ \<Rightarrow> Some (c\<lparr>chains := (chains c)(q := remove1 i (chains c q))\<rparr>))"

definition chain_append :: "chain \<Rightarrow> nat \<Rightarrow> rtems_bdbuf_cache \<Rightarrow> rtems_bdbuf_cache" where
  "chain_append q i c = c\<lparr>chains := (chains c)(q := chains c q @ [i])\<rparr>"

definition chain_prepend :: "chain \<Rightarrow> nat \<Rightarrow> rtems_bdbuf_cache \<Rightarrow> rtems_bdbuf_cache" where
  "chain_prepend q i c = c\<lparr>chains := (chains c)(q := i # chains c q)\<rparr>"

definition rtems_bdbuf_remove_from_tree :: "nat \<Rightarrow> rtems_bdbuf_cache \<Rightarrow> rtems_bdbuf_cache option" where
  "rtems_bdbuf_remove_from_tree i c =
     do { (t, e) \<leftarrow> rtems_bdbuf_avl_remove (tree c) (bd_node c i);
          if e \<noteq> 0 then None else Some (c\<lparr>tree := t\<rparr>) }"

definition rtems_bdbuf_remove_from_tree_and_lru_list :: "nat \<Rightarrow> rtems_bdbuf_cache \<Rightarrow> rtems_bdbuf_cache option" where
  "rtems_bdbuf_remove_from_tree_and_lru_list i c =
     (case st c i of
        FREE \<Rightarrow> chain_extract i c
      | CACHED \<Rightarrow> do { c \<leftarrow> rtems_bdbuf_remove_from_tree i c; chain_extract i c }
      | _ \<Rightarrow> None)"

definition rtems_bdbuf_make_free_and_add_to_lru_list :: "nat \<Rightarrow> rtems_bdbuf_cache \<Rightarrow> rtems_bdbuf_cache" where
  "rtems_bdbuf_make_free_and_add_to_lru_list i c = chain_prepend Lru i (rtems_bdbuf_set_state i FREE c)"

definition rtems_bdbuf_make_empty :: "nat \<Rightarrow> rtems_bdbuf_cache \<Rightarrow> rtems_bdbuf_cache" where
  "rtems_bdbuf_make_empty i c = rtems_bdbuf_set_state i EMPTY c"

definition rtems_bdbuf_make_cached_and_add_to_lru_list :: "nat \<Rightarrow> rtems_bdbuf_cache \<Rightarrow> rtems_bdbuf_cache" where
  "rtems_bdbuf_make_cached_and_add_to_lru_list i c = chain_append Lru i (rtems_bdbuf_set_state i CACHED c)"

definition rtems_bdbuf_discard_buffer :: "nat \<Rightarrow> rtems_bdbuf_cache \<Rightarrow> rtems_bdbuf_cache option" where
  "rtems_bdbuf_discard_buffer i c =
     (let c = rtems_bdbuf_make_empty i c in
      if wt c i = 0
      then do { c \<leftarrow> rtems_bdbuf_remove_from_tree i c; Some (rtems_bdbuf_make_free_and_add_to_lru_list i c) }
      else Some c)"

section \<open>After an access\<close>

text \<open>Behind the wait for a sync of the device. A broadcast lets waiting threads go on; that they may do so at any time is a
  matter of the system below.\<close>

definition rtems_bdbuf_add_to_modified_list_after_access ::
    "rtems_bdbuf_config \<Rightarrow> nat \<Rightarrow> rtems_bdbuf_cache \<Rightarrow> rtems_bdbuf_cache" where
  "rtems_bdbuf_add_to_modified_list_after_access cf i c =
     (let c = (if st c i = ACCESS_CACHED \<or> st c i = ACCESS_EMPTY
               then c\<lparr>bds := (bds c)(i := (bds c i)\<lparr>b_hold := cf_swap_block_hold cf\<rparr>)\<rparr> else c);
          c = chain_append Modified i (rtems_bdbuf_set_state i MODIFIED c)
      in if wt c i \<noteq> 0 then c
         else if rtems_bdbuf_has_buffer_waiters c then rtems_bdbuf_wake_swapper c else c)"

definition rtems_bdbuf_add_to_lru_list_after_access :: "nat \<Rightarrow> rtems_bdbuf_cache \<Rightarrow> rtems_bdbuf_cache" where
  "rtems_bdbuf_add_to_lru_list_after_access i c =
     rtems_bdbuf_make_cached_and_add_to_lru_list i (rtems_bdbuf_group_release i c)"

definition rtems_bdbuf_discard_buffer_after_access :: "nat \<Rightarrow> rtems_bdbuf_cache \<Rightarrow> rtems_bdbuf_cache option" where
  "rtems_bdbuf_discard_buffer_after_access i c = rtems_bdbuf_discard_buffer i (rtems_bdbuf_group_release i c)"

section \<open>Groups and free buffers\<close>

text \<open>The least power of two that is not below the given number.\<close>

function pow2_from :: "nat \<Rightarrow> nat \<Rightarrow> nat" where
  "pow2_from b n = (if b = 0 \<or> n \<le> b then b else pow2_from (2 * b) n)"
  by auto
termination
  by (relation "measure (\<lambda>(b, n). n - b)") auto

definition rtems_bdbuf_bds_per_group :: "rtems_bdbuf_config \<Rightarrow> rtems_bdbuf_cache \<Rightarrow> nat \<Rightarrow> nat" where
  "rtems_bdbuf_bds_per_group cf c sz =
     (if sz > cf_buffer_max cf then 0
      else max_bds_per_group c div pow2_from 1 ((sz - 1) div cf_buffer_min cf + 1))"

text \<open>The descriptors of a group that has \<open>n\<close> of them.\<close>

definition group_bds :: "rtems_bdbuf_cache \<Rightarrow> nat \<Rightarrow> nat \<Rightarrow> nat list" where
  "group_bds c g n = map (\<lambda>b. g * max_bds_per_group c + b * (max_bds_per_group c div n)) [0..<n]"

fun remove_all :: "nat list \<Rightarrow> rtems_bdbuf_cache \<Rightarrow> rtems_bdbuf_cache option" where
  "remove_all [] c = Some c"
| "remove_all (i # is) c = do { c \<leftarrow> rtems_bdbuf_remove_from_tree_and_lru_list i c; remove_all is c }"

definition rtems_bdbuf_group_realloc :: "nat \<Rightarrow> nat \<Rightarrow> rtems_bdbuf_cache \<Rightarrow> (nat \<times> rtems_bdbuf_cache) option" where
  "rtems_bdbuf_group_realloc g new_bds_per_group c =
     (if bds_per_group c g = 0 \<or> new_bds_per_group = 0 then None
      else do { c \<leftarrow> remove_all (group_bds c g (bds_per_group c g)) c;
          let c = c\<lparr>bds_per_group := (bds_per_group c)(g := new_bds_per_group)\<rparr>;
          let c = fold rtems_bdbuf_make_free_and_add_to_lru_list (tl (group_bds c g new_bds_per_group)) c;
          Some (g * max_bds_per_group c, c) })"

definition rtems_bdbuf_setup_empty_buffer :: "nat \<Rightarrow> nat \<Rightarrow> nat \<Rightarrow> rtems_bdbuf_cache \<Rightarrow> rtems_bdbuf_cache option" where
  "rtems_bdbuf_setup_empty_buffer i dd block c =
     (let c = c\<lparr>bds := (bds c)(i := (bds c i)\<lparr>b_dd := dd, b_block := block, b_waiters := 0\<rparr>)\<rparr> in
      do { (t, e) \<leftarrow> rtems_bdbuf_avl_insert (tree c) (bd_node c i);
           if e \<noteq> 0 then None else Some (rtems_bdbuf_make_empty i (c\<lparr>tree := t\<rparr>)) })"

fun lru_scan :: "nat \<Rightarrow> nat list \<Rightarrow> rtems_bdbuf_cache \<Rightarrow> (nat option \<times> rtems_bdbuf_cache) option" where
  "lru_scan n [] c = Some (None, c)"
| "lru_scan n (i # is) c =
     (if wt c i = 0 then
        if bds_per_group c (grp c i) = n
        then do { c \<leftarrow> rtems_bdbuf_remove_from_tree_and_lru_list i c; Some (Some i, c) }
        else if g_users c (grp c i) = 0
        then do { (j, c) \<leftarrow> rtems_bdbuf_group_realloc (grp c i) n c; Some (Some j, c) }
        else lru_scan n is c
      else lru_scan n is c)"

text \<open>\<open>n\<close> is the number of buffers per group of the device.\<close>

definition rtems_bdbuf_get_buffer_from_lru_list ::
    "nat \<Rightarrow> nat \<Rightarrow> nat \<Rightarrow> rtems_bdbuf_cache \<Rightarrow> (nat option \<times> rtems_bdbuf_cache) option" where
  "rtems_bdbuf_get_buffer_from_lru_list n dd block c =
     do { (r, c) \<leftarrow> lru_scan n (chains c Lru) c;
          case r of
            None \<Rightarrow> Some (None, c)
          | Some i \<Rightarrow> do { c \<leftarrow> rtems_bdbuf_setup_empty_buffer i dd block c; Some (Some i, c) } }"

section \<open>Getting a buffer\<close>

text \<open>A pass of the loops that wait: they end with a buffer, or the thread sleeps.\<close>

datatype sleep = Access_wait nat waitq | Recycle_wait nat waitq | Buffer_wait | Recycle_retry

datatype found = Found nat | Sleep sleep

definition rtems_bdbuf_wait_for_access :: "nat \<Rightarrow> rtems_bdbuf_cache \<Rightarrow> (found \<times> rtems_bdbuf_cache) option" where
  "rtems_bdbuf_wait_for_access i c =
     (case st c i of
        MODIFIED \<Rightarrow> do { c \<leftarrow> chain_extract i (rtems_bdbuf_group_release i c); Some (Found i, c) }
      | CACHED \<Rightarrow> do { c \<leftarrow> chain_extract i c; Some (Found i, c) }
      | EMPTY \<Rightarrow> Some (Found i, c)
      | FREE \<Rightarrow> None
      | SYNC \<Rightarrow> Some (Sleep (Access_wait i Transfer_q), rtems_bdbuf_wait i Transfer_q c)
      | TRANSFER \<Rightarrow> Some (Sleep (Access_wait i Transfer_q), rtems_bdbuf_wait i Transfer_q c)
      | TRANSFER_PURGED \<Rightarrow> Some (Sleep (Access_wait i Transfer_q), rtems_bdbuf_wait i Transfer_q c)
      | _ \<Rightarrow> Some (Sleep (Access_wait i Access_q), rtems_bdbuf_wait i Access_q c))"

definition rtems_bdbuf_request_sync_for_modified_buffer :: "nat \<Rightarrow> rtems_bdbuf_cache \<Rightarrow> rtems_bdbuf_cache option" where
  "rtems_bdbuf_request_sync_for_modified_buffer i c =
     do { c \<leftarrow> chain_extract i (rtems_bdbuf_set_state i SYNC c);
          Some (rtems_bdbuf_wake_swapper (chain_append Sync i c)) }"

text \<open>\<open>Found\<close> stands for the result true, \<^const>\<open>Recycle_retry\<close> for the wait after which the result is false.\<close>

definition rtems_bdbuf_wait_for_recycle :: "nat \<Rightarrow> rtems_bdbuf_cache \<Rightarrow> (found \<times> rtems_bdbuf_cache) option" where
  "rtems_bdbuf_wait_for_recycle i c =
     (case st c i of
        FREE \<Rightarrow> Some (Found i, c)
      | MODIFIED \<Rightarrow> do { c \<leftarrow> rtems_bdbuf_request_sync_for_modified_buffer i c;
                        Some (Sleep (Recycle_wait i Transfer_q), rtems_bdbuf_wait i Transfer_q c) }
      | CACHED \<Rightarrow> if wt c i = 0 then Some (Found i, c) else Some (Sleep Recycle_retry, rtems_bdbuf_anonymous_wait Buffer_q c)
      | EMPTY \<Rightarrow> if wt c i = 0 then Some (Found i, c) else Some (Sleep Recycle_retry, rtems_bdbuf_anonymous_wait Buffer_q c)
      | SYNC \<Rightarrow> Some (Sleep (Recycle_wait i Transfer_q), rtems_bdbuf_wait i Transfer_q c)
      | TRANSFER \<Rightarrow> Some (Sleep (Recycle_wait i Transfer_q), rtems_bdbuf_wait i Transfer_q c)
      | TRANSFER_PURGED \<Rightarrow> Some (Sleep (Recycle_wait i Transfer_q), rtems_bdbuf_wait i Transfer_q c)
      | _ \<Rightarrow> Some (Sleep (Recycle_wait i Access_q), rtems_bdbuf_wait i Access_q c))"

definition rtems_bdbuf_wait_for_buffer :: "rtems_bdbuf_cache \<Rightarrow> rtems_bdbuf_cache" where
  "rtems_bdbuf_wait_for_buffer c =
     rtems_bdbuf_anonymous_wait Buffer_q (if chains c Modified \<noteq> [] then rtems_bdbuf_wake_swapper c else c)"

text \<open>What follows a successful recycling, before the search is repeated.\<close>

definition recycle_buffer :: "nat \<Rightarrow> rtems_bdbuf_cache \<Rightarrow> rtems_bdbuf_cache option" where
  "recycle_buffer i c =
     do { c \<leftarrow> rtems_bdbuf_remove_from_tree_and_lru_list i c; Some (rtems_bdbuf_make_free_and_add_to_lru_list i c) }"

text \<open>The end of the function: wait until the buffer can be accessed, then obtain its group.\<close>

definition access_found :: "nat \<Rightarrow> rtems_bdbuf_cache \<Rightarrow> (found \<times> rtems_bdbuf_cache) option" where
  "access_found i c =
     do { (f, c) \<leftarrow> rtems_bdbuf_wait_for_access i c;
          case f of Found j \<Rightarrow> Some (Found j, rtems_bdbuf_group_obtain j c) | Sleep w \<Rightarrow> Some (Sleep w, c) }"

text \<open>The loop is repeated without a wait only after a buffer of another size was recycled; the fuel bounds these
  repetitions.\<close>

fun rtems_bdbuf_get_buffer_for_access ::
    "nat \<Rightarrow> nat \<Rightarrow> nat \<Rightarrow> nat \<Rightarrow> rtems_bdbuf_cache \<Rightarrow> (found \<times> rtems_bdbuf_cache) option" where
  "rtems_bdbuf_get_buffer_for_access 0 n dd block c = None"
| "rtems_bdbuf_get_buffer_for_access (Suc fuel) n dd block c =
     (case rtems_bdbuf_avl_search (tree c) dd block of
        Some p \<Rightarrow>
          if bds_per_group c (grp c (nd_buf p)) \<noteq> n
          then do { (f, c) \<leftarrow> rtems_bdbuf_wait_for_recycle (nd_buf p) c;
                    case f of
                      Found i \<Rightarrow> do { c \<leftarrow> recycle_buffer i c; rtems_bdbuf_get_buffer_for_access fuel n dd block c }
                    | Sleep w \<Rightarrow> Some (Sleep w, c) }
          else access_found (nd_buf p) c
      | None \<Rightarrow>
          do { (r, c) \<leftarrow> rtems_bdbuf_get_buffer_from_lru_list n dd block c;
               case r of
                 None \<Rightarrow> Some (Sleep Buffer_wait, rtems_bdbuf_wait_for_buffer c)
               | Some i \<Rightarrow> access_found i c })"

definition rtems_bdbuf_get_buffer_for_read_ahead ::
    "nat \<Rightarrow> nat \<Rightarrow> nat \<Rightarrow> rtems_bdbuf_cache \<Rightarrow> (nat option \<times> rtems_bdbuf_cache) option" where
  "rtems_bdbuf_get_buffer_for_read_ahead n dd block c =
     (case rtems_bdbuf_avl_search (tree c) dd block of
        Some p \<Rightarrow> Some (None, c)
      | None \<Rightarrow>
          do { (r, c) \<leftarrow> rtems_bdbuf_get_buffer_from_lru_list n dd block c;
               Some (r, case r of None \<Rightarrow> c | Some i \<Rightarrow> rtems_bdbuf_group_obtain i c) })"

definition rtems_bdbuf_media_block :: "rtems_disk_device \<Rightarrow> nat \<Rightarrow> nat" where
  "rtems_bdbuf_media_block dd block =
     (if dd_shift dd \<ge> 0 then wrap32 (block * 2 ^ nat (dd_shift dd))
      else wrap32 (block * dd_block_size dd div dd_media_block_size dd))"

definition rtems_bdbuf_get_media_block :: "rtems_disk_device \<Rightarrow> nat \<Rightarrow> nat option" where
  "rtems_bdbuf_get_media_block dd block =
     (if block < dd_block_count dd then Some (wrap32 (rtems_bdbuf_media_block dd block + dd_start dd)) else None)"

section \<open>Read-ahead requests\<close>

definition RTEMS_DISK_READ_AHEAD_NO_TRIGGER :: nat where
  "RTEMS_DISK_READ_AHEAD_NO_TRIGGER = 2 ^ 32 - 1"

definition RTEMS_DISK_READ_AHEAD_SIZE_AUTO :: nat where
  "RTEMS_DISK_READ_AHEAD_SIZE_AUTO = 0"

definition rtems_bdbuf_is_read_ahead_active :: "nat \<Rightarrow> rtems_bdbuf_cache \<Rightarrow> bool" where
  "rtems_bdbuf_is_read_ahead_active dd c \<longleftrightarrow> dd \<in> set (read_ahead_chain c)"

definition rtems_bdbuf_read_ahead_cancel :: "nat \<Rightarrow> rtems_bdbuf_cache \<Rightarrow> rtems_bdbuf_cache" where
  "rtems_bdbuf_read_ahead_cancel dd c =
     (if rtems_bdbuf_is_read_ahead_active dd c then c\<lparr>read_ahead_chain := remove1 dd (read_ahead_chain c)\<rparr> else c)"

definition set_read_ahead :: "nat \<Rightarrow> (rtems_blkdev_read_ahead \<Rightarrow> rtems_blkdev_read_ahead) \<Rightarrow> rtems_bdbuf_cache \<Rightarrow> rtems_bdbuf_cache" where
  "set_read_ahead dd f c = c\<lparr>read_ahead := (read_ahead c)(dd := f (read_ahead c dd))\<rparr>"

definition count_stats :: "nat \<Rightarrow> (rtems_blkdev_stats \<Rightarrow> rtems_blkdev_stats) \<Rightarrow> rtems_bdbuf_cache \<Rightarrow> rtems_bdbuf_cache" where
  "count_stats dd f c = c\<lparr>stats := (stats c)(dd := f (stats c dd))\<rparr>"

definition rtems_bdbuf_read_ahead_reset :: "nat \<Rightarrow> rtems_bdbuf_cache \<Rightarrow> rtems_bdbuf_cache" where
  "rtems_bdbuf_read_ahead_reset dd c =
     set_read_ahead dd (\<lambda>r. r\<lparr>ra_trigger := RTEMS_DISK_READ_AHEAD_NO_TRIGGER\<rparr>) (rtems_bdbuf_read_ahead_cancel dd c)"

definition rtems_bdbuf_read_ahead_add_to_chain :: "nat \<Rightarrow> rtems_bdbuf_cache \<Rightarrow> rtems_bdbuf_cache" where
  "rtems_bdbuf_read_ahead_add_to_chain dd c =
     (let c = (if read_ahead_chain c = [] then c\<lparr>read_ahead_sem := Suc (read_ahead_sem c)\<rparr> else c)
      in c\<lparr>read_ahead_chain := read_ahead_chain c @ [dd]\<rparr>)"

definition rtems_bdbuf_check_read_ahead_trigger :: "nat \<Rightarrow> nat \<Rightarrow> rtems_bdbuf_cache \<Rightarrow> rtems_bdbuf_cache" where
  "rtems_bdbuf_check_read_ahead_trigger dd block c =
     (if ra_trigger (read_ahead c dd) = block \<and> \<not> rtems_bdbuf_is_read_ahead_active dd c
      then rtems_bdbuf_read_ahead_add_to_chain dd (set_read_ahead dd (\<lambda>r. r\<lparr>ra_nr_blocks := RTEMS_DISK_READ_AHEAD_SIZE_AUTO\<rparr>) c)
      else c)"

definition rtems_bdbuf_set_read_ahead_trigger :: "nat \<Rightarrow> nat \<Rightarrow> rtems_bdbuf_cache \<Rightarrow> rtems_bdbuf_cache" where
  "rtems_bdbuf_set_read_ahead_trigger dd block c =
     (if ra_trigger (read_ahead c dd) \<noteq> block
      then set_read_ahead dd (\<lambda>r. r\<lparr>ra_trigger := wrap32 (block + 1), ra_next := wrap32 (block + 2)\<rparr>) (rtems_bdbuf_read_ahead_cancel dd c)
      else c)"

definition rtems_bdbuf_peek :: "rtems_bdbuf_config \<Rightarrow> nat \<Rightarrow> nat \<Rightarrow> nat \<Rightarrow> rtems_bdbuf_cache \<Rightarrow> rtems_bdbuf_cache" where
  "rtems_bdbuf_peek cf dd block nr_blocks c =
     (if cf_max_read_ahead_blocks cf > 0 \<and> nr_blocks > 0
      then rtems_bdbuf_read_ahead_add_to_chain dd
             (set_read_ahead dd (\<lambda>r. r\<lparr>ra_next := block, ra_nr_blocks := nr_blocks\<rparr>) (rtems_bdbuf_read_ahead_reset dd c))
      else c)"

section \<open>Handing out a buffer\<close>

text \<open>The states a buffer takes when it is handed out; a read of an empty buffer starts a transfer.\<close>

definition get_grant :: "nat \<Rightarrow> rtems_bdbuf_cache \<Rightarrow> rtems_bdbuf_cache option" where
  "get_grant i c =
     (case st c i of
        CACHED \<Rightarrow> Some (rtems_bdbuf_set_state i ACCESS_CACHED c)
      | EMPTY \<Rightarrow> Some (rtems_bdbuf_set_state i ACCESS_EMPTY c)
      | MODIFIED \<Rightarrow> Some (rtems_bdbuf_set_state i ACCESS_MODIFIED c)
      | _ \<Rightarrow> None)"

definition read_grant :: "nat \<Rightarrow> nat \<Rightarrow> nat \<Rightarrow> rtems_bdbuf_cache \<Rightarrow> rtems_bdbuf_cache option" where
  "read_grant dd block i c =
     (let hit = count_stats dd (\<lambda>s. s\<lparr>read_hits := read_hits s + 1\<rparr>) in
      case st c i of
        CACHED \<Rightarrow> Some (rtems_bdbuf_check_read_ahead_trigger dd block (rtems_bdbuf_set_state i ACCESS_CACHED (hit c)))
      | MODIFIED \<Rightarrow> Some (rtems_bdbuf_check_read_ahead_trigger dd block (rtems_bdbuf_set_state i ACCESS_MODIFIED (hit c)))
      | EMPTY \<Rightarrow>
          Some (rtems_bdbuf_set_state i TRANSFER
             (rtems_bdbuf_set_read_ahead_trigger dd block (count_stats dd (\<lambda>s. s\<lparr>read_misses := read_misses s + 1\<rparr>) c)))
      | _ \<Rightarrow> None)"

text \<open>A request: \<^verbatim>\<open>rtems_bdbuf_get\<close>, or \<^verbatim>\<open>rtems_bdbuf_read\<close> of a block.\<close>

datatype access = Get | Read nat

definition hand_out :: "access \<Rightarrow> nat \<Rightarrow> (found \<times> rtems_bdbuf_cache) option \<Rightarrow> (found \<times> rtems_bdbuf_cache) option" where
  "hand_out a dd r =
     do { (f, c) \<leftarrow> r;
          case f of
            Found i \<Rightarrow> do { c \<leftarrow> (case a of Get \<Rightarrow> get_grant i c | Read block \<Rightarrow> read_grant dd block i c); Some (Found i, c) }
          | Sleep w \<Rightarrow> Some (Sleep w, c) }"

text \<open>Both functions, up to a transfer; no buffer and \<^verbatim>\<open>-EINVAL\<close> for a block behind the end of the device. Two rounds of the
  search are enough: after a recycled buffer the block is not in the tree.\<close>

definition rtems_bdbuf_request ::
    "access \<Rightarrow> rtems_disk_device \<Rightarrow> nat \<Rightarrow> nat \<Rightarrow> rtems_bdbuf_cache \<Rightarrow> (found option \<times> rtems_bdbuf_cache) option" where
  "rtems_bdbuf_request a dev dd block c =
     (case rtems_bdbuf_get_media_block dev block of
        None \<Rightarrow> Some (None, c)
      | Some mb \<Rightarrow> map_option (apfst Some) (hand_out a dd (rtems_bdbuf_get_buffer_for_access 2 (dd_bds_per_group dev) dd mb c)))"

definition rtems_bdbuf_get :: "rtems_disk_device \<Rightarrow> nat \<Rightarrow> nat \<Rightarrow> rtems_bdbuf_cache \<Rightarrow> (found option \<times> rtems_bdbuf_cache) option" where
  "rtems_bdbuf_get dev dd block c = rtems_bdbuf_request Get dev dd block c"

definition rtems_bdbuf_read :: "rtems_disk_device \<Rightarrow> nat \<Rightarrow> nat \<Rightarrow> rtems_bdbuf_cache \<Rightarrow> (found option \<times> rtems_bdbuf_cache) option" where
  "rtems_bdbuf_read dev dd block c = rtems_bdbuf_request (Read block) dev dd block c"

text \<open>A request goes on after it slept, where it fell asleep.\<close>

definition request_woken ::
    "access \<Rightarrow> rtems_disk_device \<Rightarrow> nat \<Rightarrow> nat \<Rightarrow> sleep \<Rightarrow> rtems_bdbuf_cache \<Rightarrow> (found \<times> rtems_bdbuf_cache) option" where
  "request_woken a dev dd mb w c =
     (let search = rtems_bdbuf_get_buffer_for_access 2 (dd_bds_per_group dev) dd mb in
      hand_out a dd
        (case w of
           Access_wait i q \<Rightarrow> access_found i (rtems_bdbuf_woken i q c)
         | Recycle_wait i q \<Rightarrow>
             do { (f, c) \<leftarrow> rtems_bdbuf_wait_for_recycle i (rtems_bdbuf_woken i q c);
                  case f of
                    Found i \<Rightarrow> do { c \<leftarrow> recycle_buffer i c; search c }
                  | Sleep w \<Rightarrow> Some (Sleep w, c) }
         | Recycle_retry \<Rightarrow> search (anonymous_woken Buffer_q c)
         | Buffer_wait \<Rightarrow> search (anonymous_woken Buffer_q c)))"

section \<open>Transfers\<close>

text \<open>The end of a transfer: the status of the request and the buffers it moved.\<close>

fun transfer_bds :: "bool \<Rightarrow> nat list \<Rightarrow> rtems_bdbuf_cache \<Rightarrow> rtems_bdbuf_cache option" where
  "transfer_bds ok [] c = Some c"
| "transfer_bds ok (i # is) c =
     (let c = rtems_bdbuf_group_release i c in
      do { c \<leftarrow> (if ok \<and> st c i = TRANSFER then Some (rtems_bdbuf_make_cached_and_add_to_lru_list i c)
                else rtems_bdbuf_discard_buffer i c);
           transfer_bds ok is c })"

text \<open>\<^verbatim>\<open>rtems_bdbuf_execute_transfer_request\<close> from the completion of the request on. The status is 0, \<^verbatim>\<open>-ENOSYS\<close> or another error.\<close>

definition transfer_stats :: "bool \<Rightarrow> bool \<Rightarrow> nat \<Rightarrow> rtems_blkdev_stats \<Rightarrow> rtems_blkdev_stats" where
  "transfer_stats reading ok n s =
     (if reading then s\<lparr>read_blocks := read_blocks s + n, read_errors := read_errors s + (if ok then 0 else 1)\<rparr>
      else s\<lparr>write_blocks := write_blocks s + n, write_transfers := write_transfers s + 1,
             write_errors := write_errors s + (if ok then 0 else 1)\<rparr>)"

definition rtems_bdbuf_execute_transfer_request ::
    "bool \<Rightarrow> nat \<Rightarrow> int \<Rightarrow> nat list \<Rightarrow> rtems_bdbuf_cache \<Rightarrow> (int \<times> rtems_bdbuf_cache) option" where
  "rtems_bdbuf_execute_transfer_request reading dd status is c =
     do { c \<leftarrow> transfer_bds (status = 0) is (count_stats dd (transfer_stats reading (status = 0) (length is)) c);
          Some (if status = 0 \<or> status = - 38 then status else - EIO, c) }"

text \<open>The end of \<^verbatim>\<open>rtems_bdbuf_read\<close> after the transfer: the buffer, if it succeeded.\<close>

definition read_finish :: "nat \<Rightarrow> nat \<Rightarrow> int \<Rightarrow> nat \<Rightarrow> rtems_bdbuf_cache \<Rightarrow> (nat option \<times> rtems_bdbuf_cache) option" where
  "read_finish dd block status i c =
     do { (sc, c) \<leftarrow> rtems_bdbuf_execute_transfer_request True dd status [i] c;
          if sc = 0 then do {
            c \<leftarrow> chain_extract i (rtems_bdbuf_set_state i ACCESS_CACHED c);
            Some (Some i, rtems_bdbuf_check_read_ahead_trigger dd block (rtems_bdbuf_group_obtain i c)) }
          else Some (None, rtems_bdbuf_check_read_ahead_trigger dd block c) }"

text \<open>The further blocks of a read-ahead: as long as they are not in the cache and there is a buffer.\<close>

fun ahead_more :: "rtems_disk_device \<Rightarrow> nat \<Rightarrow> nat \<Rightarrow> nat \<Rightarrow> rtems_bdbuf_cache \<Rightarrow> (nat list \<times> rtems_bdbuf_cache) option" where
  "ahead_more dev dd mb 0 c = Some ([], c)"
| "ahead_more dev dd mb (Suc n) c =
     do { let mb = wrap32 (mb + dd_media_blocks_per_block dev);
          (r, c) \<leftarrow> rtems_bdbuf_get_buffer_for_read_ahead (dd_bds_per_group dev) dd mb c;
          case r of
            None \<Rightarrow> Some ([], c)
          | Some i \<Rightarrow> do { (is, c) \<leftarrow> ahead_more dev dd mb n (rtems_bdbuf_set_state i TRANSFER c); Some (i # is, c) } }"

text \<open>A request of the read-ahead task for a block, with the buffer for it, up to the transfer: its buffers.\<close>

definition ahead_transfer ::
    "rtems_bdbuf_config \<Rightarrow> rtems_disk_device \<Rightarrow> nat \<Rightarrow> nat \<Rightarrow> nat \<Rightarrow> nat \<Rightarrow> rtems_bdbuf_cache \<Rightarrow> (nat list \<times> rtems_bdbuf_cache) option" where
  "ahead_transfer cf dev dd block mb i c =
     (let n = ra_nr_blocks (read_ahead c dd);
          left = dd_block_count dev - block;
          mx = cf_max_read_ahead_blocks cf;
          auto = (n = RTEMS_DISK_READ_AHEAD_SIZE_AUTO);
          n = (if auto then min left mx else min (min n left) mx);
          c = (if auto then
                 if left \<ge> mx
                 then set_read_ahead dd (\<lambda>r. r\<lparr>ra_trigger := wrap32 (block + n div 2), ra_next := wrap32 (block + n)\<rparr>) c
                 else set_read_ahead dd (\<lambda>r. r\<lparr>ra_trigger := RTEMS_DISK_READ_AHEAD_NO_TRIGGER\<rparr>) c
               else count_stats dd (\<lambda>s. s\<lparr>read_ahead_peeks := read_ahead_peeks s + 1\<rparr>) c);
          c = count_stats dd (\<lambda>s. s\<lparr>read_ahead_transfers := read_ahead_transfers s + 1\<rparr>) c
      in do { (is, c) \<leftarrow> ahead_more dev dd mb (n - 1) (rtems_bdbuf_set_state i TRANSFER c); Some (i # is, c) })"

text \<open>One pass of the task: the device and the buffers of the transfer it starts.\<close>

definition read_ahead_step ::
    "rtems_bdbuf_config \<Rightarrow> (nat \<Rightarrow> rtems_disk_device) \<Rightarrow> rtems_bdbuf_cache \<Rightarrow> ((nat \<times> nat list) option \<times> rtems_bdbuf_cache) option" where
  "read_ahead_step cf D c =
     (case read_ahead_chain c of
        [] \<Rightarrow> Some (None, c)
      | dd # rest \<Rightarrow>
          let c = c\<lparr>read_ahead_chain := rest\<rparr>; block = ra_next (read_ahead c dd) in
          case rtems_bdbuf_get_media_block (D dd) block of
            None \<Rightarrow> Some (None, set_read_ahead dd (\<lambda>r. r\<lparr>ra_trigger := RTEMS_DISK_READ_AHEAD_NO_TRIGGER\<rparr>) c)
          | Some mb \<Rightarrow>
              do { (r, c) \<leftarrow> rtems_bdbuf_get_buffer_for_read_ahead (dd_bds_per_group (D dd)) dd mb c;
                   case r of
                     None \<Rightarrow> Some (None, c)
                   | Some i \<Rightarrow> do { (is, c) \<leftarrow> ahead_transfer cf (D dd) dd block mb i c; Some (Some (dd, is), c) } })"

section \<open>Releasing a buffer\<close>

definition rtems_bdbuf_release :: "rtems_bdbuf_config \<Rightarrow> nat \<Rightarrow> rtems_bdbuf_cache \<Rightarrow> rtems_bdbuf_cache option" where
  "rtems_bdbuf_release cf i c =
     (case st c i of
        ACCESS_CACHED \<Rightarrow> Some (rtems_bdbuf_add_to_lru_list_after_access i c)
      | ACCESS_EMPTY \<Rightarrow> rtems_bdbuf_discard_buffer_after_access i c
      | ACCESS_PURGED \<Rightarrow> rtems_bdbuf_discard_buffer_after_access i c
      | ACCESS_MODIFIED \<Rightarrow> Some (rtems_bdbuf_add_to_modified_list_after_access cf i c)
      | _ \<Rightarrow> None)"

definition rtems_bdbuf_release_modified :: "rtems_bdbuf_config \<Rightarrow> nat \<Rightarrow> rtems_bdbuf_cache \<Rightarrow> rtems_bdbuf_cache option" where
  "rtems_bdbuf_release_modified cf i c =
     (case st c i of
        ACCESS_CACHED \<Rightarrow> Some (rtems_bdbuf_add_to_modified_list_after_access cf i c)
      | ACCESS_EMPTY \<Rightarrow> Some (rtems_bdbuf_add_to_modified_list_after_access cf i c)
      | ACCESS_MODIFIED \<Rightarrow> Some (rtems_bdbuf_add_to_modified_list_after_access cf i c)
      | ACCESS_PURGED \<Rightarrow> rtems_bdbuf_discard_buffer_after_access i c
      | _ \<Rightarrow> None)"

text \<open>A pass of \<^verbatim>\<open>rtems_bdbuf_wait_for_sync_done\<close>: whether the wait is over.\<close>

definition rtems_bdbuf_wait_for_sync_done :: "nat \<Rightarrow> rtems_bdbuf_cache \<Rightarrow> (bool \<times> rtems_bdbuf_cache) option" where
  "rtems_bdbuf_wait_for_sync_done i c =
     (case st c i of
        FREE \<Rightarrow> None
      | SYNC \<Rightarrow> Some (False, rtems_bdbuf_wait i Transfer_q c)
      | TRANSFER \<Rightarrow> Some (False, rtems_bdbuf_wait i Transfer_q c)
      | TRANSFER_PURGED \<Rightarrow> Some (False, rtems_bdbuf_wait i Transfer_q c)
      | _ \<Rightarrow> Some (True, c))"

text \<open>\<^verbatim>\<open>rtems_bdbuf_sync_after_access\<close> up to its wait, and from there on.\<close>

definition sync_begin :: "nat \<Rightarrow> rtems_bdbuf_cache \<Rightarrow> rtems_bdbuf_cache" where
  "sync_begin i c = rtems_bdbuf_wake_swapper (chain_append Sync i (rtems_bdbuf_set_state i SYNC c))"

definition sync_end :: "nat \<Rightarrow> rtems_bdbuf_cache \<Rightarrow> rtems_bdbuf_cache option" where
  "sync_end i c =
     (if wt c i = 0 \<and> st c i = EMPTY
      then do { c \<leftarrow> rtems_bdbuf_remove_from_tree i c; Some (rtems_bdbuf_make_free_and_add_to_lru_list i c) }
      else Some c)"

definition rtems_bdbuf_sync_after_access :: "nat \<Rightarrow> rtems_bdbuf_cache \<Rightarrow> (bool \<times> rtems_bdbuf_cache) option" where
  "rtems_bdbuf_sync_after_access i c =
     do { (d, c) \<leftarrow> rtems_bdbuf_wait_for_sync_done i (sync_begin i c);
          if d then do { c \<leftarrow> sync_end i c; Some (True, c) } else Some (False, c) }"

definition rtems_bdbuf_sync :: "nat \<Rightarrow> rtems_bdbuf_cache \<Rightarrow> (bool \<times> rtems_bdbuf_cache) option" where
  "rtems_bdbuf_sync i c =
     (if st c i \<in> {ACCESS_CACHED, ACCESS_EMPTY, ACCESS_MODIFIED} then rtems_bdbuf_sync_after_access i c
      else if st c i = ACCESS_PURGED then do { c \<leftarrow> rtems_bdbuf_discard_buffer_after_access i c; Some (True, c) }
      else None)"

definition sync_woken :: "nat \<Rightarrow> rtems_bdbuf_cache \<Rightarrow> (bool \<times> rtems_bdbuf_cache) option" where
  "sync_woken i c =
     do { (d, c) \<leftarrow> rtems_bdbuf_wait_for_sync_done i (rtems_bdbuf_woken i Transfer_q c);
          if d then do { c \<leftarrow> sync_end i c; Some (True, c) } else Some (False, c) }"

definition rtems_bdbuf_syncdev :: "nat \<Rightarrow> rtems_bdbuf_cache \<Rightarrow> rtems_bdbuf_cache" where
  "rtems_bdbuf_syncdev dd c = rtems_bdbuf_wake_swapper (c\<lparr>sync_active := True, sync_device := dd\<rparr>)"

section \<open>Swap-out\<close>

text \<open>The transfer chain is sorted by block: the new buffer goes behind the last one with a smaller block. The list is
  searched from its end.\<close>

fun insert_back :: "(nat \<Rightarrow> nat) \<Rightarrow> nat \<Rightarrow> nat list \<Rightarrow> nat list" where
  "insert_back blk i [] = [i]"
| "insert_back blk i (t # ts) = (if blk i > blk t then i # t # ts else t # insert_back blk i ts)"

definition transfer_insert :: "(nat \<Rightarrow> nat) \<Rightarrow> nat \<Rightarrow> nat list \<Rightarrow> nat list" where
  "transfer_insert blk i tr = rev (insert_back blk i (rev tr))"

text \<open>One pass of the walk over a chain: the buffers that stay on it, the device, the transfer chain and the descriptors.\<close>

definition walk_one ::
    "bool \<Rightarrow> bool \<Rightarrow> bool \<Rightarrow> bool \<Rightarrow> nat \<Rightarrow> nat \<Rightarrow>
     nat list \<times> nat \<times> nat list \<times> (nat \<Rightarrow> rtems_bdbuf_buffer) \<Rightarrow> nat list \<times> nat \<times> nat list \<times> (nat \<Rightarrow> rtems_bdbuf_buffer)" where
  "walk_one sync_all act has_waiters upd delta i = (\<lambda>(kept, dd, tr, b).
     let h = (if sync_all \<or> (act \<and> dd = b_dd (b i)) \<or> has_waiters then 0 else b_hold (b i));
         h = (if upd then h - delta else h);
         b = b(i := (b i)\<lparr>b_hold := h\<rparr>) in
     if h \<noteq> 0 then (kept @ [i], dd, tr, b)
     else
       let dd = (if dd = 0 then b_dd (b i) else dd) in
       if b_dd (b i) = dd
       then (kept, dd, transfer_insert (\<lambda>j. b_block (b j)) i tr, b(i := (b i)\<lparr>b_state := TRANSFER\<rparr>))
       else (kept @ [i], dd, tr, b))"

definition rtems_bdbuf_swapout_modified_processing ::
    "chain \<Rightarrow> bool \<Rightarrow> bool \<Rightarrow> nat \<Rightarrow> nat \<times> nat list \<times> rtems_bdbuf_cache \<Rightarrow> nat \<times> nat list \<times> rtems_bdbuf_cache" where
  "rtems_bdbuf_swapout_modified_processing q act upd delta =
     (\<lambda>(dd, tr, c). case fold (walk_one (act \<and> dd = 0) act (rtems_bdbuf_has_buffer_waiters c) upd delta) (chains c q) ([], dd, tr, bds c) of
        (kept, dd, tr, b) \<Rightarrow> (dd, tr, c\<lparr>chains := (chains c)(q := kept), bds := b\<rparr>))"

text \<open>The part of \<^verbatim>\<open>rtems_bdbuf_swapout_processing\<close> under the lock: whether a worker is used, the device and the transfer chain.
  A worker is taken from the free ones unless a sync is active.\<close>

definition swapout_collect ::
    "nat \<Rightarrow> bool \<Rightarrow> rtems_bdbuf_cache \<Rightarrow> bool \<times> nat \<times> nat list \<times> rtems_bdbuf_cache" where
  "swapout_collect delta upd c =
     (let act = sync_active c;
          worker = (\<not> act \<and> free_workers c > 0);
          c = (if worker then c\<lparr>free_workers := free_workers c - 1\<rparr> else c);
          dd = (if act then sync_device c else 0)
      in (worker, rtems_bdbuf_swapout_modified_processing Modified act upd delta
                    (rtems_bdbuf_swapout_modified_processing Sync True False delta (dd, [], c))))"

text \<open>The end of the pass: an active sync is over when nothing was transferred. The result tells whether its requester is
  woken.\<close>

definition swapout_end :: "bool \<Rightarrow> nat list \<Rightarrow> rtems_bdbuf_cache \<Rightarrow> bool \<times> rtems_bdbuf_cache" where
  "swapout_end act tr c = (if act \<and> tr = [] then (True, c\<lparr>sync_active := False\<rparr>) else (False, c))"

text \<open>\<^verbatim>\<open>rtems_bdbuf_swapout_write\<close>: the requests the transfer chain is split into. \<open>acc\<close> are the buffers of the request
  under construction, \<open>last\<close> the last block in it. A buffer that does not follow it is put back.\<close>

function swapout_requests :: "bool \<Rightarrow> nat \<Rightarrow> nat \<Rightarrow> (nat \<Rightarrow> nat) \<Rightarrow> nat list \<Rightarrow> nat \<Rightarrow> nat list \<Rightarrow> nat list list" where
  "swapout_requests cont mbpb mx blk acc lst [] = []"
| "swapout_requests cont mbpb mx blk acc lst (i # is) =
     (if cont \<and> acc \<noteq> [] \<and> blk i \<noteq> lst + mbpb then acc # swapout_requests cont mbpb mx blk [] lst (i # is)
      else if is = [] \<or> length acc + 1 \<ge> mx then (acc @ [i]) # swapout_requests cont mbpb mx blk [] (blk i) is
      else swapout_requests cont mbpb mx blk (acc @ [i]) (blk i) is)"
  by pat_completeness auto
termination
  by (relation "measures [\<lambda>(cont, mbpb, mx, blk, acc, lst, is). length is, \<lambda>(cont, mbpb, mx, blk, acc, lst, is). length acc]") auto

section \<open>Purging\<close>

text \<open>The effect of the walk over the tree on a buffer of the device: the buffers that go to the purge list.\<close>

definition gather_one :: "nat \<Rightarrow> nat \<Rightarrow> nat list \<times> rtems_bdbuf_cache \<Rightarrow> (nat list \<times> rtems_bdbuf_cache) option" where
  "gather_one dd i = (\<lambda>(pl, c).
     if b_dd (bds c i) \<noteq> dd then Some (pl, c)
     else case st c i of
        SYNC \<Rightarrow> do { c \<leftarrow> chain_extract i (rtems_bdbuf_group_release i c); Some (pl @ [i], c) }
      | MODIFIED \<Rightarrow> do { c \<leftarrow> chain_extract i (rtems_bdbuf_group_release i c); Some (pl @ [i], c) }
      | CACHED \<Rightarrow> do { c \<leftarrow> chain_extract i c; Some (pl @ [i], c) }
      | TRANSFER \<Rightarrow> Some (pl, rtems_bdbuf_set_state i TRANSFER_PURGED c)
      | ACCESS_CACHED \<Rightarrow> Some (pl, rtems_bdbuf_set_state i ACCESS_PURGED c)
      | ACCESS_EMPTY \<Rightarrow> Some (pl, rtems_bdbuf_set_state i ACCESS_PURGED c)
      | ACCESS_MODIFIED \<Rightarrow> Some (pl, rtems_bdbuf_set_state i ACCESS_PURGED c)
      | _ \<Rightarrow> Some (pl, c))"

text \<open>The order of the walk with the stack: a node, its left subtree, its right subtree.\<close>

fun preorder :: "avl_tree \<Rightarrow> nat list" where
  "preorder Null = []"
| "preorder (Nd l p b r) = nd_buf p # preorder l @ preorder r"

definition rtems_bdbuf_gather_for_purge :: "nat \<Rightarrow> rtems_bdbuf_cache \<Rightarrow> (nat list \<times> rtems_bdbuf_cache) option" where
  "rtems_bdbuf_gather_for_purge dd c = fold (\<lambda>i r. r \<bind> gather_one dd i) (preorder (tree c)) (Some ([], c))"

fun rtems_bdbuf_purge_list :: "nat list \<Rightarrow> rtems_bdbuf_cache \<Rightarrow> rtems_bdbuf_cache option" where
  "rtems_bdbuf_purge_list [] c = Some c"
| "rtems_bdbuf_purge_list (i # is) c = do { c \<leftarrow> rtems_bdbuf_discard_buffer i c; rtems_bdbuf_purge_list is c }"

definition rtems_bdbuf_purge_dev :: "nat \<Rightarrow> rtems_bdbuf_cache \<Rightarrow> rtems_bdbuf_cache option" where
  "rtems_bdbuf_purge_dev dd c = do { (pl, c) \<leftarrow> rtems_bdbuf_gather_for_purge dd (rtems_bdbuf_read_ahead_reset dd c); rtems_bdbuf_purge_list pl c }"

section \<open>Devices\<close>

text \<open>The least shift that covers a number of media blocks; the code shifts a 32-bit one, which is undefined beyond 31.\<close>

function block_shift :: "nat \<Rightarrow> nat \<Rightarrow> nat option" where
  "block_shift m k = (if k \<ge> 32 then None else if m \<le> 2 ^ k then Some k else block_shift m (Suc k))"
  by auto
termination
  by (relation "measure (\<lambda>(m, k). 32 - k)") auto

text \<open>The block size of a device, after the sync it may begin with. A block size below the one of the media divides by zero.\<close>

definition rtems_bdbuf_set_block_size ::
    "rtems_bdbuf_config \<Rightarrow> nat \<Rightarrow> rtems_disk_device \<Rightarrow> nat \<Rightarrow> rtems_bdbuf_cache \<Rightarrow> (int \<times> rtems_disk_device \<times> rtems_bdbuf_cache) option" where
  "rtems_bdbuf_set_block_size cf dd dev block_size c =
     (let n = rtems_bdbuf_bds_per_group cf c block_size; m = block_size div dd_media_block_size dev in
      if block_size = 0 \<or> n = 0 then Some (- EINVAL, dev, c)
      else if m = 0 then None
      else do { k \<leftarrow> block_shift m 0;
           c \<leftarrow> rtems_bdbuf_purge_dev dd c;
           Some (0, dev\<lparr>dd_block_size := block_size, dd_block_count := dd_size dev div m, dd_media_blocks_per_block := m,
             dd_shift := (if wrap32 (dd_media_block_size dev * 2 ^ k) \<noteq> block_size then - 1 else int k), dd_bds_per_group := n\<rparr>, c) })"

definition rtems_bdbuf_get_device_stats :: "nat \<Rightarrow> rtems_bdbuf_cache \<Rightarrow> rtems_blkdev_stats" where
  "rtems_bdbuf_get_device_stats dd c = stats c dd"

definition rtems_bdbuf_reset_device_stats :: "nat \<Rightarrow> rtems_bdbuf_cache \<Rightarrow> rtems_bdbuf_cache" where
  "rtems_bdbuf_reset_device_stats dd c =
     c\<lparr>stats := (stats c)(dd := \<lparr>read_hits = 0, read_misses = 0, read_ahead_transfers = 0, read_ahead_peeks = 0, read_blocks = 0,
       read_errors = 0, write_transfers = 0, write_blocks = 0, write_errors = 0\<rparr>)\<rparr>"

text \<open>A worker that has written its requests is free again.\<close>

definition worker_done :: "rtems_bdbuf_cache \<Rightarrow> rtems_bdbuf_cache" where
  "worker_done c = c\<lparr>free_workers := Suc (free_workers c)\<rparr>"

section \<open>Initialisation\<close>

text \<open>The part that sets the cache up, when its allocations succeed.\<close>

definition rtems_bdbuf_do_init :: "rtems_bdbuf_config \<Rightarrow> rtems_bdbuf_cache option" where
  "rtems_bdbuf_do_init cf =
     (if cf_buffer_min cf = 0 \<or> cf_buffer_max cf mod cf_buffer_min cf \<noteq> 0 \<or> cf_buffer_max cf = 0 then None
      else
        let n = cf_size cf div cf_buffer_min cf; mx = cf_buffer_max cf div cf_buffer_min cf in
        Some \<lparr>bds = (\<lambda>_. \<lparr>b_dd = 0, b_block = 0, b_state = FREE, b_waiters = 0, b_hold = 0, b_data = []\<rparr>),
              max_bds_per_group = mx, group_count = n div mx, bds_per_group = (\<lambda>_. mx), g_users = (\<lambda>_. 0), tree = Null,
              chains = (\<lambda>q. if q = Lru then [0..<n] else []), waitcount = (\<lambda>_. 0), sync_active = False, sync_device = 0,
              swapout_sync = 0, free_workers = cf_swapout_workers cf,
              read_ahead = (\<lambda>_. \<lparr>ra_trigger = RTEMS_DISK_READ_AHEAD_NO_TRIGGER, ra_next = 0, ra_nr_blocks = 0\<rparr>), read_ahead_chain = [],
              read_ahead_sem = 0,
              stats = (\<lambda>_. \<lparr>read_hits = 0, read_misses = 0, read_ahead_transfers = 0, read_ahead_peeks = 0, read_blocks = 0, read_errors = 0,
                write_transfers = 0, write_blocks = 0, write_errors = 0\<rparr>)\<rparr>)"

end
