(* ===== verification/BdbufInv.thy ===== *)
theory BdbufInv
  imports Bdbuf
begin

text \<open>
  The invariant of the buffer cache: which buffers are in the tree and on which chain, and what the counters of the groups
  count, for a set \<open>A\<close> of buffers in use as descriptors; and how each operation of \<open>Bdbuf\<close> keeps it.
\<close>

section \<open>What the chains, the tree and the counters say\<close>

fun home :: "bdstate \<Rightarrow> chain option" where
  "home FREE = Some Lru"
| "home CACHED = Some Lru"
| "home MODIFIED = Some Modified"
| "home SYNC = Some Sync"
| "home _ = None"

fun inuse :: "bdstate \<Rightarrow> int" where
  "inuse FREE = 0"
| "inuse EMPTY = 0"
| "inuse CACHED = 0"
| "inuse _ = 1"

abbreviation kd :: "rtems_bdbuf_cache \<Rightarrow> nat \<Rightarrow> nat" where
  "kd c i \<equiv> b_dd (bds c i)"

abbreviation kb :: "rtems_bdbuf_cache \<Rightarrow> nat \<Rightarrow> nat" where
  "kb c i \<equiv> b_block (bds c i)"

definition tree_ok :: "nat set \<Rightarrow> rtems_bdbuf_cache \<Rightarrow> bool" where
  "tree_ok A c \<longleftrightarrow> avl_inv (tree c) \<and>
     (\<forall>a b p. avl_map (tree c) (a, b) = Some p \<longleftrightarrow> (\<exists>i\<in>A. st c i \<noteq> FREE \<and> p = bd_node c i \<and> kd c i = a \<and> kb c i = b))"

definition chains_ok :: "nat set \<Rightarrow> rtems_bdbuf_cache \<Rightarrow> bool" where
  "chains_ok A c \<longleftrightarrow> (\<forall>q. distinct (chains c q) \<and> set (chains c q) = {i \<in> A. home (st c i) = Some q})"

definition users_ok :: "nat set \<Rightarrow> rtems_bdbuf_cache \<Rightarrow> bool" where
  "users_ok A c \<longleftrightarrow> (\<forall>g. g_users c g = (\<Sum>i | i \<in> A \<and> grp c i = g. inuse (st c i) + wt c i))"

definition core :: "nat set \<Rightarrow> rtems_bdbuf_cache \<Rightarrow> bool" where
  "core A c \<longleftrightarrow> finite A \<and> card A \<le> AVL_MAX_NODES \<and> tree_ok A c \<and> chains_ok A c \<and> users_ok A c"

lemma coreD:
  assumes "core A c"
  shows "finite A" "card A \<le> AVL_MAX_NODES" "tree_ok A c" "chains_ok A c" "users_ok A c"
  using assms by (auto simp: core_def)

lemma sorted_distinct: "sorted_wrt (\<lambda>m n. f m < (f n :: 'b :: order)) xs \<Longrightarrow> distinct (map f xs)"
  by (induction xs) auto

lemma avl_size_dom:
  assumes "avl_inv t"
  shows "avl_size t = card (dom (avl_map t))"
proof -
  have d: "distinct (map nkey (inorder t))" using assms sorted_distinct [of nkey "inorder t"] by (simp add: avl_inv_def ordered_def)
  have "k \<in> dom (avl_map t) \<longleftrightarrow> (\<exists>n\<in>set (inorder t). nkey n = k)" for k
    unfolding domIff avl_map_def find_None_iff has_key_def by blast
  then have "k \<in> dom (avl_map t) \<longleftrightarrow> k \<in> set (map nkey (inorder t))" for k by (auto simp del: split_paired_All)
  then have "dom (avl_map t) = set (map nkey (inorder t))" by blast
  then show ?thesis using distinct_card [OF d] by (simp add: avl_size_inorder)
qed

lemma core_size:
  assumes "core A c"
  shows "avl_size (tree c) \<le> AVL_MAX_NODES"
proof -
  note k = coreD [OF assms]
  have "dom (avl_map (tree c)) \<subseteq> (\<lambda>i. (kd c i, kb c i)) ` A" using k(3) by (fastforce simp: tree_ok_def dom_def)
  then have "card (dom (avl_map (tree c))) \<le> card A" using k(1) by (meson card_image_le card_mono finite_imageI le_trans)
  then show ?thesis using k avl_size_dom by (simp add: tree_ok_def)
qed

lemma core_search:
  "core A c \<Longrightarrow> rtems_bdbuf_avl_search (tree c) dd block = Some p \<longleftrightarrow>
     (\<exists>i\<in>A. st c i \<noteq> FREE \<and> p = bd_node c i \<and> kd c i = dd \<and> kb c i = block)"
  using avl_search_map [of "tree c" dd block] by (simp add: core_def tree_ok_def avl_inv_def)

lemma core_inj:
  assumes "core A c" "i \<in> A" "j \<in> A" "st c i \<noteq> FREE" "st c j \<noteq> FREE" "kd c i = kd c j" "kb c i = kb c j"
  shows "i = j"
proof -
  have "avl_map (tree c) (kd c i, kb c i) = Some (bd_node c i)" "avl_map (tree c) (kd c i, kb c i) = Some (bd_node c j)"
    using assms coreD(3) [OF assms(1)] unfolding tree_ok_def by metis+
  then show ?thesis by (simp add: bd_node_def)
qed

text \<open>The counter of a group after the change of one of its buffers.\<close>

lemma users_change:
  assumes "finite A" "users_ok A c" "i \<in> A" "bds c' = (bds c)(i := b)" "max_bds_per_group c' = max_bds_per_group c"
    "g_users c' = (g_users c)(grp c i := g_users c (grp c i) + (inuse (b_state b) + b_waiters b - inuse (st c i) - wt c i))"
  shows "users_ok A c'"
  unfolding users_ok_def
proof
  fix h
  have g: "grp c' j = grp c j" for j using assms(5) by (simp add: grp_def)
  let ?S = "{j \<in> A. grp c j = h}" and ?v = "\<lambda>c j. inuse (st c j) + wt c j"
  have rest: "(\<Sum>j\<in>?S - {i}. ?v c' j) = (\<Sum>j\<in>?S - {i}. ?v c j)" using assms(4) by (intro sum.cong) auto
  have split: "(\<Sum>j\<in>?S. ?v d j) = (if grp c i = h then ?v d i else 0) + (\<Sum>j\<in>?S - {i}. ?v d j)" for d
  proof (cases "grp c i = h")
    case True
    then show ?thesis using assms(1,3) sum.remove [of ?S i "?v d"] by simp
  next
    case False
    then have "?S - {i} = ?S" by auto
    then show ?thesis using False by simp
  qed
  have "g_users c h = (\<Sum>j\<in>?S. ?v c j)" using assms(2) by (simp add: users_ok_def)
  moreover have "g_users c' h = g_users c h + (if grp c i = h then ?v c' i - ?v c i else 0)" using assms(4,6) by simp
  ultimately show "g_users c' h = (\<Sum>j | j \<in> A \<and> grp c' j = h. ?v c' j)"
    unfolding g split [of c] split [of c'] rest by simp
qed

text \<open>A buffer that stays in the tree changes its state; the chains and counters follow.\<close>

lemma core_keep:
  assumes c: "core A c" "i \<in> A" "st c i \<noteq> FREE"
    and b: "bds c' = (bds c)(i := b)" "b_dd b = kd c i" "b_block b = kb c i" "b_state b \<noteq> FREE"
    and t: "tree c' = tree c" "max_bds_per_group c' = max_bds_per_group c"
    and ch: "\<And>q. distinct (chains c' q) \<and> set (chains c' q) = set (chains c q) - {i} \<union> (if home (b_state b) = Some q then {i} else {})"
    and u: "g_users c' = (g_users c)(grp c i := g_users c (grp c i) + (inuse (b_state b) + b_waiters b - inuse (st c i) - wt c i))"
  shows "core A c'"
proof -
  note k = coreD [OF c(1)]
  have e: "bd_node c' j = bd_node c j" "kd c' j = kd c j" "kb c' j = kb c j" "st c' j = FREE \<longleftrightarrow> st c j = FREE" for j
    using b c(3) by (auto simp: bd_node_def)
  have "tree_ok A c'" using k(3) unfolding tree_ok_def t e .
  moreover have "chains_ok A c'" unfolding chains_ok_def
  proof
    fix q
    show "distinct (chains c' q) \<and> set (chains c' q) = {j \<in> A. home (st c' j) = Some q}"
      using ch [of q] k(4) c(2) b(1) unfolding chains_ok_def by auto
  qed
  moreover have "users_ok A c'" by (rule users_change [OF k(1) k(5) c(2) b(1) t(2) u])
  ultimately show ?thesis using k by (simp add: core_def)
qed

section \<open>Buffers that come and go\<close>

lemma core_drop:
  assumes c: "core A c" "i \<in> A"
    and b: "\<And>j. j \<noteq> i \<Longrightarrow> bds c' j = bds c j" and mx: "max_bds_per_group c' = max_bds_per_group c"
    and t: "avl_inv (tree c')" "avl_map (tree c') = (if st c i = FREE then avl_map (tree c) else (avl_map (tree c))((kd c i, kb c i) := None))"
    and ch: "\<And>q. distinct (chains c' q) \<and> set (chains c' q) = set (chains c q) - {i}"
    and u: "g_users c' = (g_users c)(grp c i := g_users c (grp c i) - (inuse (st c i) + wt c i))"
  shows "core (A - {i}) c'"
proof -
  note k = coreD [OF c(1)]
  have tr: "avl_map (tree c) (a, b) = Some p \<longleftrightarrow> (\<exists>j\<in>A. st c j \<noteq> FREE \<and> p = bd_node c j \<and> kd c j = a \<and> kb c j = b)" for a b p
    using k(3) by (simp add: tree_ok_def)
  have n: "j \<noteq> i \<Longrightarrow> bd_node c' j = bd_node c j" for j using b by (simp add: bd_node_def)
  have "avl_map (tree c') (a, b) = Some p \<longleftrightarrow> (\<exists>j\<in>A - {i}. st c' j \<noteq> FREE \<and> p = bd_node c' j \<and> kd c' j = a \<and> kb c' j = b)" for a b p
  proof -
    have "(\<exists>j\<in>A - {i}. st c' j \<noteq> FREE \<and> p = bd_node c' j \<and> kd c' j = a \<and> kb c' j = b) \<longleftrightarrow>
        (\<exists>j\<in>A - {i}. st c j \<noteq> FREE \<and> p = bd_node c j \<and> kd c j = a \<and> kb c j = b)"
      by (intro bex_cong) (auto simp: b n)
    also have "\<dots> \<longleftrightarrow> avl_map (tree c') (a, b) = Some p"
    proof (cases "st c i = FREE")
      case True
      then show ?thesis using t(2) tr [of a b p] c(2) by auto
    next
      case False
      then have "j = i" if "j \<in> A" "st c j \<noteq> FREE" "kd c j = kd c i" "kb c j = kb c i" for j
        using core_inj [OF c(1) that(1) c(2) that(2)] that by simp
      then show ?thesis using False t(2) tr [of a b p] c(2) by (cases "a = kd c i \<and> b = kb c i") auto
    qed
    finally show ?thesis by blast
  qed
  then have "tree_ok (A - {i}) c'" using t(1) by (simp add: tree_ok_def)
  moreover have "chains_ok (A - {i}) c'" unfolding chains_ok_def
  proof
    fix q
    show "distinct (chains c' q) \<and> set (chains c' q) = {j \<in> A - {i}. home (st c' j) = Some q}"
      using ch [of q] k(4) b unfolding chains_ok_def by auto
  qed
  moreover have "users_ok (A - {i}) c'" unfolding users_ok_def
  proof
    fix h
    let ?S = "{j \<in> A. grp c j = h}" and ?v = "\<lambda>c j. inuse (st c j) + wt c j"
    have "{j \<in> A - {i}. grp c' j = h} = ?S - {i}" using mx by (auto simp: grp_def)
    moreover have "(\<Sum>j\<in>?S - {i}. ?v c' j) = (\<Sum>j\<in>?S - {i}. ?v c j)" using b by (intro sum.cong) auto
    moreover have "(\<Sum>j\<in>?S. ?v c j) = (if grp c i = h then ?v c i else 0) + (\<Sum>j\<in>?S - {i}. ?v c j)"
    proof (cases "grp c i = h")
      case True
      then show ?thesis using k(1) c(2) sum.remove [of ?S i "?v c"] by simp
    next
      case False
      then have "?S - {i} = ?S" by auto
      then show ?thesis using False by simp
    qed
    moreover have "g_users c h = (\<Sum>j\<in>?S. ?v c j)" using k(5) by (simp add: users_ok_def)
    moreover have "g_users c' h = g_users c h - (if grp c i = h then ?v c i else 0)" using u by simp
    ultimately show "g_users c' h = (\<Sum>j | j \<in> A - {i} \<and> grp c' j = h. ?v c' j)" by simp
  qed
  moreover have "card (A - {i}) \<le> AVL_MAX_NODES" using k by (meson card_Diff1_le le_trans)
  ultimately show ?thesis using k(1) by (simp add: core_def)
qed

lemma core_add:
  assumes c: "core A c" "i \<notin> A" "card (insert i A) \<le> AVL_MAX_NODES"
    and b: "bds c' = (bds c)(i := b)" and mx: "max_bds_per_group c' = max_bds_per_group c"
    and t: "avl_inv (tree c')"
      "if b_state b = FREE then avl_map (tree c') = avl_map (tree c)
       else avl_map (tree c) (b_dd b, b_block b) = None \<and>
         avl_map (tree c') = (avl_map (tree c))((b_dd b, b_block b) \<mapsto> \<lparr>nd_dd = b_dd b, nd_block = b_block b, nd_buf = i\<rparr>)"
    and ch: "\<And>q. distinct (chains c' q) \<and> set (chains c' q) = set (chains c q) \<union> (if home (b_state b) = Some q then {i} else {})"
    and u: "g_users c' = (g_users c)(grp c i := g_users c (grp c i) + (inuse (b_state b) + b_waiters b))"
  shows "core (insert i A) c'"
proof -
  note k = coreD [OF c(1)]
  have tr: "avl_map (tree c) (a, b) = Some p \<longleftrightarrow> (\<exists>j\<in>A. st c j \<noteq> FREE \<and> p = bd_node c j \<and> kd c j = a \<and> kb c j = b)" for a b p
    using k(3) by (simp add: tree_ok_def)
  have o: "bds c' j = bds c j" "bd_node c' j = bd_node c j" if "j \<in> A" for j
    using that c(2) b by (auto simp: bd_node_def)
  have n: "bd_node c' i = \<lparr>nd_dd = b_dd b, nd_block = b_block b, nd_buf = i\<rparr>" "bds c' i = b" using b by (simp_all add: bd_node_def)
  have "avl_map (tree c') (a, d) = Some p \<longleftrightarrow> (\<exists>j\<in>insert i A. st c' j \<noteq> FREE \<and> p = bd_node c' j \<and> kd c' j = a \<and> kb c' j = d)" for a d p
  proof -
    have old: "(\<exists>j\<in>A. st c' j \<noteq> FREE \<and> p = bd_node c' j \<and> kd c' j = a \<and> kb c' j = d) \<longleftrightarrow> avl_map (tree c) (a, d) = Some p"
      unfolding tr by (intro bex_cong) (auto simp: o)
    show ?thesis using t(2) unfolding bex_simps(5) old n by (auto split: if_splits)
  qed
  then have "tree_ok (insert i A) c'" using t(1) by (simp add: tree_ok_def)
  moreover have "chains_ok (insert i A) c'" unfolding chains_ok_def
  proof
    fix q
    show "distinct (chains c' q) \<and> set (chains c' q) = {j \<in> insert i A. home (st c' j) = Some q}"
      using ch [of q] k(4) o n c(2) unfolding chains_ok_def by auto
  qed
  moreover have "users_ok (insert i A) c'" unfolding users_ok_def
  proof
    fix h
    let ?S = "{j \<in> A. grp c j = h}" and ?v = "\<lambda>c j. inuse (st c j) + wt c j"
    have "{j \<in> insert i A. grp c' j = h} = (if grp c i = h then insert i ?S else ?S)" using mx by (auto simp: grp_def)
    moreover have "(\<Sum>j\<in>?S. ?v c' j) = (\<Sum>j\<in>?S. ?v c j)" using o by (intro sum.cong) auto
    moreover have "g_users c h = (\<Sum>j\<in>?S. ?v c j)" using k(5) by (simp add: users_ok_def)
    moreover have "g_users c' h = g_users c h + (if grp c i = h then ?v c' i else 0)" using u n by simp
    ultimately show "g_users c' h = (\<Sum>j | j \<in> insert i A \<and> grp c' j = h. ?v c' j)" using c(2) k(1) by simp
  qed
  ultimately show ?thesis using k(1) c(3) by (simp add: core_def)
qed

section \<open>Taking a buffer out\<close>

lemma chain_extract_at:
  assumes "i \<in> set (chains c q)" "\<And>q'. q' \<noteq> q \<Longrightarrow> i \<notin> set (chains c q')"
  shows "chain_extract i c = Some (c\<lparr>chains := (chains c)(q := remove1 i (chains c q))\<rparr>)"
proof -
  have "filter (\<lambda>q. i \<in> set (chains c q)) [Lru, Modified, Sync] = [q]"
    using assms by (cases q) auto
  then show ?thesis by (simp add: chain_extract_def)
qed

lemma core_on_chain: "core A c \<Longrightarrow> i \<in> A \<Longrightarrow> i \<in> set (chains c q) \<longleftrightarrow> home (st c i) = Some q"
  using coreD(4) by (auto simp: chains_ok_def)

lemma core_chain_distinct: "core A c \<Longrightarrow> distinct (chains c q)"
  using coreD(4) by (auto simp: chains_ok_def)

lemma core_chain_sub: "core A c \<Longrightarrow> i \<in> set (chains c q) \<Longrightarrow> i \<in> A \<and> home (st c i) = Some q"
  using coreD(4) by (auto simp: chains_ok_def)

lemma core_extract:
  assumes "core A c" "i \<in> A" "home (st c i) = Some q" "chains c' = chains c"
  shows "chain_extract i c' = Some (c'\<lparr>chains := (chains c)(q := remove1 i (chains c q))\<rparr>)"
  using chain_extract_at [of i c' q] core_on_chain [OF assms(1,2)] assms(3,4) by auto

lemma remove_tree_ok:
  assumes "core A c" "i \<in> A" "st c i \<noteq> FREE" "tree c' = tree c" "kd c' i = kd c i" "kb c' i = kb c i"
  shows "\<exists>t. rtems_bdbuf_remove_from_tree i c' = Some (c'\<lparr>tree := t\<rparr>) \<and> avl_inv t \<and>
    avl_map t = (avl_map (tree c))((kd c i, kb c i) := None)"
proof -
  have "avl_map (tree c) (kd c i, kb c i) = Some (bd_node c i)" "avl_inv (tree c)"
    using coreD(3) [OF assms(1)] assms(2,3) unfolding tree_ok_def by blast+
  then show ?thesis using av.remove_law [of "tree c" "bd_node c' i"] core_size [OF assms(1)] assms(4-6)
    by (auto simp: rtems_bdbuf_remove_from_tree_def bd_node_def)
qed

lemma remove_lru_ok:
  assumes "core A c" "i \<in> A" "st c i = FREE \<or> st c i = CACHED" "wt c i = 0"
  shows "\<exists>t. rtems_bdbuf_remove_from_tree_and_lru_list i c =
      Some (c\<lparr>tree := t, chains := (chains c)(Lru := remove1 i (chains c Lru))\<rparr>) \<and>
    core (A - {i}) (c\<lparr>tree := t, chains := (chains c)(Lru := remove1 i (chains c Lru))\<rparr>)"
proof -
  have h: "home (st c i) = Some Lru" "inuse (st c i) = 0" using assms(3) by auto
  have off: "q \<noteq> Lru \<Longrightarrow> i \<notin> set (chains c q)" for q using core_on_chain [OF assms(1,2), of q] h by auto
  have ch: "distinct (((chains c)(Lru := remove1 i (chains c Lru))) q) \<and>
      set (((chains c)(Lru := remove1 i (chains c Lru))) q) = set (chains c q) - {i}" for q
    using core_chain_distinct [OF assms(1)] off by auto
  show ?thesis
  proof (cases "st c i = FREE")
    case True
    show ?thesis
    proof (intro exI [of _ "tree c"] conjI)
      show "rtems_bdbuf_remove_from_tree_and_lru_list i c =
          Some (c\<lparr>tree := tree c, chains := (chains c)(Lru := remove1 i (chains c Lru))\<rparr>)"
        using True core_extract [OF assms(1,2) h(1) refl] by (simp add: rtems_bdbuf_remove_from_tree_and_lru_list_def)
      show "core (A - {i}) (c\<lparr>tree := tree c, chains := (chains c)(Lru := remove1 i (chains c Lru))\<rparr>)"
        by (rule core_drop [OF assms(1,2)]) (use True assms(4) h ch coreD(3) [OF assms(1)] in \<open>auto simp: tree_ok_def\<close>)
    qed
  next
    case False
    obtain t where t: "rtems_bdbuf_remove_from_tree i c = Some (c\<lparr>tree := t\<rparr>)" "avl_inv t"
        "avl_map t = (avl_map (tree c))((kd c i, kb c i) := None)"
      using remove_tree_ok [OF assms(1,2) False refl refl refl] by blast
    show ?thesis
    proof (intro exI [of _ t] conjI)
      show "rtems_bdbuf_remove_from_tree_and_lru_list i c =
          Some (c\<lparr>tree := t, chains := (chains c)(Lru := remove1 i (chains c Lru))\<rparr>)"
        using False assms(3) t(1) core_extract [OF assms(1,2) h(1), of "c\<lparr>tree := t\<rparr>"]
        by (simp add: rtems_bdbuf_remove_from_tree_and_lru_list_def)
      show "core (A - {i}) (c\<lparr>tree := t, chains := (chains c)(Lru := remove1 i (chains c Lru))\<rparr>)"
        by (rule core_drop [OF assms(1,2)]) (use False assms(4) h ch t in auto)
    qed
  qed
qed

lemma make_free_ok:
  assumes "core A c" "i \<notin> A" "card (insert i A) \<le> AVL_MAX_NODES" "wt c i = 0"
  shows "core (insert i A) (rtems_bdbuf_make_free_and_add_to_lru_list i c)"
proof -
  have n: "i \<notin> set (chains c q)" for q using core_chain_sub [OF assms(1)] assms(2) by blast
  show ?thesis
    by (rule core_add [OF assms(1-3), where b = "(bds c i)\<lparr>b_state := FREE\<rparr>"])
       (use n assms(4) core_chain_distinct [OF assms(1)] coreD(3) [OF assms(1)] in
         \<open>auto simp: rtems_bdbuf_make_free_and_add_to_lru_list_def rtems_bdbuf_set_state_def chain_prepend_def tree_ok_def\<close>)
qed

section \<open>Groups\<close>

text \<open>The descriptors in use: in a group of \<open>n\<close> buffers, every \<open>mx div n\<close>-th one.\<close>

definition lives :: "rtems_bdbuf_cache \<Rightarrow> nat set" where
  "lives c = {i. grp c i < group_count c \<and> i mod max_bds_per_group c mod (max_bds_per_group c div bds_per_group c (grp c i)) = 0}"

definition shape :: "rtems_bdbuf_cache \<Rightarrow> bool" where
  "shape c \<longleftrightarrow> 0 < max_bds_per_group c \<and> group_count c * max_bds_per_group c \<le> AVL_MAX_NODES \<and>
     (\<forall>g<group_count c. 0 < bds_per_group c g \<and> bds_per_group c g dvd max_bds_per_group c)"

lemma lives_bound: "shape c \<Longrightarrow> lives c \<subseteq> {..<group_count c * max_bds_per_group c}"
  by (auto simp: lives_def shape_def grp_def div_less_iff_less_mult)

lemma card_lives:
  assumes "shape c"
  shows "finite (lives c)" "B \<subseteq> {..<group_count c * max_bds_per_group c} \<Longrightarrow> card B \<le> AVL_MAX_NODES"
proof -
  show "finite (lives c)" using lives_bound [OF assms] finite_subset by blast
  assume "B \<subseteq> {..<group_count c * max_bds_per_group c}"
  then have "card B \<le> group_count c * max_bds_per_group c" using card_mono [of "{..<group_count c * max_bds_per_group c}" B] by simp
  then show "card B \<le> AVL_MAX_NODES" using assms by (simp add: shape_def)
qed

lemma group_bds_set:
  assumes "0 < max_bds_per_group c" "0 < n" "n dvd max_bds_per_group c"
  shows "distinct (group_bds c g n)" "hd (group_bds c g n) = g * max_bds_per_group c" "group_bds c g n \<noteq> []"
    "set (group_bds c g n) = {i. grp c i = g \<and> i mod max_bds_per_group c mod (max_bds_per_group c div n) = 0}"
proof -
  obtain k where k: "max_bds_per_group c = n * k" using assms(3) by (auto elim: dvdE)
  have k0: "0 < k" "max_bds_per_group c div n = k" using k assms(1,2) by auto
  show "distinct (group_bds c g n)" using k0 by (auto simp: group_bds_def distinct_map inj_on_def)
  show ne: "group_bds c g n \<noteq> []" using assms(2) by (simp add: group_bds_def)
  show "hd (group_bds c g n) = g * max_bds_per_group c" using assms(2) by (simp add: group_bds_def hd_map upt_conv_Cons)
  show "set (group_bds c g n) = {i. grp c i = g \<and> i mod max_bds_per_group c mod (max_bds_per_group c div n) = 0}"
  proof (intro equalityI subsetI)
    fix i
    assume "i \<in> set (group_bds c g n)"
    then obtain b where b: "b < n" "i = g * (n * k) + b * k" using k0 k by (auto simp: group_bds_def)
    then have "b * k < n * k" using k0 by simp
    then have "i div (n * k) = g" "i mod (n * k) = b * k" using b(2) by (simp_all add: div_mult_self3 mult.commute)
    then show "i \<in> {i. grp c i = g \<and> i mod max_bds_per_group c mod (max_bds_per_group c div n) = 0}"
      using k k0 by (simp add: grp_def)
  next
    fix i
    assume "i \<in> {i. grp c i = g \<and> i mod max_bds_per_group c mod (max_bds_per_group c div n) = 0}"
    then have i: "i div (n * k) = g" "i mod (n * k) mod k = 0" unfolding k0(2) k grp_def by auto
    define b where "b = i mod (n * k) div k"
    have "b * k = i mod (n * k)" using i(2) by (auto simp: b_def)
    moreover have "b < n" unfolding b_def using k0(1) assms(2) by (simp add: div_less_iff_less_mult)
    moreover have "i = g * (n * k) + i mod (n * k)" unfolding i(1) [symmetric] by (rule div_mult_mod_eq [symmetric])
    ultimately have "i = g * (n * k) + b * k" "b \<in> {0..<n}" by simp_all
    then show "i \<in> set (group_bds c g n)" unfolding group_bds_def k0(2) k by (auto intro: image_eqI)
  qed
qed

lemma lives_group: "shape c \<Longrightarrow> g < group_count c \<Longrightarrow> set (group_bds c g (bds_per_group c g)) = {i \<in> lives c. grp c i = g}"
  using group_bds_set(4) [of c "bds_per_group c g" g] by (auto simp: shape_def lives_def)

text \<open>What evictions leave alone.\<close>

definition same_rest :: "rtems_bdbuf_cache \<Rightarrow> rtems_bdbuf_cache \<Rightarrow> bool" where
  "same_rest c c' \<longleftrightarrow> max_bds_per_group c' = max_bds_per_group c \<and> group_count c' = group_count c \<and> g_users c' = g_users c \<and>
     waitcount c' = waitcount c \<and> sync_active c' = sync_active c \<and> sync_device c' = sync_device c \<and>
     free_workers c' = free_workers c \<and> (\<forall>q. q \<noteq> Lru \<longrightarrow> chains c' q = chains c q)"

lemma remove_all_ok:
  assumes "core A c" "distinct is" "set is \<subseteq> A" "\<forall>i\<in>set is. (st c i = FREE \<or> st c i = CACHED) \<and> wt c i = 0"
  shows "\<exists>c'. remove_all is c = Some c' \<and> core (A - set is) c' \<and> bds c' = bds c \<and> bds_per_group c' = bds_per_group c \<and> same_rest c c'"
  using assms
proof (induction "is" arbitrary: A c)
  case Nil
  then show ?case by (simp add: same_rest_def)
next
  case (Cons i "is")
  obtain t where t: "rtems_bdbuf_remove_from_tree_and_lru_list i c =
      Some (c\<lparr>tree := t, chains := (chains c)(Lru := remove1 i (chains c Lru))\<rparr>)"
      "core (A - {i}) (c\<lparr>tree := t, chains := (chains c)(Lru := remove1 i (chains c Lru))\<rparr>)"
    using remove_lru_ok [of A c i] Cons.prems by auto
  let ?c = "c\<lparr>tree := t, chains := (chains c)(Lru := remove1 i (chains c Lru))\<rparr>"
  obtain c' where c': "remove_all is ?c = Some c'" "core (A - {i} - set is) c'" "bds c' = bds ?c" "bds_per_group c' = bds_per_group ?c" "same_rest ?c c'"
    using Cons.IH [OF t(2)] Cons.prems by auto
  have "A - set (i # is) = A - {i} - set is" by auto
  then show ?case using t(1) c' by (simp add: same_rest_def)
qed

lemma make_free_all_ok:
  assumes "core A c" "distinct is" "set is \<inter> A = {}" "card (A \<union> set is) \<le> AVL_MAX_NODES" "\<forall>i\<in>set is. wt c i = 0"
  shows "core (A \<union> set is) (fold rtems_bdbuf_make_free_and_add_to_lru_list is c)"
    "bds (fold rtems_bdbuf_make_free_and_add_to_lru_list is c) = (\<lambda>j. if j \<in> set is then (bds c j)\<lparr>b_state := FREE\<rparr> else bds c j)"
    "same_rest c (fold rtems_bdbuf_make_free_and_add_to_lru_list is c)"
    "bds_per_group (fold rtems_bdbuf_make_free_and_add_to_lru_list is c) = bds_per_group c"
  using assms
proof (atomize (full), induction "is" arbitrary: A c)
  case Nil
  then show ?case by (simp add: same_rest_def)
next
  case (Cons i "is")
  let ?c = "rtems_bdbuf_make_free_and_add_to_lru_list i c"
  have f: "finite (A \<union> set (i # is))" using coreD(1) [OF Cons.prems(1)] by simp
  have "card (insert i A) \<le> card (A \<union> set (i # is))" by (rule card_mono [OF f]) auto
  then have "core (insert i A) ?c" using make_free_ok [OF Cons.prems(1), of i] Cons.prems by auto
  moreover have b: "bds ?c = (bds c)(i := (bds c i)\<lparr>b_state := FREE\<rparr>)" "same_rest c ?c" "bds_per_group ?c = bds_per_group c"
    by (simp_all add: rtems_bdbuf_make_free_and_add_to_lru_list_def rtems_bdbuf_set_state_def chain_prepend_def same_rest_def)
  moreover have "A \<union> set (i # is) = insert i A \<union> set is" by auto
  ultimately show ?case using Cons.IH [of "insert i A" ?c] Cons.prems by (auto simp: same_rest_def fun_eq_iff)
qed

section \<open>The invariant\<close>

definition waits_ok :: "nat set \<Rightarrow> rtems_bdbuf_cache \<Rightarrow> bool" where
  "waits_ok A c \<longleftrightarrow> (\<forall>i. 0 \<le> wt c i) \<and> (\<forall>i. i \<notin> A \<longrightarrow> wt c i = 0)"

text \<open>\<open>bpg\<close> is the number of buffers per group of a device. An empty buffer stays in the tree only while a thread waits
  for it, and no thread waits for a free one.\<close>

definition binv :: "(nat \<Rightarrow> nat) \<Rightarrow> rtems_bdbuf_cache \<Rightarrow> bool" where
  "binv bpg c \<longleftrightarrow> core (lives c) c \<and> shape c \<and> waits_ok (lives c) c \<and>
     (\<forall>i\<in>lives c. (st c i = EMPTY \<longrightarrow> 0 < wt c i) \<and> (st c i = FREE \<longrightarrow> wt c i = 0)) \<and>
     (\<forall>i\<in>lives c. st c i \<noteq> FREE \<longrightarrow> bds_per_group c (grp c i) = bpg (kd c i))"

text \<open>A buffer \<open>i\<close> has been taken from the chain of recently used ones, for a device with \<open>n\<close> buffers per group; other buffers
  in use, or waited for, have not changed.\<close>

definition taken :: "nat \<Rightarrow> rtems_bdbuf_cache \<Rightarrow> nat \<Rightarrow> rtems_bdbuf_cache \<Rightarrow> bool" where
  "taken n c i c' \<longleftrightarrow> core (lives c' - {i}) c' \<and> shape c' \<and> i \<in> lives c' \<and> bds_per_group c' (grp c i) = n \<and>
     same_rest c c' \<and> (\<forall>j. wt c' j = wt c j) \<and> wt c i = 0 \<and>
     (\<forall>j\<in>lives c' - {i}. st c' j \<noteq> FREE \<longrightarrow> j \<in> lives c \<and> bds c' j = bds c j \<and> bds_per_group c' (grp c j) = bds_per_group c (grp c j)) \<and>
     (\<forall>j\<in>lives c. st c j \<noteq> FREE \<and> \<not> (st c j = CACHED \<and> wt c j = 0) \<longrightarrow> j \<in> lives c' - {i} \<and> bds c' j = bds c j)"

lemma binvD:
  assumes "binv bpg c"
  shows "core (lives c) c" "shape c" "waits_ok (lives c) c" "i \<in> lives c \<Longrightarrow> st c i = EMPTY \<Longrightarrow> 0 < wt c i"
    "i \<in> lives c \<Longrightarrow> st c i \<noteq> FREE \<Longrightarrow> bds_per_group c (grp c i) = bpg (kd c i)" "0 \<le> wt c i" "i \<notin> lives c \<Longrightarrow> wt c i = 0"
    "i \<in> lives c \<Longrightarrow> st c i = FREE \<Longrightarrow> wt c i = 0"
  using assms by (auto simp: binv_def waits_ok_def)

lemma taken_lru:
  assumes "binv bpg c" "i \<in> set (chains c Lru)" "wt c i = 0" "bds_per_group c (grp c i) = n"
  shows "\<exists>c'. rtems_bdbuf_remove_from_tree_and_lru_list i c = Some c' \<and> taken n c i c'"
proof -
  note b = binvD [OF assms(1)]
  have i: "i \<in> lives c" "st c i = FREE \<or> st c i = CACHED"
    using core_chain_sub [OF b(1) assms(2)] by (cases "st c i"; auto)+
  obtain t where t: "rtems_bdbuf_remove_from_tree_and_lru_list i c =
      Some (c\<lparr>tree := t, chains := (chains c)(Lru := remove1 i (chains c Lru))\<rparr>)"
      "core (lives c - {i}) (c\<lparr>tree := t, chains := (chains c)(Lru := remove1 i (chains c Lru))\<rparr>)"
    using remove_lru_ok [OF b(1) i assms(3)] by auto
  let ?c = "c\<lparr>tree := t, chains := (chains c)(Lru := remove1 i (chains c Lru))\<rparr>"
  have l: "lives ?c = lives c" by (simp add: lives_def grp_def)
  have "taken n c i ?c" using t(2) b(2) i assms(3,4) unfolding taken_def l
    by (auto simp: shape_def same_rest_def)
  then show ?thesis using t(1) by blast
qed

lemma idle_group:
  assumes "binv bpg c" "g_users c g = 0" "i \<in> lives c" "grp c i = g"
  shows "(st c i = FREE \<or> st c i = CACHED) \<and> wt c i = 0"
proof -
  note b = binvD [OF assms(1)]
  let ?S = "{j \<in> lives c. grp c j = g}"
  have nn: "0 \<le> inuse (st c j) + wt c j" for j using b(6) [of j] by (cases "st c j") auto
  have "(\<Sum>j\<in>?S. inuse (st c j) + wt c j) = 0" using coreD(5) [OF b(1)] assms(2) by (simp add: users_ok_def)
  then have "inuse (st c i) + wt c i = 0"
    using assms(3,4) nn coreD(1) [OF b(1)] sum_nonneg_eq_0_iff [of ?S "\<lambda>j. inuse (st c j) + wt c j"] by auto
  then show ?thesis using b(4) [OF assms(3)] b(6) [of i] by (cases "st c i") auto
qed

lemma taken_realloc:
  assumes "binv bpg c" "g < group_count c" "g_users c g = 0" "0 < n" "n dvd max_bds_per_group c"
  shows "\<exists>c'. rtems_bdbuf_group_realloc g n c = Some (g * max_bds_per_group c, c') \<and> taken n c (g * max_bds_per_group c) c'"
proof -
  note b = binvD [OF assms(1)]
  define mx where "mx = max_bds_per_group c"
  have sh: "0 < mx" "0 < bds_per_group c g" "bds_per_group c g dvd mx" using b(2) assms(2) by (auto simp: shape_def mx_def)
  let ?old = "group_bds c g (bds_per_group c g)" and ?new = "group_bds c g n"
  note old = group_bds_set [OF sh(1)[unfolded mx_def] sh(2) sh(3)[unfolded mx_def], of g]
  note new = group_bds_set [OF sh(1)[unfolded mx_def] assms(4,5), of g]
  note lg = lives_group [OF b(2) assms(2)]
  obtain c1 where c1: "remove_all ?old c = Some c1" "core (lives c - set ?old) c1" "bds c1 = bds c" "bds_per_group c1 = bds_per_group c" "same_rest c c1"
    using remove_all_ok [OF b(1) old(1)] idle_group [OF assms(1,3)] unfolding lg by blast
  define c2 where "c2 = c1\<lparr>bds_per_group := (bds_per_group c1)(g := n)\<rparr>"
  have e2: "bds c2 = bds c" "bds_per_group c2 = (bds_per_group c)(g := n)" "same_rest c c2" "max_bds_per_group c2 = mx"
    using c1 by (simp_all add: c2_def same_rest_def mx_def)
  have core2: "core (lives c - set ?old) c2"
    using c1(2) by (simp add: core_def tree_ok_def chains_ok_def users_ok_def bd_node_def c2_def grp_def)
  have nb: "group_bds c2 g n = ?new" using e2(4) by (simp add: group_bds_def mx_def)
  have tl: "distinct (tl ?new)" "set (tl ?new) = set ?new - {g * mx}"
    using new(1,2,3) by (cases ?new; auto simp: mx_def)+
  have gn: "grp c i = g" if "i \<in> set ?new" for i using that unfolding new(4) by simp
  have out: "i \<in> lives c - set ?old \<longleftrightarrow> i \<in> lives c \<and> grp c i \<noteq> g" for i unfolding lg by auto
  have disj: "set (tl ?new) \<inter> (lives c - set ?old) = {}" using gn tl(2) out by blast
  have bound: "set ?new \<subseteq> {..<group_count c * max_bds_per_group c}"
  proof
    fix i
    assume "i \<in> set ?new"
    then have "i div mx < group_count c" using gn assms(2) by (auto simp: grp_def mx_def)
    then show "i \<in> {..<group_count c * max_bds_per_group c}" using sh(1) by (simp add: div_less_iff_less_mult mx_def)
  qed
  have w: "\<forall>i\<in>set (tl ?new). wt c2 i = 0" unfolding e2(1)
  proof
    fix i
    assume "i \<in> set (tl ?new)"
    then have "grp c i = g" using gn tl(2) by auto
    then show "wt c i = 0" using idle_group [OF assms(1,3)] b(7) by blast
  qed
  let ?c = "fold rtems_bdbuf_make_free_and_add_to_lru_list (tl ?new) c2"
  have "card ((lives c - set ?old) \<union> set (tl ?new)) \<le> AVL_MAX_NODES"
    using lives_bound [OF b(2)] bound tl(2) by (intro card_lives(2) [OF b(2)]) auto
  note f = make_free_all_ok [OF core2 tl(1) disj this w]
  have geo: "max_bds_per_group ?c = mx" "group_count ?c = group_count c" "bds_per_group ?c = (bds_per_group c)(g := n)" "grp ?c = grp c"
    using f(3,4) e2 by (auto simp: same_rest_def grp_def mx_def)
  have lv: "lives ?c = (lives c - set ?old) \<union> set ?new"
  proof (rule set_eqI)
    fix i
    show "i \<in> lives ?c \<longleftrightarrow> i \<in> (lives c - set ?old) \<union> set ?new"
      using assms(2) unfolding Un_iff out new(4) by (auto simp: lives_def geo mx_def)
  qed
  have first: "g * mx \<in> set ?new" using new(2,3) by (metis hd_in_set mx_def)
  then have lv': "lives ?c - {g * mx} = (lives c - set ?old) \<union> set (tl ?new)" using out gn tl(2) lv by auto
  have gi: "grp c (g * mx) = g" using gn first by simp
  have bd: "bds ?c = (\<lambda>j. if j \<in> set (tl ?new) then (bds c j)\<lparr>b_state := FREE\<rparr> else bds c j)" unfolding f(2) e2(1) ..
  have wi: "wt c (g * mx) = 0" using idle_group [OF assms(1,3)] b(7) gi by blast
  have "taken n c (g * mx) ?c" unfolding taken_def lv'
  proof (intro conjI)
    show "core ((lives c - set ?old) \<union> set (tl ?new)) ?c" by (rule f(1))
    show "shape ?c" using b(2) assms(4,5) by (auto simp: shape_def geo mx_def)
    show "g * mx \<in> lives ?c" using lv first by blast
    show "bds_per_group ?c (grp c (g * mx)) = n" by (simp add: geo gi)
    show "same_rest c ?c" using f(3) e2(3) by (simp add: same_rest_def)
    show "\<forall>j. wt ?c j = wt c j" by (simp add: bd)
    show "wt c (g * mx) = 0" by (rule wi)
    show "\<forall>j\<in>(lives c - set ?old) \<union> set (tl ?new). st ?c j \<noteq> FREE \<longrightarrow>
        j \<in> lives c \<and> bds ?c j = bds c j \<and> bds_per_group ?c (grp c j) = bds_per_group c (grp c j)"
      using out by (auto simp: bd geo)
    show "\<forall>j\<in>lives c. st c j \<noteq> FREE \<and> \<not> (st c j = CACHED \<and> wt c j = 0) \<longrightarrow>
        j \<in> (lives c - set ?old) \<union> set (tl ?new) \<and> bds ?c j = bds c j"
      using out idle_group [OF assms(1,3)] disj by (auto simp: bd)
  qed
  moreover have "rtems_bdbuf_group_realloc g n c = Some (g * mx, ?c)"
    using c1(1) sh(2) assms(4) geo(1) nb e2(4) unfolding rtems_bdbuf_group_realloc_def by (simp add: c2_def [symmetric] mx_def)
  ultimately show ?thesis by (auto simp: mx_def)
qed

lemma core_tree:
  "core A c \<Longrightarrow> avl_map (tree c) (a, b) = Some p \<longleftrightarrow> (\<exists>i\<in>A. st c i \<noteq> FREE \<and> p = bd_node c i \<and> kd c i = a \<and> kb c i = b)"
  by (simp add: core_def tree_ok_def)

lemma lru_scan_ok:
  assumes "binv bpg c" "0 < n" "n dvd max_bds_per_group c" "set is \<subseteq> set (chains c Lru)"
  shows "lru_scan n is c = Some (None, c) \<or> (\<exists>i c'. lru_scan n is c = Some (Some i, c') \<and> taken n c i c')"
  using assms(4)
proof (induction "is")
  case (Cons i "is")
  then have i: "i \<in> set (chains c Lru)" by simp
  have "i \<in> lives c" using core_chain_sub [OF binvD(1) [OF assms(1)] i] by blast
  then have g: "grp c i < group_count c" by (simp add: lives_def)
  show ?case
    using Cons taken_lru [OF assms(1) i] taken_realloc [OF assms(1) g _ assms(2,3)] by auto
qed simp

lemma takenD:
  assumes "taken n c i c'"
  shows "core (lives c' - {i}) c'" "shape c'" "i \<in> lives c'" "bds_per_group c' (grp c i) = n" "same_rest c c'" "wt c' j = wt c j" "wt c i = 0"
    "j \<in> lives c' - {i} \<Longrightarrow> st c' j \<noteq> FREE \<Longrightarrow> j \<in> lives c \<and> bds c' j = bds c j \<and> bds_per_group c' (grp c j) = bds_per_group c (grp c j)"
    "j \<in> lives c \<Longrightarrow> st c j \<noteq> FREE \<Longrightarrow> \<not> (st c j = CACHED \<and> wt c j = 0) \<Longrightarrow> j \<in> lives c' - {i} \<and> bds c' j = bds c j"
  using assms unfolding taken_def by blast+

text \<open>The buffer taken is set up for a block that is not in the tree.\<close>

definition fresh :: "(nat \<Rightarrow> nat) \<Rightarrow> rtems_bdbuf_cache \<Rightarrow> nat \<Rightarrow> nat \<Rightarrow> nat \<Rightarrow> rtems_bdbuf_cache \<Rightarrow> bool" where
  "fresh bpg c dd block i c' \<longleftrightarrow> core (lives c') c' \<and> shape c' \<and> waits_ok (lives c') c' \<and> same_rest c c' \<and>
     i \<in> lives c' \<and> st c' i = EMPTY \<and> wt c' i = 0 \<and> kd c' i = dd \<and> kb c' i = block \<and>
     (\<forall>j\<in>lives c' - {i}. (st c' j = EMPTY \<longrightarrow> 0 < wt c' j) \<and> (st c' j = FREE \<longrightarrow> wt c' j = 0)) \<and>
     (\<forall>j\<in>lives c'. st c' j \<noteq> FREE \<longrightarrow> bds_per_group c' (grp c' j) = bpg (kd c' j)) \<and>
     (\<forall>j\<in>lives c' - {i}. st c' j \<noteq> FREE \<longrightarrow> j \<in> lives c \<and> bds c' j = bds c j) \<and>
     (\<forall>j\<in>lives c. st c j \<noteq> FREE \<and> \<not> (st c j = CACHED \<and> wt c j = 0) \<longrightarrow> j \<in> lives c' - {i} \<and> bds c' j = bds c j)"

lemma setup_ok:
  assumes "binv bpg c" "taken n c i c1" "rtems_bdbuf_avl_search (tree c) dd block = None" "bpg dd = n"
  shows "\<exists>c'. rtems_bdbuf_setup_empty_buffer i dd block c1 = Some c' \<and> fresh bpg c dd block i c'"
proof -
  note b = binvD [OF assms(1)] and t = takenD [OF assms(2)]
  define b1 where "b1 = (bds c1 i)\<lparr>b_dd := dd, b_block := block, b_waiters := 0, b_state := EMPTY\<rparr>"
  have core1: "core (lives c1 - {i}) c1" "i \<in> lives c1" "shape c1" using t(1-3) by auto
  have absent: "avl_map (tree c1) (dd, block) = None"
  proof (rule ccontr)
    assume "avl_map (tree c1) (dd, block) \<noteq> None"
    then obtain p where "avl_map (tree c1) (dd, block) = Some p" by blast
    then have "\<exists>j\<in>lives c1 - {i}. st c1 j \<noteq> FREE \<and> p = bd_node c1 j \<and> kd c1 j = dd \<and> kb c1 j = block"
      by (rule core_tree [OF core1(1), THEN iffD1])
    then obtain j where "j \<in> lives c1 - {i}" "st c1 j \<noteq> FREE" "kd c1 j = dd" "kb c1 j = block" by blast
    then have "j \<in> lives c" "st c j \<noteq> FREE" "kd c j = dd" "kb c j = block" using t(8) [of j] by simp_all
    then show False using core_search [OF b(1), of dd block] assms(3) by auto
  qed
  let ?n = "\<lparr>nd_dd = dd, nd_block = block, nd_buf = i\<rparr>"
  obtain tr where tr: "rtems_bdbuf_avl_insert (tree c1) ?n = Some (tr, 0)" "avl_inv tr" "avl_map tr = (avl_map (tree c1))((dd, block) \<mapsto> ?n)"
    using av.add_law [of "tree c1" ?n] core_size [OF core1(1)] coreD(3) [OF core1(1)] absent by (auto simp: tree_ok_def)
  define c' where "c' = c1\<lparr>bds := (bds c1)(i := b1), tree := tr\<rparr>"
  have run: "rtems_bdbuf_setup_empty_buffer i dd block c1 = Some c'"
    using tr(1) by (simp add: rtems_bdbuf_setup_empty_buffer_def bd_node_def rtems_bdbuf_make_empty_def rtems_bdbuf_set_state_def c'_def b1_def)
  have ins: "insert i (lives c1 - {i}) = lives c1" using core1(2) by auto
  have core': "core (insert i (lives c1 - {i})) c'"
  proof (rule core_add [OF core1(1), where b = b1])
    show "card (insert i (lives c1 - {i})) \<le> AVL_MAX_NODES"
      unfolding ins using card_lives(2) [OF core1(3) lives_bound [OF core1(3)]] .
    show "distinct (chains c' q) \<and> set (chains c' q) = set (chains c1 q) \<union> (if home (b_state b1) = Some q then {i} else {})" for q
      using core_chain_distinct [OF core1(1)] by (simp add: c'_def b1_def)
  qed (use tr absent in \<open>auto simp: c'_def b1_def\<close>)
  have l: "lives c' = lives c1" "grp c' = grp c1" by (auto simp: lives_def grp_def c'_def)
  have g: "grp c1 = grp c" using t(5) by (auto simp: same_rest_def grp_def)
  have o: "j \<noteq> i \<Longrightarrow> bds c' j = bds c1 j" for j by (simp add: c'_def)
  have bi: "bds c' i = b1" "b_state b1 = EMPTY" "b_waiters b1 = 0" "b_dd b1 = dd" "b_block b1 = block" by (simp_all add: c'_def b1_def)
  have w: "wt c' j = wt c j" for j using t(6,7) bi o by (cases "j = i") auto
  have wz: "wt c j = 0" if "j \<notin> lives c1" for j
    using that t(9) [of j] b(7,8) [of j] by blast
  have wf: "wt c j = 0" if "j \<in> lives c1 - {i}" "st c1 j = FREE" for j
  proof (cases "j \<in> lives c \<and> st c j \<noteq> FREE \<and> wt c j \<noteq> 0")
    case True
    then have "bds c1 j = bds c j" using t(9) [of j] by blast
    then show ?thesis using that(2) True by simp
  next
    case False
    then show ?thesis using b(7,8) by blast
  qed
  have "fresh bpg c dd block i c'" unfolding fresh_def l
  proof (intro conjI)
    show "core (lives c1) c'" using core' unfolding ins .
    show "shape c'" using core1(3) by (simp add: shape_def c'_def)
    show "waits_ok (lives c1) c'" using b(6) wz by (simp add: waits_ok_def w)
    show "same_rest c c'" using t(5) by (simp add: same_rest_def c'_def)
    show "\<forall>j\<in>lives c1 - {i}. (st c' j = EMPTY \<longrightarrow> 0 < wt c' j) \<and> (st c' j = FREE \<longrightarrow> wt c' j = 0)"
    proof
      fix j
      assume j: "j \<in> lives c1 - {i}"
      then have "st c' j = EMPTY \<Longrightarrow> j \<in> lives c \<and> st c j = EMPTY" using t(8) [of j] o [of j] by auto
      then show "(st c' j = EMPTY \<longrightarrow> 0 < wt c' j) \<and> (st c' j = FREE \<longrightarrow> wt c' j = 0)"
        using b(4) wf [OF j] j o [of j] unfolding w by auto
    qed
    show "\<forall>j\<in>lives c1. st c' j \<noteq> FREE \<longrightarrow> bds_per_group c' (grp c1 j) = bpg (kd c' j)"
    proof (intro ballI impI)
      fix j
      assume j: "j \<in> lives c1" "st c' j \<noteq> FREE"
      show "bds_per_group c' (grp c1 j) = bpg (kd c' j)"
      proof (cases "j = i")
        case True
        then show ?thesis using t(4) assms(4) bi g by (simp add: c'_def)
      next
        case False
        then show ?thesis using t(8) [of j] b(5) [of j] j o [of j] g by (auto simp: c'_def)
      qed
    qed
    show "\<forall>j\<in>lives c1 - {i}. st c' j \<noteq> FREE \<longrightarrow> j \<in> lives c \<and> bds c' j = bds c j"
    proof (intro ballI impI)
      fix j
      assume "j \<in> lives c1 - {i}" "st c' j \<noteq> FREE"
      then show "j \<in> lives c \<and> bds c' j = bds c j" using t(8) [of j] o [of j] by auto
    qed
    show "\<forall>j\<in>lives c. st c j \<noteq> FREE \<and> \<not> (st c j = CACHED \<and> wt c j = 0) \<longrightarrow> j \<in> lives c1 - {i} \<and> bds c' j = bds c j"
    proof (intro ballI impI)
      fix j
      assume "j \<in> lives c" "st c j \<noteq> FREE \<and> \<not> (st c j = CACHED \<and> wt c j = 0)"
      then show "j \<in> lives c1 - {i} \<and> bds c' j = bds c j" using t(9) [of j] o [of j] by auto
    qed
  qed (use core1 bi in auto)
  then show ?thesis using run by blast
qed

lemma get_from_lru_ok:
  assumes "binv bpg c" "rtems_bdbuf_avl_search (tree c) dd block = None" "0 < bpg dd" "bpg dd dvd max_bds_per_group c"
  shows "rtems_bdbuf_get_buffer_from_lru_list (bpg dd) dd block c = Some (None, c) \<or>
    (\<exists>i c'. rtems_bdbuf_get_buffer_from_lru_list (bpg dd) dd block c = Some (Some i, c') \<and> fresh bpg c dd block i c')"
  using lru_scan_ok [OF assms(1,3,4) subset_refl] setup_ok [OF assms(1) _ assms(2) refl]
  by (fastforce simp: rtems_bdbuf_get_buffer_from_lru_list_def)

section \<open>Changes of one buffer\<close>

text \<open>The invariant but for the rules about the waiters of the buffer \<open>i\<close>, which is in the tree.\<close>

definition nearly :: "(nat \<Rightarrow> nat) \<Rightarrow> nat \<Rightarrow> rtems_bdbuf_cache \<Rightarrow> bool" where
  "nearly bpg i c \<longleftrightarrow> core (lives c) c \<and> shape c \<and> waits_ok (lives c) c \<and> i \<in> lives c \<and> st c i \<noteq> FREE \<and>
     (\<forall>j\<in>lives c - {i}. (st c j = EMPTY \<longrightarrow> 0 < wt c j) \<and> (st c j = FREE \<longrightarrow> wt c j = 0)) \<and>
     (\<forall>j\<in>lives c. st c j \<noteq> FREE \<longrightarrow> bds_per_group c (grp c j) = bpg (kd c j))"

lemma binv_nearly: "binv bpg c \<Longrightarrow> i \<in> lives c \<Longrightarrow> st c i \<noteq> FREE \<Longrightarrow> nearly bpg i c"
  by (auto simp: binv_def nearly_def)

lemma fresh_nearly:
  assumes "fresh bpg c dd block i c'"
  shows "nearly bpg i c'"
proof -
  have "st c' i = EMPTY" using assms unfolding fresh_def by blast
  then have "st c' i \<noteq> FREE" by simp
  then show ?thesis using assms unfolding fresh_def nearly_def by blast
qed

lemma nearlyD:
  assumes "nearly bpg i c"
  shows "core (lives c) c" "shape c" "waits_ok (lives c) c" "i \<in> lives c" "st c i \<noteq> FREE" "0 \<le> wt c j"
    "bds_per_group c (grp c i) = bpg (kd c i)"
  using assms by (auto simp: nearly_def waits_ok_def)

definition same_geo :: "rtems_bdbuf_cache \<Rightarrow> rtems_bdbuf_cache \<Rightarrow> bool" where
  "same_geo c c' \<longleftrightarrow> max_bds_per_group c' = max_bds_per_group c \<and> group_count c' = group_count c \<and> bds_per_group c' = bds_per_group c"

lemma same_geo_lives: "same_geo c c' \<Longrightarrow> lives c' = lives c \<and> grp c' = grp c \<and> shape c' = shape c"
  by (auto simp: same_geo_def lives_def grp_def shape_def fun_eq_iff)

text \<open>The chains after buffer \<open>i\<close> has moved to where its new state belongs.\<close>

definition moved :: "nat \<Rightarrow> bdstate \<Rightarrow> rtems_bdbuf_cache \<Rightarrow> rtems_bdbuf_cache \<Rightarrow> bool" where
  "moved i s c c' \<longleftrightarrow> (\<forall>q. distinct (chains c' q) \<and> set (chains c' q) = set (chains c q) - {i} \<union> (if home s = Some q then {i} else {}))"

lemma nearly_keep:
  assumes "nearly bpg i c" "same_geo c c'" "tree c' = tree c" "moved i (b_state b) c c'"
    and b: "bds c' = (bds c)(i := b)" "b_dd b = kd c i" "b_block b = kb c i" "b_state b \<noteq> FREE" "0 \<le> b_waiters b"
    and u: "g_users c' = (g_users c)(grp c i := g_users c (grp c i) + (inuse (b_state b) + b_waiters b - inuse (st c i) - wt c i))"
  shows "nearly bpg i c'"
proof -
  note n = nearlyD [OF assms(1)]
  have l: "lives c' = lives c" "grp c' = grp c" "shape c'" using same_geo_lives [OF assms(2)] n(2) by auto
  have "core (lives c) c'"
    by (rule core_keep [OF n(1,4,5) b(1-4) assms(3) _ _ u]) (use assms(2,4) in \<open>auto simp: same_geo_def moved_def\<close>)
  moreover have "waits_ok (lives c) c'" using n(3,4) b(1,5) by (auto simp: waits_ok_def)
  moreover have "bds_per_group c' = bds_per_group c" using assms(2) by (simp add: same_geo_def)
  ultimately show ?thesis using assms(1) b l(3) unfolding nearly_def l(1,2) by auto
qed

lemma nearly_binv: "nearly bpg i c \<Longrightarrow> st c i = EMPTY \<longrightarrow> 0 < wt c i \<Longrightarrow> binv bpg c"
  unfolding nearly_def binv_def by blast

text \<open>A wait for the buffer, and the end of it.\<close>

lemma moved_same: "core (lives c) c \<Longrightarrow> i \<in> lives c \<Longrightarrow> chains c' = chains c \<Longrightarrow> moved i (st c i) c c'"
  using core_chain_distinct core_on_chain [of "lives c" c i] by (auto simp: moved_def)

lemma wait_ok:
  assumes "nearly bpg i c"
  shows "binv bpg (rtems_bdbuf_wait i q c)" "bds (rtems_bdbuf_wait i q c) = (bds c)(i := (bds c i)\<lparr>b_waiters := wt c i + 1\<rparr>)"
    "same_geo c (rtems_bdbuf_wait i q c)" "chains (rtems_bdbuf_wait i q c) = chains c"
proof -
  let ?c = "rtems_bdbuf_wait i q c" and ?b = "(bds c i)\<lparr>b_waiters := wt c i + 1\<rparr>"
  note n = nearlyD [OF assms]
  show b: "bds ?c = (bds c)(i := ?b)" and g: "same_geo c ?c" and ch: "chains ?c = chains c"
    by (simp_all add: rtems_bdbuf_wait_def rtems_bdbuf_group_obtain_def same_geo_def grp_def)
  have "nearly bpg i ?c"
    by (rule nearly_keep [OF assms g _ _ b]) (use n moved_same [OF n(1,4) ch] n(6) [of i] in
      \<open>auto simp: rtems_bdbuf_wait_def rtems_bdbuf_group_obtain_def\<close>)
  then show "binv bpg ?c" using n(6) [of i] b by (intro nearly_binv) auto
qed

lemma woken_ok:
  assumes "binv bpg c" "0 < wt c i"
  shows "nearly bpg i (rtems_bdbuf_woken i q c)" "bds (rtems_bdbuf_woken i q c) = (bds c)(i := (bds c i)\<lparr>b_waiters := wt c i - 1\<rparr>)"
    "same_geo c (rtems_bdbuf_woken i q c)" "chains (rtems_bdbuf_woken i q c) = chains c"
proof -
  let ?c = "rtems_bdbuf_woken i q c" and ?b = "(bds c i)\<lparr>b_waiters := wt c i - 1\<rparr>"
  have i: "i \<in> lives c" "st c i \<noteq> FREE" using binvD(7,8) [OF assms(1), of i] assms(2) by auto
  note n = binv_nearly [OF assms(1) i]
  show b: "bds ?c = (bds c)(i := ?b)" and g: "same_geo c ?c" and ch: "chains ?c = chains c"
    by (simp_all add: rtems_bdbuf_woken_def rtems_bdbuf_group_release_def same_geo_def grp_def)
  show "nearly bpg i ?c"
    by (rule nearly_keep [OF n g _ _ b]) (use i assms(2) moved_same [OF nearlyD(1,4) [OF n] ch] in
      \<open>auto simp: rtems_bdbuf_woken_def rtems_bdbuf_group_release_def grp_def\<close>)
qed

end
