(* ===== verification/BdbufOps.thy ===== *)
theory BdbufOps
  imports BdbufInv "HOL-Library.Multiset"
begin

text \<open>
  Every operation of \<open>Bdbuf\<close> on a cache that satisfies the invariant of \<open>BdbufInv\<close>: it reaches no fatal state, it keeps the
  invariant, and it changes the buffers as stated.
\<close>

section \<open>Handing out and taking back\<close>

definition same_core :: "rtems_bdbuf_cache \<Rightarrow> rtems_bdbuf_cache \<Rightarrow> bool" where
  "same_core c c' \<longleftrightarrow> bds c' = bds c \<and> tree c' = tree c \<and> chains c' = chains c \<and> g_users c' = g_users c \<and> same_geo c c'"

definition same_sync :: "rtems_bdbuf_cache \<Rightarrow> rtems_bdbuf_cache \<Rightarrow> bool" where
  "same_sync c c' \<longleftrightarrow> sync_active c' = sync_active c \<and> sync_device c' = sync_device c"

lemmas aux_defs = count_stats_def set_read_ahead_def rtems_bdbuf_read_ahead_cancel_def rtems_bdbuf_set_read_ahead_trigger_def
  rtems_bdbuf_check_read_ahead_trigger_def rtems_bdbuf_read_ahead_add_to_chain_def rtems_bdbuf_wake_swapper_def
  rtems_bdbuf_read_ahead_reset_def rtems_bdbuf_anonymous_wait_def anonymous_woken_def rtems_bdbuf_wait_for_buffer_def
  rtems_bdbuf_peek_def

lemma same_core_binv:
  assumes "same_core c c'"
  shows "binv bpg c' = binv bpg c" "nearly bpg i c' = nearly bpg i c"
proof -
  have l: "lives c' = lives c" "grp c' = grp c" "shape c' = shape c" "bds_per_group c' = bds_per_group c"
    using assms same_geo_lives [of c c'] by (auto simp: same_core_def same_geo_def)
  have n: "bd_node c' = bd_node c" using assms by (auto simp: same_core_def bd_node_def)
  have "core A c' = core A c" "waits_ok A c' = waits_ok A c" for A
    using assms unfolding core_def tree_ok_def chains_ok_def users_ok_def waits_ok_def n l(2) by (auto simp: same_core_def)
  then show "binv bpg c' = binv bpg c" "nearly bpg i c' = nearly bpg i c"
    using assms unfolding binv_def nearly_def l by (auto simp: same_core_def)
qed

lemma aux_same:
  "same_core c (count_stats dd f c)" "same_core c (rtems_bdbuf_set_read_ahead_trigger dd b c)"
  "same_core c (rtems_bdbuf_check_read_ahead_trigger dd b c)" "same_core c (set_read_ahead dd r c)"
  "same_core c (rtems_bdbuf_wake_swapper c)" "same_core c (rtems_bdbuf_wait_for_buffer c)" "same_core c (anonymous_woken q c)"
  "same_core c (rtems_bdbuf_peek cf dd b n c)" "same_core c (c\<lparr>read_ahead_chain := ch\<rparr>)"
  "same_sync c (count_stats dd f c)" "same_sync c (rtems_bdbuf_set_read_ahead_trigger dd b c)"
  "same_sync c (rtems_bdbuf_check_read_ahead_trigger dd b c)" "same_sync c (set_read_ahead dd r c)"
  "same_sync c (rtems_bdbuf_wake_swapper c)" "same_sync c (rtems_bdbuf_wait_for_buffer c)" "same_sync c (anonymous_woken q c)"
  "same_sync c (rtems_bdbuf_peek cf dd b n c)" "same_sync c (c\<lparr>read_ahead_chain := ch\<rparr>)"
  by (simp_all add: aux_defs same_core_def same_geo_def same_sync_def Let_def)

lemma same_core_trans: "same_core a b \<Longrightarrow> same_core b c \<Longrightarrow> same_core a c" "same_sync a b \<Longrightarrow> same_sync b c \<Longrightarrow> same_sync a c"
  by (auto simp: same_core_def same_geo_def same_sync_def)

text \<open>One buffer has a new state; nothing else of the buffers changed.\<close>

definition restate :: "(nat \<Rightarrow> nat) \<Rightarrow> nat \<Rightarrow> bdstate \<Rightarrow> rtems_bdbuf_cache \<Rightarrow> rtems_bdbuf_cache \<Rightarrow> bool" where
  "restate bpg i s c c' \<longleftrightarrow> binv bpg c' \<and> (\<exists>h. bds c' = (bds c)(i := (bds c i)\<lparr>b_state := s, b_hold := h\<rparr>)) \<and>
     same_geo c c' \<and> same_sync c c'"

lemma restate_same: "restate bpg i s c c1 \<Longrightarrow> same_core c1 c2 \<Longrightarrow> same_sync c1 c2 \<Longrightarrow> restate bpg i s c c2"
proof -
  assume a: "restate bpg i s c c1" "same_core c1 c2" "same_sync c1 c2"
  have "binv bpg c2" using a(1) same_core_binv(1) [OF a(2)] by (simp add: restate_def)
  then show ?thesis using a by (simp add: restate_def same_core_def same_geo_def same_sync_def)
qed

lemma same_restate: "same_core c c1 \<Longrightarrow> same_sync c c1 \<Longrightarrow> restate bpg i s c1 c2 \<Longrightarrow> restate bpg i s c c2"
  by (auto simp: restate_def same_core_def same_geo_def same_sync_def)

lemma restate_trans: "restate bpg i s c c1 \<Longrightarrow> restate bpg i t c1 c2 \<Longrightarrow> restate bpg i t c c2"
  by (auto simp: restate_def same_geo_def same_sync_def)

lemma hold_same: "(b :: rtems_bdbuf_buffer)\<lparr>b_state := s\<rparr> = b\<lparr>b_state := s, b_hold := b_hold b\<rparr>"
  by (cases b) simp

lemma restate_hold:
  assumes "nearly bpg i c" "same_geo c c'" "same_sync c c'" "tree c' = tree c" "moved i s c c'"
    "bds c' = (bds c)(i := (bds c i)\<lparr>b_state := s, b_hold := h\<rparr>)" "s \<noteq> FREE" "s = EMPTY \<longrightarrow> 0 < wt c i"
    "g_users c' = (g_users c)(grp c i := g_users c (grp c i) + (inuse s - inuse (st c i)))"
  shows "restate bpg i s c c'"
proof -
  have "nearly bpg i c'" by (rule nearly_keep [OF assms(1,2,4) _ assms(6)]) (use assms nearlyD(6) [OF assms(1)] in auto)
  then have "binv bpg c'" by (rule nearly_binv) (use assms in auto)
  then show ?thesis using assms by (auto simp: restate_def)
qed

lemma restateI:
  assumes "nearly bpg i c" "same_geo c c'" "same_sync c c'" "tree c' = tree c" "moved i s c c'"
    "bds c' = (bds c)(i := (bds c i)\<lparr>b_state := s\<rparr>)" "s \<noteq> FREE" "s = EMPTY \<longrightarrow> 0 < wt c i"
    "g_users c' = (g_users c)(grp c i := g_users c (grp c i) + (inuse s - inuse (st c i)))"
  shows "restate bpg i s c c'"
  using restate_hold [OF assms(1-5) _ assms(7-9)] assms(6) hold_same by metis

fun granted :: "access \<Rightarrow> bdstate \<Rightarrow> bdstate" where
  "granted a CACHED = ACCESS_CACHED"
| "granted a MODIFIED = ACCESS_MODIFIED"
| "granted Get s = ACCESS_EMPTY"
| "granted (Read b) s = TRANSFER"

text \<open>The chains after a buffer was extracted, or appended.\<close>

lemma moved_extract:
  assumes "core A c" "i \<in> A" "home (st c i) = Some q" "chains c' = (chains c)(q := remove1 i (chains c q))" "home s = None"
  shows "moved i s c c'"
  using core_chain_distinct [OF assms(1)] core_on_chain [OF assms(1,2)] assms(3-5) by (auto simp: moved_def)

lemma moved_append:
  assumes "core A c" "i \<in> A" "home (st c i) = None" "chains c' = (chains c)(q := chains c q @ [i])" "home s = Some q"
  shows "moved i s c c'"
  using core_chain_distinct [OF assms(1)] core_on_chain [OF assms(1,2)] assms(3-5) by (auto simp: moved_def)

lemma hand_out_granted:
  assumes n: "nearly bpg i c" and s: "st c i \<in> {CACHED, MODIFIED, EMPTY}"
  shows "\<exists>c'. hand_out a dd (access_found i c) = Some (Found i, c') \<and> restate bpg i (granted a (st c i)) c c'"
proof -
  note d = nearlyD [OF n]
  define us where "us = g_users c (grp c i) + (inuse (granted a (st c i)) - inuse (st c i))"
  define ch where "ch = (case home (st c i) of None \<Rightarrow> chains c | Some q \<Rightarrow> (chains c)(q := remove1 i (chains c q)))"
  define c1 where "c1 = c\<lparr>chains := ch, g_users := (g_users c)(grp c i := us)\<rparr>"
  have us: "us = g_users c (grp c i) + (if st c i = MODIFIED then 0 else 1)" using s by (cases a) (auto simp: us_def)
  have af: "access_found i c = Some (Found i, c1)"
    using s core_extract [OF d(1,4), of Lru c] core_extract [OF d(1,4), of Modified "rtems_bdbuf_group_release i c"]
    by (auto simp: access_found_def rtems_bdbuf_wait_for_access_def c1_def ch_def us rtems_bdbuf_group_obtain_def
        rtems_bdbuf_group_release_def grp_def)
  have mv: "moved i (granted a (st c i)) c (c1\<lparr>bds := b\<rparr>)" for b
  proof (cases "st c i = EMPTY")
    case True
    then have "chains (c1\<lparr>bds := b\<rparr>) = chains c" "home (granted a (st c i)) = home (st c i)" by (cases a; simp add: c1_def ch_def)+
    then show ?thesis using moved_same [OF d(1,4)] by (simp add: moved_def)
  next
    case False
    then obtain q where "home (st c i) = Some q" "home (granted a (st c i)) = None" using s by (cases a) auto
    then show ?thesis by (intro moved_extract [OF d(1,4)]) (simp_all add: c1_def ch_def)
  qed
  have r: "restate bpg i (granted a (st c i)) c (rtems_bdbuf_set_state i (granted a (st c i)) c1)"
    by (rule restateI [OF n]) (use s mv in \<open>cases a; auto simp: rtems_bdbuf_set_state_def c1_def us_def same_geo_def same_sync_def grp_def\<close>)+
  have st1: "st c1 i = st c i" by (simp add: c1_def)
  show ?thesis
  proof (cases a)
    case Get
    then show ?thesis using s r af st1 by (auto simp: hand_out_def get_grant_def)
  next
    case (Read b)
    have sw: "rtems_bdbuf_set_state i t (count_stats dd f c1) = count_stats dd f (rtems_bdbuf_set_state i t c1)" for t f
      by (simp add: rtems_bdbuf_set_state_def count_stats_def)
    have sw': "rtems_bdbuf_set_state i t (rtems_bdbuf_set_read_ahead_trigger dd b c2) = rtems_bdbuf_set_read_ahead_trigger dd b (rtems_bdbuf_set_state i t c2)" for t c2
      by (simp add: rtems_bdbuf_set_state_def aux_defs rtems_bdbuf_is_read_ahead_active_def)
    show ?thesis using s r af st1 Read restate_same [OF restate_same [OF r aux_same(1,10)] aux_same(3,12)]
        restate_same [OF restate_same [OF r aux_same(1,10)] aux_same(2,11)]
      by (auto simp: hand_out_def read_grant_def Let_def sw sw')
  qed
qed

lemma hand_out_sleep:
  assumes "nearly bpg i c" "st c i \<notin> {CACHED, MODIFIED, EMPTY}"
  shows "\<exists>q. hand_out a dd (access_found i c) = Some (Sleep (Access_wait i q), rtems_bdbuf_wait i q c)"
  using assms nearlyD(5) [OF assms(1)]
  by (cases "st c i") (auto simp: hand_out_def access_found_def rtems_bdbuf_wait_for_access_def)

section \<open>Giving a buffer back\<close>

text \<open>A buffer nobody waits for leaves the tree.\<close>

lemma free_empty_ok:
  assumes n: "nearly bpg i c" and e: "st c i = EMPTY" "wt c i = 0"
  shows "\<exists>c'. rtems_bdbuf_remove_from_tree i c \<bind> (\<lambda>c. Some (rtems_bdbuf_make_free_and_add_to_lru_list i c)) = Some c' \<and> restate bpg i FREE c c'"
proof -
  note d = nearlyD [OF n]
  obtain t where t: "rtems_bdbuf_remove_from_tree i c = Some (c\<lparr>tree := t\<rparr>)" "avl_inv t"
      "avl_map t = (avl_map (tree c))((kd c i, kb c i) := None)"
    using remove_tree_ok [OF d(1,4,5) refl refl refl] by blast
  define c1 where "c1 = c\<lparr>tree := t\<rparr>"
  have off: "set (chains c q) - {i} = set (chains c q)" for q using core_on_chain [OF d(1,4), of q] e by auto
  have core1: "core (lives c - {i}) c1"
    by (rule core_drop [OF d(1,4)]) (use e t core_chain_distinct [OF d(1)] off in \<open>auto simp: c1_def\<close>)
  let ?c = "rtems_bdbuf_make_free_and_add_to_lru_list i c1"
  have ins: "insert i (lives c - {i}) = lives c" using d(4) by auto
  have "core (insert i (lives c - {i})) ?c"
    by (rule make_free_ok [OF core1]) (use ins e coreD(2) [OF d(1)] in \<open>auto simp: c1_def\<close>)
  then have core2: "core (lives c) ?c" unfolding ins .
  have b: "bds ?c = (bds c)(i := (bds c i)\<lparr>b_state := FREE\<rparr>)" "same_geo c ?c" "same_sync c ?c"
    by (simp_all add: rtems_bdbuf_make_free_and_add_to_lru_list_def rtems_bdbuf_set_state_def chain_prepend_def same_geo_def same_sync_def c1_def)
  have l: "lives ?c = lives c" "grp ?c = grp c" "shape ?c" "bds_per_group ?c = bds_per_group c"
    using same_geo_lives [OF b(2)] d(2) b(2) by (auto simp: same_geo_def)
  have "binv bpg ?c" unfolding binv_def l(1,2,4)
    using core2 l(3) n e by (auto simp: nearly_def waits_ok_def b(1))
  then have "restate bpg i FREE c ?c" using b hold_same unfolding restate_def by metis
  then show ?thesis using t(1) by (simp add: c1_def)
qed

fun discarded :: "int \<Rightarrow> bdstate" where
  "discarded w = (if w = 0 then FREE else EMPTY)"

lemma discard_ok:
  assumes n: "nearly bpg i c" and h: "home (st c i) = None" "inuse (st c i) = 1"
  shows "\<exists>c'. rtems_bdbuf_discard_buffer_after_access i c = Some c' \<and> restate bpg i (discarded (wt c i)) c c'"
proof -
  note d = nearlyD [OF n]
  define c1 where "c1 = rtems_bdbuf_make_empty i (rtems_bdbuf_group_release i c)"
  have b: "bds c1 = (bds c)(i := (bds c i)\<lparr>b_state := EMPTY\<rparr>)" "same_geo c c1" "same_sync c c1" "tree c1 = tree c" "chains c1 = chains c"
    "g_users c1 = (g_users c)(grp c i := g_users c (grp c i) + (inuse EMPTY - inuse (st c i)))"
    by (simp_all add: c1_def rtems_bdbuf_make_empty_def rtems_bdbuf_set_state_def rtems_bdbuf_group_release_def same_geo_def same_sync_def h)
  have mv: "moved i EMPTY c c1" using moved_same [OF d(1,4) b(5)] h(1) by (simp add: moved_def)
  have run: "rtems_bdbuf_discard_buffer_after_access i c = (if wt c i = 0
      then rtems_bdbuf_remove_from_tree i c1 \<bind> (\<lambda>c. Some (rtems_bdbuf_make_free_and_add_to_lru_list i c)) else Some c1)"
    using b(1) by (simp add: rtems_bdbuf_discard_buffer_after_access_def rtems_bdbuf_discard_buffer_def Let_def c1_def [symmetric])
  show ?thesis
  proof (cases "wt c i = 0")
    case True
    have "nearly bpg i c1" by (rule nearly_keep [OF n b(2,4) _ b(1)]) (use mv b(6) d(6) [of i] in auto)
    then obtain c' where c': "rtems_bdbuf_remove_from_tree i c1 \<bind> (\<lambda>c. Some (rtems_bdbuf_make_free_and_add_to_lru_list i c)) = Some c'"
        "restate bpg i FREE c1 c'" using free_empty_ok b(1) True by fastforce
    then have "restate bpg i FREE c c'" using b(1-3) by (auto simp: restate_def same_geo_def same_sync_def)
    then show ?thesis using run c'(1) True by simp
  next
    case False
    then have "restate bpg i EMPTY c c1" using d(6) [of i] by (intro restateI [OF n b(2-4) mv b(1) _ _ b(6)]) auto
    then show ?thesis using run False by simp
  qed
qed

text \<open>The new state of a buffer that is released.\<close>

fun released :: "int \<Rightarrow> bdstate \<Rightarrow> bdstate" where
  "released w ACCESS_CACHED = CACHED"
| "released w ACCESS_MODIFIED = MODIFIED"
| "released w s = discarded w"

fun released_modified :: "int \<Rightarrow> bdstate \<Rightarrow> bdstate" where
  "released_modified w ACCESS_PURGED = discarded w"
| "released_modified w s = MODIFIED"

definition in_access :: "bdstate \<Rightarrow> bool" where
  "in_access s \<longleftrightarrow> s \<in> {ACCESS_CACHED, ACCESS_MODIFIED, ACCESS_EMPTY, ACCESS_PURGED}"

definition in_transfer :: "bdstate \<Rightarrow> bool" where
  "in_transfer s \<longleftrightarrow> s \<in> {TRANSFER, TRANSFER_PURGED}"

lemma home_busy [simp]: "in_access s \<Longrightarrow> home s = None" "in_transfer s \<Longrightarrow> home s = None" "in_access s \<Longrightarrow> inuse s = 1" "in_transfer s \<Longrightarrow> inuse s = 1"
  by (auto simp: in_access_def in_transfer_def)

lemma state_hold: "(b :: rtems_bdbuf_buffer)\<lparr>b_hold := h, b_state := s\<rparr> = b\<lparr>b_state := s, b_hold := h\<rparr>"
  by (cases b) simp

lemma add_to_modified_ok:
  assumes n: "nearly bpg i c" and s: "in_access (st c i)"
  shows "restate bpg i MODIFIED c (rtems_bdbuf_add_to_modified_list_after_access cf i c)"
proof -
  note d = nearlyD [OF n]
  let ?h = "if st c i = ACCESS_CACHED \<or> st c i = ACCESS_EMPTY then cf_swap_block_hold cf else b_hold (bds c i)"
  define c1 where "c1 = c\<lparr>bds := (bds c)(i := (bds c i)\<lparr>b_state := MODIFIED, b_hold := ?h\<rparr>), chains := (chains c)(Modified := chains c Modified @ [i])\<rparr>"
  have mv: "moved i MODIFIED c c1" using s by (intro moved_append [OF d(1,4)]) (auto simp: c1_def)
  have "restate bpg i MODIFIED c c1"
    by (rule restate_hold [OF n _ _ _ mv]) (use s in \<open>auto simp: c1_def same_geo_def same_sync_def\<close>)
  moreover have "rtems_bdbuf_add_to_modified_list_after_access cf i c =
      (if wt c i \<noteq> 0 then c1 else if rtems_bdbuf_has_buffer_waiters c1 then rtems_bdbuf_wake_swapper c1 else c1)"
    by (cases "st c i = ACCESS_CACHED \<or> st c i = ACCESS_EMPTY")
      (simp_all add: rtems_bdbuf_add_to_modified_list_after_access_def Let_def rtems_bdbuf_set_state_def chain_append_def c1_def
        rtems_bdbuf_has_buffer_waiters_def hold_same [symmetric] state_hold)
  ultimately show ?thesis using restate_same [OF _ aux_same(5,14)] by simp
qed

lemma add_to_lru_ok:
  assumes n: "nearly bpg i c" and s: "home (st c i) = None" "inuse (st c i) = 1"
  shows "restate bpg i CACHED c (rtems_bdbuf_add_to_lru_list_after_access i c)"
proof -
  note d = nearlyD [OF n]
  have "moved i CACHED c (rtems_bdbuf_add_to_lru_list_after_access i c)" using s
    by (intro moved_append [OF d(1,4)]) (auto simp: rtems_bdbuf_add_to_lru_list_after_access_def rtems_bdbuf_group_release_def
      rtems_bdbuf_make_cached_and_add_to_lru_list_def chain_append_def rtems_bdbuf_set_state_def)
  then show ?thesis
    by (intro restateI [OF n]) (use s in \<open>auto simp: rtems_bdbuf_add_to_lru_list_after_access_def rtems_bdbuf_group_release_def
      rtems_bdbuf_make_cached_and_add_to_lru_list_def chain_append_def rtems_bdbuf_set_state_def same_geo_def same_sync_def\<close>)
qed

lemma release_ok:
  assumes "nearly bpg i c" "in_access (st c i)"
  shows "\<exists>c'. rtems_bdbuf_release cf i c = Some c' \<and> restate bpg i (released (wt c i) (st c i)) c c'"
    "\<exists>c'. rtems_bdbuf_release_modified cf i c = Some c' \<and> restate bpg i (released_modified (wt c i) (st c i)) c c'"
  using discard_ok [OF assms(1)] add_to_modified_ok [OF assms, of cf] add_to_lru_ok [OF assms(1)] assms(2)
  by (auto simp: in_access_def rtems_bdbuf_release_def rtems_bdbuf_release_modified_def)

section \<open>What the cache holds\<close>

text \<open>The buffers in the tree, without what the swap-out task and the waiting threads note in them.\<close>

definition vw :: "rtems_bdbuf_cache \<Rightarrow> nat \<Rightarrow> rtems_bdbuf_buffer option" where
  "vw c i = (if i \<in> lives c \<and> st c i \<noteq> FREE then Some ((bds c i)\<lparr>b_hold := 0, b_waiters := 0\<rparr>) else None)"

text \<open>A buffer gets a new state; with the state \<^const>\<open>FREE\<close> it leaves the tree.\<close>

definition put :: "nat \<Rightarrow> bdstate \<Rightarrow> (nat \<Rightarrow> rtems_bdbuf_buffer option) \<Rightarrow> nat \<Rightarrow> rtems_bdbuf_buffer option" where
  "put i s v = v(i := if s = FREE then None else map_option (\<lambda>b. b\<lparr>b_state := s\<rparr>) (v i))"

definition key :: "rtems_bdbuf_buffer \<Rightarrow> nat \<times> nat" where
  "key b = (b_dd b, b_block b)"

lemma vw_Some: "vw c i = Some b \<longleftrightarrow> i \<in> lives c \<and> st c i \<noteq> FREE \<and> b = (bds c i)\<lparr>b_hold := 0, b_waiters := 0\<rparr>"
  by (auto simp: vw_def)

lemma vw_live: "vw c i = Some b \<Longrightarrow> i \<in> lives c \<and> st c i \<noteq> FREE \<and> st c i = b_state b \<and> kd c i = b_dd b \<and> kb c i = b_block b \<and> b_data (bds c i) = b_data b"
  by (auto simp: vw_def split: if_splits)

lemma vw_inj:
  assumes "binv bpg c" "vw c i = Some a" "vw c j = Some b" "key a = key b"
  shows "i = j"
  using core_inj [OF binvD(1) [OF assms(1)], of i j] vw_live [OF assms(2)] vw_live [OF assms(3)] assms(4) by (auto simp: key_def)

lemma vw_nearly: "binv bpg c \<Longrightarrow> vw c i = Some b \<Longrightarrow> nearly bpg i c"
  using binv_nearly vw_live by blast

lemma restateD:
  assumes "restate bpg i s c c'" "vw c i = Some b"
  shows "binv bpg c'" "vw c' = put i s (vw c)" "wt c' j = wt c j"
proof -
  obtain h where h: "bds c' = (bds c)(i := (bds c i)\<lparr>b_state := s, b_hold := h\<rparr>)" "same_geo c c'" "binv bpg c'"
    using assms(1) unfolding restate_def by blast
  then show "binv bpg c'" "wt c' j = wt c j" by auto
  have l: "lives c' = lives c" using same_geo_lives [OF h(2)] by blast
  show "vw c' = put i s (vw c)"
  proof
    fix j
    show "vw c' j = put i s (vw c) j"
      using assms(2) unfolding put_def vw_def l h(1) by (cases "bds c i") (auto split: if_splits)
  qed
qed

lemma same_coreD: "same_core c c' \<Longrightarrow> vw c' = vw c \<and> wt c' j = wt c j"
  using same_geo_lives [of c c'] by (auto simp: same_core_def vw_def fun_eq_iff)

lemma put_put: "s \<noteq> FREE \<Longrightarrow> put i t (put i s v) = put i t v"
  by (cases "v i") (auto simp: put_def fun_eq_iff)

section \<open>Transfers\<close>

fun transferred :: "bool \<Rightarrow> int \<Rightarrow> bdstate \<Rightarrow> bdstate" where
  "transferred ok w s = (if ok \<and> s = TRANSFER then CACHED else discarded w)"

lemma transfer_one_ok:
  assumes "nearly bpg i c" "in_transfer (st c i)"
  shows "\<exists>c'. (if ok \<and> st (rtems_bdbuf_group_release i c) i = TRANSFER
      then Some (rtems_bdbuf_make_cached_and_add_to_lru_list i (rtems_bdbuf_group_release i c))
      else rtems_bdbuf_discard_buffer i (rtems_bdbuf_group_release i c)) = Some c' \<and>
    restate bpg i (transferred ok (wt c i) (st c i)) c c'"
proof -
  have "st (rtems_bdbuf_group_release i c) i = st c i" by (simp add: rtems_bdbuf_group_release_def)
  then show ?thesis using discard_ok [OF assms(1)] add_to_lru_ok [OF assms(1)] assms(2)
    by (auto simp: rtems_bdbuf_add_to_lru_list_after_access_def rtems_bdbuf_discard_buffer_after_access_def)
qed

lemma transfer_bds_ok:
  assumes "binv bpg c" "distinct is" "\<And>i. i \<in> set is \<Longrightarrow> \<exists>b. vw c i = Some b \<and> in_transfer (b_state b)"
  shows "\<exists>c'. transfer_bds ok is c = Some c' \<and> binv bpg c' \<and> (\<forall>j. wt c' j = wt c j) \<and>
    vw c' = fold (\<lambda>i. put i (transferred ok (wt c i) (st c i))) is (vw c)"
  using assms
proof (induction "is" arbitrary: c)
  case (Cons i "is")
  obtain b where b: "vw c i = Some b" "in_transfer (b_state b)" using Cons.prems(3) by auto
  then have s: "in_transfer (st c i)" using vw_live [OF b(1)] by simp
  obtain c1 where c1: "(if ok \<and> st (rtems_bdbuf_group_release i c) i = TRANSFER
      then Some (rtems_bdbuf_make_cached_and_add_to_lru_list i (rtems_bdbuf_group_release i c))
      else rtems_bdbuf_discard_buffer i (rtems_bdbuf_group_release i c)) = Some c1"
    and r: "restate bpg i (transferred ok (wt c i) (st c i)) c c1"
    using transfer_one_ok [OF vw_nearly [OF Cons.prems(1) b(1)] s, of ok] by blast
  note d = restateD [OF r b(1)]
  have same: "st c1 j = st c j" if "j \<in> set is" for j using r that Cons.prems(2) by (auto simp: restate_def)
  have "\<exists>b. vw c1 j = Some b \<and> in_transfer (b_state b)" if "j \<in> set is" for j
    using Cons.prems(2,3) that by (auto simp: d(2) put_def)
  then obtain c' where c': "transfer_bds ok is c1 = Some c'" "binv bpg c'" "\<forall>j. wt c' j = wt c1 j"
      "vw c' = fold (\<lambda>i. put i (transferred ok (wt c1 i) (st c1 i))) is (vw c1)"
    using Cons.IH [of c1] d(1) Cons.prems(2) by auto
  have "fold (\<lambda>i. put i (transferred ok (wt c1 i) (st c1 i))) is v = fold (\<lambda>i. put i (transferred ok (wt c i) (st c i))) is v" for v
    by (rule List.fold_cong) (simp_all add: same d(3))
  then have "vw c' = fold (\<lambda>i. put i (transferred ok (wt c i) (st c i))) (i # is) (vw c)" using c'(4) d(2) by simp
  moreover have "transfer_bds ok (i # is) c = Some c'" using c1 c'(1) by (simp add: Let_def)
  ultimately show ?case using c'(2,3) d(3) by auto
qed simp

lemma fold_put:
  assumes "distinct is"
  shows "fold (\<lambda>i. put i (f i)) is v j = (if j \<in> set is then put j (f j) v j else v j)"
  using assms by (induction "is" arbitrary: v) (auto simp: put_def)


lemma execute_transfer_ok:
  assumes "binv bpg c" "distinct is" "\<And>i. i \<in> set is \<Longrightarrow> \<exists>b. vw c i = Some b \<and> in_transfer (b_state b)"
  shows "\<exists>sc c'. rtems_bdbuf_execute_transfer_request reading dd status is c = Some (sc, c') \<and> (sc = 0 \<longleftrightarrow> status = 0) \<and>
    binv bpg c' \<and> (\<forall>j. wt c' j = wt c j) \<and> vw c' = fold (\<lambda>i. put i (transferred (status = 0) (wt c i) (st c i))) is (vw c)"
proof -
  define c1 where "c1 = count_stats dd (transfer_stats reading (status = 0) (length is)) c"
  have s: "same_core c c1" unfolding c1_def by (rule aux_same(1))
  have e: "vw c1 = vw c" "wt c1 j = wt c j" "st c1 j = st c j" for j using same_coreD [OF s] s by (auto simp: same_core_def)
  have "\<exists>c'. transfer_bds (status = 0) is c1 = Some c' \<and> binv bpg c' \<and> (\<forall>j. wt c' j = wt c1 j) \<and>
      vw c' = fold (\<lambda>i. put i (transferred (status = 0) (wt c1 i) (st c1 i))) is (vw c1)"
    by (rule transfer_bds_ok) (use assms e(1) same_core_binv(1) [OF s] in auto)
  then obtain c' where c': "transfer_bds (status = 0) is c1 = Some c'" "binv bpg c'" "\<forall>j. wt c' j = wt c1 j"
      "vw c' = fold (\<lambda>i. put i (transferred (status = 0) (wt c1 i) (st c1 i))) is (vw c1)" by blast
  have "rtems_bdbuf_execute_transfer_request reading dd status is c = Some (if status = 0 \<or> status = - 38 then status else - EIO, c')"
    using c'(1) by (simp add: rtems_bdbuf_execute_transfer_request_def c1_def)
  moreover have "((if status = 0 \<or> status = - 38 then status else - EIO) = 0) = (status = 0)" by (simp add: EIO_def)
  ultimately show ?thesis using c'(2-4) unfolding e by blast
qed

lemma read_finish_ok:
  assumes "binv bpg c" "vw c i = Some b" "b_state b = TRANSFER"
  shows "\<exists>c'. read_finish dd block status i c = Some (if status = 0 then Some i else None, c') \<and> binv bpg c' \<and>
    (\<forall>j. wt c' j = wt c j) \<and> vw c' = put i (if status = 0 then ACCESS_CACHED else discarded (wt c i)) (vw c)"
proof -
  have "\<exists>b. vw c j = Some b \<and> in_transfer (b_state b)" if "j \<in> set [i]" for j using assms(2,3) that by (auto simp: in_transfer_def)
  then obtain sc c1 where c1: "rtems_bdbuf_execute_transfer_request True dd status [i] c = Some (sc, c1)" "sc = 0 \<longleftrightarrow> status = 0"
      "binv bpg c1" "\<forall>j. wt c1 j = wt c j" "vw c1 = put i (transferred (status = 0) (wt c i) (st c i)) (vw c)"
    using execute_transfer_ok [OF assms(1), of "[i]" True dd status] by auto
  have st: "st c i = TRANSFER" using vw_live [OF assms(2)] assms(3) by simp
  note tr = aux_same(3) [of _ dd block]
  show ?thesis
  proof (cases "status = 0")
    case True
    then have v1: "vw c1 = put i CACHED (vw c)" using c1(5) st by simp
    then have b1: "vw c1 i = Some (b\<lparr>b_state := CACHED\<rparr>)" using assms(2) by (simp add: put_def)
    note n = vw_nearly [OF c1(3) b1] and d = nearlyD [OF vw_nearly [OF c1(3) b1]]
    have s1: "st c1 i = CACHED" using vw_live [OF b1] by simp
    define c2 where "c2 = rtems_bdbuf_group_obtain i
      ((rtems_bdbuf_set_state i ACCESS_CACHED c1)\<lparr>chains := (chains c1)(Lru := remove1 i (chains c1 Lru))\<rparr>)"
    have x: "chain_extract i (rtems_bdbuf_set_state i ACCESS_CACHED c1) =
        Some ((rtems_bdbuf_set_state i ACCESS_CACHED c1)\<lparr>chains := (chains c1)(Lru := remove1 i (chains c1 Lru))\<rparr>)"
      using s1 by (intro core_extract [OF d(1,4)]) (simp_all add: rtems_bdbuf_set_state_def)
    have mv: "moved i ACCESS_CACHED c1 c2"
      using s1 by (intro moved_extract [OF d(1,4)]) (simp_all add: c2_def rtems_bdbuf_group_obtain_def rtems_bdbuf_set_state_def)
    have r: "restate bpg i ACCESS_CACHED c1 c2"
      by (rule restateI [OF n _ _ _ mv])
         (simp_all add: c2_def rtems_bdbuf_group_obtain_def rtems_bdbuf_set_state_def same_geo_def same_sync_def grp_def s1)
    note e = restateD [OF r b1]
    have run: "read_finish dd block status i c = Some (Some i, rtems_bdbuf_check_read_ahead_trigger dd block c2)"
      using c1(1,2) True x by (simp add: read_finish_def c2_def)
    have "vw c2 = put i ACCESS_CACHED (vw c)" using e(2) v1 put_put by simp
    then show ?thesis using run True e(1,3) c1(4) same_coreD [OF tr [of c2]] same_core_binv(1) [OF tr [of c2]] by auto
  next
    case False
    have run: "read_finish dd block status i c = Some (None, rtems_bdbuf_check_read_ahead_trigger dd block c1)"
      using c1(1,2) False by (simp add: read_finish_def)
    then show ?thesis using False c1(3-5) same_coreD [OF tr [of c1]] same_core_binv(1) [OF tr [of c1]] by auto
  qed
qed

section \<open>Sync\<close>

lemma sync_begin_ok:
  assumes "nearly bpg i c" "in_access (st c i)"
  shows "restate bpg i SYNC c (sync_begin i c)"
proof -
  note d = nearlyD [OF assms(1)]
  let ?c = "chain_append Sync i (rtems_bdbuf_set_state i SYNC c)"
  have mv: "moved i SYNC c ?c"
    using assms(2) by (intro moved_append [OF d(1,4)]) (auto simp: chain_append_def rtems_bdbuf_set_state_def)
  have "restate bpg i SYNC c ?c"
    by (rule restateI [OF assms(1) _ _ _ mv]) (use assms(2) in \<open>auto simp: chain_append_def rtems_bdbuf_set_state_def same_geo_def same_sync_def\<close>)
  then show ?thesis unfolding sync_begin_def using restate_same aux_same(5,14) by blast
qed

text \<open>A thread begins to wait for a buffer, and wakes up.\<close>

definition waits_for :: "(nat \<Rightarrow> nat) \<Rightarrow> nat \<Rightarrow> rtems_bdbuf_cache \<Rightarrow> rtems_bdbuf_cache \<Rightarrow> bool" where
  "waits_for bpg i c c' \<longleftrightarrow> binv bpg c' \<and> vw c' = vw c \<and> (\<forall>j. wt c' j = wt c j + (if j = i then 1 else 0))"

lemma waits_for_wait:
  assumes "nearly bpg i c"
  shows "waits_for bpg i c (rtems_bdbuf_wait i q c)"
  using wait_ok [OF assms] same_geo_lives [OF wait_ok(3) [OF assms]] by (auto simp: waits_for_def vw_def fun_eq_iff)

lemma woken_vw:
  assumes "binv bpg c" "0 < wt c i"
  shows "nearly bpg i (rtems_bdbuf_woken i q c)" "vw (rtems_bdbuf_woken i q c) = vw c"
    "wt (rtems_bdbuf_woken i q c) j = wt c j - (if j = i then 1 else 0)"
  using woken_ok [OF assms] same_geo_lives [OF woken_ok(3) [OF assms]] by (auto simp: vw_def fun_eq_iff)

lemma nearly_live: "nearly bpg i c \<Longrightarrow> vw c i = Some ((bds c i)\<lparr>b_hold := 0, b_waiters := 0\<rparr>)"
  using nearlyD(4,5) by (auto simp: vw_def)

lemma sync_ok:
  assumes "binv bpg c" "vw c i = Some b" "in_access (b_state b)"
  shows "\<exists>c'. rtems_bdbuf_sync i c = Some (b_state b = ACCESS_PURGED, c') \<and> binv bpg c' \<and>
    vw c' = put i (if b_state b = ACCESS_PURGED then discarded (wt c i) else SYNC) (vw c) \<and>
    (\<forall>j. wt c' j = wt c j + (if j = i \<and> b_state b \<noteq> ACCESS_PURGED then 1 else 0))"
proof -
  note n = vw_nearly [OF assms(1,2)]
  have s: "st c i = b_state b" using vw_live [OF assms(2)] by simp
  show ?thesis
  proof (cases "b_state b = ACCESS_PURGED")
    case True
    obtain c' where c': "rtems_bdbuf_discard_buffer_after_access i c = Some c'" "restate bpg i (discarded (wt c i)) c c'"
      using discard_ok [OF n] True s by auto
    then show ?thesis using restateD [OF c'(2) assms(2)] True s by (simp add: rtems_bdbuf_sync_def)
  next
    case False
    then have r: "restate bpg i SYNC c (sync_begin i c)" using sync_begin_ok [OF n] s assms(3) by simp
    note d = restateD [OF r assms(2)]
    have b1: "vw (sync_begin i c) i = Some (b\<lparr>b_state := SYNC\<rparr>)" using d(2) assms(2) by (simp add: put_def)
    then have s1: "st (sync_begin i c) i = SYNC" using vw_live by fastforce
    have w: "waits_for bpg i (sync_begin i c) (rtems_bdbuf_wait i Transfer_q (sync_begin i c))"
      by (rule waits_for_wait [OF vw_nearly [OF d(1) b1]])
    have "rtems_bdbuf_sync i c = Some (False, rtems_bdbuf_wait i Transfer_q (sync_begin i c))"
      using False s s1 assms(3) by (auto simp: rtems_bdbuf_sync_def rtems_bdbuf_sync_after_access_def rtems_bdbuf_wait_for_sync_done_def in_access_def)
    then show ?thesis using w False d(2,3) by (auto simp: waits_for_def)
  qed
qed

lemma sync_woken_ok:
  assumes "binv bpg c" "0 < wt c i"
  shows "\<exists>d c'. sync_woken i c = Some (d, c') \<and> binv bpg c' \<and> (\<forall>j. wt c' j = wt c j - (if j = i \<and> d then 1 else 0)) \<and>
    (d \<longrightarrow> st c i \<notin> {SYNC, TRANSFER, TRANSFER_PURGED}) \<and>
    vw c' = (if d \<and> wt c i = 1 \<and> st c i = EMPTY then put i FREE (vw c) else vw c)"
proof -
  let ?c = "rtems_bdbuf_woken i Transfer_q c"
  note k = woken_vw [OF assms, of Transfer_q]
  have s: "st ?c i = st c i" by (simp add: woken_ok(2) [OF assms])
  have f: "st c i \<noteq> FREE" using nearlyD(5) [OF k(1)] s by simp
  show ?thesis
  proof (cases "st c i \<in> {SYNC, TRANSFER, TRANSFER_PURGED}")
    case True
    then have "sync_woken i c = Some (False, rtems_bdbuf_wait i Transfer_q ?c)"
      using s by (auto simp: sync_woken_def rtems_bdbuf_wait_for_sync_done_def)
    moreover have "waits_for bpg i ?c (rtems_bdbuf_wait i Transfer_q ?c)" by (rule waits_for_wait [OF k(1)])
    ultimately show ?thesis using k(2,3) by (auto simp: waits_for_def)
  next
    case False
    then have run: "sync_woken i c = sync_end i ?c \<bind> (\<lambda>c. Some (True, c))"
      using s f by (cases "st c i") (auto simp: sync_woken_def rtems_bdbuf_wait_for_sync_done_def)
    show ?thesis
    proof (cases "wt c i = 1 \<and> st c i = EMPTY")
      case True
      then have e: "st ?c i = EMPTY" "wt ?c i = 0" using s k(3) [of i] by auto
      obtain c' where c': "rtems_bdbuf_remove_from_tree i ?c \<bind> (\<lambda>c. Some (rtems_bdbuf_make_free_and_add_to_lru_list i c)) = Some c'"
          "restate bpg i FREE ?c c'" using free_empty_ok [OF k(1) e] by blast
      note d = restateD [OF c'(2) nearly_live [OF k(1)]]
      have "sync_woken i c = Some (True, c')" using run c'(1) e by (simp add: sync_end_def)
      then show ?thesis using True False d k(2,3) by auto
    next
      case no: False
      then have "sync_woken i c = Some (True, ?c)" using run s k(3) [of i] by (auto simp: sync_end_def)
      moreover have "binv bpg ?c" by (rule nearly_binv [OF k(1)]) (use no s k(3) [of i] assms(2) in auto)
      ultimately show ?thesis using no False k(2,3) by auto
    qed
  qed
qed

section \<open>Requests\<close>

text \<open>The buffer a request finds: one of the tree, or a new one, for which unused buffers may have left the tree.\<close>

definition finds :: "nat \<Rightarrow> nat \<Rightarrow> (nat \<Rightarrow> rtems_bdbuf_buffer option) \<Rightarrow> nat \<Rightarrow> rtems_bdbuf_buffer \<Rightarrow>
    (nat \<Rightarrow> rtems_bdbuf_buffer option) \<Rightarrow> bool" where
  "finds dd mb v0 i b v \<longleftrightarrow> v i = Some b \<and> b_dd b = dd \<and> b_block b = mb \<and>
     (v = v0 \<or>
      b_state b = EMPTY \<and> (\<forall>j b'. v0 j = Some b' \<longrightarrow> key b' \<noteq> (dd, mb)) \<and> (\<forall>b'. v0 i = Some b' \<longrightarrow> b_state b' = CACHED) \<and>
      (\<forall>j. j \<noteq> i \<longrightarrow> v j = v0 j \<or> v j = None \<and> (\<exists>b'. v0 j = Some b' \<and> b_state b' = CACHED)))"

lemma fresh_finds:
  assumes "binv bpg c" "fresh bpg c dd block i c'" "rtems_bdbuf_avl_search (tree c) dd block = None"
  shows "\<exists>b. finds dd block (vw c) i b (vw c') \<and> b_state b = EMPTY" "wt c' j = wt c j" "wt c i = 0"
proof -
  have f: "core (lives c') c'" "waits_ok (lives c') c'" "i \<in> lives c'" "st c' i = EMPTY" "wt c' i = 0" "kd c' i = dd" "kb c' i = block"
    using assms(2) unfolding fresh_def by blast+
  have idle: "j \<in> lives c' - {i} \<Longrightarrow> st c' j = FREE \<Longrightarrow> wt c' j = 0"
    "j \<in> lives c' - {i} \<Longrightarrow> st c' j \<noteq> FREE \<Longrightarrow> j \<in> lives c \<and> bds c' j = bds c j"
    "j \<in> lives c \<Longrightarrow> st c j \<noteq> FREE \<Longrightarrow> \<not> (st c j = CACHED \<and> wt c j = 0) \<Longrightarrow> j \<in> lives c' - {i} \<and> bds c' j = bds c j" for j
    using assms(2) unfolding fresh_def by blast+
  have unused: "key b' \<noteq> (dd, block)" if "vw c j = Some b'" for j b'
    using core_search [OF binvD(1) [OF assms(1)], of dd block] assms(3) vw_live [OF that] by (auto simp: key_def)
  have old: "b_state b' = CACHED" if "vw c i = Some b'" for b' using idle(3) [of i] vw_live [OF that] by (cases "b_state b' = CACHED") auto
  have rest: "vw c' j = vw c j \<or> vw c' j = None \<and> (\<exists>b'. vw c j = Some b' \<and> b_state b' = CACHED)" if "j \<noteq> i" for j
  proof (cases "j \<in> lives c' \<and> st c' j \<noteq> FREE")
    case True
    then show ?thesis using idle(2) [of j] that by (auto simp: vw_def)
  next
    case False
    then show ?thesis using idle(3) [of j] that by (cases "st c j") (auto simp: vw_def)
  qed
  have "vw c' i = Some ((bds c' i)\<lparr>b_hold := 0, b_waiters := 0\<rparr>)" using f(3,4) by (simp add: vw_def)
  then show "\<exists>b. finds dd block (vw c) i b (vw c') \<and> b_state b = EMPTY"
    unfolding finds_def using unused old rest f(4,6,7) by (intro exI [of _ "(bds c' i)\<lparr>b_hold := 0, b_waiters := 0\<rparr>"]) auto
  show w: "wt c' j = wt c j" for j
  proof (cases "j \<in> lives c \<and> st c j \<noteq> FREE \<and> \<not> (st c j = CACHED \<and> wt c j = 0)")
    case True
    then show ?thesis using idle(3) [of j] by simp
  next
    case False
    then have z: "wt c j = 0" using binvD(7,8) [OF assms(1), of j] by blast
    show ?thesis
    proof (cases "j \<in> lives c' - {i} \<and> st c' j \<noteq> FREE")
      case True
      then show ?thesis using idle(2) [of j] by simp
    next
      case False
      then show ?thesis using idle(1) [of j] f(2,5) z by (auto simp: waits_ok_def)
    qed
  qed
  show "wt c i = 0" using w [of i] f(5) by simp
qed


text \<open>The outcome of a request for a block: a buffer, or a wait for the buffer of the block or for any buffer.\<close>

fun handed :: "(nat \<Rightarrow> nat) \<Rightarrow> access \<Rightarrow> nat \<Rightarrow> nat \<Rightarrow> rtems_bdbuf_cache \<Rightarrow> found \<Rightarrow> rtems_bdbuf_cache \<Rightarrow> bool" where
  "handed bpg a dd mb c (Found i) c' \<longleftrightarrow> binv bpg c' \<and> (\<forall>j. wt c' j = wt c j) \<and>
     (\<exists>b v. finds dd mb (vw c) i b v \<and> b_state b \<in> {CACHED, MODIFIED, EMPTY} \<and> vw c' = put i (granted a (b_state b)) v \<and> (v = vw c \<or> wt c i = 0))"
| "handed bpg a dd mb c (Sleep (Access_wait i q)) c' \<longleftrightarrow> waits_for bpg i c c' \<and> (\<exists>b. vw c i = Some b \<and> key b = (dd, mb))"
| "handed bpg a dd mb c (Sleep Buffer_wait) c' \<longleftrightarrow> binv bpg c' \<and> vw c' = vw c \<and> (\<forall>j. wt c' j = wt c j)"
| "handed bpg a dd mb c (Sleep _) c' \<longleftrightarrow> False"

lemma access_handed:
  assumes "nearly bpg i c" "kd c i = dd" "kb c i = mb"
  shows "\<exists>r c'. hand_out a dd (access_found i c) = Some (r, c') \<and> handed bpg a dd mb c r c'"
proof -
  note b = nearly_live [OF assms(1)]
  have f: "finds dd mb (vw c) i ((bds c i)\<lparr>b_hold := 0, b_waiters := 0\<rparr>) (vw c)" using b assms(2,3) by (simp add: finds_def)
  show ?thesis
  proof (cases "st c i \<in> {CACHED, MODIFIED, EMPTY}")
    case True
    obtain c' where c': "hand_out a dd (access_found i c) = Some (Found i, c')" "restate bpg i (granted a (st c i)) c c'"
      using hand_out_granted [OF assms(1) True] by blast
    note d = restateD [OF c'(2) b]
    have "handed bpg a dd mb c (Found i) c'" unfolding handed.simps
      by (intro conjI exI [of _ "(bds c i)\<lparr>b_hold := 0, b_waiters := 0\<rparr>"] exI [of _ "vw c"]) (use f d True in auto)
    then show ?thesis using c'(1) by blast
  next
    case False
    obtain q where q: "hand_out a dd (access_found i c) = Some (Sleep (Access_wait i q), rtems_bdbuf_wait i q c)"
      using hand_out_sleep [OF assms(1) False] by blast
    have "handed bpg a dd mb c (Sleep (Access_wait i q)) (rtems_bdbuf_wait i q c)"
      using waits_for_wait [OF assms(1)] b assms(2,3) by (simp add: key_def)
    then show ?thesis using q by blast
  qed
qed

lemma request_handed:
  assumes "binv bpg c" "0 < bpg dd" "bpg dd dvd max_bds_per_group c"
  shows "\<exists>r c'. hand_out a dd (rtems_bdbuf_get_buffer_for_access (Suc fuel) (bpg dd) dd mb c) = Some (r, c') \<and> handed bpg a dd mb c r c'"
proof (cases "rtems_bdbuf_avl_search (tree c) dd mb")
  case (Some p)
  then obtain i where i: "i \<in> lives c" "st c i \<noteq> FREE" "p = bd_node c i" "kd c i = dd" "kb c i = mb"
    using core_search [OF binvD(1) [OF assms(1)]] by blast
  have "bds_per_group c (grp c i) = bpg dd" using binvD(5) [OF assms(1) i(1,2)] i(4) by simp
  then have "rtems_bdbuf_get_buffer_for_access (Suc fuel) (bpg dd) dd mb c = access_found i c"
    using Some i(3) by (simp add: bd_node_def)
  then show ?thesis using access_handed [OF binv_nearly [OF assms(1) i(1,2)] i(4,5)] by simp
next
  case None
  consider (no) "rtems_bdbuf_get_buffer_from_lru_list (bpg dd) dd mb c = Some (None, c)"
    | (new) i c1 where "rtems_bdbuf_get_buffer_from_lru_list (bpg dd) dd mb c = Some (Some i, c1)" "fresh bpg c dd mb i c1"
    using get_from_lru_ok [OF assms(1) None assms(2,3)] by blast
  then show ?thesis
  proof cases
    case no
    have "same_core c (rtems_bdbuf_wait_for_buffer c)" by (rule aux_same(6))
    then have "handed bpg a dd mb c (Sleep Buffer_wait) (rtems_bdbuf_wait_for_buffer c)"
      using assms(1) same_coreD same_core_binv(1) by auto
    then show ?thesis using no None by (simp add: hand_out_def)
  next
    case new
    obtain b where b: "finds dd mb (vw c) i b (vw c1)" "b_state b = EMPTY" using fresh_finds(1) [OF assms(1) new(2) None] by blast
    have bi: "vw c1 i = Some b" using b(1) by (simp add: finds_def)
    have s: "st c1 i = EMPTY" using vw_live [OF bi] b(2) by simp
    obtain c' where c': "hand_out a dd (access_found i c1) = Some (Found i, c')" "restate bpg i (granted a EMPTY) c1 c'"
      using hand_out_granted [OF fresh_nearly [OF new(2)], of a dd] s by auto
    note d = restateD [OF c'(2) bi]
    have "handed bpg a dd mb c (Found i) c'" unfolding handed.simps
      by (intro conjI exI [of _ b] exI [of _ "vw c1"]) (use b d fresh_finds(2,3) [OF assms(1) new(2) None] in auto)
    then show ?thesis using c'(1) new(1) None by simp
  qed
qed

text \<open>The outcome for a thread that slept until now.\<close>

lemma woken_handed:
  assumes "binv bpg c" "0 < wt c i" "kd c i = dd" "kb c i = mb"
  shows "\<exists>r c'. request_woken a dev dd mb (Access_wait i q) c = Some (r, c') \<and> handed bpg a dd mb (rtems_bdbuf_woken i q c) r c'"
  using access_handed [OF woken_ok(1) [OF assms(1,2)], of q dd mb a] assms(3,4) woken_ok(2) [OF assms(1,2), of q]
  by (simp add: request_woken_def)

lemma retry_handed:
  assumes "binv bpg c" "0 < bpg dd" "bpg dd dvd max_bds_per_group c" "dd_bds_per_group dev = bpg dd"
  shows "\<exists>r c'. request_woken a dev dd mb Buffer_wait c = Some (r, c') \<and> handed bpg a dd mb (anonymous_woken Buffer_q c) r c'"
proof -
  have s: "same_core c (anonymous_woken Buffer_q c)" by (rule aux_same(7))
  have "max_bds_per_group (anonymous_woken Buffer_q c) = max_bds_per_group c" by (simp add: anonymous_woken_def)
  then show ?thesis using request_handed [of bpg "anonymous_woken Buffer_q c" dd a 1 mb] assms same_core_binv(1) [OF s]
    by (simp add: request_woken_def numeral_2_eq_2)
qed

section \<open>Read-ahead\<close>

text \<open>Buffers taken for transfers, for which unused ones may have left the tree.\<close>

definition gains :: "nat \<Rightarrow> nat list \<Rightarrow> (nat \<Rightarrow> rtems_bdbuf_buffer option) \<Rightarrow> (nat \<Rightarrow> rtems_bdbuf_buffer option) \<Rightarrow> bool" where
  "gains dd is v0 v \<longleftrightarrow> distinct is \<and>
     (\<forall>i\<in>set is. (\<exists>b. v i = Some b \<and> b_state b = TRANSFER \<and> b_dd b = dd) \<and> (\<forall>b. v0 i = Some b \<longrightarrow> b_state b = CACHED)) \<and>
     (\<forall>j. j \<notin> set is \<longrightarrow> v j = v0 j \<or> v j = None \<and> (\<exists>b. v0 j = Some b \<and> b_state b = CACHED))"

lemma gains_one: "finds dd mb v0 i b v \<Longrightarrow> b_state b = EMPTY \<Longrightarrow> v0 i \<noteq> Some b \<Longrightarrow> gains dd [i] v0 (put i TRANSFER v)"
  by (auto simp: finds_def gains_def put_def)

lemma gains_trans:
  assumes "gains dd [i] v0 v1" "gains dd is v1 v2"
  shows "gains dd (i # is) v0 v2"
proof -
  obtain b where b: "v1 i = Some b" "b_state b = TRANSFER" "b_dd b = dd" using assms(1) by (auto simp: gains_def)
  then have i: "i \<notin> set is" using assms(2) by (auto simp: gains_def)
  then have k: "v2 i = Some b" using b assms(2) by (auto simp: gains_def)
  have o: "v1 j = v0 j \<or> v1 j = None \<and> (\<exists>b. v0 j = Some b \<and> b_state b = CACHED)" if "j \<noteq> i" for j
    using assms(1) that by (auto simp: gains_def)
  show ?thesis unfolding gains_def
  proof (intro conjI ballI allI impI)
    show "distinct (i # is)" using assms(2) i by (simp add: gains_def)
  next
    fix j
    assume j: "j \<in> set (i # is)"
    show "\<exists>b. v2 j = Some b \<and> b_state b = TRANSFER \<and> b_dd b = dd" using j k b assms(2) by (auto simp: gains_def)
    fix b
    assume "v0 j = Some b"
    then show "b_state b = CACHED" using j o [of j] assms i by (cases "j = i") (auto simp: gains_def)
  next
    fix j
    assume "j \<notin> set (i # is)"
    then have "j \<noteq> i" "v2 j = v1 j \<or> v2 j = None \<and> (\<exists>b. v1 j = Some b \<and> b_state b = CACHED)" using assms(2) by (auto simp: gains_def)
    then show "v2 j = v0 j \<or> v2 j = None \<and> (\<exists>b. v0 j = Some b \<and> b_state b = CACHED)" using o [of j] by auto
  qed
qed

lemma set_transfer_ok:
  assumes "fresh bpg c dd mb i c1" "same_core (rtems_bdbuf_group_obtain i c1) c2"
  shows "restate bpg i TRANSFER c1 (rtems_bdbuf_set_state i TRANSFER (rtems_bdbuf_group_obtain i c1))"
    "same_core (rtems_bdbuf_set_state i TRANSFER (rtems_bdbuf_group_obtain i c1)) (rtems_bdbuf_set_state i TRANSFER c2)"
proof -
  note n = fresh_nearly [OF assms(1)]
  note d = nearlyD [OF n]
  have s: "st c1 i = EMPTY" using assms(1) unfolding fresh_def by blast
  have "moved i TRANSFER c1 (rtems_bdbuf_set_state i TRANSFER (rtems_bdbuf_group_obtain i c1))"
    using moved_same [OF d(1,4), of "rtems_bdbuf_set_state i TRANSFER (rtems_bdbuf_group_obtain i c1)"] s
    by (simp add: moved_def rtems_bdbuf_set_state_def rtems_bdbuf_group_obtain_def)
  then show "restate bpg i TRANSFER c1 (rtems_bdbuf_set_state i TRANSFER (rtems_bdbuf_group_obtain i c1))"
    by (intro restateI [OF n]) (use s in \<open>auto simp: rtems_bdbuf_set_state_def rtems_bdbuf_group_obtain_def same_geo_def same_sync_def\<close>)
  show "same_core (rtems_bdbuf_set_state i TRANSFER (rtems_bdbuf_group_obtain i c1)) (rtems_bdbuf_set_state i TRANSFER c2)"
    using assms(2) by (simp add: same_core_def same_geo_def rtems_bdbuf_set_state_def)
qed

text \<open>A buffer for a read-ahead, with its state set after other changes that do not touch the buffers.\<close>

lemma ahead_one_ok:
  assumes "binv bpg c" "0 < bpg dd" "bpg dd dvd max_bds_per_group c"
  shows "rtems_bdbuf_get_buffer_for_read_ahead (bpg dd) dd mb c = Some (None, c) \<or>
    (\<exists>i c1. rtems_bdbuf_get_buffer_for_read_ahead (bpg dd) dd mb c = Some (Some i, c1) \<and>
      wt c i = 0 \<and> (\<forall>c2. same_core c1 c2 \<longrightarrow> binv bpg (rtems_bdbuf_set_state i TRANSFER c2) \<and>
        (\<forall>j. wt (rtems_bdbuf_set_state i TRANSFER c2) j = wt c j) \<and> max_bds_per_group c2 = max_bds_per_group c \<and>
        gains dd [i] (vw c) (vw (rtems_bdbuf_set_state i TRANSFER c2))))"
proof (cases "rtems_bdbuf_avl_search (tree c) dd mb")
  case (Some p)
  then show ?thesis by (simp add: rtems_bdbuf_get_buffer_for_read_ahead_def)
next
  case None
  consider (no) "rtems_bdbuf_get_buffer_from_lru_list (bpg dd) dd mb c = Some (None, c)"
    | (new) i c1 where "rtems_bdbuf_get_buffer_from_lru_list (bpg dd) dd mb c = Some (Some i, c1)" "fresh bpg c dd mb i c1"
    using get_from_lru_ok [OF assms(1) None assms(2,3)] by blast
  then show ?thesis
  proof cases
    case no
    then show ?thesis using None by (simp add: rtems_bdbuf_get_buffer_for_read_ahead_def)
  next
    case new
    obtain b where b: "finds dd mb (vw c) i b (vw c1)" "b_state b = EMPTY" using fresh_finds(1) [OF assms(1) new(2) None] by blast
    have bi: "vw c1 i = Some b" "key b = (dd, mb)" using b(1) by (simp_all add: finds_def key_def)
    have unused: "key b' \<noteq> (dd, mb)" if "vw c j = Some b'" for j b'
      using core_search [OF binvD(1) [OF assms(1)], of dd mb] None vw_live [OF that] by (auto simp: key_def)
    have g: "gains dd [i] (vw c) (put i TRANSFER (vw c1))" by (rule gains_one [OF b]) (use unused bi(2) in auto)
    have rg: "same_rest c c1" using new(2) unfolding fresh_def by blast
    have "binv bpg (rtems_bdbuf_set_state i TRANSFER c2) \<and>
        (\<forall>j. wt (rtems_bdbuf_set_state i TRANSFER c2) j = wt c j) \<and> max_bds_per_group c2 = max_bds_per_group c \<and>
        gains dd [i] (vw c) (vw (rtems_bdbuf_set_state i TRANSFER c2))"
      if "same_core (rtems_bdbuf_group_obtain i c1) c2" for c2
    proof -
      note t = set_transfer_ok [OF new(2) that]
      note e = restateD [OF t(1) bi(1)] and f = same_coreD [OF t(2)] and k = same_core_binv(1) [OF t(2)]
      have "max_bds_per_group c2 = max_bds_per_group c" "bds c2 = bds c1"
        using that rg by (auto simp: same_core_def same_geo_def rtems_bdbuf_group_obtain_def same_rest_def)
      then show ?thesis using e f k g fresh_finds(2) [OF assms(1) new(2) None] vw_live [OF bi(1)] bi(2) by (auto simp: key_def)
    qed
    then show ?thesis using new(1) None fresh_finds(3) [OF assms(1) new(2) None] by (simp add: rtems_bdbuf_get_buffer_for_read_ahead_def)
  qed
qed


lemma gains_none: "gains dd [] v v"
  by (simp add: gains_def)

lemma ahead_more_ok:
  assumes "binv bpg c" "0 < bpg dd" "bpg dd dvd max_bds_per_group c" "dd_bds_per_group dev = bpg dd"
  shows "\<exists>is c'. ahead_more dev dd mb n c = Some (is, c') \<and> binv bpg c' \<and> (\<forall>j. wt c' j = wt c j) \<and> gains dd is (vw c) (vw c') \<and>
    (\<forall>i\<in>set is. wt c i = 0)"
  using assms(1,3)
proof (induction n arbitrary: mb c)
  case 0
  then show ?case by (simp add: gains_none)
next
  case (Suc n)
  let ?mb = "wrap32 (mb + dd_media_blocks_per_block dev)"
  from ahead_one_ok [OF Suc.prems(1) assms(2) Suc.prems(2), of ?mb] show ?case
  proof (elim disjE exE conjE)
    assume "rtems_bdbuf_get_buffer_for_read_ahead (bpg dd) dd ?mb c = Some (None, c)"
    then show ?case using Suc.prems assms(4) by (simp add: Let_def gains_none)
  next
    fix i c1
    assume run: "rtems_bdbuf_get_buffer_for_read_ahead (bpg dd) dd ?mb c = Some (Some i, c1)" "wt c i = 0"
      and all: "\<forall>c2. same_core c1 c2 \<longrightarrow> binv bpg (rtems_bdbuf_set_state i TRANSFER c2) \<and>
        (\<forall>j. wt (rtems_bdbuf_set_state i TRANSFER c2) j = wt c j) \<and> max_bds_per_group c2 = max_bds_per_group c \<and>
        gains dd [i] (vw c) (vw (rtems_bdbuf_set_state i TRANSFER c2))"
    let ?c = "rtems_bdbuf_set_state i TRANSFER c1"
    have "same_core c1 c1" by (simp add: same_core_def same_geo_def)
    then have k: "binv bpg ?c" "\<forall>j. wt ?c j = wt c j" "max_bds_per_group c1 = max_bds_per_group c" "gains dd [i] (vw c) (vw ?c)"
      using all by blast+
    have "bpg dd dvd max_bds_per_group ?c" using k(3) Suc.prems(2) by (simp add: rtems_bdbuf_set_state_def)
    then obtain "is" c' where c': "ahead_more dev dd ?mb n ?c = Some (is, c')" "binv bpg c'" "\<forall>j. wt c' j = wt ?c j"
        "gains dd is (vw ?c) (vw c')" "\<forall>i\<in>set is. wt ?c i = 0" using Suc.IH [OF k(1), of ?mb] by blast
    have "ahead_more dev dd mb (Suc n) c = Some (i # is, c')" using run(1) c'(1) assms(4) by (simp add: Let_def)
    then show ?case using run(2) c'(2,3,5) k(2) gains_trans [OF k(4) c'(4)] by auto
  qed
qed

text \<open>What the task notes about the device does not touch the buffers.\<close>

lemma ahead_transfer_eq:
  "\<exists>n c2. same_core c c2 \<and> ahead_transfer cf dev dd block mb i c =
     ahead_more dev dd mb n (rtems_bdbuf_set_state i TRANSFER c2) \<bind> (\<lambda>(is, c). Some (i # is, c))"
  unfolding ahead_transfer_def Let_def
  by (intro exI conjI refl) (auto intro!: same_core_trans(1) [OF aux_same(4) aux_same(1)] same_core_trans(1) [OF aux_same(1) aux_same(1)])

lemma read_ahead_step_ok:
  assumes "binv bpg c" "\<And>dd. dd \<in> set (read_ahead_chain c) \<Longrightarrow> 0 < bpg dd \<and> bpg dd dvd max_bds_per_group c \<and> dd_bds_per_group (D dd) = bpg dd"
  shows "\<exists>r c'. read_ahead_step cf D c = Some (r, c') \<and> binv bpg c' \<and> (\<forall>j. wt c' j = wt c j) \<and>
    (case r of None \<Rightarrow> vw c' = vw c | Some (dd, is) \<Rightarrow> is \<noteq> [] \<and> gains dd is (vw c) (vw c') \<and> (\<forall>i\<in>set is. wt c i = 0) \<and> dd \<in> set (read_ahead_chain c))"
proof (cases "read_ahead_chain c")
  case Nil
  then show ?thesis using assms(1) by (simp add: read_ahead_step_def)
next
  case (Cons dd rest)
  then have g: "0 < bpg dd" "bpg dd dvd max_bds_per_group c" "dd_bds_per_group (D dd) = bpg dd" using assms(2) by auto
  define c0 where "c0 = c\<lparr>read_ahead_chain := rest\<rparr>"
  have s0: "same_core c c0" unfolding c0_def by (rule aux_same(9))
  have b0: "binv bpg c0" "vw c0 = vw c" "wt c0 j = wt c j" "bpg dd dvd max_bds_per_group c0" for j
    using assms(1) same_core_binv(1) [OF s0] same_coreD [OF s0] g(2) by (auto simp: c0_def)
  define block where "block = ra_next (read_ahead c0 dd)"
  show ?thesis
  proof (cases "rtems_bdbuf_get_media_block (D dd) block")
    case None
    let ?f = "\<lambda>r :: rtems_blkdev_read_ahead. r\<lparr>ra_trigger := RTEMS_DISK_READ_AHEAD_NO_TRIGGER\<rparr>"
    have "read_ahead_step cf D c = Some (None, set_read_ahead dd ?f c0)"
      using Cons None by (simp add: read_ahead_step_def Let_def block_def c0_def)
    then show ?thesis using same_coreD [OF aux_same(4)] same_core_binv(1) [OF aux_same(4)] b0 by auto
  next
    case (Some mb)
    have run: "read_ahead_step cf D c = rtems_bdbuf_get_buffer_for_read_ahead (bpg dd) dd mb c0 \<bind>
        (\<lambda>(r, c). case r of None \<Rightarrow> Some (None, c)
          | Some i \<Rightarrow> do { (is, c) \<leftarrow> ahead_transfer cf (D dd) dd block mb i c; Some (Some (dd, is), c) })"
      using Cons Some g(3) unfolding block_def c0_def read_ahead_step_def Let_def by simp
    from ahead_one_ok [OF b0(1) g(1) b0(4), of mb] show ?thesis
    proof (elim disjE exE conjE)
      assume "rtems_bdbuf_get_buffer_for_read_ahead (bpg dd) dd mb c0 = Some (None, c0)"
      then show ?thesis using run b0 by simp
    next
      fix i c1
      assume get: "rtems_bdbuf_get_buffer_for_read_ahead (bpg dd) dd mb c0 = Some (Some i, c1)" "wt c0 i = 0"
        and all: "\<forall>c2. same_core c1 c2 \<longrightarrow> binv bpg (rtems_bdbuf_set_state i TRANSFER c2) \<and>
          (\<forall>j. wt (rtems_bdbuf_set_state i TRANSFER c2) j = wt c0 j) \<and> max_bds_per_group c2 = max_bds_per_group c0 \<and>
          gains dd [i] (vw c0) (vw (rtems_bdbuf_set_state i TRANSFER c2))"
      obtain n c2 where c2: "same_core c1 c2" "ahead_transfer cf (D dd) dd block mb i c1 =
          ahead_more (D dd) dd mb n (rtems_bdbuf_set_state i TRANSFER c2) \<bind> (\<lambda>(is, c). Some (i # is, c))"
        using ahead_transfer_eq by blast
      let ?c = "rtems_bdbuf_set_state i TRANSFER c2"
      have k: "binv bpg ?c" "\<forall>j. wt ?c j = wt c0 j" "max_bds_per_group c2 = max_bds_per_group c0" "gains dd [i] (vw c0) (vw ?c)"
        using all c2(1) by blast+
      have "bpg dd dvd max_bds_per_group ?c" using k(3) b0(4) by (simp add: rtems_bdbuf_set_state_def)
      then obtain "is" c' where c': "ahead_more (D dd) dd mb n ?c = Some (is, c')" "binv bpg c'" "\<forall>j. wt c' j = wt ?c j"
          "gains dd is (vw ?c) (vw c')" "\<forall>i\<in>set is. wt ?c i = 0" using ahead_more_ok [OF k(1) g(1) _ g(3)] by blast
      have "read_ahead_step cf D c = Some (Some (dd, i # is), c')" using run get(1) c2(2) c'(1) by simp
      then show ?thesis using Cons get(2) c'(2,3,5) k(2) b0(2,3) gains_trans [OF k(4) c'(4)] by auto
    qed
  qed
qed

section \<open>Swap-out\<close>

lemma mset_insert_back [simp]: "mset (insert_back blk i ts) = add_mset i (mset ts)"
  by (induction ts) auto

lemma mset_transfer_insert [simp]: "mset (transfer_insert blk i tr) = add_mset i (mset tr)"
  by (simp add: transfer_insert_def)

lemma set_transfer_insert [simp]: "set (transfer_insert blk i tr) = insert i (set tr)"
  by (metis mset_transfer_insert set_mset_add_mset_insert set_mset_mset)

text \<open>The cache between two steps of the walk over a chain.\<close>

definition walking :: "chain \<Rightarrow> nat list \<Rightarrow> (nat \<Rightarrow> rtems_bdbuf_buffer) \<Rightarrow> rtems_bdbuf_cache \<Rightarrow> rtems_bdbuf_cache" where
  "walking q xs b c = c\<lparr>chains := (chains c)(q := xs), bds := b\<rparr>"

lemma walking_simps [simp]:
  "bds (walking q xs b c) = b" "chains (walking q xs b c) = (chains c)(q := xs)" "tree (walking q xs b c) = tree c"
  "g_users (walking q xs b c) = g_users c" "same_geo (walking q xs b c) (walking q xs' b' c)" "same_sync (walking q xs b c) (walking q xs' b' c)"
  "grp (walking q xs b c) = grp c"
  by (auto simp: walking_def same_geo_def same_sync_def grp_def)

text \<open>A buffer is passed by, perhaps with a new hold time, or goes to the transfer chain.\<close>

lemma walk_restate:
  assumes "binv bpg (walking q (kept @ i # rest) b c)" "q \<in> {Modified, Sync}"
  shows "\<exists>x. vw (walking q (kept @ i # rest) b c) i = Some x \<and> b_state x \<in> {MODIFIED, SYNC} \<and> b_dd x = b_dd (b i)"
    "restate bpg i (b_state (b i)) (walking q (kept @ i # rest) b c) (walking q (kept @ i # rest) (b(i := (b i)\<lparr>b_hold := h\<rparr>)) c)"
    "restate bpg i TRANSFER (walking q (kept @ i # rest) b c) (walking q (kept @ rest) (b(i := (b i)\<lparr>b_hold := h, b_state := TRANSFER\<rparr>)) c)"
proof -
  let ?c = "walking q (kept @ i # rest) b c"
  note k = binvD(1) [OF assms(1)]
  have i: "i \<in> lives ?c" "home (b_state (b i)) = Some q" using core_chain_sub [OF k, of i q] by auto
  have s: "b_state (b i) \<in> {MODIFIED, SYNC}" using i(2) assms(2) by (cases "b_state (b i)") auto
  have n: "nearly bpg i ?c" using binv_nearly [OF assms(1) i(1)] s by auto
  have ni: "i \<notin> set kept" using core_chain_distinct [OF k, of q] by simp
  show "\<exists>x. vw ?c i = Some x \<and> b_state x \<in> {MODIFIED, SYNC} \<and> b_dd x = b_dd (b i)" using nearly_live [OF n] s by auto
  have mv: "moved i (b_state (b i)) ?c (walking q (kept @ i # rest) (b(i := (b i)\<lparr>b_hold := h\<rparr>)) c)"
    using moved_same [OF k i(1), of "walking q (kept @ i # rest) (b(i := (b i)\<lparr>b_hold := h\<rparr>)) c"] by simp
  have bh: "(b i)\<lparr>b_hold := h\<rparr> = (b i)\<lparr>b_state := b_state (b i), b_hold := h\<rparr>" by (cases "b i") simp
  show "restate bpg i (b_state (b i)) ?c (walking q (kept @ i # rest) (b(i := (b i)\<lparr>b_hold := h\<rparr>)) c)"
    by (rule restate_hold [OF n _ _ _ mv, where h = h]) (use s bh in auto)
  have rm: "remove1 i (kept @ i # rest) = kept @ rest" using ni by (simp add: remove1_append)
  have mv: "moved i TRANSFER ?c (walking q (kept @ rest) (b(i := (b i)\<lparr>b_hold := h, b_state := TRANSFER\<rparr>)) c)"
    using i(2) rm by (intro moved_extract [OF k i(1)]) auto
  show "restate bpg i TRANSFER ?c (walking q (kept @ rest) (b(i := (b i)\<lparr>b_hold := h, b_state := TRANSFER\<rparr>)) c)"
    by (rule restate_hold [OF n _ _ _ mv, where h = h]) (use s state_hold [where b = "b i" and h = h and s = TRANSFER] in auto)
qed

text \<open>What a walk with the result \<open>r\<close> did: buffers of one device moved to the transfer chain.\<close>

definition walked :: "(nat \<Rightarrow> nat) \<Rightarrow> rtems_bdbuf_cache \<Rightarrow> nat \<Rightarrow> nat list \<Rightarrow> nat \<Rightarrow> nat list \<Rightarrow> rtems_bdbuf_cache \<Rightarrow> nat list \<Rightarrow> bool" where
  "walked bpg c dd tr dd' tr' c' new \<longleftrightarrow> binv bpg c' \<and> (\<forall>j. wt c' j = wt c j) \<and> distinct new \<and> mset tr' = mset tr + mset new \<and>
     vw c' = fold (\<lambda>i. put i TRANSFER) new (vw c) \<and> (dd \<noteq> 0 \<longrightarrow> dd' = dd) \<and> (new \<noteq> [] \<longrightarrow> dd' \<noteq> 0) \<and>
     (\<forall>i\<in>set new. \<exists>x. vw c i = Some x \<and> b_state x \<in> {MODIFIED, SYNC} \<and> b_dd x = dd')"

lemma put_same: "v i = Some x \<Longrightarrow> b_state x = s \<Longrightarrow> s \<noteq> FREE \<Longrightarrow> put i s v = v"
  by (auto simp: put_def fun_eq_iff)

lemma walk_ok:
  assumes "binv bpg (walking q (kept @ rest) b c)" "q \<in> {Modified, Sync}"
    "\<forall>i x. vw (walking q (kept @ rest) b c) i = Some x \<longrightarrow> b_dd x \<noteq> 0"
    "fold (walk_one sa act hw upd delta) rest (kept, dd, tr, b) = (kept', dd', tr', b')"
  shows "\<exists>new. walked bpg (walking q (kept @ rest) b c) dd tr dd' tr' (walking q kept' b' c) new \<and> set new \<subseteq> set rest \<and>
    set kept' = set kept \<union> (set rest - set new) \<and>
    (sa \<or> act \<and> dd \<noteq> 0 \<longrightarrow> (\<forall>j x. j \<in> set rest - set new \<longrightarrow> vw (walking q (kept @ rest) b c) j = Some x \<longrightarrow> b_dd x \<noteq> dd'))"
  using assms
proof (induction rest arbitrary: kept dd tr b)
  case Nil
  then show ?case by (auto simp: walked_def)
next
  case (Cons i rest)
  let ?c = "walking q (kept @ i # rest) b c"
  define h0 where "h0 = (if sa \<or> (act \<and> dd = b_dd (b i)) \<or> hw then 0 else b_hold (b i))"
  define h where "h = (if upd then h0 - delta else h0)"
  obtain x where x: "vw ?c i = Some x" "b_state x \<in> {MODIFIED, SYNC}" "b_dd x = b_dd (b i)"
    using walk_restate(1) [OF Cons.prems(1,2)] by blast
  have x0: "b_dd x \<noteq> 0" using Cons.prems(3) x(1) by blast
  have sx: "b_state (b i) = b_state x" using vw_live [OF x(1)] by simp
  note r = walk_restate(2,3) [OF Cons.prems(1,2), of h]
  note rk = restateD [OF r(1) x(1)] and rt = restateD [OF r(2) x(1)]
  have vk: "vw (walking q (kept @ i # rest) (b(i := (b i)\<lparr>b_hold := h\<rparr>)) c) = vw ?c"
    unfolding rk(2) by (rule put_same) (use x sx in auto)
  define go where "go \<longleftrightarrow> h = 0 \<and> (dd = 0 \<or> dd = b_dd x)"
  have one: "walk_one sa act hw upd delta i (kept, dd, tr, b) =
      (if go then (kept, b_dd x, transfer_insert (\<lambda>j. b_block ((b(i := (b i)\<lparr>b_hold := h\<rparr>)) j)) i tr, b(i := (b i)\<lparr>b_hold := h, b_state := TRANSFER\<rparr>))
       else (kept @ [i], dd, tr, b(i := (b i)\<lparr>b_hold := h\<rparr>)))"
    unfolding walk_one_def prod.case h0_def [symmetric] h_def [symmetric] Let_def go_def using x(3) by simp
  have ni: "i \<notin> set rest" "i \<notin> set kept" using core_chain_distinct [OF binvD(1) [OF Cons.prems(1)], of q] by auto
  have app: "(kept @ [i]) @ rest = kept @ i # rest" by simp
  show ?case
  proof (cases go)
    case False
    have "fold (walk_one sa act hw upd delta) rest (kept @ [i], dd, tr, b(i := (b i)\<lparr>b_hold := h\<rparr>)) = (kept', dd', tr', b')"
      using Cons.prems(4) False by (simp add: one)
    then obtain new where new: "walked bpg (walking q (kept @ i # rest) (b(i := (b i)\<lparr>b_hold := h\<rparr>)) c) dd tr dd' tr' (walking q kept' b' c) new"
        "set new \<subseteq> set rest" "set kept' = set (kept @ [i]) \<union> (set rest - set new)"
        "sa \<or> act \<and> dd \<noteq> 0 \<longrightarrow> (\<forall>j y. j \<in> set rest - set new \<longrightarrow> vw ?c j = Some y \<longrightarrow> b_dd y \<noteq> dd')"
      using Cons.IH [of "kept @ [i]" "b(i := (b i)\<lparr>b_hold := h\<rparr>)" dd tr, unfolded app vk, OF rk(1) Cons.prems(2,3)] by blast
    have "walked bpg ?c dd tr dd' tr' (walking q kept' b' c) new"
      using new(1) vk rk(3) by (simp add: walked_def)
    moreover have "b_dd x \<noteq> dd'" if "sa \<or> act \<and> dd \<noteq> 0"
    proof -
      have dk: "dd \<noteq> 0 \<longrightarrow> dd' = dd" using new(1) by (simp add: walked_def)
      have "sa \<or> dd = b_dd x \<Longrightarrow> h0 = 0" using that x(3) x0 by (auto simp: h0_def)
      then have "sa \<or> dd = b_dd x \<Longrightarrow> h = 0" by (auto simp: h_def)
      then show ?thesis using False dk that unfolding go_def by auto
    qed
    then have "b_dd y \<noteq> dd'" if "sa \<or> act \<and> dd \<noteq> 0" "j \<in> set (i # rest) - set new" "vw ?c j = Some y" for j y
      using that new(4) x(1) by (cases "j = i") auto
    ultimately show ?thesis using new(2,3) ni by (intro exI [of _ new]) auto
  next
    case True
    let ?b = "b(i := (b i)\<lparr>b_hold := h, b_state := TRANSFER\<rparr>)" and ?tr = "transfer_insert (\<lambda>j. b_block ((b(i := (b i)\<lparr>b_hold := h\<rparr>)) j)) i tr"
    have "fold (walk_one sa act hw upd delta) rest (kept, b_dd x, ?tr, ?b) = (kept', dd', tr', b')"
      using Cons.prems(4) True by (simp add: one)
    moreover have "\<forall>j y. vw (walking q (kept @ rest) ?b c) j = Some y \<longrightarrow> b_dd y \<noteq> 0"
      using Cons.prems(3) x(1) x0 unfolding rt(2) by (auto simp: put_def split: if_splits)
    ultimately obtain new where new: "walked bpg (walking q (kept @ rest) ?b c) (b_dd x) ?tr dd' tr' (walking q kept' b' c) new"
        "set new \<subseteq> set rest" "set kept' = set kept \<union> (set rest - set new)"
        "sa \<or> act \<and> b_dd x \<noteq> 0 \<longrightarrow> (\<forall>j y. j \<in> set rest - set new \<longrightarrow> vw (walking q (kept @ rest) ?b c) j = Some y \<longrightarrow> b_dd y \<noteq> dd')"
      using Cons.IH [of kept ?b "b_dd x" ?tr] rt(1) Cons.prems(2) by blast
    have "\<exists>x. vw ?c j = Some x \<and> b_state x \<in> {MODIFIED, SYNC} \<and> b_dd x = dd'" if "j \<in> set new" for j
    proof -
      have "j \<noteq> i" using that new(2) ni(1) by auto
      then have "vw (walking q (kept @ rest) ?b c) j = vw ?c j" unfolding rt(2) by (simp add: put_def)
      then show ?thesis using new(1) that unfolding walked_def by metis
    qed
    moreover have "i \<notin> set new" using new(2) ni(1) by blast
    moreover have "dd' = b_dd x" using new(1) x0 by (simp add: walked_def)
    ultimately have "walked bpg ?c dd tr dd' tr' (walking q kept' b' c) (i # new)"
      using new(1) rt(2,3) x x0 True unfolding walked_def go_def by auto
    moreover have "b_dd y \<noteq> dd'" if "sa \<or> act \<and> dd \<noteq> 0" "j \<in> set (i # rest) - set (i # new)" "vw ?c j = Some y" for j y
    proof -
      have "vw (walking q (kept @ rest) ?b c) j = Some y" using that(2,3) unfolding rt(2) by (simp add: put_def)
      then show ?thesis using that new(4) x0 by auto
    qed
    ultimately show ?thesis using new(2,3) ni by (intro exI [of _ "i # new"]) auto
  qed
qed

text \<open>The walk over one chain.\<close>

lemma processing_ok:
  assumes "binv bpg c" "q \<in> {Modified, Sync}" "\<forall>i x. vw c i = Some x \<longrightarrow> b_dd x \<noteq> 0"
  shows "\<exists>dd' tr' c' new. rtems_bdbuf_swapout_modified_processing q act upd delta (dd, tr, c) = (dd', tr', c') \<and>
    walked bpg c dd tr dd' tr' c' new \<and> set new \<subseteq> set (chains c q) \<and>
    chains c' = (chains c)(q := chains c' q) \<and> set (chains c' q) = set (chains c q) - set new \<and>
    (act \<longrightarrow> (\<forall>j x. j \<in> set (chains c' q) \<longrightarrow> vw c j = Some x \<longrightarrow> b_dd x \<noteq> dd'))"
proof -
  have w: "walking q ([] @ chains c q) (bds c) c = c" by (simp add: walking_def)
  obtain kept' dd' tr' b' where r: "fold (walk_one (act \<and> dd = 0) act (rtems_bdbuf_has_buffer_waiters c) upd delta) (chains c q) ([], dd, tr, bds c) =
      (kept', dd', tr', b')" by (metis prod_cases4)
  obtain new where new: "walked bpg c dd tr dd' tr' (walking q kept' b' c) new" "set new \<subseteq> set (chains c q)"
      "set kept' = set [] \<union> (set (chains c q) - set new)"
      "(act \<and> dd = 0) \<or> act \<and> dd \<noteq> 0 \<longrightarrow> (\<forall>j x. j \<in> set (chains c q) - set new \<longrightarrow> vw c j = Some x \<longrightarrow> b_dd x \<noteq> dd')"
    using walk_ok [of bpg q "[]" "chains c q" "bds c" c, unfolded w, OF assms r] by blast
  have "rtems_bdbuf_swapout_modified_processing q act upd delta (dd, tr, c) = (dd', tr', walking q kept' b' c)"
    using r by (simp add: rtems_bdbuf_swapout_modified_processing_def walking_def)
  moreover have "chains (walking q kept' b' c) = (chains c)(q := chains (walking q kept' b' c) q)" "chains (walking q kept' b' c) q = kept'" by simp_all
  ultimately show ?thesis using new by (intro exI [of _ dd'] exI [of _ tr'] exI [of _ "walking q kept' b' c"] exI [of _ new]) auto
qed

text \<open>The buffers collected for a transfer are modified ones of one device. For the sync of a device nothing of it is left.\<close>

lemma swapout_collect_ok:
  assumes "binv bpg c" "\<forall>i x. vw c i = Some x \<longrightarrow> b_dd x \<noteq> 0"
  shows "\<exists>w dd tr c'. swapout_collect delta upd c = (w, dd, tr, c') \<and> binv bpg c' \<and> (\<forall>j. wt c' j = wt c j) \<and> distinct tr \<and>
    (\<forall>j. vw c' j = (if j \<in> set tr then put j TRANSFER (vw c) j else vw c j)) \<and>
    (\<forall>i\<in>set tr. \<exists>x. vw c i = Some x \<and> b_state x \<in> {MODIFIED, SYNC} \<and> b_dd x = dd) \<and>
    (sync_active c \<and> sync_device c \<noteq> 0 \<longrightarrow> dd = sync_device c \<and>
      (\<forall>i x. vw c' i = Some x \<longrightarrow> b_dd x = dd \<longrightarrow> b_state x \<notin> {MODIFIED, SYNC}))"
proof -
  define act where "act = sync_active c"
  define dd0 where "dd0 = (if act then sync_device c else 0)"
  define c0 where "c0 = (if \<not> act \<and> free_workers c > 0 then c\<lparr>free_workers := free_workers c - 1\<rparr> else c)"
  have sd: "sync_device c0 = sync_device c" by (simp add: c0_def)
  have s: "same_core c c0" by (simp add: c0_def same_core_def same_geo_def)
  have e0: "binv bpg c0" "vw c0 = vw c" "wt c0 j = wt c j" for j
    using assms(1) same_core_binv(1) [OF s] same_coreD [OF s] by auto
  obtain dd1 tr1 c1 new1 where p1: "rtems_bdbuf_swapout_modified_processing Sync True False delta (dd0, [], c0) = (dd1, tr1, c1)"
      "walked bpg c0 dd0 [] dd1 tr1 c1 new1" "set new1 \<subseteq> set (chains c0 Sync)" "chains c1 = (chains c0)(Sync := chains c1 Sync)"
      "set (chains c1 Sync) = set (chains c0 Sync) - set new1" "\<forall>j x. j \<in> set (chains c1 Sync) \<longrightarrow> vw c0 j = Some x \<longrightarrow> b_dd x \<noteq> dd1"
    using processing_ok [OF e0(1), of Sync True False delta dd0 "[]"] assms(2) e0(2) by auto
  note w1 = p1(2)[unfolded walked_def]
  have v1: "vw c1 j = (if j \<in> set new1 then put j TRANSFER (vw c) j else vw c j)" for j
    using w1 e0(2) fold_put [of new1 "\<lambda>_. TRANSFER" "vw c" j] by simp
  have nz: "\<forall>i x. vw c1 i = Some x \<longrightarrow> b_dd x \<noteq> 0" using assms(2) by (auto simp: v1 put_def split: if_splits)
  obtain dd2 tr2 c2 new2 where p2: "rtems_bdbuf_swapout_modified_processing Modified act upd delta (dd1, tr1, c1) = (dd2, tr2, c2)"
      "walked bpg c1 dd1 tr1 dd2 tr2 c2 new2" "set new2 \<subseteq> set (chains c1 Modified)" "chains c2 = (chains c1)(Modified := chains c2 Modified)"
      "set (chains c2 Modified) = set (chains c1 Modified) - set new2"
      "act \<longrightarrow> (\<forall>j x. j \<in> set (chains c2 Modified) \<longrightarrow> vw c1 j = Some x \<longrightarrow> b_dd x \<noteq> dd2)"
    using processing_ok [OF conjunct1 [OF w1], of Modified act upd delta dd1 tr1] nz by auto
  note w2 = p2(2)[unfolded walked_def]
  have v2: "vw c2 j = (if j \<in> set new2 then put j TRANSFER (vw c1) j else vw c1 j)" for j
    using w2 fold_put [of new2 "\<lambda>_. TRANSFER" "vw c1" j] by simp
  have m: "mset tr2 = mset (new1 @ new2)" using w1 w2 by simp
  have off: "i \<notin> set new1" if "i \<in> set new2" for i using w2 that by (auto simp: v1 put_def split: if_splits)
  have st: "set tr2 = set new1 \<union> set new2" using m by (metis set_append set_mset_mset)
  have d: "distinct tr2" using m w1 w2 off by (metis disjoint_iff distinct_append mset_eq_imp_distinct_iff)
  have view: "vw c2 j = (if j \<in> set tr2 then put j TRANSFER (vw c) j else vw c j)" for j
    using off [of j] unfolding v2 v1 st by (auto simp: put_def v1)
  have dd: "dd1 = dd2" if "new1 \<noteq> []" using w1 w2 that by simp
  have all: "\<exists>x. vw c i = Some x \<and> b_state x \<in> {MODIFIED, SYNC} \<and> b_dd x = dd2" if i: "i \<in> set tr2" for i
  proof (cases "i \<in> set new1")
    case True
    then show ?thesis using w1 e0(2) dd by (cases new1) auto
  next
    case False
    then have "i \<in> set new2" "vw c1 i = vw c i" using i st v1 by auto
    then show ?thesis using w2 by metis
  qed
  have fin: "dd2 = sync_device c \<and> (\<forall>i x. vw c2 i = Some x \<longrightarrow> b_dd x = dd2 \<longrightarrow> b_state x \<notin> {MODIFIED, SYNC})"
    if a: "sync_active c" "sync_device c \<noteq> 0"
  proof -
    have d0: "dd0 = sync_device c" "dd1 = dd0" "dd2 = dd0" using a w1 w2 by (auto simp: dd0_def act_def)
    have "b_state x \<notin> {MODIFIED, SYNC}" if i: "vw c2 i = Some x" "b_dd x = dd2" for i x
    proof
      assume sx: "b_state x \<in> {MODIFIED, SYNC}"
      have b2: "core (lives c2) c2" using w2 binvD(1) by blast
      have l: "i \<in> lives c2" "st c2 i = b_state x" using vw_live [OF i(1)] by auto
      have "i \<notin> set tr2" using i(1) sx view by (auto simp: put_def split: if_splits)
      then have v: "vw c i = Some x" "vw c1 i = Some x" using i(1) view v1 st by auto
      show False
      proof (cases "b_state x = SYNC")
        case True
        then have "i \<in> set (chains c2 Sync)" using core_on_chain [OF b2 l(1)] l(2) by simp
        then have "i \<in> set (chains c1 Sync)" using p2(4) by (metis chain.distinct(6) fun_upd_other)
        then show False using p1(6) v(1) e0(2) i(2) d0 by auto
      next
        case False
        then have "i \<in> set (chains c2 Modified)" using core_on_chain [OF b2 l(1)] l(2) sx by simp
        then show False using p2(6) v(2) i(2) a(1) by (auto simp: act_def)
      qed
    qed
    then show ?thesis using d0 by blast
  qed
  have "swapout_collect delta upd c = (\<not> act \<and> free_workers c > 0, dd2, tr2, c2)"
    unfolding swapout_collect_def Let_def act_def [symmetric] c0_def [symmetric] sd dd0_def [symmetric] p1(1) p2(1) ..
  moreover have "\<forall>j. wt c2 j = wt c j" using w1 w2 e0(3) by simp
  ultimately show ?thesis using w2 d view all fin by blast
qed

text \<open>The transfer chain is written request by request, without loss and in its order.\<close>

lemma concat_swapout_requests: "is \<noteq> [] \<Longrightarrow> concat (swapout_requests cont mbpb mx blk acc lst is) = acc @ is"
proof (induction cont mbpb mx blk acc lst "is" rule: swapout_requests.induct)
  case (2 cont mbpb mx blk acc lst i "is")
  then show ?case by (cases "is") auto
qed simp

lemma requests_nonempty: "[] \<notin> set (swapout_requests cont mbpb mx blk acc lst is)"
  by (induction cont mbpb mx blk acc lst "is" rule: swapout_requests.induct) auto

lemma requests_bounded:
  "length acc < max 1 mx \<Longrightarrow> r \<in> set (swapout_requests cont mbpb mx blk acc lst is) \<Longrightarrow> length r \<le> max 1 mx"
proof (induction cont mbpb mx blk acc lst "is" rule: swapout_requests.induct)
  case (2 cont mbpb mx blk acc lst i "is")
  then show ?case by (auto split: if_splits)
qed simp

section \<open>The read-ahead chain\<close>

text \<open>Only the operations on read-ahead requests change the chain of devices, and none the size of the groups.\<close>

abbreviation rac :: "rtems_bdbuf_cache \<Rightarrow> nat list \<times> nat" where
  "rac c \<equiv> (read_ahead_chain c, max_bds_per_group c)"

definition rac_add :: "nat \<Rightarrow> rtems_bdbuf_cache \<Rightarrow> rtems_bdbuf_cache \<Rightarrow> bool" where
  "rac_add dd c c' \<longleftrightarrow> set (read_ahead_chain c') \<subseteq> insert dd (set (read_ahead_chain c)) \<and> max_bds_per_group c' = max_bds_per_group c"

lemmas small_defs = rtems_bdbuf_set_state_def rtems_bdbuf_group_obtain_def rtems_bdbuf_group_release_def rtems_bdbuf_wait_def rtems_bdbuf_woken_def
  rtems_bdbuf_anonymous_wait_def anonymous_woken_def rtems_bdbuf_wake_swapper_def chain_append_def chain_prepend_def rtems_bdbuf_make_empty_def
  rtems_bdbuf_make_free_and_add_to_lru_list_def rtems_bdbuf_make_cached_and_add_to_lru_list_def rtems_bdbuf_add_to_lru_list_after_access_def
  rtems_bdbuf_wait_for_buffer_def Let_def count_stats_def sync_begin_def rtems_bdbuf_syncdev_def
  rtems_bdbuf_add_to_modified_list_after_access_def swapout_end_def set_read_ahead_def

lemma small_rac:
  "rac (rtems_bdbuf_set_state i s c) = rac c" "rac (rtems_bdbuf_group_obtain i c) = rac c" "rac (rtems_bdbuf_group_release i c) = rac c"
  "rac (rtems_bdbuf_wait i q c) = rac c" "rac (rtems_bdbuf_woken i q c) = rac c" "rac (anonymous_woken q c) = rac c"
  "rac (rtems_bdbuf_anonymous_wait q c) = rac c" "rac (rtems_bdbuf_wake_swapper c) = rac c" "rac (chain_append q' i c) = rac c"
  "rac (rtems_bdbuf_make_empty i c) = rac c" "rac (rtems_bdbuf_make_free_and_add_to_lru_list i c) = rac c"
  "rac (rtems_bdbuf_make_cached_and_add_to_lru_list i c) = rac c" "rac (rtems_bdbuf_add_to_lru_list_after_access i c) = rac c"
  "rac (rtems_bdbuf_wait_for_buffer c) = rac c" "rac (count_stats dd f c) = rac c" "rac (sync_begin i c) = rac c"
  "rac (rtems_bdbuf_add_to_modified_list_after_access cf i c) = rac c" "rac (rtems_bdbuf_syncdev dd c) = rac c"
  "rac (snd (swapout_end act tr c)) = rac c" "rac (set_read_ahead dd r c) = rac c"
  by (simp_all add: small_defs)

lemmas small_rac_simps [simp] = small_rac [unfolded prod.inject]

lemma chain_extract_rac: "chain_extract i c = Some c' \<Longrightarrow> rac c' = rac c"
  by (auto simp: chain_extract_def split: list.splits)

lemma remove_tree_rac: "rtems_bdbuf_remove_from_tree i c = Some c' \<Longrightarrow> rac c' = rac c"
  by (auto simp: rtems_bdbuf_remove_from_tree_def split: bind_splits if_splits)

lemma remove_lru_rac: "rtems_bdbuf_remove_from_tree_and_lru_list i c = Some c' \<Longrightarrow> rac c' = rac c"
  by (auto simp: rtems_bdbuf_remove_from_tree_and_lru_list_def split: bind_splits bdstate.splits dest!: chain_extract_rac remove_tree_rac)

lemma discard_rac: "rtems_bdbuf_discard_buffer i c = Some c' \<Longrightarrow> rac c' = rac c"
  by (auto simp: rtems_bdbuf_discard_buffer_def Let_def split: bind_splits if_splits dest!: remove_tree_rac)

lemma remove_all_rac: "remove_all is c = Some c' \<Longrightarrow> rac c' = rac c"
  by (induction "is" arbitrary: c) (auto split: bind_splits dest!: remove_lru_rac)

lemma fold_free_rac: "rac (fold rtems_bdbuf_make_free_and_add_to_lru_list is c) = rac c"
  by (induction "is" arbitrary: c) auto

lemmas fold_free_rac_simps [simp] = fold_free_rac [unfolded prod.inject]

lemma realloc_rac: "rtems_bdbuf_group_realloc g n c = Some (i, c') \<Longrightarrow> rac c' = rac c"
  by (auto simp: rtems_bdbuf_group_realloc_def Let_def split: bind_splits if_splits dest!: remove_all_rac)

lemma lru_scan_rac: "lru_scan n is c = Some (r, c') \<Longrightarrow> rac c' = rac c"
  by (induction "is" arbitrary: c) (auto split: bind_splits if_splits dest!: remove_lru_rac realloc_rac)

lemma setup_rac: "rtems_bdbuf_setup_empty_buffer i dd b c = Some c' \<Longrightarrow> rac c' = rac c"
  by (auto simp: rtems_bdbuf_setup_empty_buffer_def Let_def split: bind_splits if_splits)

lemma get_lru_rac: "rtems_bdbuf_get_buffer_from_lru_list n dd b c = Some (r, c') \<Longrightarrow> rac c' = rac c"
  by (auto simp: rtems_bdbuf_get_buffer_from_lru_list_def split: bind_splits option.splits dest!: lru_scan_rac setup_rac)

lemma wait_for_access_rac: "rtems_bdbuf_wait_for_access i c = Some (r, c') \<Longrightarrow> rac c' = rac c"
  by (auto simp: rtems_bdbuf_wait_for_access_def split: bind_splits bdstate.splits dest!: chain_extract_rac)

lemma access_found_rac: "access_found i c = Some (r, c') \<Longrightarrow> rac c' = rac c"
  by (auto simp: access_found_def split: bind_splits found.splits dest!: wait_for_access_rac)

lemma wait_for_recycle_rac: "rtems_bdbuf_wait_for_recycle i c = Some (r, c') \<Longrightarrow> rac c' = rac c"
  by (auto simp: rtems_bdbuf_wait_for_recycle_def rtems_bdbuf_request_sync_for_modified_buffer_def
      split: bind_splits bdstate.splits if_splits dest!: chain_extract_rac)

lemma recycle_rac: "recycle_buffer i c = Some c' \<Longrightarrow> rac c' = rac c"
  by (auto simp: recycle_buffer_def split: bind_splits dest!: remove_lru_rac)

lemma get_access_rac: "rtems_bdbuf_get_buffer_for_access fuel n dd b c = Some (r, c') \<Longrightarrow> rac c' = rac c"
proof (induction fuel arbitrary: c)
  case (Suc fuel)
  then show ?case
    by (auto split: option.splits bind_splits found.splits if_splits dest!: access_found_rac get_lru_rac wait_for_recycle_rac recycle_rac)
qed simp

lemma trigger_rac:
  "rac_add dd c (rtems_bdbuf_check_read_ahead_trigger dd b c)" "rac_add dd c (rtems_bdbuf_set_read_ahead_trigger dd b c)"
  "rac_add dd c (rtems_bdbuf_peek cf dd b n c)"
  by (auto simp: rac_add_def rtems_bdbuf_check_read_ahead_trigger_def rtems_bdbuf_set_read_ahead_trigger_def rtems_bdbuf_read_ahead_add_to_chain_def
      rtems_bdbuf_read_ahead_cancel_def rtems_bdbuf_peek_def rtems_bdbuf_read_ahead_reset_def Let_def dest: set_remove1_subset [THEN subsetD])

lemma hand_out_rac: "hand_out a dd (Some (r, c)) = Some (r', c') \<Longrightarrow> rac_add dd c c'"
  using trigger_rac(1) trigger_rac(2)
  by (fastforce simp: rac_add_def hand_out_def get_grant_def read_grant_def Let_def split: found.splits access.splits bdstate.splits bind_splits)

lemma hand_out_bind: "hand_out a dd r = Some (r', c') \<Longrightarrow> \<exists>f c. r = Some (f, c)"
  by (cases r) (auto simp: hand_out_def)

lemma request_rac: "rtems_bdbuf_request a dev dd block c = Some (r, c') \<Longrightarrow> rac_add dd c c'"
proof -
  assume a: "rtems_bdbuf_request a dev dd block c = Some (r, c')"
  show ?thesis
  proof (cases "rtems_bdbuf_get_media_block dev block")
    case None
    then show ?thesis using a by (auto simp: rtems_bdbuf_request_def rac_add_def)
  next
    case (Some mb)
    let ?s = "rtems_bdbuf_get_buffer_for_access 2 (dd_bds_per_group dev) dd mb c"
    obtain r' where e: "hand_out a dd ?s = Some (r', c')" using a Some by (auto simp: rtems_bdbuf_request_def)
    then obtain f c1 where f: "?s = Some (f, c1)" using hand_out_bind by blast
    then show ?thesis using hand_out_rac [of a dd f c1 r' c'] get_access_rac [OF f] e unfolding f by (simp add: rac_add_def)
  qed
qed

lemma woken_rac: "request_woken a dev dd mb w c = Some (r, c') \<Longrightarrow> rac_add dd c c'"
proof -
  assume a: "request_woken a dev dd mb w c = Some (r, c')"
  let ?s = "case w of
           Access_wait i q \<Rightarrow> access_found i (rtems_bdbuf_woken i q c)
         | Recycle_wait i q \<Rightarrow>
             do { (f, c) \<leftarrow> rtems_bdbuf_wait_for_recycle i (rtems_bdbuf_woken i q c);
                  case f of
                    Found i \<Rightarrow> do { c \<leftarrow> recycle_buffer i c; rtems_bdbuf_get_buffer_for_access 2 (dd_bds_per_group dev) dd mb c }
                  | Sleep w \<Rightarrow> Some (Sleep w, c) }
         | Recycle_retry \<Rightarrow> rtems_bdbuf_get_buffer_for_access 2 (dd_bds_per_group dev) dd mb (anonymous_woken Buffer_q c)
         | Buffer_wait \<Rightarrow> rtems_bdbuf_get_buffer_for_access 2 (dd_bds_per_group dev) dd mb (anonymous_woken Buffer_q c)"
  have e: "hand_out a dd ?s = Some (r, c')" using a by (simp add: request_woken_def Let_def)
  then obtain f c1 where f: "?s = Some (f, c1)" using hand_out_bind by blast
  then have "rac c1 = rac c"
    by (auto split: sleep.splits bind_splits found.splits dest!: access_found_rac get_access_rac wait_for_recycle_rac recycle_rac)
  then show ?thesis using hand_out_rac [of a dd f c1 r c'] e unfolding f by (simp add: rac_add_def)
qed

lemma transfer_rac: "transfer_bds ok is c = Some c' \<Longrightarrow> rac c' = rac c"
  by (induction "is" arbitrary: c) (auto simp: Let_def split: bind_splits if_splits dest!: discard_rac)

lemma execute_rac: "rtems_bdbuf_execute_transfer_request reading dd status is c = Some (sc, c') \<Longrightarrow> rac c' = rac c"
  by (auto simp: rtems_bdbuf_execute_transfer_request_def split: bind_splits dest!: transfer_rac)

lemma read_finish_rac: "read_finish dd block status i c = Some (r, c') \<Longrightarrow> rac_add dd c c'"
  using trigger_rac(1) [of dd _ block]
  by (fastforce simp: rac_add_def read_finish_def split: bind_splits if_splits dest!: execute_rac chain_extract_rac)

lemma ahead_get_rac: "rtems_bdbuf_get_buffer_for_read_ahead n dd mb c = Some (r, c') \<Longrightarrow> rac c' = rac c"
  by (auto simp: rtems_bdbuf_get_buffer_for_read_ahead_def split: option.splits bind_splits dest!: get_lru_rac)

lemma ahead_more_rac: "ahead_more dev dd mb n c = Some (is, c') \<Longrightarrow> rac c' = rac c"
  by (induction n arbitrary: mb c "is") (auto simp: Let_def split: option.splits bind_splits dest!: ahead_get_rac)

lemma read_ahead_step_rac: "read_ahead_step cf D c = Some (r, c') \<Longrightarrow> read_ahead_chain c' = tl (read_ahead_chain c) \<and> max_bds_per_group c' = max_bds_per_group c"
  by (auto simp: read_ahead_step_def ahead_transfer_def Let_def split: option.splits bind_splits list.splits if_splits
      dest!: ahead_get_rac ahead_more_rac)

lemma release_rac:
  "rtems_bdbuf_release cf i c = Some c' \<Longrightarrow> rac c' = rac c" "rtems_bdbuf_release_modified cf i c = Some c' \<Longrightarrow> rac c' = rac c"
  by (auto simp: rtems_bdbuf_release_def rtems_bdbuf_release_modified_def rtems_bdbuf_discard_buffer_after_access_def
      split: bdstate.splits dest!: discard_rac)

lemma sync_end_rac: "sync_end i c = Some c' \<Longrightarrow> rac c' = rac c"
  by (auto simp: sync_end_def split: if_splits bind_splits dest!: remove_tree_rac)

lemma sync_done_rac: "rtems_bdbuf_wait_for_sync_done i c = Some (d, c') \<Longrightarrow> rac c' = rac c"
  by (auto simp: rtems_bdbuf_wait_for_sync_done_def split: bdstate.splits)

lemma sync_rac: "rtems_bdbuf_sync i c = Some (d, c') \<Longrightarrow> rac c' = rac c" "sync_woken i c = Some (d, c') \<Longrightarrow> rac c' = rac c"
  by (auto simp: rtems_bdbuf_sync_def rtems_bdbuf_sync_after_access_def sync_woken_def rtems_bdbuf_discard_buffer_after_access_def
      split: if_splits bind_splits dest!: sync_end_rac sync_done_rac discard_rac)

lemma processing_rac: "rtems_bdbuf_swapout_modified_processing q act upd delta (dd, tr, c) = (dd', tr', c') \<Longrightarrow> rac c' = rac c"
  by (auto simp: rtems_bdbuf_swapout_modified_processing_def split: prod.splits)

lemma collect_rac: "swapout_collect delta upd c = (w, dd, tr, c') \<Longrightarrow> rac c' = rac c"
proof -
  assume a: "swapout_collect delta upd c = (w, dd, tr, c')"
  let ?c = "if \<not> sync_active c \<and> free_workers c > 0 then c\<lparr>free_workers := free_workers c - 1\<rparr> else c"
  obtain dd0 where e: "rtems_bdbuf_swapout_modified_processing Modified (sync_active c) upd delta
      (rtems_bdbuf_swapout_modified_processing Sync True False delta (dd0, [], ?c)) = (dd, tr, c')"
    using a by (auto simp: swapout_collect_def Let_def)
  obtain dd1 tr1 c1 where p: "rtems_bdbuf_swapout_modified_processing Sync True False delta (dd0, [], ?c) = (dd1, tr1, c1)" by (metis prod_cases3)
  have "rac c' = rac c1" using e processing_rac unfolding p by blast
  moreover have "rac c1 = rac ?c" by (rule processing_rac [OF p])
  ultimately show ?thesis by simp
qed

end
