(* ===== verification/BdbufSys.thy ===== *)
theory BdbufSys
  imports BdbufOps
begin

text \<open>
  The buffer cache with its threads: the clients, the swap-out task with its workers and the read-ahead task, each of which runs
  one critical section of \<open>Bdbuf\<close> at a time. Devices do not overlap, and the size of their blocks is fixed. The media and the contents
  the clients expect of them are kept beside the cache.
\<close>

section \<open>Threads\<close>

text \<open>Where a thread is between two critical sections: a request sleeps, a client has a buffer, a transfer for a read or a
  read-ahead runs, requests of the swap-out task are still to be written to a device, a sync of a device ends, a client waits
  for the sync of its buffer.\<close>

datatype pc = Asleep access nat nat sleep | Owner nat | Reading nat nat nat | Ahead nat "nat list"
  | Swap nat "nat list list" | Ending | Syncing nat

fun waits_on :: "pc \<Rightarrow> nat multiset" where
  "waits_on (Asleep a dd mb (Access_wait i q)) = {#i#}"
| "waits_on (Syncing i) = {#i#}"
| "waits_on _ = {#}"

fun owns :: "pc \<Rightarrow> nat multiset" where
  "owns (Owner i) = {#i#}"
| "owns _ = {#}"

fun moves :: "pc \<Rightarrow> nat multiset" where
  "moves (Reading dd block i) = {#i#}"
| "moves (Ahead dd is) = mset is"
| "moves (Swap dd rs) = mset (concat rs)"
| "moves _ = {#}"

fun writes :: "pc \<Rightarrow> nat multiset" where
  "writes (Swap dd rs) = mset (concat rs)"
| "writes _ = {#}"

definition every :: "(pc \<Rightarrow> nat multiset) \<Rightarrow> pc multiset \<Rightarrow> nat multiset" where
  "every f T = \<Sum>\<^sub># (image_mset f T)"

lemma every_simps [simp]: "every f {#} = {#}" "every f (add_mset p T) = f p + every f T" "every f (T + U) = every f T + every f U"
  by (simp_all add: every_def)

lemma every_sub: "p \<in># T \<Longrightarrow> count (f p) i \<le> count (every f T) i"
  by (auto dest!: multi_member_split)

text \<open>What a thread relies on.\<close>

fun pc_ok :: "(nat \<Rightarrow> rtems_bdbuf_buffer option) \<Rightarrow> pc \<Rightarrow> bool" where
  "pc_ok v (Asleep a dd mb (Access_wait i q)) \<longleftrightarrow> dd \<noteq> 0 \<and> (\<exists>b. v i = Some b \<and> key b = (dd, mb))"
| "pc_ok v (Asleep a dd mb Buffer_wait) \<longleftrightarrow> dd \<noteq> 0"
| "pc_ok v (Asleep a dd mb _) \<longleftrightarrow> False"
| "pc_ok v (Reading dd block i) \<longleftrightarrow> dd \<noteq> 0"
| "pc_ok v (Swap dd rs) \<longleftrightarrow> rs \<noteq> [] \<and> (\<forall>i\<in>set (concat rs). \<exists>b. v i = Some b \<and> b_dd b = dd)"
| "pc_ok v _ \<longleftrightarrow> True"

definition owned :: "(nat \<Rightarrow> rtems_bdbuf_buffer option) \<Rightarrow> nat \<Rightarrow> nat" where
  "owned v i = of_bool (\<exists>b. v i = Some b \<and> in_access (b_state b))"

definition moving :: "(nat \<Rightarrow> rtems_bdbuf_buffer option) \<Rightarrow> nat \<Rightarrow> nat" where
  "moving v i = of_bool (\<exists>b. v i = Some b \<and> b_state b = TRANSFER)"

lemma ownedD: "owned v i = 1 \<Longrightarrow> \<exists>b. v i = Some b \<and> in_access (b_state b)"
  unfolding owned_def by (rule ccontr) simp

lemma movingD: "moving v i = 1 \<Longrightarrow> \<exists>b. v i = Some b \<and> b_state b = TRANSFER"
  unfolding moving_def by (rule ccontr) simp

text \<open>The threads fit the buffers: a buffer in access has one owner, a buffer in transfer is part of one transfer, and the waiters
  of a buffer are counted.\<close>

definition vinv :: "(nat \<Rightarrow> int) \<Rightarrow> (nat \<Rightarrow> rtems_bdbuf_buffer option) \<Rightarrow> pc multiset \<Rightarrow> bool" where
  "vinv w v T \<longleftrightarrow> (\<forall>i. w i = int (count (every waits_on T) i)) \<and> (\<forall>i. count (every owns T) i = owned v i) \<and>
     (\<forall>i. count (every moves T) i = moving v i) \<and>
     (\<forall>i b. v i = Some b \<longrightarrow> b_dd b \<noteq> 0 \<and> b_state b \<noteq> ACCESS_PURGED \<and> b_state b \<noteq> TRANSFER_PURGED) \<and> (\<forall>p\<in>#T. pc_ok v p)"

lemma vinvD:
  assumes "vinv w v T"
  shows "w i = int (count (every waits_on T) i)" "count (every owns T) i = owned v i" "count (every moves T) i = moving v i"
    "v i = Some b \<Longrightarrow> b_dd b \<noteq> 0 \<and> b_state b \<noteq> ACCESS_PURGED \<and> b_state b \<noteq> TRANSFER_PURGED" "p \<in># T \<Longrightarrow> pc_ok v p"
  using assms unfolding vinv_def by blast+

text \<open>A step of threads \<open>P\<close>, which go on as \<open>P'\<close>: it changes the buffers of \<open>A\<close>, and unused buffers may leave the tree.\<close>

lemma vinv_step:
  assumes "vinv w v (T + P)"
    and rest: "\<And>j. j \<notin> A \<Longrightarrow> v' j = v j \<or> v' j = None \<and> w' j = 0 \<and> (\<exists>b. v j = Some b \<and> b_state b = CACHED)"
    and new: "\<And>j b. j \<in> A \<Longrightarrow> v' j = Some b \<Longrightarrow> b_dd b \<noteq> 0 \<and> b_state b \<noteq> ACCESS_PURGED \<and> b_state b \<noteq> TRANSFER_PURGED \<and>
      (w' j \<noteq> 0 \<longrightarrow> (\<exists>b'. v j = Some b' \<and> key b' = key b))"
    and gone: "\<And>j. j \<in> A \<Longrightarrow> v' j = None \<Longrightarrow> w' j = 0"
    and own: "\<And>j. count (every owns P') j + owned v j = count (every owns P) j + owned v' j"
    and move: "\<And>j. count (every moves P') j + moving v j = count (every moves P) j + moving v' j"
    and mine: "\<And>j. j \<in> A \<Longrightarrow> moving v j = count (every moves P) j"
    and wait: "\<And>j. w' j + int (count (every waits_on P) j) = w j + int (count (every waits_on P') j)"
    and ok: "\<And>p. p \<in># P' \<Longrightarrow> pc_ok v' p"
  shows "vinv w' v' (T + P')"
proof -
  note d = vinvD [OF assms(1)]
  have w': "w' i = int (count (every waits_on (T + P')) i)" for i using d(1) [of i] wait [of i] by simp
  have keep: "pc_ok v' p" if p: "p \<in># T" for p
  proof -
    have okp: "pc_ok v p" using d(5) p by simp
    have wk: "\<exists>b'. v' i = Some b' \<and> key b' = key b" if "0 < count (waits_on p) i" "v i = Some b" for i b
    proof -
      have "0 < count (every waits_on T) i" using that(1) every_sub [OF p, of waits_on i] by linarith
      then have "w' i \<noteq> 0" using w' [of i] unfolding every_simps count_union by linarith
      then show ?thesis using rest [of i] new [of i] gone [of i] that(2) by (cases "i \<in> A"; cases "v' i") auto
    qed
    have mk: "v' i = v i" if "0 < count (moves p) i" for i
    proof -
      have m: "0 < count (every moves T) i" using that every_sub [OF p, of moves i] by linarith
      have "moving v i \<le> 1" by (simp add: moving_def)
      then have "moving v i = 1" "moving v i \<noteq> count (every moves P) i" using d(3) [of i] m unfolding every_simps count_union by linarith+
      then obtain b where "v i = Some b" "b_state b = TRANSFER" using movingD by blast
      then show ?thesis using mine [of i] rest [of i] \<open>moving v i \<noteq> count (every moves P) i\<close> by auto
    qed
    have "pc_ok v' (Asleep a dd mb w)" if pw: "p = Asleep a dd mb w" for a dd mb w
    proof (cases w)
      case (Access_wait i q)
      then obtain b where "dd \<noteq> 0" "v i = Some b" "key b = (dd, mb)" using okp pw by auto
      then show ?thesis using wk [of i b] pw Access_wait by auto
    qed (use pw okp in auto)
    moreover have "pc_ok v' (Swap dd rs)" if "p = Swap dd rs" for dd rs
      using that okp mk by (auto simp: count_eq_zero_iff)
    ultimately show ?thesis using okp by (cases p) auto
  qed
  show ?thesis unfolding vinv_def
  proof (intro conjI allI ballI impI)
    fix i
    show "w' i = int (count (every waits_on (T + P')) i)" by (rule w')
    show "count (every owns (T + P')) i = owned v' i" using d(2) [of i] own [of i] by simp
    show "count (every moves (T + P')) i = moving v' i" using d(3) [of i] move [of i] by simp
  next
    fix i b
    assume "v' i = Some b"
    then show "b_dd b \<noteq> 0" "b_state b \<noteq> ACCESS_PURGED" "b_state b \<noteq> TRANSFER_PURGED"
      using rest [of i] new [of i b] d(4) [of i b] by (cases "i \<in> A"; auto)+
  next
    fix p
    assume "p \<in># T + P'"
    then show "pc_ok v' p" using keep ok by auto
  qed
qed

section \<open>Contents\<close>

type_synonym store = "nat \<times> nat \<Rightarrow> u8 list"

text \<open>A buffer that holds data which may be missing on the media.\<close>

definition dirty :: "pc multiset \<Rightarrow> nat \<Rightarrow> rtems_bdbuf_buffer \<Rightarrow> bool" where
  "dirty T i b \<longleftrightarrow> b_state b \<in> {MODIFIED, ACCESS_MODIFIED, SYNC} \<or> b_state b = TRANSFER \<and> i \<in># every writes T"

definition holds :: "pc multiset \<Rightarrow> nat \<Rightarrow> rtems_bdbuf_buffer \<Rightarrow> bool" where
  "holds T i b \<longleftrightarrow> b_state b \<in> {CACHED, ACCESS_CACHED} \<or> dirty T i b"

text \<open>The contents \<open>k\<close> of a block that is not lost are in its buffer, and on the media \<open>m\<close> unless its buffer is dirty.\<close>

definition dinv :: "(nat \<Rightarrow> rtems_bdbuf_buffer option) \<Rightarrow> pc multiset \<Rightarrow> store \<Rightarrow> store \<Rightarrow> (nat \<times> nat) set \<Rightarrow> bool" where
  "dinv v T m k l \<longleftrightarrow> (\<forall>i b. v i = Some b \<longrightarrow> key b \<notin> l \<longrightarrow> holds T i b \<longrightarrow> b_data b = k (key b)) \<and>
     (\<forall>x. x \<notin> l \<longrightarrow> m x \<noteq> k x \<longrightarrow> (\<exists>i b. v i = Some b \<and> key b = x \<and> dirty T i b))"

lemma dinvD:
  assumes "dinv v T m k l"
  shows "v i = Some b \<Longrightarrow> key b \<notin> l \<Longrightarrow> holds T i b \<Longrightarrow> b_data b = k (key b)"
    "x \<notin> l \<Longrightarrow> m x \<noteq> k x \<Longrightarrow> \<exists>i b. v i = Some b \<and> key b = x \<and> dirty T i b"
  using assms unfolding dinv_def by blast+

definition keys_inj :: "(nat \<Rightarrow> rtems_bdbuf_buffer option) \<Rightarrow> bool" where
  "keys_inj v \<longleftrightarrow> (\<forall>i j a b. v i = Some a \<longrightarrow> v j = Some b \<longrightarrow> key a = key b \<longrightarrow> i = j)"

lemma keys_injD: "keys_inj v \<Longrightarrow> v i = Some a \<Longrightarrow> v j = Some b \<Longrightarrow> key a = key b \<Longrightarrow> i = j"
  unfolding keys_inj_def by blast

lemma vw_keys: "binv bpg c \<Longrightarrow> keys_inj (vw c)"
  unfolding keys_inj_def using vw_inj by blast

lemma dinv_clean:
  assumes "dinv v T m k l" "keys_inj v" "v i = Some b" "\<not> dirty T i b" "key b \<notin> l"
  shows "m (key b) = k (key b)"
proof (rule ccontr)
  assume "m (key b) \<noteq> k (key b)"
  then obtain j a where "v j = Some a" "key a = key b" "dirty T j a" using dinvD(2) [OF assms(1,5)] by blast
  then show False using keys_injD [OF assms(2,3)] assms(3,4) by (metis option.inject)
qed

lemma dinv_change:
  assumes "dinv v T m k l" "keys_inj v"
    and rest: "\<And>j. j \<notin> A \<Longrightarrow> v' j = v j \<or> v' j = None \<and> (\<exists>b. v j = Some b \<and> b_state b = CACHED)"
    and wr: "\<And>j. j \<notin> A \<Longrightarrow> j \<in># every writes T' \<longleftrightarrow> j \<in># every writes T"
    and frame: "\<And>x. (\<forall>j\<in>A. \<forall>b. v j = Some b \<longrightarrow> key b \<noteq> x) \<Longrightarrow> m' x = m x \<and> k' x = k x \<and> (x \<in> l' \<longleftrightarrow> x \<in> l)"
    and new: "\<And>j b. j \<in> A \<Longrightarrow> v' j = Some b \<Longrightarrow> key b \<notin> l' \<Longrightarrow> holds T' j b \<Longrightarrow> b_data b = k' (key b)"
    and late: "\<And>j b. j \<in> A \<Longrightarrow> v j = Some b \<Longrightarrow> key b \<notin> l' \<Longrightarrow> m' (key b) \<noteq> k' (key b) \<Longrightarrow>
      \<exists>b'. v' j = Some b' \<and> key b' = key b \<and> dirty T' j b'"
  shows "dinv v' T' m' k' l'"
  unfolding dinv_def
proof (intro conjI allI impI)
  fix i b
  assume b: "v' i = Some b" "key b \<notin> l'" "holds T' i b"
  show "b_data b = k' (key b)"
  proof (cases "i \<in> A")
    case False
    then have v: "v i = Some b" using rest [of i] b(1) by auto
    have "\<forall>j\<in>A. \<forall>a. v j = Some a \<longrightarrow> key a \<noteq> key b" using keys_injD [OF assms(2) v] False by metis
    note f = frame [OF this]
    have "holds T i b" using b(3) wr [OF False] by (simp add: holds_def dirty_def)
    then show ?thesis using dinvD(1) [OF assms(1) v] f b(2) by simp
  qed (use new b in blast)
next
  fix x
  assume x: "x \<notin> l'" "m' x \<noteq> k' x"
  show "\<exists>i b. v' i = Some b \<and> key b = x \<and> dirty T' i b"
  proof (cases "\<exists>j\<in>A. \<exists>b. v j = Some b \<and> key b = x")
    case True
    then show ?thesis using late x by metis
  next
    case False
    then have f: "m' x = m x \<and> k' x = k x \<and> (x \<in> l' \<longleftrightarrow> x \<in> l)" using frame [of x] by blast
    then obtain i b where i: "v i = Some b" "key b = x" "dirty T i b" using dinvD(2) [OF assms(1), of x] x by auto
    then have "i \<notin> A" using False by blast
    moreover have "b_state b \<noteq> CACHED" using i(3) by (auto simp: dirty_def)
    ultimately have "v' i = Some b" "dirty T' i b" using rest [of i] wr [of i] i by (auto simp: dirty_def)
    then show ?thesis using i(2) by blast
  qed
qed

text \<open>When the contents and the media stay, the buffers of \<open>A\<close> must only stay dirty if they were.\<close>

lemma dinv_keep:
  assumes "dinv v T m k l" "keys_inj v"
    and rest: "\<And>j. j \<notin> A \<Longrightarrow> v' j = v j \<or> v' j = None \<and> (\<exists>b. v j = Some b \<and> b_state b = CACHED)"
    and wr: "\<And>j. j \<notin> A \<Longrightarrow> j \<in># every writes T' \<longleftrightarrow> j \<in># every writes T"
    and new: "\<And>j b. j \<in> A \<Longrightarrow> v' j = Some b \<Longrightarrow> key b \<notin> l \<Longrightarrow> holds T' j b \<Longrightarrow> b_data b = k (key b)"
    and late: "\<And>j b. j \<in> A \<Longrightarrow> v j = Some b \<Longrightarrow> dirty T j b \<Longrightarrow> \<exists>b'. v' j = Some b' \<and> key b' = key b \<and> dirty T' j b'"
  shows "dinv v' T' m k l"
proof (rule dinv_change [OF assms(1,2) rest wr])
  fix j b
  assume "j \<in> A" "v j = Some b" "key b \<notin> l" "m (key b) \<noteq> k (key b)"
  then show "\<exists>b'. v' j = Some b' \<and> key b' = key b \<and> dirty T' j b'" using dinv_clean [OF assms(1,2)] late by blast
qed (use new in auto)

section \<open>The system\<close>

record bsys =
  cache :: rtems_bdbuf_cache
  threads :: "pc multiset"
  media :: store
  content :: store
  lost :: "(nat \<times> nat) set"

text \<open>The data of buffers change: the client writes to its buffer, or a transfer to the buffers of the request.\<close>

definition load :: "nat set \<Rightarrow> (nat \<Rightarrow> u8 list) \<Rightarrow> rtems_bdbuf_cache \<Rightarrow> rtems_bdbuf_cache" where
  "load A f c = c\<lparr>bds := (\<lambda>j. if j \<in> A then (bds c j)\<lparr>b_data := f j\<rparr> else bds c j)\<rparr>"

definition bkey :: "rtems_bdbuf_cache \<Rightarrow> nat \<Rightarrow> nat \<times> nat" where
  "bkey c i = key (bds c i)"

text \<open>Where a request is when its critical section ends.\<close>

fun request_pc :: "access \<Rightarrow> nat \<Rightarrow> nat \<Rightarrow> found \<Rightarrow> rtems_bdbuf_cache \<Rightarrow> pc" where
  "request_pc a dd mb (Sleep w) c = Asleep a dd mb w"
| "request_pc a dd mb (Found i) c = (if st c i = TRANSFER then Reading dd (case a of Get \<Rightarrow> 0 | Read block \<Rightarrow> block) i else Owner i)"

text \<open>The media after a write of buffers.\<close>

definition stored :: "nat list \<Rightarrow> rtems_bdbuf_cache \<Rightarrow> store \<Rightarrow> store" where
  "stored is c = fold (\<lambda>i m. m(bkey c i := b_data (bds c i))) is"

text \<open>A buffer of a device is not put on the chain of modified ones while the device is synchronised.\<close>

definition held_back :: "nat \<Rightarrow> rtems_bdbuf_cache \<Rightarrow> bool" where
  "held_back i c \<longleftrightarrow> sync_active c \<and> sync_device c = b_dd (bds c i)"

text \<open>The steps. A sleeping thread may wake up at any time. A transfer ends with a status, which is not 0 when it failed: then
  the buffers of a read hold anything, and so do the blocks of a write.\<close>

inductive bstep :: "rtems_bdbuf_config \<Rightarrow> (nat \<Rightarrow> rtems_disk_device) \<Rightarrow> bsys \<Rightarrow> bsys \<Rightarrow> bool" for cf D where
  Request: "\<lbrakk>dd \<noteq> 0; rtems_bdbuf_get_media_block (D dd) block = Some mb; a = Get \<or> a = Read block;
     rtems_bdbuf_request a (D dd) dd block (cache s) = Some (Some r, c')\<rbrakk>
   \<Longrightarrow> bstep cf D s (s\<lparr>cache := c', threads := add_mset (request_pc a dd mb r c') (threads s)\<rparr>)"
| Wake: "\<lbrakk>threads s = add_mset (Asleep a dd mb w) T; request_woken a (D dd) dd mb w (cache s) = Some (r, c')\<rbrakk>
   \<Longrightarrow> bstep cf D s (s\<lparr>cache := c', threads := add_mset (request_pc a dd mb r c') T\<rparr>)"
| Read_done: "\<lbrakk>threads s = add_mset (Reading dd block i) T;
     read_finish dd block status i (load {i} (\<lambda>j. if status = 0 then media s (bkey (cache s) j) else f j) (cache s)) = Some (r, c')\<rbrakk>
   \<Longrightarrow> bstep cf D s (s\<lparr>cache := c', threads := (case r of None \<Rightarrow> T | Some j \<Rightarrow> add_mset (Owner j) T)\<rparr>)"
| Ahead_begin: "read_ahead_step cf D (cache s) = Some (r, c')
   \<Longrightarrow> bstep cf D s (s\<lparr>cache := c', threads := (case r of None \<Rightarrow> threads s | Some (dd, is) \<Rightarrow> add_mset (Ahead dd is) (threads s))\<rparr>)"
| Ahead_done: "\<lbrakk>threads s = add_mset (Ahead dd is) T;
     rtems_bdbuf_execute_transfer_request True dd status is
       (load (set is) (\<lambda>j. if status = 0 then media s (bkey (cache s) j) else f j) (cache s)) = Some (sc, c')\<rbrakk>
   \<Longrightarrow> bstep cf D s (s\<lparr>cache := c', threads := T\<rparr>)"
| Release: "\<lbrakk>threads s = add_mset (Owner i) T; st (cache s) i = ACCESS_MODIFIED \<longrightarrow> \<not> held_back i (cache s);
     rtems_bdbuf_release cf i (cache s) = Some c'\<rbrakk>
   \<Longrightarrow> bstep cf D s (s\<lparr>cache := c', threads := T\<rparr>)"
| Release_modified: "\<lbrakk>threads s = add_mset (Owner i) T; \<not> held_back i (cache s);
     rtems_bdbuf_release_modified cf i (load {i} (\<lambda>_. d) (cache s)) = Some c'\<rbrakk>
   \<Longrightarrow> bstep cf D s (s\<lparr>cache := c', threads := T, content := (content s)(bkey (cache s) i := d), lost := lost s - {bkey (cache s) i}\<rparr>)"
| Sync_begin: "\<lbrakk>threads s = add_mset (Owner i) T; rtems_bdbuf_sync i (load {i} (\<lambda>_. d) (cache s)) = Some (e, c')\<rbrakk>
   \<Longrightarrow> bstep cf D s (s\<lparr>cache := c', threads := (if e then T else add_mset (Syncing i) T),
        content := (content s)(bkey (cache s) i := d), lost := lost s - {bkey (cache s) i}\<rparr>)"
| Sync_wake: "\<lbrakk>threads s = add_mset (Syncing i) T; sync_woken i (cache s) = Some (e, c')\<rbrakk>
   \<Longrightarrow> bstep cf D s (s\<lparr>cache := c', threads := (if e then T else threads s)\<rparr>)"
| Syncdev: "\<lbrakk>dd \<noteq> 0; \<not> sync_active (cache s)\<rbrakk> \<Longrightarrow> bstep cf D s (s\<lparr>cache := rtems_bdbuf_syncdev dd (cache s)\<rparr>)"
| Peek: "dd \<noteq> 0 \<Longrightarrow> bstep cf D s (s\<lparr>cache := rtems_bdbuf_peek cf dd block n (cache s)\<rparr>)"
| Collect: "swapout_collect delta upd (cache s) = (w, dd, tr, c')
   \<Longrightarrow> bstep cf D s (s\<lparr>cache := c', threads := threads s +
        (if tr \<noteq> [] then {#Swap dd (swapout_requests (dd_multisector_cont (D dd)) (dd_media_blocks_per_block (D dd))
             (cf_max_write_blocks cf) (\<lambda>j. b_block (bds c' j)) [] 0 tr)#}
         else if sync_active (cache s) then {#Ending#} else {#})\<rparr>)"
| Written: "\<lbrakk>threads s = add_mset (Swap dd (is # rs)) T; rtems_bdbuf_execute_transfer_request False dd 0 is (cache s) = Some (sc, c')\<rbrakk>
   \<Longrightarrow> bstep cf D s (s\<lparr>cache := c', threads := (if rs = [] then T else add_mset (Swap dd rs) T), media := stored is (cache s) (media s)\<rparr>)"
| Write_failed: "\<lbrakk>threads s = add_mset (Swap dd (is # rs)) T; status \<noteq> 0;
     rtems_bdbuf_execute_transfer_request False dd status is (cache s) = Some (sc, c');
     \<And>x. x \<notin> bkey (cache s) ` set is \<Longrightarrow> m x = media s x\<rbrakk>
   \<Longrightarrow> bstep cf D s (s\<lparr>cache := c', threads := (if rs = [] then T else add_mset (Swap dd rs) T), media := m,
        lost := lost s \<union> bkey (cache s) ` set is\<rparr>)"
| Sync_done: "threads s = add_mset Ending T \<Longrightarrow> bstep cf D s (s\<lparr>cache := snd (swapout_end True [] (cache s)), threads := T\<rparr>)"

inductive breach :: "rtems_bdbuf_config \<Rightarrow> (nat \<Rightarrow> rtems_disk_device) \<Rightarrow> bsys \<Rightarrow> bool" for cf D where
  Init: "rtems_bdbuf_do_init cf = Some c \<Longrightarrow> breach cf D \<lparr>cache = c, threads = {#}, media = m, content = m, lost = {}\<rparr>"
| Step: "breach cf D s \<Longrightarrow> bstep cf D s s' \<Longrightarrow> breach cf D s'"

text \<open>The configuration: the buffers fill their groups, the tree can hold them, and the devices fit the groups.\<close>

definition config_ok :: "rtems_bdbuf_config \<Rightarrow> (nat \<Rightarrow> rtems_disk_device) \<Rightarrow> bool" where
  "config_ok cf D \<longleftrightarrow> (cf_buffer_max cf div cf_buffer_min cf) dvd (cf_size cf div cf_buffer_min cf) \<and> cf_size cf div cf_buffer_min cf \<le> AVL_MAX_NODES \<and>
     (\<forall>dd. 0 < dd_bds_per_group (D dd) \<and> dd_bds_per_group (D dd) dvd cf_buffer_max cf div cf_buffer_min cf)"

definition bpg_of :: "(nat \<Rightarrow> rtems_disk_device) \<Rightarrow> nat \<Rightarrow> nat" where
  "bpg_of D dd = dd_bds_per_group (D dd)"

definition sinv :: "(nat \<Rightarrow> rtems_disk_device) \<Rightarrow> bsys \<Rightarrow> bool" where
  "sinv D s \<longleftrightarrow> binv (bpg_of D) (cache s) \<and> (\<forall>dd. 0 < bpg_of D dd \<and> bpg_of D dd dvd max_bds_per_group (cache s)) \<and>
     0 \<notin> set (read_ahead_chain (cache s)) \<and> vinv (wt (cache s)) (vw (cache s)) (threads s) \<and>
     dinv (vw (cache s)) (threads s) (media s) (content s) (lost s)"

lemma do_init_ok:
  assumes "rtems_bdbuf_do_init cf = Some c" "config_ok cf D"
  shows "sinv D \<lparr>cache = c, threads = {#}, media = m, content = m, lost = {}\<rparr>"
proof -
  define n where "n = cf_size cf div cf_buffer_min cf"
  define mx where "mx = cf_buffer_max cf div cf_buffer_min cf"
  have z: "cf_buffer_min cf \<noteq> 0" "cf_buffer_max cf mod cf_buffer_min cf = 0" "cf_buffer_max cf \<noteq> 0"
    using assms(1) by (auto simp: rtems_bdbuf_do_init_def split: if_splits)
  then have mx: "0 < mx" by (auto simp: mx_def div_greater_zero_iff dvd_imp_le mod_eq_0_iff_dvd)
  have n: "mx dvd n" "n \<le> AVL_MAX_NODES" "0 < bpg_of D dd" "bpg_of D dd dvd mx" for dd
    using assms(2) by (auto simp: config_ok_def n_def mx_def bpg_of_def)
  have c: "bds c j = \<lparr>b_dd = 0, b_block = 0, b_state = FREE, b_waiters = 0, b_hold = 0, b_data = []\<rparr>" "max_bds_per_group c = mx" "group_count c = n div mx"
      "bds_per_group c g = mx" "g_users c g = 0" "tree c = Null" "chains c q = (if q = Lru then [0..<n] else [])" "read_ahead_chain c = []" for j g q
    using assms(1) z by (auto simp: rtems_bdbuf_do_init_def n_def mx_def Let_def)
  have l: "lives c = {0..<n}"
  proof (rule set_eqI)
    fix i
    have "i div mx < n div mx \<longleftrightarrow> i < n" using n(1) mx by (simp add: div_less_iff_less_mult)
    then show "i \<in> lives c \<longleftrightarrow> i \<in> {0..<n}" using mx by (simp add: lives_def grp_def c)
  qed
  have v: "vw c i = None" for i by (simp add: vw_def c)
  have "binv (bpg_of D) c"
    using n mx unfolding binv_def l core_def tree_ok_def chains_ok_def users_ok_def waits_ok_def shape_def
    by (auto simp: c avl_inv_def avl_map_def ordered_def)
  moreover have "vinv (wt c) (vw c) {#}" by (simp add: vinv_def v owned_def moving_def c)
  moreover have "dinv (vw c) {#} m m {}" by (simp add: dinv_def v)
  ultimately show ?thesis using n by (simp add: sinv_def c)
qed

section \<open>The steps keep the invariant\<close>

lemma sinvD:
  assumes "sinv D s"
  shows "binv (bpg_of D) (cache s)" "0 < bpg_of D dd" "bpg_of D dd dvd max_bds_per_group (cache s)" "0 \<notin> set (read_ahead_chain (cache s))"
    "vinv (wt (cache s)) (vw (cache s)) (threads s)" "dinv (vw (cache s)) (threads s) (media s) (content s) (lost s)"
  using assms unfolding sinv_def by blast+

lemma rac_keeps: "rac c' = rac c \<Longrightarrow> rac_add dd c c'"
  by (auto simp: rac_add_def)

lemma sinvI:
  assumes "sinv D s" "rac_add dd (cache s) c'" "dd \<noteq> 0" "binv (bpg_of D) c'" "vinv (wt c') (vw c') T" "dinv (vw c') T m k l"
  shows "sinv D \<lparr>cache = c', threads = T, media = m, content = k, lost = l\<rparr>"
  using sinvD [OF assms(1)] assms(2-) by (auto simp: sinv_def rac_add_def)

lemma vw_None_wt: "binv bpg c \<Longrightarrow> vw c j = None \<Longrightarrow> wt c j = 0"
  using binvD(7,8) [of bpg c j] by (auto simp: vw_def split: if_splits)

lemma dinv_writes: "every writes T = every writes T' \<Longrightarrow> dinv v T m k l = dinv v T' m k l"
  by (simp add: dinv_def holds_def dirty_def)

lemma load_vw: "vw (load A f c) j = map_option (\<lambda>b. if j \<in> A then b\<lparr>b_data := f j\<rparr> else b) (vw c j)"
proof -
  have "lives (load A f c) = lives c" by (simp add: lives_def load_def grp_def)
  then show ?thesis by (cases "bds c j") (auto simp: vw_def load_def)
qed

lemma load_simps [simp]: "wt (load A f c) j = wt c j" "st (load A f c) j = st c j" "rac (load A f c) = rac c"
  "bkey (load A f c) j = bkey c j" "kd (load A f c) j = kd c j" "kb (load A f c) j = kb c j" "key (bds (load A f c) j) = key (bds c j)"
  by (auto simp: load_def bkey_def key_def)

lemma load_binv: "binv bpg (load A f c) = binv bpg c"
proof -
  have l: "lives (load A f c) = lives c" "grp (load A f c) = grp c" "shape (load A f c) = shape c"
    "tree (load A f c) = tree c" "chains (load A f c) = chains c" "g_users (load A f c) = g_users c" "bds_per_group (load A f c) = bds_per_group c"
    "bd_node (load A f c) = bd_node c"
    by (auto simp: lives_def load_def grp_def shape_def bd_node_def fun_eq_iff)
  show ?thesis unfolding binv_def core_def tree_ok_def chains_ok_def users_ok_def waits_ok_def l load_simps ..
qed

lemma writes_count: "count (every writes T) i \<le> count (every moves T) i"
proof (induction T)
  case (add p T)
  then show ?case by (cases p) auto
qed simp

lemma not_moving_writes: "vinv w v T \<Longrightarrow> moving v i = 0 \<Longrightarrow> i \<notin># every writes T"
  using vinvD(3) [of w v T i] writes_count [of T i] by (simp add: not_in_iff)

text \<open>A thread that goes without having had a buffer.\<close>

lemma vinv_leave:
  assumes "vinv w v (add_mset p T)" "owns p = {#}" "moves p = {#}" "\<And>j. w' j + int (count (waits_on p) j) = w j"
  shows "vinv w' v T"
  using vinv_step [of w v T "{#p#}" "{}" v w' "{#}"] assms by simp

lemma vinv_enter:
  assumes "vinv w v T" "owns p = {#}" "moves p = {#}" "\<And>j. w' j = w j + int (count (waits_on p) j)" "pc_ok v p"
  shows "vinv w' v (add_mset p T)"
  using vinv_step [of w v T "{#}" "{}" v w' "{#p#}"] assms by simp

lemma handed_found:
  assumes c: "keys_inj (vw c)" and v: "vinv (wt c) (vw c) T" and d: "dinv (vw c) T m k l" and h: "handed bpg a dd mb c (Found i) c'" and nz: "dd \<noteq> 0"
  shows "vinv (wt c') (vw c') (add_mset (request_pc a dd mb (Found i) c') T)" "dinv (vw c') (add_mset (request_pc a dd mb (Found i) c') T) m k l"
proof -
  obtain b u where u: "binv bpg c'" "\<forall>j. wt c' j = wt c j" "finds dd mb (vw c) i b u" "b_state b \<in> {CACHED, MODIFIED, EMPTY}"
      "vw c' = put i (granted a (b_state b)) u" "u = vw c \<or> wt c i = 0" using h by auto
  define s where "s = granted a (b_state b)"
  have s: "s = ACCESS_CACHED \<and> b_state b = CACHED \<or> s = ACCESS_MODIFIED \<and> b_state b = MODIFIED \<or>
      (s = ACCESS_EMPTY \<or> s = TRANSFER) \<and> b_state b = EMPTY" using u(4) by (cases a) (auto simp: s_def)
  have f: "u i = Some b" "b_dd b = dd" "key b = (dd, mb)" using u(3) by (auto simp: finds_def key_def)
  have v': "vw c' i = Some (b\<lparr>b_state := s\<rparr>)" "\<And>j. j \<noteq> i \<Longrightarrow> vw c' j = u j" using u(5) f(1) s by (auto simp: put_def s_def)
  have rest: "vw c' j = vw c j \<or> vw c' j = None \<and> (\<exists>b. vw c j = Some b \<and> b_state b = CACHED)" if "j \<noteq> i" for j
    using v'(2) [OF that] u(3) that by (auto simp: finds_def)
  have old: "b' = b \<or> b_state b' = CACHED \<and> wt c i = 0" if "vw c i = Some b'" for b'
    using u(3,6) that f(1) by (auto simp: finds_def)
  have st: "st c' i = s" using vw_live [OF v'(1)] by simp
  define p where "p = request_pc a dd mb (Found i) c'"
  have p: "waits_on p = {#}" "writes p = {#}" "owns p = (if s = TRANSFER then {#} else {#i#})" "moves p = (if s = TRANSFER then {#i#} else {#})"
    "pc_ok (vw c') p" using nz by (auto simp: p_def st)
  have idle: "owned (vw c) i = 0" "moving (vw c) i = 0" using old u(4) by (auto simp: owned_def moving_def in_access_def)
  have new: "owned (vw c') i = of_bool (s \<noteq> TRANSFER)" "moving (vw c') i = of_bool (s = TRANSFER)"
    using v'(1) s by (auto simp: owned_def moving_def in_access_def)
  have other: "owned (vw c') j = owned (vw c) j" "moving (vw c') j = moving (vw c) j" if "j \<noteq> i" for j
    using rest [OF that] by (auto simp: owned_def moving_def in_access_def)
  have "vinv (wt c') (vw c') (T + {#p#})"
  proof (rule vinv_step [where P = "{#}" and A = "{i}"])
    show "vinv (wt c) (vw c) (T + {#})" using v by simp
    fix j
    show "j \<notin> {i} \<Longrightarrow> vw c' j = vw c j \<or> vw c' j = None \<and> wt c' j = 0 \<and> (\<exists>b. vw c j = Some b \<and> b_state b = CACHED)"
      using rest [of j] vw_None_wt [OF u(1)] by auto
    show "count (every owns {#p#}) j + owned (vw c) j = count (every owns {#}) j + owned (vw c') j"
      using p idle new other [of j] by (cases "j = i") auto
    show "count (every moves {#p#}) j + moving (vw c) j = count (every moves {#}) j + moving (vw c') j"
      using p idle new other [of j] by (cases "j = i") auto
    fix b'
    show "j \<in> {i} \<Longrightarrow> vw c' j = Some b' \<Longrightarrow> b_dd b' \<noteq> 0 \<and> b_state b' \<noteq> ACCESS_PURGED \<and> b_state b' \<noteq> TRANSFER_PURGED \<and>
        (wt c' j \<noteq> 0 \<longrightarrow> (\<exists>a. vw c j = Some a \<and> key a = key b'))"
      using v'(1) f nz s u(2,6) by (auto simp: key_def)
  qed (use p idle v' u(2) in auto)
  then show "vinv (wt c') (vw c') (add_mset (request_pc a dd mb (Found i) c') T)" by (simp add: p_def)
  have iw: "i \<notin># every writes T" by (rule not_moving_writes [OF v idle(2)])
  have "dinv (vw c') (T + {#p#}) m k l"
  proof (rule dinv_keep [OF d c, where A = "{i}"])
    fix j
    show "j \<notin> {i} \<Longrightarrow> vw c' j = vw c j \<or> vw c' j = None \<and> (\<exists>b. vw c j = Some b \<and> b_state b = CACHED)" using rest [of j] by auto
    show "j \<in># every writes (T + {#p#}) \<longleftrightarrow> j \<in># every writes T" using p(2) by simp
    fix b'
    assume j: "j \<in> {i}"
    show "b_data b' = k (key b')" if "vw c' j = Some b'" "key b' \<notin> l" "holds (T + {#p#}) j b'"
    proof -
      have b': "b' = b\<lparr>b_state := s\<rparr>" using that(1) j v'(1) by simp
      have "s = ACCESS_CACHED \<or> s = ACCESS_MODIFIED" using that(3) b' s iw p(2) j by (auto simp: holds_def dirty_def)
      then have "b_state b \<noteq> EMPTY" using s by auto
      then have vi: "vw c i = Some b" "holds T i b" using u(3) u(4) by (auto simp: finds_def holds_def dirty_def)
      then show ?thesis using dinvD(1) [OF d vi(1)] that(2) b' by (simp add: key_def)
    qed
    show "\<exists>b''. vw c' j = Some b'' \<and> key b'' = key b' \<and> dirty (T + {#p#}) j b''" if "vw c j = Some b'" "dirty T j b'"
    proof -
      have "b_state b' \<noteq> CACHED" "b_state b' \<noteq> EMPTY" using that(2) by (auto simp: dirty_def)
      then have "b' = b" "s = ACCESS_MODIFIED" using that(1) j old [of b'] s u(4) by auto
      then show ?thesis using v'(1) j by (simp add: key_def dirty_def)
    qed
  qed
  then show "dinv (vw c') (add_mset (request_pc a dd mb (Found i) c') T) m k l" by (simp add: p_def)
qed

lemma handed_step:
  assumes c: "keys_inj (vw c)" and v: "vinv (wt c) (vw c) T" and d: "dinv (vw c) T m k l" and h: "handed bpg a dd mb c r c'" and nz: "dd \<noteq> 0"
  shows "binv bpg c' \<and> vinv (wt c') (vw c') (add_mset (request_pc a dd mb r c') T) \<and> dinv (vw c') (add_mset (request_pc a dd mb r c') T) m k l"
proof (cases r)
  case (Found i)
  then have f: "handed bpg a dd mb c (Found i) c'" using h by simp
  then have "binv bpg c'" by (simp only: handed.simps)
  then show ?thesis using handed_found [OF c v d f nz] Found by simp
next
  case (Sleep w)
  have d': "dinv (vw c) (add_mset (Asleep a dd mb w) T) m k l" using d dinv_writes [of "add_mset (Asleep a dd mb w) T" T] by simp
  have "binv bpg c' \<and> vw c' = vw c \<and> vinv (wt c') (vw c) (add_mset (Asleep a dd mb w) T)"
  proof (cases w)
    case (Access_wait i q)
    then have x: "waits_for bpg i c c'" "\<exists>b. vw c i = Some b \<and> key b = (dd, mb)" using h Sleep by auto
    have "vinv (wt c') (vw c) (add_mset (Asleep a dd mb w) T)"
      by (rule vinv_enter [OF v]) (use x Access_wait nz in \<open>auto simp: waits_for_def\<close>)
    then show ?thesis using x(1) by (simp add: waits_for_def)
  next
    case Buffer_wait
    then have x: "binv bpg c'" "vw c' = vw c" "\<forall>j. wt c' j = wt c j" using h Sleep by auto
    have "vinv (wt c') (vw c) (add_mset (Asleep a dd mb w) T)"
      by (rule vinv_enter [OF v]) (use x Buffer_wait nz in auto)
    then show ?thesis using x by simp
  qed (use h Sleep in auto)
  then show ?thesis using d' Sleep by simp
qed

text \<open>A request reaches no fatal state.\<close>

lemma request_runs:
  assumes "sinv D s" "rtems_bdbuf_get_media_block (D dd) block = Some mb"
  shows "\<exists>r c'. rtems_bdbuf_request a (D dd) dd block (cache s) = Some (Some r, c') \<and> handed (bpg_of D) a dd mb (cache s) r c'"
proof -
  note i = sinvD [OF assms(1)]
  obtain r c' where "hand_out a dd (rtems_bdbuf_get_buffer_for_access (Suc 1) (bpg_of D dd) dd mb (cache s)) = Some (r, c')"
      "handed (bpg_of D) a dd mb (cache s) r c'" using request_handed [OF i(1-3)] by blast
  then show ?thesis using assms(2) by (simp add: rtems_bdbuf_request_def bpg_of_def numeral_2_eq_2)
qed

lemma sinv_Request:
  assumes "sinv D s" "dd \<noteq> 0" "rtems_bdbuf_get_media_block (D dd) block = Some mb"
    "rtems_bdbuf_request a (D dd) dd block (cache s) = Some (Some r, c')"
  shows "sinv D (s\<lparr>cache := c', threads := add_mset (request_pc a dd mb r c') (threads s)\<rparr>)"
proof -
  note i = sinvD [OF assms(1)]
  have "handed (bpg_of D) a dd mb (cache s) r c'" using request_runs [OF assms(1,3), of a] assms(4) by auto
  note h = handed_step [OF vw_keys [OF i(1)] i(5,6) this assms(2)]
  show ?thesis using sinvI [OF assms(1) request_rac [OF assms(4)] assms(2)] h by (cases s) simp
qed

lemma woken_view:
  assumes "sinv D s" "threads s = add_mset (Asleep a dd mb w) T"
  obtains c where "vw c = vw (cache s)" "keys_inj (vw c)" "vinv (wt c) (vw c) T"
    "dinv (vw c) T (media s) (content s) (lost s)" "dd \<noteq> 0"
    "\<exists>r c'. request_woken a (D dd) dd mb w (cache s) = Some (r, c') \<and> handed (bpg_of D) a dd mb c r c'"
proof -
  note i = sinvD [OF assms(1)]
  have ok: "pc_ok (vw (cache s)) (Asleep a dd mb w)" using vinvD(5) [OF i(5)] assms(2) by simp
  note k = vw_keys [OF i(1)]
  have d: "dinv (vw (cache s)) T (media s) (content s) (lost s)"
    using i(6) assms(2) dinv_writes [of "add_mset (Asleep a dd mb w) T" T] by simp
  have v: "vinv (wt (cache s)) (vw (cache s)) (add_mset (Asleep a dd mb w) T)" using i(5) assms(2) by simp
  show ?thesis
  proof (cases w)
    case (Access_wait j q)
    obtain b where b: "vw (cache s) j = Some b" "key b = (dd, mb)" "dd \<noteq> 0" using ok Access_wait by auto
    have "0 < wt (cache s) j" using vinvD(1) [OF v, of j] Access_wait by simp
    note w = woken_vw [OF i(1) this, of q] and hd = woken_handed [OF i(1) this, of dd mb a "D dd" q]
    have key: "kd (cache s) j = dd" "kb (cache s) j = mb" using vw_live [OF b(1)] b(2) by (auto simp: key_def)
    have v': "vinv (wt (rtems_bdbuf_woken j q (cache s))) (vw (cache s)) T"
      by (rule vinv_leave [OF v]) (use Access_wait w(3) in auto)
    show ?thesis
      by (rule that [of "rtems_bdbuf_woken j q (cache s)"]) (use w(1,2) v' d k b hd [OF key] Access_wait in auto)
  next
    case Buffer_wait
    let ?c = "anonymous_woken Buffer_q (cache s)"
    have s: "same_core (cache s) ?c" by (rule aux_same(7))
    have e: "vw ?c = vw (cache s)" "\<And>j. wt ?c j = wt (cache s) j" using same_coreD [OF s] by auto
    have v': "vinv (wt ?c) (vw (cache s)) T" by (rule vinv_leave [OF v]) (use Buffer_wait e in auto)
    have "\<exists>r c'. request_woken a (D dd) dd mb Buffer_wait (cache s) = Some (r, c') \<and> handed (bpg_of D) a dd mb ?c r c'"
      by (rule retry_handed [OF i(1-3)]) (simp add: bpg_of_def)
    then show ?thesis using that [of ?c] same_core_binv(1) [OF s] i(1) e v' d k ok Buffer_wait by auto
  qed (use ok in auto)
qed


lemma sinv_Wake:
  assumes "sinv D s" "threads s = add_mset (Asleep a dd mb w) T" "request_woken a (D dd) dd mb w (cache s) = Some (r, c')"
  shows "sinv D (s\<lparr>cache := c', threads := add_mset (request_pc a dd mb r c') T\<rparr>)"
proof -
  obtain c where c: "keys_inj (vw c)" "vinv (wt c) (vw c) T" "dinv (vw c) T (media s) (content s) (lost s)" "dd \<noteq> 0"
      "handed (bpg_of D) a dd mb c r c'" using woken_view [OF assms(1,2)] assms(3) by (metis option.inject prod.inject)
  note h = handed_step [OF c(1-3,5,4)]
  show ?thesis using sinvI [OF assms(1) woken_rac [OF assms(3)] c(4)] h by (cases s) simp
qed

text \<open>One buffer changes its state, perhaps with new data, or leaves the tree.\<close>

definition becomes :: "nat \<Rightarrow> bdstate \<Rightarrow> (nat \<Rightarrow> rtems_bdbuf_buffer option) \<Rightarrow> (nat \<Rightarrow> rtems_bdbuf_buffer option) \<Rightarrow> bool" where
  "becomes i t v v' \<longleftrightarrow> (\<forall>j. j \<noteq> i \<longrightarrow> v' j = v j) \<and>
     (if t = FREE then v' i = None else \<exists>b b'. v i = Some b \<and> v' i = Some b' \<and> key b' = key b \<and> b_state b' = t)"

lemma becomes_put: "v i = Some b \<Longrightarrow> becomes i t v (put i t v)"
  by (auto simp: becomes_def put_def key_def)

lemma becomes_load: "vw c i = Some b \<Longrightarrow> becomes i t (vw c) (put i t (vw (load {i} f c)))"
  by (auto simp: becomes_def put_def key_def load_vw map_option_case split: option.splits)

lemma becomesD:
  assumes "becomes i t v v'" "v i = Some b"
  shows "j \<noteq> i \<Longrightarrow> v' j = v j" "v' i = None \<longleftrightarrow> t = FREE" "v' i = Some b' \<Longrightarrow> b_state b' = t" "v' i = Some b' \<Longrightarrow> key b' = key b"
    "v' i = Some b' \<Longrightarrow> b_dd b' = b_dd b" "t \<noteq> FREE \<Longrightarrow> \<exists>b'. v' i = Some b'"
proof -
  show "j \<noteq> i \<Longrightarrow> v' j = v j" using assms(1) unfolding becomes_def by blast
  consider "t = FREE" "v' i = None" | a where "t \<noteq> FREE" "v' i = Some a" "key a = key b" "b_state a = t"
    using assms unfolding becomes_def by (cases "t = FREE") auto
  then have "(v' i = None \<longleftrightarrow> t = FREE) \<and> (v' i = Some b' \<longrightarrow> b_state b' = t \<and> key b' = key b \<and> b_dd b' = b_dd b) \<and> (t \<noteq> FREE \<longrightarrow> (\<exists>b'. v' i = Some b'))"
    by cases (auto simp: key_def)
  then show "v' i = None \<longleftrightarrow> t = FREE" "v' i = Some b' \<Longrightarrow> b_state b' = t" "v' i = Some b' \<Longrightarrow> key b' = key b"
    "v' i = Some b' \<Longrightarrow> b_dd b' = b_dd b" "t \<noteq> FREE \<Longrightarrow> \<exists>b'. v' i = Some b'" by blast+
qed

lemma one_count: "count (if Q then {#i#} else {#}) j = of_bool (Q \<and> j = i)"
  by simp

lemma vinv_put:
  assumes v: "vinv w v (T + P)" and b: "v i = Some b" and v': "becomes i t v v'"
    and t: "t \<noteq> ACCESS_PURGED" "t \<noteq> TRANSFER_PURGED" "t = FREE \<Longrightarrow> w' i = 0"
    and o: "every owns P = (if in_access (b_state b) then {#i#} else {#})" "every owns P' = (if in_access t then {#i#} else {#})"
    and m: "every moves P = (if b_state b = TRANSFER then {#i#} else {#})" "every moves P' = (if t = TRANSFER then {#i#} else {#})"
    and w: "\<And>j. w' j + int (count (every waits_on P) j) = w j + int (count (every waits_on P') j)"
    and ok: "\<And>p. p \<in># P' \<Longrightarrow> pc_ok v' p"
  shows "vinv w' v' (T + P')"
proof (rule vinv_step [OF v, where A = "{i}"])
  note r = becomesD(1) [OF v' b] and n = becomesD(2-5) [OF v' b]
  have n': "(\<exists>b'. v' i = Some b' \<and> Q (b_state b')) \<longleftrightarrow> t \<noteq> FREE \<and> Q t" for Q
    using becomesD(2,3,6) [OF v' b] by (metis option.distinct(1))
  have own: "owned v i = of_bool (in_access (b_state b))" "owned v' i = of_bool (in_access t)"
    using b n' [of in_access] by (auto simp: owned_def in_access_def)
  have mov: "moving v i = of_bool (b_state b = TRANSFER)" "moving v' i = of_bool (t = TRANSFER)"
    using b n' [of "\<lambda>s. s = TRANSFER"] by (auto simp: moving_def)
  fix j
  show "j \<notin> {i} \<Longrightarrow> v' j = v j \<or> v' j = None \<and> w' j = 0 \<and> (\<exists>b. v j = Some b \<and> b_state b = CACHED)" using r by simp
  show "j \<in> {i} \<Longrightarrow> v' j = None \<Longrightarrow> w' j = 0" using n t(3) by simp
  show "count (every owns P') j + owned v j = count (every owns P) j + owned v' j"
    unfolding o one_count using own r [of j] by (cases "j = i") (simp_all add: owned_def)
  show "count (every moves P') j + moving v j = count (every moves P) j + moving v' j"
    unfolding m one_count using mov r [of j] by (cases "j = i") (simp_all add: moving_def)
  show "moving v j = count (every moves P) j" if "j \<in> {i}" using that mov(1) unfolding m one_count by simp
  fix b'
  show "b_dd b' \<noteq> 0 \<and> b_state b' \<noteq> ACCESS_PURGED \<and> b_state b' \<noteq> TRANSFER_PURGED \<and> (w' j \<noteq> 0 \<longrightarrow> (\<exists>a. v j = Some a \<and> key a = key b'))"
    if "j \<in> {i}" "v' j = Some b'"
    using that n(2-4) [of b'] t(1,2) b vinvD(4) [OF v b] by auto
qed (use w ok in auto)

text \<open>The new data of a buffer are its contents from now on, and it becomes dirty.\<close>

lemma dinv_put:
  assumes d: "dinv v T m k l" "keys_inj v" and b: "v i = Some b" and v': "becomes i t v v'"
    and wr: "\<And>j. j \<noteq> i \<Longrightarrow> j \<in># every writes T' \<longleftrightarrow> j \<in># every writes T"
    and h: "\<And>b'. v' i = Some b' \<Longrightarrow> key b \<notin> l \<Longrightarrow> holds T' i b' \<Longrightarrow> b_data b' = k (key b)"
    and late: "\<And>b'. dirty T i b \<Longrightarrow> t \<noteq> FREE \<and> (b_state b' = t \<longrightarrow> dirty T' i b')"
  shows "dinv v' T' m k l"
proof (rule dinv_keep [OF d, where A = "{i}"])
  note n = becomesD [OF v' b]
  fix j
  show "j \<notin> {i} \<Longrightarrow> v' j = v j \<or> v' j = None \<and> (\<exists>b. v j = Some b \<and> b_state b = CACHED)" using becomesD(1) [OF v' b] by simp
  show "j \<notin> {i} \<Longrightarrow> j \<in># every writes T' \<longleftrightarrow> j \<in># every writes T" using wr by simp
  fix b'
  show "j \<in> {i} \<Longrightarrow> v' j = Some b' \<Longrightarrow> key b' \<notin> l \<Longrightarrow> holds T' j b' \<Longrightarrow> b_data b' = k (key b')" using h n(4) by simp
  show "\<exists>a. v' j = Some a \<and> key a = key b' \<and> dirty T' j a" if j: "j \<in> {i}" "v j = Some b'" "dirty T j b'"
  proof -
    have "dirty T i b" using j b by simp
    note l = late [OF this]
    obtain a where "v' i = Some a" "key a = key b" "b_state a = t" using n(3,4,6) l by blast
    then show ?thesis using l [of a] j b by auto
  qed
qed

lemma dinv_commit:
  assumes d: "dinv v T m k l" "keys_inj v" and b: "v i = Some b" and v': "becomes i t v v'" and t: "t \<in> {MODIFIED, SYNC}"
    and x: "\<And>b'. v' i = Some b' \<Longrightarrow> b_data b' = x" and wr: "every writes T' = every writes T"
  shows "dinv v' T' m (k(key b := x)) (l - {key b})"
proof (rule dinv_change [OF d, where A = "{i}"])
  obtain b' where b': "v' i = Some b'" "key b' = key b" "b_state b' = t" using becomesD(3,4,6) [OF v' b] t by blast
  fix j
  show "j \<notin> {i} \<Longrightarrow> v' j = v j \<or> v' j = None \<and> (\<exists>b. v j = Some b \<and> b_state b = CACHED)" using becomesD(1) [OF v' b] by simp
  show "j \<in># every writes T' \<longleftrightarrow> j \<in># every writes T" using wr by simp
  fix a
  show "j \<in> {i} \<Longrightarrow> v' j = Some a \<Longrightarrow> key a \<notin> l - {key b} \<Longrightarrow> holds T' j a \<Longrightarrow> b_data a = (k(key b := x)) (key a)" using b' x by auto
  show "j \<in> {i} \<Longrightarrow> v j = Some a \<Longrightarrow> key a \<notin> l - {key b} \<Longrightarrow> m (key a) \<noteq> (k(key b := x)) (key a) \<Longrightarrow>
      \<exists>b'. v' j = Some b' \<and> key b' = key a \<and> dirty T' j b'" using b' b t by (auto simp: dirty_def)
next
  fix y
  assume "\<forall>j\<in>{i}. \<forall>a. v j = Some a \<longrightarrow> key a \<noteq> y"
  then show "m y = m y \<and> (k(key b := x)) y = k y \<and> (y \<in> l - {key b} \<longleftrightarrow> y \<in> l)" using b by auto
qed

text \<open>What the threads have.\<close>

lemma owner_has:
  assumes "sinv D s" "threads s = add_mset (Owner i) T"
  obtains b where "vw (cache s) i = Some b" "b_state b \<in> {ACCESS_CACHED, ACCESS_MODIFIED, ACCESS_EMPTY}" "bkey (cache s) i = key b" "st (cache s) i = b_state b"
proof -
  note v = vinvD [OF sinvD(5) [OF assms(1)]]
  have "owned (vw (cache s)) i \<le> 1" by (simp add: owned_def)
  then have "owned (vw (cache s)) i = 1" using v(2) [of i] assms(2) by simp
  then obtain b where b: "vw (cache s) i = Some b" "in_access (b_state b)" using ownedD by blast
  then show thesis using that [of b] v(4) [OF b(1)] vw_live [OF b(1)] by (auto simp: in_access_def bkey_def key_def)
qed

lemma mover_has:
  assumes "sinv D s" "p \<in># threads s" "i \<in># moves p"
  obtains b where "vw (cache s) i = Some b" "b_state b = TRANSFER" "bkey (cache s) i = key b"
proof -
  note v = vinvD [OF sinvD(5) [OF assms(1)]]
  have "0 < count (every moves (threads s)) i" using every_sub [OF assms(2), of moves i] assms(3) by (metis count_greater_zero_iff less_le_trans)
  then have "moving (vw (cache s)) i = 1" unfolding v(3) by (simp add: moving_def)
  then obtain b where "vw (cache s) i = Some b" "b_state b = TRANSFER" using movingD by blast
  then show thesis using that [of b] vw_live [of "cache s" i b] by (auto simp: bkey_def key_def)
qed

lemma reader_not_writer:
  assumes "vinv w v (add_mset p T)" "i \<in># moves p"
  shows "i \<notin># every moves T"
proof -
  have "moving v i \<le> 1" by (simp add: moving_def)
  then have "count (moves p) i + count (every moves T) i \<le> 1" using vinvD(3) [OF assms(1), of i] by simp
  moreover have "0 < count (moves p) i" using assms(2) by simp
  ultimately have "count (every moves T) i = 0" by linarith
  then show ?thesis by (simp add: not_in_iff)
qed

lemma not_moves_writes: "i \<notin># every moves T \<Longrightarrow> i \<notin># every writes T"
  using writes_count [of T i] by (simp add: not_in_iff)

lemma sinv_Release:
  assumes "sinv D s" "threads s = add_mset (Owner i) T" "rtems_bdbuf_release cf i (cache s) = Some c'"
  shows "sinv D (s\<lparr>cache := c', threads := T\<rparr>)"
proof -
  note h = sinvD [OF assms(1)]
  obtain b where b: "vw (cache s) i = Some b" "b_state b \<in> {ACCESS_CACHED, ACCESS_MODIFIED, ACCESS_EMPTY}" "st (cache s) i = b_state b"
    using owner_has [OF assms(1,2)] by metis
  define t where "t = released (wt (cache s) i) (b_state b)"
  have "in_access (st (cache s) i)" using b(2,3) by (auto simp: in_access_def)
  then have r: "restate (bpg_of D) i t (cache s) c'"
    using release_ok(1) [OF vw_nearly [OF h(1) b(1)], of cf] assms(3) b(3) by (auto simp: t_def)
  note e = restateD [OF r b(1)]
  have bc: "becomes i t (vw (cache s)) (vw c')" unfolding e(2) using b(1) by (rule becomes_put)
  have t: "b_state b = ACCESS_CACHED \<and> t = CACHED \<or> b_state b = ACCESS_MODIFIED \<and> t = MODIFIED \<or>
      b_state b = ACCESS_EMPTY \<and> (t = FREE \<and> wt (cache s) i = 0 \<or> t = EMPTY)" using b(2) by (cases "wt (cache s) i = 0") (auto simp: t_def)
  have "vinv (wt c') (vw c') (T + {#})"
    by (rule vinv_put [where P = "{#Owner i#}", OF _ b(1) bc]) (use h(5) assms(2) t e(3) in \<open>auto simp: in_access_def\<close>)
  moreover have "dinv (vw c') T (media s) (content s) (lost s)"
  proof (rule dinv_put [OF h(6) vw_keys [OF h(1)] b(1) bc])
    fix b'
    assume b': "vw c' i = Some b'" "key b \<notin> lost s" "holds T i b'"
    have "b_state b' = t" "b_data b' = b_data b" using b' b(1) e(2) by (auto simp: put_def split: if_splits)
    then have "holds (threads s) i b" using b'(3) t by (auto simp: holds_def dirty_def)
    then show "b_data b' = content s (key b)" using dinvD(1) [OF h(6) b(1) b'(2)] \<open>b_data b' = b_data b\<close> by simp
  qed (use assms(2) t in \<open>auto simp: dirty_def\<close>)
  ultimately show ?thesis using sinvI [OF assms(1) rac_keeps [OF release_rac(1) [OF assms(3)], of 1] _ e(1)] by (cases s) simp
qed

text \<open>The client commits the data of its buffer.\<close>

lemma commit_step:
  assumes "sinv D s" "threads s = add_mset (Owner i) T" "b_state b \<in> {ACCESS_CACHED, ACCESS_MODIFIED, ACCESS_EMPTY}" "vw (cache s) i = Some b"
    "t \<in> {MODIFIED, SYNC}" "vw c' = put i t (vw (load {i} (\<lambda>_. d) (cache s)))" "binv (bpg_of D) c'" "rac c' = rac (cache s)"
    "every owns P = {#}" "every moves P = {#}" "every writes P = {#}" "\<And>j. wt c' j = wt (cache s) j + int (count (every waits_on P) j)" "\<And>p. p \<in># P \<Longrightarrow> pc_ok (vw c') p"
  shows "sinv D (s\<lparr>cache := c', threads := T + P, content := (content s)(key b := d), lost := lost s - {key b}\<rparr>)"
proof -
  note h = sinvD [OF assms(1)]
  have bc: "becomes i t (vw (cache s)) (vw c')" unfolding assms(6) by (rule becomes_load [OF assms(4)])
  have "vinv (wt c') (vw c') (T + P)"
    by (rule vinv_put [where P = "{#Owner i#}", OF _ assms(4) bc]) (use h(5) assms in \<open>auto simp: in_access_def\<close>)
  moreover have "dinv (vw c') (T + P) (media s) ((content s)(key b := d)) (lost s - {key b})"
    by (rule dinv_commit [OF h(6) vw_keys [OF h(1)] assms(4) bc assms(5)])
       (use assms(2,4,6,11) in \<open>auto simp: put_def load_vw split: if_splits\<close>)
  ultimately show ?thesis using sinvI [OF assms(1) rac_keeps [OF assms(8), of 1] _ assms(7)] by (cases s) simp
qed

lemma sinv_Release_modified:
  assumes "sinv D s" "threads s = add_mset (Owner i) T" "rtems_bdbuf_release_modified cf i (load {i} (\<lambda>_. d) (cache s)) = Some c'"
  shows "sinv D (s\<lparr>cache := c', threads := T, content := (content s)(bkey (cache s) i := d), lost := lost s - {bkey (cache s) i}\<rparr>)"
proof -
  note h = sinvD [OF assms(1)]
  obtain b where b: "vw (cache s) i = Some b" "b_state b \<in> {ACCESS_CACHED, ACCESS_MODIFIED, ACCESS_EMPTY}" "bkey (cache s) i = key b" "st (cache s) i = b_state b"
    using owner_has [OF assms(1,2)] by metis
  let ?c = "load {i} (\<lambda>_. d) (cache s)"
  have bl: "binv (bpg_of D) ?c" using h(1) load_binv by simp
  have b1: "vw ?c i = Some (b\<lparr>b_data := d\<rparr>)" using b(1) by (simp add: load_vw)
  have "in_access (st ?c i)" using b(2,4) by (auto simp: in_access_def)
  then have r: "restate (bpg_of D) i MODIFIED ?c c'"
    using release_ok(2) [OF vw_nearly [OF bl b1], of cf] assms(3) b(2,4) by auto
  note e = restateD [OF r b1]
  have "sinv D (s\<lparr>cache := c', threads := T + {#}, content := (content s)(key b := d), lost := lost s - {key b}\<rparr>)"
    by (rule commit_step [OF assms(1,2) b(2,1) _ e(2,1)]) (use release_rac(2) [OF assms(3)] e(3) in auto)
  then show ?thesis using b(3) by simp
qed

lemma sinv_Sync_begin:
  assumes "sinv D s" "threads s = add_mset (Owner i) T" "rtems_bdbuf_sync i (load {i} (\<lambda>_. d) (cache s)) = Some (f, c')"
  shows "sinv D (s\<lparr>cache := c', threads := (if f then T else add_mset (Syncing i) T), content := (content s)(bkey (cache s) i := d),
    lost := lost s - {bkey (cache s) i}\<rparr>)"
proof -
  note h = sinvD [OF assms(1)]
  obtain b where b: "vw (cache s) i = Some b" "b_state b \<in> {ACCESS_CACHED, ACCESS_MODIFIED, ACCESS_EMPTY}" "bkey (cache s) i = key b" "st (cache s) i = b_state b"
    using owner_has [OF assms(1,2)] by metis
  let ?c = "load {i} (\<lambda>_. d) (cache s)"
  have bl: "binv (bpg_of D) ?c" using h(1) load_binv by simp
  have b1: "vw ?c i = Some (b\<lparr>b_data := d\<rparr>)" using b(1) by (simp add: load_vw)
  have np: "b_state b \<noteq> ACCESS_PURGED" "in_access (b_state b)" using b(2) by (auto simp: in_access_def)
  have e: "\<not> f" "binv (bpg_of D) c'" "vw c' = put i SYNC (vw ?c)" "\<And>j. wt c' j = wt ?c j + (if j = i then 1 else 0)"
    using sync_ok [OF bl b1] assms(3) np by auto
  have "sinv D (s\<lparr>cache := c', threads := T + {#Syncing i#}, content := (content s)(key b := d), lost := lost s - {key b}\<rparr>)"
    by (rule commit_step [OF assms(1,2) b(2,1) _ e(3,2)]) (use sync_rac(1) [OF assms(3)] e(4) in auto)
  then show ?thesis using b(3) e(1) by simp
qed

lemma sinv_Sync_wake:
  assumes "sinv D s" "threads s = add_mset (Syncing i) T" "sync_woken i (cache s) = Some (f, c')"
  shows "sinv D (s\<lparr>cache := c', threads := (if f then T else threads s)\<rparr>)"
proof -
  note h = sinvD [OF assms(1)]
  have w: "0 < wt (cache s) i" using vinvD(1) [OF h(5), of i] assms(2) by simp
  then obtain b where b: "vw (cache s) i = Some b" using vw_None_wt [OF h(1), of i] by fastforce
  have e: "binv (bpg_of D) c'" "\<And>j. wt c' j = wt (cache s) j - (if j = i \<and> f then 1 else 0)"
    "vw c' = (if f \<and> wt (cache s) i = 1 \<and> st (cache s) i = EMPTY then put i FREE (vw (cache s)) else vw (cache s))"
    using sync_woken_ok [OF h(1) w] assms(3) by auto
  have dw: "dinv (vw (cache s)) T (media s) (content s) (lost s)" using h(6) assms(2) dinv_writes [of "threads s" T] by simp
  have v: "vinv (wt (cache s)) (vw (cache s)) (T + {#Syncing i#})" using h(5) assms(2) by simp
  have rc: "rac_add 1 (cache s) c'" by (rule rac_keeps [OF sync_rac(2) [OF assms(3)]])
  consider (no) "\<not> f" | (free) "f" "wt (cache s) i = 1" "st (cache s) i = EMPTY" | (leave) "f" "vw c' = vw (cache s)"
    using e(3) by metis
  then show ?thesis
  proof cases
    case no
    then have "wt c' = wt (cache s)" "vw c' = vw (cache s)" using e by auto
    then show ?thesis using sinvI [OF assms(1) rc _ e(1)] h(5,6) no by (cases s) simp
  next
    case free
    have s: "b_state b = EMPTY" using vw_live [OF b] free(3) by simp
    have bc: "becomes i FREE (vw (cache s)) (vw c')" using e(3) free becomes_put [of "vw (cache s)" i b] b by simp
    have "vinv (wt c') (vw c') (T + {#})"
      by (rule vinv_put [OF v b bc]) (use s e(2) free in \<open>auto simp: in_access_def\<close>)
    moreover have "dinv (vw c') T (media s) (content s) (lost s)"
      by (rule dinv_put [OF dw vw_keys [OF h(1)] b bc]) (use s bc in \<open>auto simp: dirty_def becomes_def\<close>)
    ultimately show ?thesis using sinvI [OF assms(1) rc _ e(1)] free by (cases s) simp
  next
    case leave
    have "vinv (wt c') (vw (cache s)) T" by (rule vinv_leave [where p = "Syncing i" and w = "wt (cache s)"]) (use v e(2) leave in auto)
    then show ?thesis using sinvI [OF assms(1) rc _ e(1)] leave dw by (cases s) simp
  qed
qed

lemma sinv_Read_done:
  assumes "sinv D s" "threads s = add_mset (Reading dd block i) T"
    "read_finish dd block status i (load {i} (\<lambda>j. if status = 0 then media s (bkey (cache s) j) else f j) (cache s)) = Some (r, c')"
  shows "sinv D (s\<lparr>cache := c', threads := (case r of None \<Rightarrow> T | Some j \<Rightarrow> add_mset (Owner j) T)\<rparr>)"
proof -
  note h = sinvD [OF assms(1)]
  obtain b where b: "vw (cache s) i = Some b" "b_state b = TRANSFER" "bkey (cache s) i = key b"
    using mover_has [OF assms(1), of "Reading dd block i" i] assms(2) by auto
  define x where "x = (if status = 0 then media s (key b) else f i)"
  have nz: "dd \<noteq> 0" using vinvD(5) [OF h(5), of "Reading dd block i"] assms(2) by simp
  define c where "c = load {i} (\<lambda>j. if status = 0 then media s (bkey (cache s) j) else f j) (cache s)"
  have bl: "binv (bpg_of D) c" using h(1) load_binv by (simp add: c_def)
  have b1: "vw c i = Some (b\<lparr>b_data := x\<rparr>)" using b(1,3) by (simp add: c_def x_def load_vw)
  define t where "t = (if status = 0 then ACCESS_CACHED else discarded (wt c i))"
  have e: "r = (if status = 0 then Some i else None)" "binv (bpg_of D) c'" "\<And>j. wt c' j = wt (cache s) j" "vw c' = put i t (vw c)"
    using read_finish_ok [OF bl b1, of dd block status] assms(3) b(2) unfolding c_def [symmetric] t_def by (auto simp: c_def)
  have bc: "becomes i t (vw (cache s)) (vw c')" unfolding e(4) c_def using b(1) by (rule becomes_load)
  define P where "P = (if status = 0 then {#Owner i#} else {#})"
  have ni: "i \<notin># every writes T" using reader_not_writer [of _ _ "Reading dd block i" T i] h(5) assms(2) not_moves_writes by simp
  have t: "status = 0 \<and> t = ACCESS_CACHED \<or> status \<noteq> 0 \<and> (t = FREE \<and> wt (cache s) i = 0 \<or> t = EMPTY)"
    by (cases "wt (cache s) i = 0") (auto simp: t_def c_def)
  have "vinv (wt c') (vw c') (T + P)"
    by (rule vinv_put [where P = "{#Reading dd block i#}", OF _ b(1) bc]) (use h(5) assms(2) t e(3) b(2) in \<open>auto simp: in_access_def P_def\<close>)
  moreover have "dinv (vw c') (T + P) (media s) (content s) (lost s)"
  proof (rule dinv_put [OF h(6) vw_keys [OF h(1)] b(1) bc])
    fix b'
    have clean: "\<not> dirty (threads s) i b" using b(2) assms(2) ni by (auto simp: dirty_def)
    assume b': "vw c' i = Some b'" "key b \<notin> lost s" "holds (T + P) i b'"
    have "b_state b' = t" "b_data b' = x" using b' b1 e(4) by (auto simp: put_def split: if_splits)
    moreover have "status = 0" using \<open>b_state b' = t\<close> b'(3) t by (auto simp: holds_def dirty_def)
    ultimately show "b_data b' = content s (key b)" using dinv_clean [OF h(6) vw_keys [OF h(1)] b(1) clean b'(2)] by (simp add: x_def)
  qed (use assms(2) b(2) ni in \<open>auto simp: dirty_def P_def\<close>)
  moreover have "T + P = (case r of None \<Rightarrow> T | Some j \<Rightarrow> add_mset (Owner j) T)" using e(1) by (simp add: P_def)
  moreover have "rac_add dd (cache s) c'" using read_finish_rac [OF assms(3)] by (simp add: rac_add_def load_simps(3) [unfolded prod.inject])
  ultimately show ?thesis using sinvI [OF assms(1) _ nz e(2)] by (cases s) simp
qed

text \<open>A request to a device has ended for the buffers \<open>is\<close>.\<close>

definition ended :: "nat list \<Rightarrow> (nat \<Rightarrow> int) \<Rightarrow> (nat \<Rightarrow> rtems_bdbuf_buffer option) \<Rightarrow> (nat \<Rightarrow> rtems_bdbuf_buffer option) \<Rightarrow> bool" where
  "ended is w v v' \<longleftrightarrow> (\<forall>j. j \<notin> set is \<longrightarrow> v' j = v j) \<and>
     (\<forall>j\<in>set is. case v' j of None \<Rightarrow> w j = 0
        | Some b' \<Rightarrow> (b_state b' = CACHED \<or> b_state b' = EMPTY) \<and> (\<exists>b. v j = Some b \<and> key b' = key b))"

lemma endedD:
  assumes "ended is w v v'"
  shows "j \<notin> set is \<Longrightarrow> v' j = v j" "j \<in> set is \<Longrightarrow> v' j = None \<Longrightarrow> w j = 0"
    "j \<in> set is \<Longrightarrow> v' j = Some b' \<Longrightarrow> (b_state b' = CACHED \<or> b_state b' = EMPTY) \<and> (\<exists>b. v j = Some b \<and> key b' = key b)"
proof -
  show "j \<notin> set is \<Longrightarrow> v' j = v j" using assms by (simp add: ended_def)
  have e: "case v' j of None \<Rightarrow> w j = 0 | Some b' \<Rightarrow> (b_state b' = CACHED \<or> b_state b' = EMPTY) \<and> (\<exists>b. v j = Some b \<and> key b' = key b)"
    if "j \<in> set is" using assms that by (simp add: ended_def)
  show "j \<in> set is \<Longrightarrow> v' j = None \<Longrightarrow> w j = 0" using e by simp
  show "j \<in> set is \<Longrightarrow> v' j = Some b' \<Longrightarrow> (b_state b' = CACHED \<or> b_state b' = EMPTY) \<and> (\<exists>b. v j = Some b \<and> key b' = key b)" using e by simp
qed

lemma vinv_ended:
  assumes v: "vinv w v (T + P)" and e: "ended is w v v'" and d: "distinct is"
    and o: "every owns P = {#}" "every owns P' = {#}" "every waits_on P = {#}" "every waits_on P' = {#}"
    and m: "every moves P = mset is + every moves P'" and ok: "\<And>p. p \<in># P' \<Longrightarrow> pc_ok v p"
  shows "vinv w v' (T + P')"
proof -
  have mv: "moving v j = 1" "count (every moves P') j = 0" if "j \<in> set is" for j
  proof -
    have "moving v j \<le> 1" "count (mset is) j = 1" using d that by (auto simp: moving_def distinct_count_atmost_1)
    then show "moving v j = 1" "count (every moves P') j = 0" using vinvD(3) [OF v, of j] m by auto
  qed
  have nb: "owned v j = 0" if "j \<in> set is" for j using movingD [OF mv(1) [OF that]] by (auto simp: owned_def in_access_def)
  have new: "owned v' j = 0" "moving v' j = 0" if "j \<in> set is" for j
    using e that by (auto simp: ended_def owned_def moving_def in_access_def split: option.splits)
  have rest: "v' j = v j" if "j \<notin> set is" for j using e that by (simp add: ended_def)
  have keep: "pc_ok v' p" if p: "p \<in># P'" for p
  proof -
    have "waits_on p = {#}" using every_sub [OF p, of waits_on] o(4) by (auto intro!: multiset_eqI)
    moreover have "v' i = v i" if "i \<in># moves p" for i
    proof -
      have "0 < count (every moves P') i" using every_sub [OF p, of moves i] that by (metis count_greater_zero_iff less_le_trans)
      then have "i \<notin> set is" using mv(2) by force
      then show ?thesis by (rule rest)
    qed
    ultimately show ?thesis using ok [OF p] by (cases "(v, p)" rule: pc_ok.cases) auto
  qed
  show ?thesis
  proof (rule vinv_step [OF v, where A = "set is"])
    fix j
    show "j \<notin> set is \<Longrightarrow> v' j = v j \<or> v' j = None \<and> w j = 0 \<and> (\<exists>b. v j = Some b \<and> b_state b = CACHED)" using rest by simp
    show "j \<in> set is \<Longrightarrow> v' j = None \<Longrightarrow> w j = 0" using e by (auto simp: ended_def split: option.splits)
    show "count (every owns P') j + owned v j = count (every owns P) j + owned v' j"
      using o nb [of j] new [of j] rest [of j] by (cases "j \<in> set is") (auto simp: owned_def)
    show "count (every moves P') j + moving v j = count (every moves P) j + moving v' j"
      using mv [of j] new [of j] rest [of j] d m by (cases "j \<in> set is") (auto simp: moving_def distinct_count_atmost_1 not_in_iff)
    show "j \<in> set is \<Longrightarrow> moving v j = count (every moves P) j" using mv [of j] d m by (simp add: distinct_count_atmost_1)
    fix b
    show "b_dd b \<noteq> 0 \<and> b_state b \<noteq> ACCESS_PURGED \<and> b_state b \<noteq> TRANSFER_PURGED \<and> (w j \<noteq> 0 \<longrightarrow> (\<exists>b'. v j = Some b' \<and> key b' = key b))"
      if j: "j \<in> set is" "v' j = Some b"
    proof -
      obtain a where a: "v j = Some a" "key b = key a" "b_state b = CACHED \<or> b_state b = EMPTY" using endedD(3) [OF e j] by blast
      then show ?thesis using vinvD(4) [OF v a(1)] by (auto simp: key_def)
    qed
  qed (use o keep in auto)
qed

lemma load_same: "load A (\<lambda>j. b_data (bds c j)) c = c"
proof -
  have "(b :: rtems_bdbuf_buffer)\<lparr>b_data := b_data b\<rparr> = b" for b by (cases b) simp
  then have "(\<lambda>j. if j \<in> A then (bds c j)\<lparr>b_data := b_data (bds c j)\<rparr> else bds c j) = bds c" by auto
  then show ?thesis unfolding load_def by simp
qed

lemma transfer_ends:
  assumes "sinv D s" "threads s = add_mset p T" "moves p = mset is + R"
  shows "\<exists>sc c'. rtems_bdbuf_execute_transfer_request rd dd status is (load (set is) g (cache s)) = Some (sc, c') \<and>
    distinct is \<and> binv (bpg_of D) c' \<and> (\<forall>j. wt c' j = wt (cache s) j) \<and> ended is (wt (cache s)) (vw (cache s)) (vw c') \<and> rac c' = rac (cache s) \<and>
    (\<forall>j\<in>set is. \<forall>b'. vw c' j = Some b' \<longrightarrow> b_state b' = CACHED \<longrightarrow> status = 0 \<and> b_data b' = g j)"
proof -
  note h = sinvD [OF assms(1)]
  let ?c = "load (set is) g (cache s)"
  have has: "\<exists>b. vw (cache s) j = Some b \<and> b_state b = TRANSFER" if "j \<in> set is" for j
    using mover_has [OF assms(1), of p j] assms(2,3) that by (metis add_mset_add_single in_multiset_in_set union_iff multi_member_last)
  have d: "distinct is"
  proof -
    have "count (mset is) j \<le> 1" for j
    proof -
      have "moving (vw (cache s)) j \<le> 1" by (simp add: moving_def)
      then show ?thesis using vinvD(3) [OF h(5), of j] assms(2,3) by simp
    qed
    then show ?thesis unfolding distinct_count_atmost_1 by (metis count_eq_zero_iff in_multiset_in_set le_less less_one)
  qed
  have "\<exists>b. vw ?c j = Some b \<and> in_transfer (b_state b)" if "j \<in> set is" for j
    using has [OF that] that by (auto simp: load_vw in_transfer_def)
  then obtain sc c' where e: "rtems_bdbuf_execute_transfer_request rd dd status is ?c = Some (sc, c')" "binv (bpg_of D) c'" "\<forall>j. wt c' j = wt ?c j"
      "vw c' = fold (\<lambda>i. put i (transferred (status = 0) (wt ?c i) (st ?c i))) is (vw ?c)"
    using execute_transfer_ok [of "bpg_of D" ?c "is" rd dd status] load_binv h(1) d by blast
  have v: "vw c' j = (if j \<in> set is then put j (transferred (status = 0) (wt (cache s) j) (st (cache s) j)) (vw ?c) j else vw (cache s) j)" for j
    unfolding e(4) fold_put [OF d] by (simp add: load_vw map_option_case split: option.splits)
  have tr: "transferred (status = 0) (wt (cache s) j) (st (cache s) j) =
      (if status = 0 then CACHED else if wt (cache s) j = 0 then FREE else EMPTY)" if "j \<in> set is" for j
    using has [OF that] vw_live by auto
  have one: "vw c' j = (if status = 0 then Some (b\<lparr>b_data := g j, b_state := CACHED\<rparr>) else if wt (cache s) j = 0 then None
      else Some (b\<lparr>b_data := g j, b_state := EMPTY\<rparr>))" if "j \<in> set is" "vw (cache s) j = Some b" for j b
    using that tr [OF that(1)] by (simp add: v put_def load_vw)
  have "ended is (wt (cache s)) (vw (cache s)) (vw c')" unfolding ended_def
  proof (intro conjI allI impI ballI)
    fix j
    assume "j \<in> set is"
    then show "case vw c' j of None \<Rightarrow> wt (cache s) j = 0
        | Some b' \<Rightarrow> (b_state b' = CACHED \<or> b_state b' = EMPTY) \<and> (\<exists>b. vw (cache s) j = Some b \<and> key b' = key b)"
      using one [of j] has [of j] by (auto simp: key_def)
  qed (simp add: v)
  moreover have "rac c' = rac (cache s)" using execute_rac [OF e(1)] load_simps(3) by simp
  moreover have "status = 0 \<and> b_data b' = g j" if "j \<in> set is" "vw c' j = Some b'" "b_state b' = CACHED" for j b'
    using one [OF that(1)] has [OF that(1)] that(2,3) by (auto split: if_splits)
  ultimately show ?thesis using e(1-3) d by auto
qed

lemma transfer_endsD:
  assumes "sinv D s" "threads s = add_mset p T" "moves p = mset is + R"
    "rtems_bdbuf_execute_transfer_request rd dd status is (load (set is) g (cache s)) = Some (sc, c')"
  shows "distinct is" "binv (bpg_of D) c'" "wt c' = wt (cache s)" "ended is (wt (cache s)) (vw (cache s)) (vw c')" "rac c' = rac (cache s)"
    "j \<in> set is \<Longrightarrow> vw c' j = Some b' \<Longrightarrow> b_state b' = CACHED \<Longrightarrow> status = 0 \<and> b_data b' = g j"
proof -
  obtain sc' c'' where x: "rtems_bdbuf_execute_transfer_request rd dd status is (load (set is) g (cache s)) = Some (sc', c'')"
      "distinct is" "binv (bpg_of D) c''" "\<forall>j. wt c'' j = wt (cache s) j" "ended is (wt (cache s)) (vw (cache s)) (vw c'')" "rac c'' = rac (cache s)"
      "\<forall>j\<in>set is. \<forall>b'. vw c'' j = Some b' \<longrightarrow> b_state b' = CACHED \<longrightarrow> status = 0 \<and> b_data b' = g j"
    using transfer_ends [OF assms(1-3)] by blast
  have e: "c'' = c'" using x(1) assms(4) by simp
  show "distinct is" "binv (bpg_of D) c'" "ended is (wt (cache s)) (vw (cache s)) (vw c')" "rac c' = rac (cache s)"
    using x(2,3,5,6) unfolding e .
  show "wt c' = wt (cache s)" using x(4) unfolding e by auto
  show "j \<in> set is \<Longrightarrow> vw c' j = Some b' \<Longrightarrow> b_state b' = CACHED \<Longrightarrow> status = 0 \<and> b_data b' = g j" using x(7) unfolding e by blast
qed

lemma sinv_Ahead_done:
  assumes "sinv D s" "threads s = add_mset (Ahead dd is) T"
    "rtems_bdbuf_execute_transfer_request True dd status is
       (load (set is) (\<lambda>j. if status = 0 then media s (bkey (cache s) j) else f j) (cache s)) = Some (sc, c')"
  shows "sinv D (s\<lparr>cache := c', threads := T\<rparr>)"
proof -
  note h = sinvD [OF assms(1)]
  have m: "moves (Ahead dd is) = mset is + {#}" by simp
  note k = transfer_endsD [OF assms(1,2) m assms(3)]
  have "vinv (wt (cache s)) (vw c') (T + {#})"
    by (rule vinv_ended [where P = "{#Ahead dd is#}", OF _ k(4,1)]) (use h(5) assms(2) in auto)
  moreover have "dinv (vw c') T (media s) (content s) (lost s)"
  proof (rule dinv_keep [OF h(6) vw_keys [OF h(1)], where A = "set is"])
    have nw: "j \<notin># every writes T" if "j \<in> set is" for j
      using reader_not_writer [of _ _ "Ahead dd is" T j] h(5) assms(2) not_moves_writes that by simp
    fix j
    show "j \<notin> set is \<Longrightarrow> vw c' j = vw (cache s) j \<or> vw c' j = None \<and> (\<exists>b. vw (cache s) j = Some b \<and> b_state b = CACHED)"
      using endedD(1) [OF k(4)] by simp
    show "j \<in># every writes T \<longleftrightarrow> j \<in># every writes (threads s)" using assms(2) by simp
    fix b
    assume j: "j \<in> set is"
    obtain a where a: "vw (cache s) j = Some a" "b_state a = TRANSFER" "bkey (cache s) j = key a"
      using mover_has [OF assms(1), of "Ahead dd is" j] assms(2) j by auto
    have clean: "\<not> dirty (threads s) j a" using a(2) nw [OF j] assms(2) by (simp add: dirty_def)
    show "b_data b = content s (key b)" if b: "vw c' j = Some b" "key b \<notin> lost s" "holds T j b"
    proof -
      have x: "b_state b = CACHED \<or> b_state b = EMPTY" "key b = key a" using endedD(3) [OF k(4) j b(1)] a(1) by auto
      then have "b_state b = CACHED" using b(3) nw [OF j] by (auto simp: holds_def dirty_def)
      then have "b_data b = media s (key a)" using k(6) [OF j b(1)] a(3) by auto
      then show ?thesis using dinv_clean [OF h(6) vw_keys [OF h(1)] a(1) clean] x(2) b(2) by simp
    qed
    show "\<exists>b'. vw c' j = Some b' \<and> key b' = key b \<and> dirty T j b'" if "vw (cache s) j = Some b" "dirty (threads s) j b"
      using that clean a(1) by simp
  qed
  ultimately show ?thesis using sinvI [OF assms(1) rac_keeps [OF k(5), of 1] _ k(2)] unfolding k(3) by (cases s) simp
qed

lemma stored_other: "x \<notin> bkey c ` set is \<Longrightarrow> stored is c m x = m x"
  by (induction "is" arbitrary: m) (auto simp: stored_def)

lemma stored_at:
  assumes "j \<in> set is" "inj_on (bkey c) (set is)"
  shows "stored is c m (bkey c j) = b_data (bds c j)"
  using assms
proof (induction "is" arbitrary: m)
  case (Cons i "is")
  have e: "stored (i # is) c m = stored is c (m(bkey c i := b_data (bds c i)))" for m by (simp add: stored_def)
  show ?case
  proof (cases "j \<in> set is")
    case True
    then show ?thesis using Cons by (simp add: e)
  next
    case False
    then have "j = i" "bkey c j \<notin> bkey c ` set is" using Cons.prems by (auto simp: inj_on_def)
    then show ?thesis by (simp add: e stored_other)
  qed
qed simp

definition swap_left :: "nat \<Rightarrow> nat list list \<Rightarrow> pc multiset" where
  "swap_left dd rs = (if rs = [] then {#} else {#Swap dd rs#})"

lemma swap_left_every [simp]:
  "every owns (swap_left dd rs) = {#}" "every waits_on (swap_left dd rs) = {#}" "every moves (swap_left dd rs) = mset (concat rs)"
  "every writes (swap_left dd rs) = mset (concat rs)"
  by (auto simp: swap_left_def)

text \<open>The end of a write, whatever became of the media.\<close>

lemma write_step:
  assumes "sinv D s" "threads s = add_mset (Swap dd (is # rs)) T"
    "rtems_bdbuf_execute_transfer_request False dd status is (cache s) = Some (sc, c')"
    and frame: "\<And>x. x \<notin> bkey (cache s) ` set is \<Longrightarrow> m x = media s x \<and> (x \<in> l \<longleftrightarrow> x \<in> lost s)"
    and good: "\<And>j. j \<in> set is \<Longrightarrow> bkey (cache s) j \<notin> l \<Longrightarrow> bkey (cache s) j \<notin> lost s \<and> m (bkey (cache s) j) = b_data (bds (cache s) j)"
  shows "sinv D (s\<lparr>cache := c', threads := T + swap_left dd rs, media := m, lost := l\<rparr>)"
proof -
  note h = sinvD [OF assms(1)]
  have m: "moves (Swap dd (is # rs)) = mset is + mset (concat rs)" by simp
  have run: "rtems_bdbuf_execute_transfer_request False dd status is (load (set is) (\<lambda>j. b_data (bds (cache s) j)) (cache s)) = Some (sc, c')"
    using assms(3) by (simp add: load_same)
  note k = transfer_endsD [OF assms(1,2) m run]
  have ok: "pc_ok (vw (cache s)) (Swap dd (is # rs))" by (rule vinvD(5) [OF h(5)]) (simp add: assms(2))
  have "vinv (wt (cache s)) (vw c') (T + swap_left dd rs)"
    by (rule vinv_ended [where P = "{#Swap dd (is # rs)#}", OF _ k(4,1)]) (use h(5) assms(2) ok in \<open>auto simp: swap_left_def split: if_splits\<close>)
  moreover have "dinv (vw c') (T + swap_left dd rs) m (content s) l"
  proof (rule dinv_change [OF h(6) vw_keys [OF h(1)], where A = "set is"])
    have has: "\<exists>a. vw (cache s) j = Some a \<and> b_state a = TRANSFER \<and> bkey (cache s) j = key a" if "j \<in> set is" for j
      using mover_has [OF assms(1), of "Swap dd (is # rs)" j] assms(2) that by (metis in_multiset_in_set m union_iff union_single_eq_member)
    fix x
    assume "\<forall>j\<in>set is. \<forall>b. vw (cache s) j = Some b \<longrightarrow> key b \<noteq> x"
    then have "x \<notin> bkey (cache s) ` set is" using has by force
    then show "m x = media s x \<and> content s x = content s x \<and> (x \<in> l \<longleftrightarrow> x \<in> lost s)" using frame by simp
  next
    fix j
    show "j \<notin> set is \<Longrightarrow> vw c' j = vw (cache s) j \<or> vw c' j = None \<and> (\<exists>b. vw (cache s) j = Some b \<and> b_state b = CACHED)"
      using endedD(1) [OF k(4)] by simp
    show "j \<notin> set is \<Longrightarrow> j \<in># every writes (T + swap_left dd rs) \<longleftrightarrow> j \<in># every writes (threads s)" using assms(2) by auto
    fix b
    assume j: "j \<in> set is"
    obtain a where a: "vw (cache s) j = Some a" "b_state a = TRANSFER" "bkey (cache s) j = key a"
      using mover_has [OF assms(1), of "Swap dd (is # rs)" j] assms(2) j by auto
    have ad: "b_data (bds (cache s) j) = b_data a" using vw_live [OF a(1)] by simp
    have data: "b_data a = content s (key a)" if "key a \<notin> lost s"
      by (rule dinvD(1) [OF h(6) a(1) that]) (use a(2) assms(2) j in \<open>auto simp: holds_def dirty_def\<close>)
    have nw: "j \<notin># every writes (T + swap_left dd rs)"
    proof -
      have "moving (vw (cache s)) j \<le> 1" by (simp add: moving_def)
      then have "count (mset is) j + count (mset (concat rs)) j + count (every moves T) j \<le> 1" using vinvD(3) [OF h(5), of j] assms(2) by simp
      moreover have "0 < count (mset is) j" using j by simp
      ultimately have "count (mset (concat rs)) j = 0" "count (every moves T) j = 0" by linarith+
      then show ?thesis using writes_count [of T j] by (simp add: not_in_iff)
    qed
    show "b_data b = content s (key b)" if b: "vw c' j = Some b" "key b \<notin> l" "holds (T + swap_left dd rs) j b"
    proof -
      have x: "b_state b = CACHED \<or> b_state b = EMPTY" "key b = key a" using endedD(3) [OF k(4) j b(1)] a(1) by auto
      then have "b_state b = CACHED" using b(3) nw by (auto simp: holds_def dirty_def)
      then have "b_data b = b_data a" using k(6) [OF j b(1)] ad by simp
      then show ?thesis using data good [OF j] a(3) b(2) x(2) by simp
    qed
    show "\<exists>b'. vw c' j = Some b' \<and> key b' = key b \<and> dirty (T + swap_left dd rs) j b'"
      if b: "vw (cache s) j = Some b" "key b \<notin> l" "m (key b) \<noteq> content s (key b)"
    proof -
      have "b = a" using b(1) a(1) by simp
      then have "m (key b) = content s (key b)" using good [OF j] a(3) b(2) ad data by simp
      then show ?thesis using b(3) by simp
    qed
  qed
  ultimately show ?thesis using sinvI [OF assms(1) rac_keeps [OF k(5), of 1] _ k(2)] unfolding k(3) by (cases s) simp
qed

lemma sinv_Written:
  assumes "sinv D s" "threads s = add_mset (Swap dd (is # rs)) T" "rtems_bdbuf_execute_transfer_request False dd 0 is (cache s) = Some (sc, c')"
  shows "sinv D (s\<lparr>cache := c', threads := (if rs = [] then T else add_mset (Swap dd rs) T), media := stored is (cache s) (media s)\<rparr>)"
proof -
  have "bkey (cache s) i = bkey (cache s) j \<Longrightarrow> i \<in> set is \<Longrightarrow> j \<in> set is \<Longrightarrow> i = j" for i j
    using mover_has [OF assms(1), of "Swap dd (is # rs)" i] mover_has [OF assms(1), of "Swap dd (is # rs)" j] assms(2)
      keys_injD [OF vw_keys [OF sinvD(1) [OF assms(1)]]] by (metis (no_types, lifting) UnI1 concat.simps(2) moves.simps(3) set_append set_mset_mset union_single_eq_member)
  then have inj: "inj_on (bkey (cache s)) (set is)" by (auto simp: inj_on_def)
  have "sinv D (s\<lparr>cache := c', threads := T + swap_left dd rs, media := stored is (cache s) (media s), lost := lost s\<rparr>)"
    by (rule write_step [OF assms]) (use stored_other stored_at [OF _ inj] in auto)
  then show ?thesis by (cases s) (auto simp: swap_left_def split: if_splits)
qed

lemma sinv_Write_failed:
  assumes "sinv D s" "threads s = add_mset (Swap dd (is # rs)) T" "rtems_bdbuf_execute_transfer_request False dd status is (cache s) = Some (sc, c')"
    "\<And>x. x \<notin> bkey (cache s) ` set is \<Longrightarrow> m x = media s x"
  shows "sinv D (s\<lparr>cache := c', threads := (if rs = [] then T else add_mset (Swap dd rs) T), media := m, lost := lost s \<union> bkey (cache s) ` set is\<rparr>)"
proof -
  have "sinv D (s\<lparr>cache := c', threads := T + swap_left dd rs, media := m, lost := lost s \<union> bkey (cache s) ` set is\<rparr>)"
    by (rule write_step [OF assms(1-3)]) (use assms(4) in auto)
  then show ?thesis by (cases s) (auto simp: swap_left_def split: if_splits)
qed

lemma read_ahead_runs:
  assumes "sinv D s"
  shows "\<exists>r c'. read_ahead_step cf D (cache s) = Some (r, c') \<and> binv (bpg_of D) c' \<and> (\<forall>j. wt c' j = wt (cache s) j) \<and>
    (case r of None \<Rightarrow> vw c' = vw (cache s)
     | Some (dd, is) \<Rightarrow> is \<noteq> [] \<and> gains dd is (vw (cache s)) (vw c') \<and> (\<forall>i\<in>set is. wt (cache s) i = 0) \<and> dd \<in> set (read_ahead_chain (cache s)))"
  by (rule read_ahead_step_ok [OF sinvD(1) [OF assms]]) (use sinvD(2,3) [OF assms] in \<open>auto simp: bpg_of_def\<close>)

lemma sinv_Ahead_begin:
  assumes "sinv D s" "read_ahead_step cf D (cache s) = Some (r, c')"
  shows "sinv D (s\<lparr>cache := c', threads := (case r of None \<Rightarrow> threads s | Some (dd, is) \<Rightarrow> add_mset (Ahead dd is) (threads s))\<rparr>)"
proof -
  note h = sinvD [OF assms(1)]
  have k: "binv (bpg_of D) c'" "\<forall>j. wt c' j = wt (cache s) j"
    "case r of None \<Rightarrow> vw c' = vw (cache s)
     | Some (dd, is) \<Rightarrow> is \<noteq> [] \<and> gains dd is (vw (cache s)) (vw c') \<and> (\<forall>i\<in>set is. wt (cache s) i = 0) \<and> dd \<in> set (read_ahead_chain (cache s))"
    using read_ahead_runs [OF assms(1), of cf] assms(2) by auto
  have w: "wt c' = wt (cache s)" using k(2) by auto
  have rc: "rac_add 1 (cache s) c'" using read_ahead_step_rac [OF assms(2)] by (cases "read_ahead_chain (cache s)") (auto simp: rac_add_def)
  show ?thesis
  proof (cases r)
    case None
    then show ?thesis using sinvI [OF assms(1) rc _ k(1)] h(5,6) k(3) w by (cases s) simp
  next
    case (Some q)
    obtain dd "is" where q: "q = (dd, is)" by (cases q)
    let ?v = "vw (cache s)" and ?v' = "vw c'"
    have g: "distinct is" "\<And>j. j \<in> set is \<Longrightarrow> \<exists>b. ?v' j = Some b \<and> b_state b = TRANSFER \<and> b_dd b = dd"
      "\<And>j b. j \<in> set is \<Longrightarrow> ?v j = Some b \<Longrightarrow> b_state b = CACHED"
      "\<And>j. j \<notin> set is \<Longrightarrow> ?v' j = ?v j \<or> ?v' j = None \<and> (\<exists>b. ?v j = Some b \<and> b_state b = CACHED)"
      "\<And>j. j \<in> set is \<Longrightarrow> wt (cache s) j = 0" "dd \<in> set (read_ahead_chain (cache s))"
      using k(3) Some q by (auto simp: gains_def)
    have nz: "dd \<noteq> 0" using g(6) h(4) by metis
    have o: "owned ?v' j = owned ?v j" for j
      using g(2-4) [of j] by (cases "j \<in> set is"; cases "?v j") (auto simp: owned_def in_access_def)
    have m: "moving ?v j = 0" "moving ?v' j = 1" if "j \<in> set is" for j
      using g(2,3) [of j] that by (cases "?v j"; auto simp: moving_def)+
    have m': "moving ?v' j = moving ?v j" if "j \<notin> set is" for j
      using g(4) [OF that] by (auto simp: moving_def)
    have "vinv (wt c') ?v' (threads s + {#Ahead dd is#})"
    proof (rule vinv_step [where P = "{#}" and A = "set is"])
      show "vinv (wt (cache s)) ?v (threads s + {#})" using h(5) by simp
      fix j
      show "j \<notin> set is \<Longrightarrow> ?v' j = ?v j \<or> ?v' j = None \<and> wt c' j = 0 \<and> (\<exists>b. ?v j = Some b \<and> b_state b = CACHED)"
        using g(4) [of j] vw_None_wt [OF k(1), of j] by auto
      show "count (every moves {#Ahead dd is#}) j + moving ?v j = count (every moves {#}) j + moving ?v' j"
        using m [of j] m' [of j] g(1) by (cases "j \<in> set is") (auto simp: distinct_count_atmost_1 not_in_iff)
      show "j \<in> set is \<Longrightarrow> ?v' j = None \<Longrightarrow> wt c' j = 0" using g(2) by fastforce
      fix b
      show "j \<in> set is \<Longrightarrow> ?v' j = Some b \<Longrightarrow> b_dd b \<noteq> 0 \<and> b_state b \<noteq> ACCESS_PURGED \<and> b_state b \<noteq> TRANSFER_PURGED \<and>
          (wt c' j \<noteq> 0 \<longrightarrow> (\<exists>b'. ?v j = Some b' \<and> key b' = key b))"
        using g(2,5) [of j] nz k(2) by auto
    qed (use o m k(2) in auto)
    moreover have "dinv ?v' (threads s + {#Ahead dd is#}) (media s) (content s) (lost s)"
    proof (rule dinv_keep [OF h(6) vw_keys [OF h(1)], where A = "set is"])
      fix j b
      assume j: "j \<in> set is"
      have nw: "j \<notin># every writes (threads s)" by (rule not_moving_writes [OF h(5) m(1) [OF j]])
      show "?v' j = Some b \<Longrightarrow> key b \<notin> lost s \<Longrightarrow> holds (threads s + {#Ahead dd is#}) j b \<Longrightarrow> b_data b = content s (key b)"
        using g(2) [OF j] nw by (auto simp: holds_def dirty_def)
      show "?v j = Some b \<Longrightarrow> dirty (threads s) j b \<Longrightarrow> \<exists>b'. ?v' j = Some b' \<and> key b' = key b \<and> dirty (threads s + {#Ahead dd is#}) j b'"
        using g(3) [OF j] by (auto simp: dirty_def)
    qed (use g(4) in auto)
    ultimately show ?thesis using sinvI [OF assms(1) rc _ k(1)] Some q by (cases s) simp
  qed
qed

lemma sinv_Collect:
  assumes "sinv D s" "swapout_collect delta upd (cache s) = (w, dd, tr, c')"
  shows "sinv D (s\<lparr>cache := c', threads := threads s +
        (if tr \<noteq> [] then {#Swap dd (swapout_requests cont mbpb mx blk [] 0 tr)#}
         else if sync_active (cache s) then {#Ending#} else {#})\<rparr>)"
proof -
  note h = sinvD [OF assms(1)]
  let ?v = "vw (cache s)" and ?v' = "vw c'"
  have "\<forall>i x. ?v i = Some x \<longrightarrow> b_dd x \<noteq> 0" using vinvD(4) [OF h(5)] by blast
  then have k: "binv (bpg_of D) c'" "\<forall>j. wt c' j = wt (cache s) j" "distinct tr"
      "\<And>j. ?v' j = (if j \<in> set tr then put j TRANSFER ?v j else ?v j)"
      "\<And>i. i \<in> set tr \<Longrightarrow> \<exists>x. ?v i = Some x \<and> b_state x \<in> {MODIFIED, SYNC} \<and> b_dd x = dd"
    using swapout_collect_ok [OF h(1), of delta upd] assms(2) by auto
  have w: "wt c' = wt (cache s)" using k(2) by auto
  define P where "P = (if tr \<noteq> [] then {#Swap dd (swapout_requests cont mbpb mx blk [] 0 tr)#}
         else if sync_active (cache s) then {#Ending#} else {#})"
  have P: "every moves P = mset tr" "every writes P = mset tr" "every owns P = {#}" "every waits_on P = {#}"
    using concat_swapout_requests [of tr cont mbpb mx blk "[]" 0] by (auto simp: P_def)
  have new: "\<exists>b. ?v' j = Some b \<and> b_state b = TRANSFER \<and> b_dd b = dd" if "j \<in> set tr" for j
    using k(5) [OF that] k(4) [of j] that by (auto simp: put_def)
  have same: "?v' j = ?v j" if "j \<notin> set tr" for j using k(4) [of j] that by simp
  have o: "owned ?v' j = owned ?v j" for j
    using new [of j] same [of j] k(5) [of j] by (cases "j \<in> set tr") (auto simp: owned_def in_access_def)
  have m: "moving ?v j = 0" "moving ?v' j = 1" if "j \<in> set tr" for j
    using new [OF that] k(5) [OF that] by (auto simp: moving_def)
  have "vinv (wt c') ?v' (threads s + P)"
  proof (rule vinv_step [where P = "{#}" and A = "set tr"])
    show "vinv (wt (cache s)) ?v (threads s + {#})" using h(5) by simp
    fix j
    show "count (every moves P) j + moving ?v j = count (every moves {#}) j + moving ?v' j"
      using m [of j] same [of j] k(3) unfolding P(1) by (cases "j \<in> set tr") (auto simp: distinct_count_atmost_1 not_in_iff moving_def)
    show "j \<in> set tr \<Longrightarrow> ?v' j = None \<Longrightarrow> wt c' j = 0" using new by fastforce
    fix b
    show "b_dd b \<noteq> 0 \<and> b_state b \<noteq> ACCESS_PURGED \<and> b_state b \<noteq> TRANSFER_PURGED \<and>
        (wt c' j \<noteq> 0 \<longrightarrow> (\<exists>b'. ?v j = Some b' \<and> key b' = key b))" if j: "j \<in> set tr" "?v' j = Some b"
    proof -
      obtain x where x: "?v j = Some x" using k(5) [OF j(1)] by blast
      then have "b = x\<lparr>b_state := TRANSFER\<rparr>" using j k(4) [of j] by (simp add: put_def)
      then show ?thesis using x vinvD(4) [OF h(5) x] by (simp add: key_def)
    qed
    fix p
    assume p: "p \<in># P"
    show "pc_ok ?v' p"
    proof (cases "tr = []")
      case True
      then show ?thesis using p by (auto simp: P_def split: if_splits)
    next
      case False
      then have "p = Swap dd (swapout_requests cont mbpb mx blk [] 0 tr)" "concat (swapout_requests cont mbpb mx blk [] 0 tr) = tr"
        using p concat_swapout_requests [of tr cont mbpb mx blk "[]" 0] by (auto simp: P_def)
      then show ?thesis using new False by (metis concat.simps(1) pc_ok.simps(6))
    qed
  qed (use o P k(2) same m in auto)
  moreover have "dinv ?v' (threads s + P) (media s) (content s) (lost s)"
  proof (rule dinv_keep [OF h(6) vw_keys [OF h(1)], where A = "set tr"])
    fix j
    show "j \<notin> set tr \<Longrightarrow> j \<in># every writes (threads s + P) \<longleftrightarrow> j \<in># every writes (threads s)" unfolding every_simps P(2) by simp
    fix b
    assume j: "j \<in> set tr"
    obtain x where x: "?v j = Some x" "b_state x \<in> {MODIFIED, SYNC}" using k(5) [OF j] by blast
    have v': "?v' j = Some (x\<lparr>b_state := TRANSFER\<rparr>)" using j x k(4) [of j] by (simp add: put_def)
    show "b_data b = content s (key b)" if "?v' j = Some b" "key b \<notin> lost s"
      using dinvD(1) [OF h(6) x(1)] x(2) v' that by (auto simp: holds_def dirty_def key_def)
    show "?v j = Some b \<Longrightarrow> \<exists>b'. ?v' j = Some b' \<and> key b' = key b \<and> dirty (threads s + P) j b'"
      using v' x(1) j P(2) by (auto simp: dirty_def key_def)
  qed (use same in auto)
  ultimately show ?thesis using sinvI [OF assms(1) rac_keeps [OF collect_rac [OF assms(2)], of 1] _ k(1)] by (cases s) (simp add: P_def)
qed

text \<open>Steps that do not touch the buffers.\<close>

lemma sinv_same:
  assumes "sinv D s" "same_core (cache s) c'" "rac_add dd (cache s) c'" "dd \<noteq> 0" "every writes T = every writes (threads s)"
    "vinv (wt (cache s)) (vw (cache s)) T"
  shows "sinv D (s\<lparr>cache := c', threads := T\<rparr>)"
proof -
  note h = sinvD [OF assms(1)]
  have "vw c' = vw (cache s)" "wt c' = wt (cache s)" using same_coreD [OF assms(2)] by auto
  then show ?thesis using sinvI [OF assms(1,3,4)] h(1,6) same_core_binv(1) [OF assms(2)] dinv_writes [OF assms(5)] assms(6) by (cases s) simp
qed

lemma sinv_Sync_done:
  assumes "sinv D s" "threads s = add_mset Ending T"
  shows "sinv D (s\<lparr>cache := snd (swapout_end True [] (cache s)), threads := T\<rparr>)"
proof (rule sinv_same [OF assms(1), where dd = 1])
  show "same_core (cache s) (snd (swapout_end True [] (cache s)))" by (simp add: same_core_def swapout_end_def same_geo_def)
  show "rac_add 1 (cache s) (snd (swapout_end True [] (cache s)))" by (rule rac_keeps) simp
  show "vinv (wt (cache s)) (vw (cache s)) T" by (rule vinv_leave [where p = Ending]) (use sinvD(5) [OF assms(1)] assms(2) in auto)
qed (use assms(2) in auto)

lemma sinv_Syncdev:
  assumes "sinv D s"
  shows "sinv D (s\<lparr>cache := rtems_bdbuf_syncdev dd (cache s)\<rparr>)"
proof -
  have "sinv D (s\<lparr>cache := rtems_bdbuf_syncdev dd (cache s), threads := threads s\<rparr>)"
  proof (rule sinv_same [OF assms, where dd = 1])
    show "same_core (cache s) (rtems_bdbuf_syncdev dd (cache s))"
      by (simp add: same_core_def rtems_bdbuf_syncdev_def rtems_bdbuf_wake_swapper_def same_geo_def)
    show "rac_add 1 (cache s) (rtems_bdbuf_syncdev dd (cache s))" by (rule rac_keeps) simp
  qed (use sinvD(5) [OF assms] in auto)
  then show ?thesis by simp
qed

lemma sinv_Peek:
  assumes "sinv D s" "dd \<noteq> 0"
  shows "sinv D (s\<lparr>cache := rtems_bdbuf_peek cf dd block n (cache s)\<rparr>)"
proof -
  have "sinv D (s\<lparr>cache := rtems_bdbuf_peek cf dd block n (cache s), threads := threads s\<rparr>)"
    by (rule sinv_same [OF assms(1) aux_same(8) trigger_rac(3) assms(2)]) (use sinvD(5) [OF assms(1)] in auto)
  then show ?thesis by simp
qed

lemma sinv_bstep: "bstep cf D s s' \<Longrightarrow> sinv D s \<Longrightarrow> sinv D s'"
proof (induction rule: bstep.induct)
  case (Write_failed s dd "is" rs T status sc c' m)
  show ?case by (rule sinv_Write_failed [OF Write_failed(5,1,3,4)])
qed (blast intro: sinv_Request sinv_Wake sinv_Read_done sinv_Ahead_begin sinv_Ahead_done sinv_Release sinv_Release_modified
       sinv_Sync_begin sinv_Sync_wake sinv_Syncdev sinv_Peek sinv_Collect sinv_Written sinv_Sync_done)+

lemma breach_sinv: "breach cf D s \<Longrightarrow> config_ok cf D \<Longrightarrow> sinv D s"
  by (induction rule: breach.induct) (auto intro: do_init_ok sinv_bstep)

section \<open>What the cache promises\<close>

text \<open>Every operation a thread can call in a state.\<close>

definition runs :: "rtems_bdbuf_config \<Rightarrow> (nat \<Rightarrow> rtems_disk_device) \<Rightarrow> bsys \<Rightarrow> bool" where
  "runs cf D s \<longleftrightarrow>
     (\<forall>a dd block. rtems_bdbuf_request a (D dd) dd block (cache s) \<noteq> None) \<and>
     (\<forall>a dd mb w. Asleep a dd mb w \<in># threads s \<longrightarrow> request_woken a (D dd) dd mb w (cache s) \<noteq> None) \<and>
     (\<forall>dd block i. Reading dd block i \<in># threads s \<longrightarrow> (\<forall>status f. read_finish dd block status i (load {i} f (cache s)) \<noteq> None)) \<and>
     read_ahead_step cf D (cache s) \<noteq> None \<and>
     (\<forall>dd is. Ahead dd is \<in># threads s \<longrightarrow>
        (\<forall>status f. rtems_bdbuf_execute_transfer_request True dd status is (load (set is) f (cache s)) \<noteq> None)) \<and>
     (\<forall>i. Owner i \<in># threads s \<longrightarrow> rtems_bdbuf_release cf i (cache s) \<noteq> None \<and>
        (\<forall>f. rtems_bdbuf_release_modified cf i (load {i} f (cache s)) \<noteq> None \<and> rtems_bdbuf_sync i (load {i} f (cache s)) \<noteq> None)) \<and>
     (\<forall>i. Syncing i \<in># threads s \<longrightarrow> sync_woken i (cache s) \<noteq> None) \<and>
     (\<forall>dd is rs. Swap dd (is # rs) \<in># threads s \<longrightarrow> (\<forall>status. rtems_bdbuf_execute_transfer_request False dd status is (cache s) \<noteq> None))"

lemma sinv_runs:
  assumes "sinv D s"
  shows "runs cf D s"
  unfolding runs_def
proof (intro conjI allI impI)
  note h = sinvD [OF assms]
  fix a dd block
  show "rtems_bdbuf_request a (D dd) dd block (cache s) \<noteq> None"
    using request_runs [OF assms, of dd block _ a] by (cases "rtems_bdbuf_get_media_block (D dd) block") (auto simp: rtems_bdbuf_request_def)
next
  fix a dd mb w
  assume "Asleep a dd mb w \<in># threads s"
  then obtain T where "threads s = add_mset (Asleep a dd mb w) T" by (auto dest: multi_member_split)
  then show "request_woken a (D dd) dd mb w (cache s) \<noteq> None" using woken_view [OF assms] by (metis option.distinct(1))
next
  note h = sinvD [OF assms]
  fix dd block i status and f :: "nat \<Rightarrow> u8 list"
  assume "Reading dd block i \<in># threads s"
  then obtain b where b: "vw (cache s) i = Some b" "b_state b = TRANSFER" using mover_has [OF assms, of "Reading dd block i" i] by auto
  have "vw (load {i} f (cache s)) i = Some (b\<lparr>b_data := f i\<rparr>)" using b(1) by (simp add: load_vw)
  then show "read_finish dd block status i (load {i} f (cache s)) \<noteq> None"
    using read_finish_ok [of "bpg_of D" "load {i} f (cache s)" i _ dd block status] load_binv h(1) b(2) by fastforce
next
  show "read_ahead_step cf D (cache s) \<noteq> None" using read_ahead_runs [OF assms, of cf] by auto
next
  fix dd "is" status and f :: "nat \<Rightarrow> u8 list"
  assume "Ahead dd is \<in># threads s"
  then obtain T where "threads s = add_mset (Ahead dd is) T" by (auto dest: multi_member_split)
  then show "rtems_bdbuf_execute_transfer_request True dd status is (load (set is) f (cache s)) \<noteq> None"
    using transfer_ends [OF assms, of "Ahead dd is" T "is" "{#}" True dd status f] by auto
next
  fix dd "is" rs status
  assume "Swap dd (is # rs) \<in># threads s"
  then obtain T where "threads s = add_mset (Swap dd (is # rs)) T" by (auto dest: multi_member_split)
  then show "rtems_bdbuf_execute_transfer_request False dd status is (cache s) \<noteq> None"
    using transfer_ends [OF assms, of "Swap dd (is # rs)" T "is" "mset (concat rs)" False dd status "\<lambda>j. b_data (bds (cache s) j)"]
    by (auto simp: load_same)
next
  note h = sinvD [OF assms]
  fix i
  assume "Syncing i \<in># threads s"
  then have "0 < count (every waits_on (threads s)) i" using every_sub [of "Syncing i" "threads s" waits_on i] by simp
  then have "0 < wt (cache s) i" using vinvD(1) [OF h(5), of i] by simp
  then show "sync_woken i (cache s) \<noteq> None" using sync_woken_ok [OF h(1)] by fastforce
next
  note h = sinvD [OF assms]
  fix i
  assume "Owner i \<in># threads s"
  then obtain T where "threads s = add_mset (Owner i) T" by (auto dest: multi_member_split)
  then obtain b where b: "vw (cache s) i = Some b" "in_access (b_state b)" "st (cache s) i = b_state b"
    using owner_has [OF assms] by (metis in_access_def insert_iff)
  show "rtems_bdbuf_release cf i (cache s) \<noteq> None" using release_ok(1) [OF vw_nearly [OF h(1) b(1)], of cf] b(2,3) by auto
  fix f :: "nat \<Rightarrow> u8 list"
  have l: "binv (bpg_of D) (load {i} f (cache s))" "vw (load {i} f (cache s)) i = Some (b\<lparr>b_data := f i\<rparr>)"
    using h(1) load_binv b(1) by (auto simp: load_vw)
  show "rtems_bdbuf_release_modified cf i (load {i} f (cache s)) \<noteq> None" using release_ok(2) [OF vw_nearly [OF l], of cf] b(2,3) by auto
  show "rtems_bdbuf_sync i (load {i} f (cache s)) \<noteq> None" using sync_ok [OF l] b(2) by auto
qed

section \<open>A small system\<close>

text \<open>Two buffers of one size, and devices of eight blocks.\<close>

definition small_config :: rtems_bdbuf_config where
  "small_config = \<lparr>cf_size = 2, cf_buffer_min = 1, cf_buffer_max = 1, cf_max_write_blocks = 1, cf_swap_block_hold = 1, cf_swapout_workers = 0,
          cf_max_read_ahead_blocks = 0\<rparr>"

definition small_device :: rtems_disk_device where
  "small_device = \<lparr>dd_start = 0, dd_size = 8, dd_media_block_size = 1, dd_block_size = 1, dd_block_count = 8, dd_media_blocks_per_block = 1,
           dd_shift = 0, dd_bds_per_group = 1, dd_multisector_cont = False\<rparr>"

definition cache0 :: rtems_bdbuf_cache where
  "cache0 = the (rtems_bdbuf_do_init small_config)"

definition cache1 :: rtems_bdbuf_cache where
  "cache1 = snd (the (rtems_bdbuf_request (Read 0) small_device 1 0 cache0))"

definition cache2 :: rtems_bdbuf_cache where
  "cache2 = snd (the (read_finish 1 0 0 0 (load {0} (\<lambda>j. [7]) cache1)))"

definition sys0 :: "rtems_bdbuf_cache \<Rightarrow> pc multiset \<Rightarrow> bsys" where
  "sys0 c T = \<lparr>cache = c, threads = T, media = (\<lambda>_. [7]), content = (\<lambda>_. [7]), lost = {}\<rparr>"

lemmas run_defs = rtems_bdbuf_request_def rtems_bdbuf_get_media_block_def rtems_bdbuf_media_block_def small_device_def cache0_def rtems_bdbuf_do_init_def small_config_def Let_def
  hand_out_def rtems_bdbuf_get_buffer_from_lru_list_def rtems_bdbuf_remove_from_tree_and_lru_list_def chain_extract_def rtems_bdbuf_setup_empty_buffer_def
  grp_def bd_node_def rtems_bdbuf_make_empty_def rtems_bdbuf_set_state_def access_found_def rtems_bdbuf_wait_for_access_def rtems_bdbuf_group_obtain_def
  get_grant_def read_grant_def count_stats_def rtems_bdbuf_set_read_ahead_trigger_def set_read_ahead_def rtems_bdbuf_read_ahead_cancel_def
  rtems_bdbuf_is_read_ahead_active_def rtems_bdbuf_avl_insert_def wrap32_def upt_rec numeral_2_eq_2

lemma config0: "config_ok small_config (\<lambda>_. small_device)"
  by (simp add: config_ok_def small_config_def small_device_def AVL_MAX_NODES_def)

lemma media0: "rtems_bdbuf_get_media_block small_device 0 = Some 0"
  by (simp add: rtems_bdbuf_get_media_block_def rtems_bdbuf_media_block_def small_device_def wrap32_def)

lemma init0: "rtems_bdbuf_do_init small_config = Some cache0"
  by (simp add: cache0_def rtems_bdbuf_do_init_def small_config_def Let_def)

lemma request0: "rtems_bdbuf_request (Read 0) small_device 1 0 cache0 = Some (Some (Found 0), cache1)" "st cache1 0 = TRANSFER"
  by (simp_all add: cache1_def run_defs)

lemma breach0: "breach small_config (\<lambda>_. small_device) (sys0 cache0 {#})"
  unfolding sys0_def by (rule Init [OF init0])

lemma breach1: "breach small_config (\<lambda>_. small_device) (sys0 cache1 {#Reading 1 0 0#})"
proof -
  have "bstep small_config (\<lambda>_. small_device) (sys0 cache0 {#}) ((sys0 cache0 {#})\<lparr>cache := cache1, threads := add_mset (request_pc (Read 0) 1 0 (Found 0) cache1) (threads (sys0 cache0 {#}))\<rparr>)"
    by (rule bstep.Request [where block = 0]) (use media0 request0 in \<open>auto simp: sys0_def\<close>)
  then show ?thesis using Step [OF breach0] request0(2) by (simp add: sys0_def)
qed

lemma finish0: "read_finish 1 0 0 0 (load {0} (\<lambda>j. [7]) cache1) = Some (Some 0, cache2)" "st cache2 0 = ACCESS_CACHED"
proof -
  note h = breach_sinv [OF breach1 config0]
  obtain b where b: "vw cache1 0 = Some b" "b_state b = TRANSFER" using mover_has [OF h, of "Reading 1 0 0" 0] by (auto simp: sys0_def)
  have l: "binv (bpg_of (\<lambda>_. small_device)) (load {0} (\<lambda>j. [7]) cache1)" "vw (load {0} (\<lambda>j. [7]) cache1) 0 = Some (b\<lparr>b_data := [7]\<rparr>)"
    using sinvD(1) [OF h] b(1) by (auto simp: load_binv load_vw sys0_def)
  obtain c where c: "read_finish 1 0 0 0 (load {0} (\<lambda>j. [7]) cache1) = Some (Some 0, c)" "vw c = put 0 ACCESS_CACHED (vw (load {0} (\<lambda>j. [7]) cache1))"
    using read_finish_ok [OF l, of 1 0 0] b(2) by auto
  have "c = cache2" using c(1) by (simp add: cache2_def)
  then show "read_finish 1 0 0 0 (load {0} (\<lambda>j. [7]) cache1) = Some (Some 0, cache2)" using c(1) by simp
  have "vw cache2 0 = Some (b\<lparr>b_data := [7], b_state := ACCESS_CACHED\<rparr>)" using c(2) l(2) \<open>c = cache2\<close> by (simp add: put_def)
  then show "st cache2 0 = ACCESS_CACHED" using vw_live by fastforce
qed

lemma breach2: "breach small_config (\<lambda>_. small_device) (sys0 cache2 {#Owner 0#})"
proof -
  have "bstep small_config (\<lambda>_. small_device) (sys0 cache1 {#Reading 1 0 0#})
      ((sys0 cache1 {#Reading 1 0 0#})\<lparr>cache := cache2, threads := (case Some 0 of None \<Rightarrow> {#} | Some j \<Rightarrow> add_mset (Owner j) {#})\<rparr>)"
    by (rule bstep.Read_done [where status = 0 and f = "\<lambda>_. []"]) (use finish0(1) in \<open>auto simp: sys0_def\<close>)
  then show ?thesis using Step [OF breach1] by (simp add: sys0_def)
qed

lemma breach_sync: "breach small_config (\<lambda>_. small_device) (sys0 (rtems_bdbuf_syncdev 1 cache0) {#})"
proof -
  have "bstep small_config (\<lambda>_. small_device) (sys0 cache0 {#}) ((sys0 cache0 {#})\<lparr>cache := rtems_bdbuf_syncdev 1 (cache (sys0 cache0 {#}))\<rparr>)"
    by (rule bstep.Syncdev) (auto simp: sys0_def cache0_def rtems_bdbuf_do_init_def small_config_def Let_def)
  then show ?thesis using Step [OF breach0] by (simp add: sys0_def)
qed

lemma collect0: "\<exists>c. swapout_collect 0 False (rtems_bdbuf_syncdev 1 cache0) = (False, 1, [], c)"
  by (simp add: swapout_collect_def rtems_bdbuf_swapout_modified_processing_def rtems_bdbuf_syncdev_def rtems_bdbuf_wake_swapper_def
      cache0_def rtems_bdbuf_do_init_def small_config_def Let_def)

section \<open>Properties\<close>





lemma owner_data:
  assumes "config_ok cf D" "breach cf D s" "Owner i \<in># threads s" "st (cache s) i \<noteq> ACCESS_EMPTY" "bkey (cache s) i \<notin> lost s"
  shows "b_data (bds (cache s) i) = content s (bkey (cache s) i)"
proof -
  note h = breach_sinv [OF assms(2,1)]
  obtain T where T: "threads s = add_mset (Owner i) T" using assms(3) by (auto dest: multi_member_split)
  obtain b where b: "vw (cache s) i = Some b" "b_state b \<in> {ACCESS_CACHED, ACCESS_MODIFIED, ACCESS_EMPTY}" "bkey (cache s) i = key b" "st (cache s) i = b_state b"
    by (rule owner_has [OF h T])
  have "holds (threads s) i b" using b(2,4) assms(4) by (auto simp: holds_def dirty_def)
  then show ?thesis using dinvD(1) [OF sinvD(6) [OF h] b(1)] assms(5) b(3) vw_live [OF b(1)] by simp
qed







lemma requests_contiguous:
  "successively (\<lambda>i j. blk j = blk i + mbpb) acc \<Longrightarrow> (acc \<noteq> [] \<longrightarrow> lst = blk (last acc)) \<Longrightarrow>
   r \<in> set (swapout_requests True mbpb mx blk acc lst is) \<Longrightarrow> successively (\<lambda>i j. blk j = blk i + mbpb) r"
proof (induction True mbpb mx blk acc lst "is" rule: swapout_requests.induct)
  case (2 mbpb mx blk acc lst i "is")
  show ?case
  proof (cases "acc \<noteq> [] \<and> blk i \<noteq> lst + mbpb")
    case True
    then show ?thesis using 2(1) [OF _ _ _] 2(4-) by auto
  next
    case False
    then have ext: "successively (\<lambda>i j. blk j = blk i + mbpb) (acc @ [i])" using 2(4,5) by (auto simp: successively_append_iff)
    have neg: "\<not> (True \<and> acc \<noteq> [] \<and> blk i \<noteq> lst + mbpb)" using False by simp
    show ?thesis
    proof (cases "is = [] \<or> mx \<le> length acc + 1")
      case True
      then have "r = acc @ [i] \<or> r \<in> set (swapout_requests True mbpb mx blk [] (blk i) is)" using 2(6) neg by (simp split: if_splits)
      then show ?thesis using 2(2) [OF neg True] ext by (elim disjE) simp_all
    next
      case no: False
      then have "r \<in> set (swapout_requests True mbpb mx blk (acc @ [i]) (blk i) is)" using 2(6) neg by (simp split: if_splits)
      then show ?thesis using 2(3) [OF neg no ext] by simp
    qed
  qed
qed simp

lemma insert_back_sorted: "sorted_wrt (\<lambda>a b. blk b \<le> blk a) ts \<Longrightarrow> sorted_wrt (\<lambda>a b. blk b \<le> (blk a :: nat)) (insert_back blk i ts)"
proof (induction ts)
  case (Cons t ts)
  have "set (insert_back blk i ts) = insert i (set ts)" by (metis mset_insert_back set_mset_add_mset_insert set_mset_mset)
  then show ?case using Cons by auto
qed simp

text \<open>C40. The buffers collected for a transfer are kept in the order of their blocks, and written in that order by requests that lose
  none of them: no request is empty or exceeds the configured number of buffers, and for a driver that wants contiguous
  blocks each request holds consecutive ones.\<close>

theorem swapout_write_requests:
  assumes "tr \<noteq> []"
  shows "concat (swapout_requests cont mbpb mx blk [] 0 tr) = tr \<and> [] \<notin> set (swapout_requests cont mbpb mx blk [] 0 tr) \<and>
    (\<forall>r\<in>set (swapout_requests cont mbpb mx blk [] 0 tr). length r \<le> max 1 mx \<and> (cont \<longrightarrow> successively (\<lambda>i j. blk j = blk i + mbpb) r)) \<and>
    (sorted (map blk tr) \<longrightarrow> sorted (map blk (transfer_insert blk i tr)))"
proof -
  have "sorted_wrt (\<lambda>a b. blk b \<le> blk a) (rev tr)" if "sorted (map blk tr)" using that by (simp add: sorted_wrt_rev sorted_wrt_map)
  note insert_back_sorted [OF this, of i]
  then have "sorted (map blk tr) \<longrightarrow> sorted (map blk (transfer_insert blk i tr))" by (simp add: transfer_insert_def sorted_wrt_rev sorted_wrt_map)
  then show ?thesis using concat_swapout_requests [OF assms, of cont mbpb mx blk "[]" 0] requests_nonempty
      requests_bounded [of "[]" mx _ cont mbpb blk 0 tr] requests_contiguous [of blk mbpb "[]" 0 _ mx tr]
    by (cases cont) auto
qed

theorem swapout_write_requests_witness:
  "concat (swapout_requests True 1 2 id [] 0 [3, 4, 5, 7]) = [3, 4, 5, 7] \<and> swapout_requests True 1 2 id [] 0 [3, 4, 5, 7] = [[3, 4], [5], [7]]"
  using swapout_write_requests [of "[3, 4, 5, 7]" True 1 2 id 0] by simp

section \<open>Where the code does not do what it means to\<close>

text \<open>A buffer that is recycled must be free or cached. A buffer whose write failed while a thread waited to recycle it is empty, and
  is found ready for recycling when this thread is the last that waits.\<close>

lemma recycle_empty_fatal:
  "st c i = EMPTY \<Longrightarrow> wt c i = 0 \<Longrightarrow> rtems_bdbuf_wait_for_recycle i c = Some (Found i, c) \<and> recycle_buffer i c = None"
  by (simp add: rtems_bdbuf_wait_for_recycle_def recycle_buffer_def rtems_bdbuf_remove_from_tree_and_lru_list_def)

text \<open>The data of a buffer whose write failed are dropped: the buffer leaves the tree.\<close>

lemma failed_write_drops:
  assumes "binv bpg c" "vw c i = Some b" "b_state b = TRANSFER" "wt c i = 0" "status \<noteq> 0"
  shows "\<exists>sc c'. rtems_bdbuf_execute_transfer_request False dd status [i] c = Some (sc, c') \<and> vw c' i = None"
proof -
  have "\<exists>b. vw c j = Some b \<and> in_transfer (b_state b)" if "j \<in> set [i]" for j using assms(2,3) that by (auto simp: in_transfer_def)
  then show ?thesis using execute_transfer_ok [OF assms(1), of "[i]" False dd status] assms(4,5) by (auto simp: put_def)
qed

text \<open>A pass of the swap-out task that finds nothing to write has taken a worker from the free ones all the same.\<close>

lemma idle_pass_takes_worker:
  assumes "\<not> sync_active c" "0 < free_workers c"
  shows "fst (swapout_collect delta upd c) \<and> free_workers (snd (snd (snd (swapout_collect delta upd c)))) = free_workers c - 1"
  using assms by (auto simp: swapout_collect_def Let_def rtems_bdbuf_swapout_modified_processing_def split: prod.splits)

text \<open>A block purged while it is read is discarded, and handed out none the less: the reader owns a buffer that is not in the tree.\<close>

lemma purged_read_handed_out:
  assumes "binv bpg c" "vw c i = Some b" "b_state b = TRANSFER_PURGED" "wt c i = 0"
  shows "\<exists>c'. read_finish dd block 0 i c = Some (Some i, c') \<and> st c' i = ACCESS_CACHED \<and> rtems_bdbuf_avl_search (tree c') (b_dd b) (b_block b) = None"
proof -
  have "\<exists>b. vw c j = Some b \<and> in_transfer (b_state b)" if "j \<in> set [i]" for j using assms(2,3) that by (auto simp: in_transfer_def)
  moreover have "st c i = TRANSFER_PURGED" using vw_live [OF assms(2)] assms(3) by simp
  ultimately obtain sc c1 where c1: "rtems_bdbuf_execute_transfer_request True dd 0 [i] c = Some (sc, c1)" "sc = 0" "binv bpg c1" "vw c1 = put i FREE (vw c)"
    using execute_transfer_ok [OF assms(1), of "[i]" True dd 0] assms(4) by auto
  note k = binvD(1) [OF c1(3)]
  have off: "rtems_bdbuf_avl_search (tree c1) (b_dd b) (b_block b) = None"
  proof (rule ccontr)
    assume "rtems_bdbuf_avl_search (tree c1) (b_dd b) (b_block b) \<noteq> None"
    then obtain j where j: "j \<in> lives c1" "st c1 j \<noteq> FREE" "kd c1 j = b_dd b" "kb c1 j = b_block b" using core_search [OF k] by blast
    then obtain a where a: "vw c1 j = Some a" by (auto simp: vw_def)
    then have "j \<noteq> i" "vw c j = Some a" using c1(4) by (auto simp: put_def split: if_splits)
    moreover have "key a = key b" using vw_live [OF a] j by (simp add: key_def)
    ultimately show False using vw_inj [OF assms(1) _ assms(2)] by blast
  qed
  have "st c1 i = FREE \<and> i \<in> lives c1"
  proof -
    obtain c2 where "transfer_bds True [i] (count_stats dd (transfer_stats True True 1) c) = Some c2" "c2 = c1"
      using c1(1) by (auto simp: rtems_bdbuf_execute_transfer_request_def split: bind_splits)
    moreover have s: "same_core c (count_stats dd (transfer_stats True True 1) c)" by (rule aux_same(1))
    let ?c = "count_stats dd (transfer_stats True True 1) c"
    have n: "nearly bpg i ?c" using vw_nearly [OF assms(1,2)] same_core_binv(2) [OF s] by simp
    have st: "st ?c i = TRANSFER_PURGED" "wt ?c i = 0" using assms(3,4) vw_live [OF assms(2)] by (auto simp: count_stats_def)
    then have "\<exists>c'. transfer_bds True [i] ?c = Some c' \<and> restate bpg i FREE ?c c'"
      using transfer_one_ok [OF n, of True] by (auto simp: Let_def in_transfer_def)
    ultimately have "restate bpg i FREE ?c c1" by auto
    then have "st c1 i = FREE" "same_geo ?c c1" by (auto simp: restate_def)
    then show ?thesis using same_geo_lives nearlyD(4) [OF n] by blast
  qed
  then have x: "chain_extract i (rtems_bdbuf_set_state i ACCESS_CACHED c1) =
      Some ((rtems_bdbuf_set_state i ACCESS_CACHED c1)\<lparr>chains := (chains c1)(Lru := remove1 i (chains c1 Lru))\<rparr>)"
    by (intro core_extract [OF k]) (auto simp: rtems_bdbuf_set_state_def)
  let ?c = "rtems_bdbuf_check_read_ahead_trigger dd block (rtems_bdbuf_group_obtain i
    ((rtems_bdbuf_set_state i ACCESS_CACHED c1)\<lparr>chains := (chains c1)(Lru := remove1 i (chains c1 Lru))\<rparr>))"
  have "read_finish dd block 0 i c = Some (Some i, ?c)" using c1(1,2) x by (simp add: read_finish_def)
  moreover have "st ?c i = ACCESS_CACHED" "tree ?c = tree c1"
    using aux_same(3) [of "rtems_bdbuf_group_obtain i ((rtems_bdbuf_set_state i ACCESS_CACHED c1)\<lparr>chains := (chains c1)(Lru := remove1 i (chains c1 Lru))\<rparr>)" dd block]
    by (auto simp: same_core_def rtems_bdbuf_group_obtain_def rtems_bdbuf_set_state_def)
  ultimately show ?thesis using off by auto
qed

end
