(* ===== verification/Spec2Isabelle.thy ===== *)
theory Spec2Isabelle
  imports Bitops Kfifo Disklog SFile Boot Avl TimerList Rq ClockTimer Vfs Tracer Printf Motor BdbufSys
begin

text \<open>
  A verification library for \<^verbatim>\<open>basework\<close>, the embedded support library of this repository
  (\<^verbatim>\<open>src/basework/\<close>, written in C).

  \<^bold>\<open>The program.\<close> \<^verbatim>\<open>basework\<close> is a set of services for small devices. Its storage stack starts with disk
  devices (\<^verbatim>\<open>dev/disk.c\<close>), which wrap a flash driver; above them are a write-back block cache
  (\<^verbatim>\<open>dev/blkdev.c\<close>), partitions (\<^verbatim>\<open>dev/partition.c\<close>, \<^verbatim>\<open>dev/partitions_cfg.c\<close>), a circular log
  (\<^verbatim>\<open>lib/disklog.c\<close>) and checksummed files (\<^verbatim>\<open>dev/partition_file.c\<close>) in partitions. A boot loader
  (\<^verbatim>\<open>boot/boot.c\<close>) installs firmware images with the disk devices and keeps its counters in an environment of
  strings (\<^verbatim>\<open>lib/env_core.c\<close>, \<^verbatim>\<open>env.c\<close>) saved in RAM. Beside these are FIFOs (\<^verbatim>\<open>kfifo.c\<close>), bitmap searches
  (\<^verbatim>\<open>lib/bitops.c\<close>), checksums (\<^verbatim>\<open>lib/libcrc16.c\<close>), string helpers, the index tree of a second buffer cache
  (\<^verbatim>\<open>lib/block/bdbuf.c\<close>), software timers (\<^verbatim>\<open>lib/timer/timer_list.c\<close>) and a run queue (\<^verbatim>\<open>rq.c\<close>); linked lists
  (\<^verbatim>\<open>container/list.h\<close>) and hash tables (\<^verbatim>\<open>hashtbl.h\<close>), which carry the callouts of the clock (\<^verbatim>\<open>dev/clock_timer.c\<close>,
  with the calendar of \<^verbatim>\<open>dev/clock_base.c\<close>) and the memory tracer (\<^verbatim>\<open>debug/mb_trace.c\<close>); object pools
  (\<^verbatim>\<open>os/osapi_obj.c\<close>) under the file interface (\<^verbatim>\<open>os/osapi_fs.c\<close>); formatted output (\<^verbatim>\<open>lib/iovprintf.c\<close>) to
  printers (\<^verbatim>\<open>lib/printer.c\<close>), one of which writes the log; and a vibration motor (\<^verbatim>\<open>drive/motor/motor.c\<close>).

  \<^bold>\<open>The theories\<close>, each named after what it models; the definitions keep the names of the C functions.
  \<^item> \<open>Prelude\<close>: the word types, 32-bit wrap-around, error numbers, bounds-checked memory access and
    little-endian encoding shared by all.
  \<^item> \<open>Bitops\<close>: \<^verbatim>\<open>bitops.h\<close>, \<^verbatim>\<open>lib/bitops.c\<close>; the searches equal the least set index, and what
    \<^verbatim>\<open>find_last_bit\<close> computes instead.
  \<^item> \<open>Ring\<close>: windows of a ring buffer, used by \<open>Kfifo\<close> and \<open>Disklog\<close>.
  \<^item> \<open>Kfifo\<close>: \<^verbatim>\<open>kfifo.c\<close> with 32-bit indices that wrap; streams and records are delivered in order.
  \<^item> \<open>Disk\<close>: \<^verbatim>\<open>dev/disk.c\<close> and the virtual flash of the host build, with the contract of a flash device.
  \<^item> \<open>Blkdev\<close>: \<^verbatim>\<open>dev/blkdev.c\<close>; reads and writes through the cache refine reads and writes of the content,
    and a sync makes it durable.
  \<^item> \<open>Partition\<close>: partitions as disjoint byte stores, their layout and registration.
  \<^item> \<open>Disklog\<close>, \<open>SFile\<close>: the log keeps the newest bytes and survives a restart; a closed file is found
    again with its content.
  \<^item> \<open>Crc\<close>: both checksums equal the polynomial division; CRC-16 detects every one-byte error.
  \<^item> \<open>CString\<close>, \<open>Env\<close>: \<^verbatim>\<open>strlcpy\<close>, \<^verbatim>\<open>itoa\<close>; the environment is a map and its RAM format a round trip.
  \<^item> \<open>Boot\<close>: the update installs a valid image, records it and is not repeated.
  \<^item> \<open>Avl\<close>: the tree stays balanced and ordered and is a map, within its path array of 32 entries.
  \<^item> \<open>TimerList\<close>: the delta list is a schedule of expiry times.
  \<^item> \<open>Rq\<close>: the queue and its service thread as a step relation; nodes are conserved, calls are executed in
    order, no wake-up is lost.
  \<^item> \<open>ListHead\<close>: the circular lists as links in a store; operations on a ring are operations on the sequence of
    its entries and leave other rings alone.
  \<^item> \<open>Clock\<close>, \<open>ClockTimer\<close>: seconds agree with the civil calendar; a tick runs exactly the callouts that are due,
    and a callout of period \<open>d\<close> runs every \<open>d\<close> ticks.
  \<^item> \<open>FreeList\<close>, \<open>ObjPool\<close>, \<open>Vfs\<close>: free lists threaded through objects; objects in use do not overlap, and the handles
    of open files are such objects.
  \<^item> \<open>Tracer\<close>: hash table and tracer; it answers as a bounded stack of records per address.
  \<^item> \<open>Printf\<close>: formats with typed arguments; numbers in fields read back, and a text printed to the log is in
    the log.
  \<^item> \<open>Motor\<close>: the runs of the timer handler; the pulses of a request, and the wrap of its counter.

  \<^bold>\<open>How C is represented.\<close> The target has 32-bit pointers and \<^verbatim>\<open>long\<close>. Structures are records, enumerations
  are datatypes, a C object is the list of its bytes. Where overflow matters, values are words or the
  wrap-around is written out (\<^const>\<open>wrap32\<close>); signed overflow, accesses outside an object, null pointers,
  failed assertions and panics are \<^const>\<open>None\<close>, so that a result \<open>Some\<close> includes safety. Error codes are negative
  integers as in the code. Static variables are explicit state. Allocators, flash drivers, expiry
  functions and other callbacks are parameters.

  \<^bold>\<open>Interfaces.\<close> Every layer is proved against a locale and interpreted on the layer below:
  \<open>stream_buffer\<close> (\<open>Kfifo\<close>), \<open>flash_devices\<close> and \<open>blk_cache\<close> (\<open>Disk\<close>, \<open>Blkdev\<close>), \<open>byte_array\<close> and
  \<open>byte_store\<close> (\<open>Partition\<close>, used by \<open>Disklog\<close> and \<open>SFile\<close>), \<open>kv_store\<close> (\<open>Env\<close>), \<open>bounded_index\<close> (\<open>Avl\<close>),
  \<open>timer_service\<close> (\<open>TimerList\<close>), \<open>ring_store\<close> (\<open>ListHead\<close>, used by \<open>ClockTimer\<close>) and \<open>object_pool\<close> (\<open>FreeList\<close>,
  interpreted on \<open>ObjPool\<close> and on the nodes of \<open>Tracer\<close>). The printer of \<open>Printf\<close> is proved in \<open>byte_array\<close> too.

  \<^bold>\<open>Loops and bounds.\<close> Loops are recursive functions with a termination measure. Two loops whose end depends
  on a callback are partial functions: loading the environment and expiring timers; the theorems about
  them state that they return. The index tree is proved for up to 9227463 nodes, the largest number for which
  every balanced tree fits the path array. Ticks of timers are non-negative 32-bit values. Walks over linked
  rings and chains take fuel, since a damaged ring never ends: more than the number of entries is enough, which the
  theorems state, and for the tracer more than \<^verbatim>\<open>maxitems\<close>. The runs of the motor's handler take fuel; 512 is enough for
  its counter of eight bits.

  \<^bold>\<open>Not modelled.\<close> The cache around the index tree of \<^verbatim>\<open>lib/block/bdbuf.c\<close> with its device layer, and the resource
  cache of \<^verbatim>\<open>ui/resource\<close>, come next. Left out for good: the vendored \<^verbatim>\<open>googletest\<close> and \<^verbatim>\<open>lz4\<close>; platform glue that
  only calls the operating system (\<^verbatim>\<open>os/posix\<close>, \<^verbatim>\<open>os/win32\<close>, \<^verbatim>\<open>os/zephyr\<close> beside the parts named above); logging and dumps; C++
  start-up code and tests. \<^verbatim>\<open>lib/libitoa.c\<close> is a copy of \<^verbatim>\<open>lib/itoa.c\<close>.
\<close>

end
